(* ===== verification/FW_Prelude.thy ===== *)
theory FW_Prelude
  imports Complex_Main "HOL-Library.Word" "HOL-Library.AList"
begin

text \<open>
  Shared vocabulary of the development: the machine integers of the Go source, its error
  values (\<open>errors.go\<close>, \<open>crypto/suite.go\<close>), the byte-slice operations the code uses
  (\<open>copy\<close>, slicing, \<open>encoding/binary\<close>), and the generic interfaces that several components
  implement: prefix codecs, state machines with an invariant, and address-keyed tables.

  A Go \<open>[]byte\<close> is a \<open>byte list\<close>. A function that writes into a buffer argument returns
  the buffer as it is afterwards, also on its error paths. Where the code distinguishes a nil
  slice from an empty one, the model uses \<open>byte list option\<close>.
\<close>

unbundle bit_operations_syntax

section \<open>Machine integers, slices and errors\<close>

type_synonym byte = "8 word"
type_synonym u16 = "16 word"
type_synonym u32 = "32 word"
type_synonym u64 = "64 word"
type_synonym bytes = "byte list"
type_synonym time = int      \<comment> \<open>a point in time, in nanoseconds\<close>
type_synonym duration = int  \<comment> \<open>\<open>time.Duration\<close>, in nanoseconds\<close>

named_theorems codec_simps \<open>equations of encoders and decoders on well-formed input\<close>
named_theorems inv_intros \<open>one operation keeps the invariant of its component\<close>

text \<open>
  The sentinel errors of the packages, and the three run-time panics the modelled code can
  reach (an index or slice bound out of range, a write to a nil map, a nil dereference).
\<close>

datatype fw_error =
    ErrBufferTooSmall | ErrVarIntOverflow | ErrVarLongOverflow | ErrStringTooLong
  | ErrNegativeStringLength | ErrInvalidUUID | ErrInvalidPacketHeader
  | ErrInvalidFragmentHeader | ErrReplayedPacket | ErrDecryptionFailed | ErrVersionMismatch
  | ErrInvalidHandshake | ErrHandshakeTimeout | ErrConnectionClosed | ErrInvalidChannelLayout
  | ErrInvalidChannel | ErrMaxRetransmits | ErrMessageTooLarge | ErrCompressionFailed
  | ErrDecompressionFailed | ErrServerClosed | ErrServerNotStarted | ErrClientNotConnected
  | ErrTickAutoMode | ErrAlreadyStarted | ErrAlreadyConnected | ErrInvalidBatchFrame
  | ErrOther
  | PanicOutOfRange | PanicNilMap | PanicNilPointer

type_synonym 'a res = "fw_error + 'a"

text \<open>\<open>copy(buf[off:], src)\<close>: as many bytes as fit, the rest of \<open>buf\<close> unchanged.\<close>

definition go_copy :: "'a list \<Rightarrow> nat \<Rightarrow> 'a list \<Rightarrow> 'a list" where
  "go_copy buf off src =
     take off buf @ take (length buf - off) src @ drop (off + length src) buf"

text \<open>\<open>xs[a:b]\<close>\<close>

definition slice :: "nat \<Rightarrow> nat \<Rightarrow> 'a list \<Rightarrow> 'a list" where
  "slice a b xs = take (b - a) (drop a xs)"

text \<open>
  \<open>encoding/binary\<close>: \<open>to_le n v\<close> are the \<open>n\<close> low bytes of \<open>v\<close>, least significant first
  (\<open>LittleEndian.PutUint16\<close> is \<open>n = 2\<close>, \<open>PutUint32\<close> is \<open>4\<close>, \<open>PutUint64\<close> is \<open>8\<close>);
  \<open>of_le\<close> reads them back. Big-endian is the reverse.
\<close>

fun to_le :: "nat \<Rightarrow> 'a::len word \<Rightarrow> bytes" where
  "to_le 0 v = []"
| "to_le (Suc n) v = ucast v # to_le n (drop_bit 8 v)"

fun of_le :: "bytes \<Rightarrow> 'a::len word" where
  "of_le [] = 0"
| "of_le (b # bs) = ucast b OR push_bit 8 (of_le bs)"

definition to_be :: "nat \<Rightarrow> 'a::len word \<Rightarrow> bytes" where
  "to_be n v = rev (to_le n v)"

definition of_be :: "bytes \<Rightarrow> 'a::len word" where
  "of_be bs = of_le (rev bs)"

text \<open>
  A Go map is an association list with distinct keys: lookup is \<open>map_of\<close>, assignment
  \<open>AList.update\<close>, \<open>delete\<close> is \<open>AList.delete\<close>, \<open>len\<close> is \<open>length\<close>. The order of the entries
  stands for nothing: no modelled result depends on it.
\<close>

type_synonym ('k, 'v) gomap = "('k \<times> 'v) list"

definition wf_map :: "('k, 'v) gomap \<Rightarrow> bool" where
  "wf_map m \<longleftrightarrow> distinct (map fst m)"

text \<open>A loop that produces one element per iteration and stops at the first error.\<close>

fun map_res :: "('a \<Rightarrow> 'b res) \<Rightarrow> 'a list \<Rightarrow> 'b list res" where
  "map_res f [] = Inr []"
| "map_res f (x # xs) =
     (case f x of
        Inl e \<Rightarrow> Inl e
      | Inr y \<Rightarrow> (case map_res f xs of Inl e \<Rightarrow> Inl e | Inr ys \<Rightarrow> Inr (y # ys)))"

text \<open>Go's conversion of a float to an integer type truncates towards zero.\<close>

definition trunc_real :: "real \<Rightarrow> int" where
  "trunc_real x = (if 0 \<le> x then \<lfloor>x\<rfloor> else \<lceil>x\<rceil>)"

section \<open>Lemmas on slices and integer encodings\<close>

lemma length_go_copy [simp]: "off \<le> length buf \<Longrightarrow> length (go_copy buf off src) = length buf"
  by (simp add: go_copy_def)

lemma go_copy_fits:
  "off + length src \<le> length buf \<Longrightarrow>
     go_copy buf off src = take off buf @ src @ drop (off + length src) buf"
  by (simp add: go_copy_def)

lemma take_go_copy_prefix [simp]: "n \<le> off \<Longrightarrow> off \<le> length buf \<Longrightarrow> take n (go_copy buf off src) = take n buf"
  by (simp add: go_copy_def min_def)

lemma drop_go_copy [simp]:
  "off + length src \<le> length buf \<Longrightarrow> drop off (go_copy buf off src) = src @ drop (off + length src) buf"
  by (simp add: go_copy_def)

lemma take_go_copy_end:
  "off + length src \<le> length buf \<Longrightarrow> take (off + length src) (go_copy buf off src) = take off buf @ src"
  by (simp add: go_copy_def)

lemma go_copy_Nil [simp]: "go_copy buf off [] = buf"
  by (simp add: go_copy_def)

lemma list_update_append_take_drop:
  "i < length xs \<Longrightarrow> xs[i := x] = take i xs @ x # drop (Suc i) xs"
  by (rule upd_conv_take_nth_drop)

lemma go_copy_update:
  assumes "i < length buf"
  shows "go_copy (buf[i := x]) (Suc i) src = go_copy buf i (x # src)"
proof -
  have "take (Suc i) (buf[i := x]) = take i buf @ [x]"
    using assms by (simp add: take_Suc_conv_app_nth)
  moreover have "length buf - i = Suc (length buf - Suc i)"
    using assms by simp
  ultimately show ?thesis by (simp add: go_copy_def)
qed

lemma slice_append [simp]:
  "length xs = a \<Longrightarrow> b = a + length ys \<Longrightarrow> slice a b (xs @ ys @ zs) = ys"
  by (simp add: slice_def)

lemma length_slice: "length (slice a b xs) = min (b - a) (length xs - a)"
  by (simp add: slice_def)

lemma unat_shiftr: "unat (drop_bit n v) = unat v div 2 ^ n" for v :: "'a::len word"
  by (metis drop_bit_eq_div unat_drop_bit_eq)

lemma take_bit_small: "unat v < 2 ^ n \<Longrightarrow> take_bit n v = v" for v :: "'a::len word"
  by (simp add: word_unat_eq_iff unsigned_take_bit_eq take_bit_nat_eq_self)

lemma not_bit_small: "unat v < 2 ^ n \<Longrightarrow> \<not> bit v n" for v :: "'a::len word"
  by (metis bit_take_bit_iff order_less_irrefl take_bit_small)

lemma and_7F: "b AND 0x7F = take_bit 7 b" for b :: byte
  by (simp add: take_bit_eq_mask mask_eq_exp_minus_1)

lemma and_80_eq_0: "b AND 0x80 = 0 \<longleftrightarrow> \<not> bit b 7" for b :: byte
  using and_exp_eq_0_iff_not_bit [of b 7] by simp

lemma bit_80: "bit (0x80 :: byte) n \<longleftrightarrow> n = 7"
  using bit_exp_iff [of 7 n, where 'a = byte] by auto

lemma length_to_le [simp]: "length (to_le n v) = n"
  by (induction n arbitrary: v) auto

lemma length_to_be [simp]: "length (to_be n v) = n"
  by (simp add: to_be_def)

lemma of_le_to_le: "of_le (to_le n v) = take_bit (8 * n) v"
proof (induction n arbitrary: v)
  case 0
  then show ?case by simp
next
  case (Suc n)
  show ?case
    by (rule bit_word_eqI) (auto simp: Suc.IH bit_simps not_less)
qed

lemma of_le_to_le_id [simp]: "LENGTH('a::len) = 8 * n \<Longrightarrow> of_le (to_le n (v :: 'a word)) = v"
  by (simp add: of_le_to_le take_bit_word_beyond_length_eq)

lemma of_be_to_be_id [simp]: "LENGTH('a::len) = 8 * n \<Longrightarrow> of_be (to_be n (v :: 'a word)) = v"
  by (simp add: of_be_def to_be_def)

lemma bit_of_le_bound: "bit (of_le bs :: 'a::len word) m \<Longrightarrow> m < 8 * length bs"
proof (induction bs arbitrary: m)
  case Nil
  then show ?case by simp
next
  case (Cons b bs)
  from Cons.prems consider "m < 8" | "8 \<le> m" "bit (of_le bs :: 'a word) (m - 8)"
    by (auto simp: bit_simps dest: bit_imp_le_length)
  then show ?case
  proof cases
    case 2
    from Cons.IH [OF 2(2)] 2(1) show ?thesis by simp
  qed simp
qed

lemma to_le_of_le:
  "8 * length bs \<le> LENGTH('a::len) \<Longrightarrow> to_le (length bs) (of_le bs :: 'a word) = bs"
proof (induction bs)
  case Nil
  then show ?case by simp
next
  case (Cons b bs)
  have low: "ucast (ucast b OR push_bit 8 (of_le bs :: 'a word)) = b"
    using Cons.prems by (intro bit_word_eqI) (auto simp: bit_simps)
  note bit_of_le_bound [of bs, where 'a = 'a]
  then have high: "drop_bit 8 (ucast b OR push_bit 8 (of_le bs :: 'a word)) = of_le bs"
    using Cons.prems by (intro bit_word_eqI) (fastforce simp: bit_simps dest: bit_imp_le_length)
  have "to_le (length bs) (of_le bs :: 'a word) = bs"
    using Cons by simp
  then show ?case by (simp only: of_le.simps list.size to_le.simps low high add_0_right add_Suc_right One_nat_def)
qed

lemma to_be_of_be:
  "8 * length bs \<le> LENGTH('a::len) \<Longrightarrow> to_be (length bs) (of_be bs :: 'a word) = bs"
  using to_le_of_le [of "rev bs", where 'a = 'a] by (simp add: to_be_def of_be_def)

section \<open>Lemmas on maps and loops\<close>

lemma map_res_ok: "(\<And>x. x \<in> set xs \<Longrightarrow> f x = Inr (g x)) \<Longrightarrow> map_res f xs = Inr (map g xs)"
  by (induction xs) auto

lemma wf_map_Nil [simp]: "wf_map []"
  by (simp add: wf_map_def)

lemma wf_map_update [simp]: "wf_map m \<Longrightarrow> wf_map (AList.update k v m)"
  by (simp add: wf_map_def distinct_update)

lemma wf_map_delete [simp]: "wf_map m \<Longrightarrow> wf_map (AList.delete k m)"
  by (simp add: wf_map_def distinct_delete)

lemma wf_map_filter [simp]: "wf_map m \<Longrightarrow> wf_map (filter P m)"
  by (induction m) (auto simp: wf_map_def)

lemma map_of_delete_if: "map_of (AList.delete k m) k' = (if k' = k then None else map_of m k')"
  by (simp add: delete_conv')

lemma map_of_update_if: "map_of (AList.update k v m) k' = (if k' = k then Some v else map_of m k')"
  by (simp add: update_conv')

lemma length_update_new: "map_of m k = None \<Longrightarrow> length (AList.update k v m) = Suc (length m)"
  by (induction m) (auto split: if_splits)

lemma length_update_old: "map_of m k = Some w \<Longrightarrow> length (AList.update k v m) = length m"
  by (induction m) (auto split: if_splits)

lemma update_new: "map_of m k = None \<Longrightarrow> AList.update k v m = m @ [(k, v)]"
  by (induction m) (auto split: if_splits)

lemma delete_absent: "map_of m k = None \<Longrightarrow> AList.delete k m = m"
  by (simp add: map_of_eq_None_iff)

lemma length_delete_present: "map_of m k = Some v \<Longrightarrow> length (AList.delete k m) < length m"
  by (induction m) (auto simp: le_imp_less_Suc length_delete_le split: if_splits)

lemma set_alist_update: "set (AList.update k v m) \<subseteq> insert (k, v) (set m)"
  by (induction m) auto

lemma set_delete_subset: "set (AList.delete k m) \<subseteq> set m"
  by (induction m) auto

lemma sum_delete:
  "wf_map m \<Longrightarrow> map_of m k = Some v \<Longrightarrow>
     (\<Sum>(x, b)\<leftarrow>AList.delete k m. f b) = (\<Sum>(x, b)\<leftarrow>m. f b) - (f v :: int)"
  by (induction m) (auto simp: wf_map_def delete_absent split: if_splits)

lemma sum_update_old:
  "wf_map m \<Longrightarrow> map_of m k = Some v \<Longrightarrow>
     (\<Sum>(x, b)\<leftarrow>AList.update k w m. f b) = (\<Sum>(x, b)\<leftarrow>m. f b) - f v + (f w :: int)"
  by (induction m) (auto simp: wf_map_def split: if_splits)

section \<open>Interfaces shared by the components\<close>

text \<open>
  A prefix codec: a decoder reads back what the encoder wrote, whatever follows in the
  buffer, and reports how many bytes it consumed. \<open>wf\<close> is the range of encodable values.
\<close>

locale prefix_codec =
  fixes enc :: "'a \<Rightarrow> bytes" and dec :: "bytes \<Rightarrow> ('a \<times> nat) res" and wf :: "'a \<Rightarrow> bool"
  assumes dec_enc: "wf x \<Longrightarrow> dec (enc x @ rest) = Inr (x, length (enc x))"
begin

lemma enc_prefix_free:
  assumes "wf x" "wf y" "enc x @ r = enc y @ s"
  shows "x = y \<and> r = s"
proof -
  have "Inr (x, length (enc x)) = dec (enc y @ s)"
    using dec_enc [OF assms(1), of r] assms(3) by simp
  also have "\<dots> = Inr (y, length (enc y))"
    by (rule dec_enc [OF assms(2)])
  finally show ?thesis using assms(3) by simp
qed

lemma enc_inj: "wf x \<Longrightarrow> wf y \<Longrightarrow> enc x = enc y \<Longrightarrow> x = y"
  using enc_prefix_free [of x y "[]" "[]"] by simp

end

text \<open>
  The buffer-writing side: \<open>put\<close> succeeds when the buffer has \<open>room x\<close> bytes, writes the
  encoding at the front and leaves the rest of the buffer alone.
\<close>

locale buffer_codec = prefix_codec enc dec wf
  for enc :: "'a \<Rightarrow> bytes" and dec :: "bytes \<Rightarrow> ('a \<times> nat) res" and wf :: "'a \<Rightarrow> bool" +
  fixes put :: "bytes \<Rightarrow> 'a \<Rightarrow> bytes \<times> nat res" and room :: "'a \<Rightarrow> nat"
  assumes put_ok: "wf x \<Longrightarrow> room x \<le> length buf \<Longrightarrow>
      put buf x = (go_copy buf 0 (enc x), Inr (length (enc x)))"
    and enc_room: "wf x \<Longrightarrow> length (enc x) \<le> room x"
begin

lemma put_then_read:
  assumes "wf x" "room x \<le> length buf"
  shows "\<exists>buf' n. put buf x = (buf', Inr n) \<and> length buf' = length buf \<and> n \<le> room x \<and>
           dec buf' = Inr (x, n) \<and> drop n buf' = drop n buf"
proof -
  have le: "length (enc x) \<le> length buf"
    using enc_room [OF assms(1)] assms(2) by simp
  have "go_copy buf 0 (enc x) = enc x @ drop (length (enc x)) buf"
    using le by (simp add: go_copy_def)
  then show ?thesis
    using put_ok [OF assms] enc_room [OF assms(1)] dec_enc [OF assms(1)] le by simp
qed

end

text \<open>A component whose every operation keeps an invariant; runs are sequences of events.\<close>

locale invariant_machine =
  fixes step :: "'e \<Rightarrow> 's \<Rightarrow> 's" and inv :: "'s \<Rightarrow> bool"
  assumes step_inv: "inv s \<Longrightarrow> inv (step e s)"
begin

lemma run_inv: "inv s \<Longrightarrow> inv (fold step es s)"
  by (induction es arbitrary: s) (auto intro: step_inv)

end

text \<open>
  A table keyed by addresses or tokens. \<open>run_refines\<close>: any sequence of insertions and
  deletions is observed through \<open>get\<close> exactly as on the partial map it stands for.
\<close>

datatype ('k, 'v) table_op = TPut 'k 'v | TRemove 'k

fun map_op :: "('k, 'v) table_op \<Rightarrow> ('k \<Rightarrow> 'v option) \<Rightarrow> ('k \<Rightarrow> 'v option)" where
  "map_op (TPut k v) m = m(k \<mapsto> v)"
| "map_op (TRemove k) m = m(k := None)"

fun table_run :: "('k \<Rightarrow> 'v \<Rightarrow> 't \<Rightarrow> 't) \<Rightarrow> ('k \<Rightarrow> 't \<Rightarrow> 't) \<Rightarrow> ('k, 'v) table_op \<Rightarrow> 't \<Rightarrow> 't" where
  "table_run put remove (TPut k v) t = put k v t"
| "table_run put remove (TRemove k) t = remove k t"

locale keyed_table =
  fixes empty :: 't
    and get :: "'t \<Rightarrow> 'k \<Rightarrow> 'v option"
    and put :: "'k \<Rightarrow> 'v \<Rightarrow> 't \<Rightarrow> 't"
    and remove :: "'k \<Rightarrow> 't \<Rightarrow> 't"
    and wf :: "'t \<Rightarrow> bool"
  assumes wf_empty: "wf empty"
    and wf_put: "wf t \<Longrightarrow> wf (put k v t)"
    and wf_remove: "wf t \<Longrightarrow> wf (remove k t)"
    and get_empty: "get empty k = None"
    and get_put: "wf t \<Longrightarrow> get (put k v t) k' = (if k' = k then Some v else get t k')"
    and get_remove: "wf t \<Longrightarrow> get (remove k t) k' = (if k' = k then None else get t k')"
begin

lemma table_run_wf: "wf t \<Longrightarrow> wf (table_run put remove e t)"
  by (cases e) (simp_all add: wf_put wf_remove)

lemma table_run_get: "wf t \<Longrightarrow> get (table_run put remove e t) = map_op e (get t)"
  by (cases e) (auto simp: get_put get_remove fun_eq_iff)

lemma run_refines: "wf t \<Longrightarrow> get (fold (table_run put remove) es t) = fold map_op es (get t)"
  by (induction es arbitrary: t) (auto simp: table_run_wf table_run_get)

lemma run_refines_empty: "get (fold (table_run put remove) es empty) = fold map_op es Map.empty"
proof -
  have "get empty = Map.empty" by (auto simp: get_empty)
  then show ?thesis using run_refines [OF wf_empty] by simp
qed

end

end
