(* ===== verification/Congestion.thy ===== *)
theory Congestion
  imports FW_Prelude
begin

text \<open>
  Congestion control (\<open>internal/congestion/congestion.go\<close>): the two implementations of the Go
  interface \<open>Controller\<close> and the interface itself, as a sum type with one dispatching function
  per method. The contract the connection relies on is the locale \<open>controller\<close>, interpreted for
  both implementations and for the sum. \<open>float64\<close> values are real numbers.
\<close>

section \<open>Definitions\<close>

definition minCwnd :: real where "minCwnd = 2"
definition fastRetransmitThreshold :: int where "fastRetransmitThreshold = 2"

record ConservativeCC = cwnd :: real
record AggressiveCC = dupAckCount :: int

subsection \<open>ConservativeCC\<close>

definition Conservative_OnAck :: "int \<Rightarrow> ConservativeCC \<Rightarrow> ConservativeCC" where
  "Conservative_OnAck ackedPackets c = c\<lparr>cwnd := cwnd c + real_of_int ackedPackets / cwnd c\<rparr>"

definition Conservative_OnLoss :: "ConservativeCC \<Rightarrow> ConservativeCC" where
  "Conservative_OnLoss c = c\<lparr>cwnd := max (cwnd c * 0.5) minCwnd\<rparr>"

definition Conservative_CanSend :: "ConservativeCC \<Rightarrow> int \<Rightarrow> bool" where
  "Conservative_CanSend c inFlight \<longleftrightarrow> inFlight < trunc_real (cwnd c)"

definition Conservative_OnDuplicateAck :: "ConservativeCC \<Rightarrow> ConservativeCC \<times> bool" where
  "Conservative_OnDuplicateAck c = (c, False)"

definition Conservative_HalvesRTO :: "ConservativeCC \<Rightarrow> bool" where
  "Conservative_HalvesRTO c = False"

definition Conservative_Window :: "ConservativeCC \<Rightarrow> int" where
  "Conservative_Window c = trunc_real (cwnd c)"

definition Conservative_Cwnd :: "ConservativeCC \<Rightarrow> real" where
  "Conservative_Cwnd c = cwnd c"

subsection \<open>AggressiveCC\<close>

definition Aggressive_OnAck :: "int \<Rightarrow> AggressiveCC \<Rightarrow> AggressiveCC" where
  "Aggressive_OnAck ackedPackets a = a\<lparr>dupAckCount := 0\<rparr>"

definition Aggressive_OnLoss :: "AggressiveCC \<Rightarrow> AggressiveCC" where
  "Aggressive_OnLoss a = a"

definition Aggressive_CanSend :: "AggressiveCC \<Rightarrow> int \<Rightarrow> bool" where
  "Aggressive_CanSend a inFlight = True"

definition Aggressive_OnDuplicateAck :: "AggressiveCC \<Rightarrow> AggressiveCC \<times> bool" where
  "Aggressive_OnDuplicateAck a =
     (let a = a\<lparr>dupAckCount := dupAckCount a + 1\<rparr>
      in if fastRetransmitThreshold \<le> dupAckCount a then (a\<lparr>dupAckCount := 0\<rparr>, True) else (a, False))"

definition Aggressive_HalvesRTO :: "AggressiveCC \<Rightarrow> bool" where
  "Aggressive_HalvesRTO a = True"

definition Aggressive_Window :: "AggressiveCC \<Rightarrow> int" where
  "Aggressive_Window a = 0"

subsection \<open>The interface\<close>

datatype CongestionMode = Conservative | Aggressive

datatype Controller = CC_Conservative ConservativeCC | CC_Aggressive AggressiveCC

definition NewController :: "CongestionMode \<Rightarrow> int \<Rightarrow> Controller" where
  "NewController mode initialCwnd =
     (let initialCwnd = (if initialCwnd \<le> 0 then 4 else initialCwnd)
      in case mode of
           Aggressive \<Rightarrow> CC_Aggressive \<lparr>dupAckCount = 0\<rparr>
         | Conservative \<Rightarrow> CC_Conservative \<lparr>cwnd = real_of_int initialCwnd\<rparr>)"

fun OnAck :: "int \<Rightarrow> Controller \<Rightarrow> Controller" where
  "OnAck n (CC_Conservative c) = CC_Conservative (Conservative_OnAck n c)"
| "OnAck n (CC_Aggressive a) = CC_Aggressive (Aggressive_OnAck n a)"

fun OnLoss :: "Controller \<Rightarrow> Controller" where
  "OnLoss (CC_Conservative c) = CC_Conservative (Conservative_OnLoss c)"
| "OnLoss (CC_Aggressive a) = CC_Aggressive (Aggressive_OnLoss a)"

fun CanSend :: "Controller \<Rightarrow> int \<Rightarrow> bool" where
  "CanSend (CC_Conservative c) n = Conservative_CanSend c n"
| "CanSend (CC_Aggressive a) n = Aggressive_CanSend a n"

fun OnDuplicateAck :: "Controller \<Rightarrow> Controller \<times> bool" where
  "OnDuplicateAck (CC_Conservative c) = map_prod CC_Conservative id (Conservative_OnDuplicateAck c)"
| "OnDuplicateAck (CC_Aggressive a) = map_prod CC_Aggressive id (Aggressive_OnDuplicateAck a)"

fun HalvesRTO :: "Controller \<Rightarrow> bool" where
  "HalvesRTO (CC_Conservative c) = Conservative_HalvesRTO c"
| "HalvesRTO (CC_Aggressive a) = Aggressive_HalvesRTO a"

fun Window :: "Controller \<Rightarrow> int" where
  "Window (CC_Conservative c) = Conservative_Window c"
| "Window (CC_Aggressive a) = Aggressive_Window a"

lemmas conservative_defs = Conservative_OnAck_def Conservative_OnLoss_def Conservative_CanSend_def
  Conservative_OnDuplicateAck_def Conservative_HalvesRTO_def Conservative_Window_def minCwnd_def

lemmas aggressive_defs = Aggressive_OnAck_def Aggressive_OnLoss_def Aggressive_CanSend_def
  Aggressive_OnDuplicateAck_def Aggressive_HalvesRTO_def Aggressive_Window_def
  fastRetransmitThreshold_def

section \<open>The contract\<close>

datatype cc_event = CAck nat | CLoss

fun cc_step :: "(int \<Rightarrow> 'c \<Rightarrow> 'c) \<Rightarrow> ('c \<Rightarrow> 'c) \<Rightarrow> cc_event \<Rightarrow> 'c \<Rightarrow> 'c" where
  "cc_step onAck onLoss (CAck n) c = onAck (int n) c"
| "cc_step onAck onLoss CLoss c = onLoss c"

text \<open>
  What the connection relies on: the window reported by \<open>Window\<close> is the one \<open>CanSend\<close>
  enforces, 0 means unlimited, and a controller never blocks an idle connection.
\<close>

locale controller =
  fixes onAck :: "int \<Rightarrow> 'c \<Rightarrow> 'c" and onLoss :: "'c \<Rightarrow> 'c"
    and canSend :: "'c \<Rightarrow> int \<Rightarrow> bool" and window :: "'c \<Rightarrow> int" and inv :: "'c \<Rightarrow> bool"
  assumes ack_inv: "inv c \<Longrightarrow> 0 \<le> n \<Longrightarrow> inv (onAck n c)"
    and loss_inv: "inv c \<Longrightarrow> inv (onLoss c)"
    and gate: "inv c \<Longrightarrow> canSend c n \<longleftrightarrow> window c = 0 \<or> n < window c"
    and window_nonneg: "inv c \<Longrightarrow> 0 \<le> window c"
    and loss_shrinks: "inv c \<Longrightarrow> window (onLoss c) \<le> max (window c) 2"
    and ack_grows: "inv c \<Longrightarrow> 0 \<le> n \<Longrightarrow> window c \<le> window (onAck n c)"
begin

lemma run_inv: "inv c \<Longrightarrow> inv (fold (cc_step onAck onLoss) es c)"
proof (induction es arbitrary: c)
  case (Cons e es)
  then show ?case by (cases e) (simp_all add: ack_inv loss_inv)
qed simp

lemma never_blocks_idle: "inv c \<Longrightarrow> canSend c 0"
  using gate [of c 0] window_nonneg [of c] by auto

lemma run_never_blocks_idle: "inv c \<Longrightarrow> canSend (fold (cc_step onAck onLoss) es c) 0"
  by (rule never_blocks_idle [OF run_inv])

lemma run_gate:
  "inv c \<Longrightarrow> canSend (fold (cc_step onAck onLoss) es c) n \<longleftrightarrow>
     window (fold (cc_step onAck onLoss) es c) = 0 \<or> n < window (fold (cc_step onAck onLoss) es c)"
  by (rule gate [OF run_inv])

end

definition conservative_inv :: "ConservativeCC \<Rightarrow> bool" where
  "conservative_inv c \<longleftrightarrow> 1 \<le> cwnd c"

lemma trunc_real_mono: "0 \<le> x \<Longrightarrow> x \<le> y \<Longrightarrow> trunc_real x \<le> trunc_real y"
  by (simp add: trunc_real_def floor_mono)

interpretation conservative: controller Conservative_OnAck Conservative_OnLoss
  Conservative_CanSend Conservative_Window conservative_inv
proof
  fix c and n :: int assume c: "conservative_inv c"
  then have one: "1 \<le> trunc_real (cwnd c)"
    by (simp add: conservative_inv_def trunc_real_def)
  show "Conservative_CanSend c n \<longleftrightarrow> Conservative_Window c = 0 \<or> n < Conservative_Window c"
    using one by (simp add: conservative_defs)
  show "0 \<le> Conservative_Window c" using one by (simp add: conservative_defs)
  show "conservative_inv (Conservative_OnLoss c)" by (simp add: conservative_inv_def conservative_defs)
  have "trunc_real (max (cwnd c * 0.5) 2) \<le> max (trunc_real (cwnd c)) 2"
    using c trunc_real_mono [of "cwnd c * 0.5" "cwnd c"]
    by (auto simp: conservative_inv_def max_def trunc_real_def)
  then show "Conservative_Window (Conservative_OnLoss c) \<le> max (Conservative_Window c) 2"
    by (simp add: conservative_defs)
  assume n: "0 \<le> n"
  then have "0 \<le> real_of_int n / cwnd c" using c by (simp add: conservative_inv_def)
  then show "conservative_inv (Conservative_OnAck n c)"
    "Conservative_Window c \<le> Conservative_Window (Conservative_OnAck n c)"
    using c by (simp_all add: conservative_inv_def conservative_defs trunc_real_mono)
qed

interpretation aggressive: controller Aggressive_OnAck Aggressive_OnLoss
  Aggressive_CanSend Aggressive_Window "\<lambda>_. True"
  by unfold_locales (simp_all add: aggressive_defs)

fun controller_inv :: "Controller \<Rightarrow> bool" where
  "controller_inv (CC_Conservative c) \<longleftrightarrow> conservative_inv c"
| "controller_inv (CC_Aggressive a) \<longleftrightarrow> True"

interpretation cc: controller OnAck OnLoss CanSend Window controller_inv
proof
  fix c :: Controller and n :: int assume c: "controller_inv c"
  show "controller_inv (OnLoss c)"
    using c by (cases c) (simp_all add: conservative.loss_inv)
  show "CanSend c n \<longleftrightarrow> Window c = 0 \<or> n < Window c"
    using c by (cases c) (simp_all add: conservative.gate aggressive.gate)
  show "0 \<le> Window c"
    using c by (cases c) (simp_all add: conservative.window_nonneg aggressive.window_nonneg)
  show "Window (OnLoss c) \<le> max (Window c) 2"
    using c by (cases c) (simp_all add: conservative.loss_shrinks aggressive.loss_shrinks)
  assume "0 \<le> n"
  then show "controller_inv (OnAck n c)" "Window c \<le> Window (OnAck n c)"
    using c by (cases c; simp add: conservative.ack_inv conservative.ack_grows aggressive.ack_grows)+
qed

lemma NewController_inv: "controller_inv (NewController mode n)"
  by (simp add: NewController_def Let_def conservative_inv_def split: CongestionMode.split)

section \<open>Properties\<close>

text \<open>A controller never deadlocks the connection: whatever acknowledgements and losses
  it has been told of, and for every mode and configured window, sending is allowed when
  nothing is in flight, and \<open>CanSend\<close> enforces exactly the limit that \<open>Window\<close> reports
  (0 meaning unlimited).\<close>

theorem congestion_never_blocks_idle:
  "CanSend (fold (cc_step OnAck OnLoss) es (NewController mode n)) 0 \<and>
   (CanSend (fold (cc_step OnAck OnLoss) es (NewController mode n)) k \<longleftrightarrow>
      Window (fold (cc_step OnAck OnLoss) es (NewController mode n)) = 0 \<or>
      k < Window (fold (cc_step OnAck OnLoss) es (NewController mode n)))"
  using cc.run_never_blocks_idle [OF NewController_inv] cc.run_gate [OF NewController_inv] by blast

lemma Conservative_OnAcks:
  assumes "0 < cwnd c"
  shows "(cwnd c)\<^sup>2 + 2 * (\<Sum>n\<leftarrow>ns. real n) \<le> (cwnd (fold (\<lambda>n. Conservative_OnAck (int n)) ns c))\<^sup>2 \<and>
    cwnd c \<le> cwnd (fold (\<lambda>n. Conservative_OnAck (int n)) ns c) \<and>
    cwnd (fold (\<lambda>n. Conservative_OnAck (int n)) ns c) \<le> cwnd c + (\<Sum>n\<leftarrow>ns. real n) / cwnd c"
  using assms
proof (induction ns arbitrary: c)
  case (Cons n ns)
  let ?c = "Conservative_OnAck (int n) c"
  have c': "cwnd ?c = cwnd c + real n / cwnd c" by (simp add: Conservative_OnAck_def)
  have ge: "cwnd c \<le> cwnd ?c" "0 < cwnd ?c"
    using Cons.prems unfolding c' by (simp_all add: add_pos_nonneg)
  have "(cwnd c)\<^sup>2 + 2 * real n \<le> (cwnd ?c)\<^sup>2"
    using Cons.prems unfolding c' by (simp add: power2_sum)
  moreover have "(\<Sum>n\<leftarrow>ns. real n) / cwnd ?c \<le> (\<Sum>n\<leftarrow>ns. real n) / cwnd c"
    using ge Cons.prems by (intro divide_left_mono sum_list_nonneg mult_pos_pos) auto
  ultimately show ?case
    using Cons.IH [OF ge(2)] ge by (auto simp: c' add_divide_distrib)
qed simp

text \<open>AIMD. Additive increase: acknowledging packets in any grouping, \<open>N\<close> in all, grows a
  window \<open>w\<close> to one between \<open>sqrt (w^2 + 2N)\<close> and \<open>w + N / w\<close>, so a full window of acks adds
  at most one packet. Multiplicative decrease: \<open>k + 1\<close> losses in a row leave
  \<open>max (w / 2^(k+1)) 2\<close>.\<close>

theorem aimd:
  assumes "0 < cwnd c"
  shows "sqrt ((cwnd c)\<^sup>2 + 2 * (\<Sum>n\<leftarrow>ns. real n)) \<le> cwnd (fold (\<lambda>n. Conservative_OnAck (int n)) ns c) \<and>
    cwnd (fold (\<lambda>n. Conservative_OnAck (int n)) ns c) \<le> cwnd c + (\<Sum>n\<leftarrow>ns. real n) / cwnd c \<and>
    cwnd ((Conservative_OnLoss ^^ Suc k) c) = max (cwnd c / 2 ^ Suc k) 2"
proof -
  have "cwnd ((Conservative_OnLoss ^^ Suc k) c) = max (cwnd c / 2 ^ Suc k) 2"
  proof (induction k)
    case (Suc k)
    have "cwnd ((Conservative_OnLoss ^^ Suc (Suc k)) c) = max (cwnd ((Conservative_OnLoss ^^ Suc k) c) / 2) 2"
      by (simp add: conservative_defs)
    also have "\<dots> = max (cwnd c / 2 ^ Suc (Suc k)) 2"
      unfolding Suc by (auto simp: max_def)
    finally show ?case .
  qed (simp add: conservative_defs)
  then show ?thesis
    using Conservative_OnAcks [OF assms, of ns] assms by (auto intro: real_le_lsqrt)
qed

theorem aimd_witness:
  "cwnd (fold (\<lambda>n. Conservative_OnAck (int n)) [2, 2] \<lparr>cwnd = 4\<rparr>) \<le> 5 \<and>
   cwnd ((Conservative_OnLoss ^^ Suc 0) \<lparr>cwnd = 10\<rparr>) = 5"
  using aimd [of "\<lparr>cwnd = 4\<rparr>" "[2, 2]" 0] aimd [of "\<lparr>cwnd = 10\<rparr>" "[]" 0] by simp

text \<open>The answers to \<open>n\<close> consecutive duplicate acks.\<close>

fun dup_acks :: "nat \<Rightarrow> Controller \<Rightarrow> bool list" where
  "dup_acks 0 c = []"
| "dup_acks (Suc n) c = (let (c', b) = OnDuplicateAck c in b # dup_acks n c')"

lemma dup_acks_conservative: "dup_acks n (CC_Conservative c) = replicate n False"
  by (induction n) (simp_all add: conservative_defs)

lemma dup_acks_aggressive:
  "k \<in> {0, 1} \<Longrightarrow> dup_acks n (CC_Aggressive \<lparr>dupAckCount = int k\<rparr>) = map (\<lambda>i. odd (i + k)) [0..<n]"
proof (induction n arbitrary: k)
  case (Suc n)
  then have "dup_acks (Suc n) (CC_Aggressive \<lparr>dupAckCount = int k\<rparr>) =
      (k = 1) # dup_acks n (CC_Aggressive \<lparr>dupAckCount = int (1 - k)\<rparr>)"
    by (auto simp: aggressive_defs Let_def)
  also have "\<dots> = (k = 1) # map (\<lambda>i. odd (i + (1 - k))) [0..<n]"
    using Suc.IH [of "1 - k"] Suc.prems by auto
  finally show ?case
    using Suc.prems by (auto simp: upt_conv_Cons map_Suc_upt [symmetric] simp del: upt_Suc)
qed simp

text \<open>Duplicate acks: in aggressive mode exactly every second one of a run of consecutive
  duplicate acks asks for a fast retransmit; in conservative mode none does.\<close>

lemma fast_retransmit_every_second:
  "dup_acks n (NewController mode w) = map (\<lambda>i. mode = Aggressive \<and> odd i) [0..<n]"
  using dup_acks_aggressive [of 0 n]
  by (auto simp: NewController_def Let_def dup_acks_conservative map_replicate_const split: CongestionMode.split)

end
