(* ===== verification/Replay.thy ===== *)
theory Replay
  imports FW_Prelude
begin

text \<open>
  The 1024-bit sliding replay window of \<open>crypto/cipher.go\<close>: \<open>check\<close>, \<open>update\<close> and the
  multi-word shift, and the proof that the window implements the set of nonces seen so far.
\<close>

section \<open>Definitions\<close>

record replayWindow =
  rw_maxNonce :: u64
  rw_window :: "u64 list"   \<comment> \<open>\<open>[16]uint64\<close>\<close>

definition newReplayWindow :: replayWindow where
  "newReplayWindow = \<lparr>rw_maxNonce = 0, rw_window = replicate 16 0\<rparr>"

definition check :: "replayWindow \<Rightarrow> u64 \<Rightarrow> bool" where
  "check rw nonce =
     (if nonce = 0 then False
      else if rw_maxNonce rw = 0 then True
      else if rw_maxNonce rw < nonce then True
      else let diff = rw_maxNonce rw - nonce
           in if 1024 \<le> diff then False
              else let wordIdx = diff div 64; bitIdx = diff mod 64
                   in rw_window rw ! unat wordIdx AND push_bit (unat bitIdx) 1 = 0)"

text \<open>The loops run over the indices in the order of the source, each reading and writing the
  array in place.\<close>

definition shiftWords :: "nat \<Rightarrow> u64 list \<Rightarrow> u64 list" where
  "shiftWords wordShift window =
     fold (\<lambda>i w. w[i := 0]) [0..<wordShift]
       (fold (\<lambda>i w. w[i := w ! (i - wordShift)]) (rev [wordShift..<16]) window)"

definition shiftBits :: "nat \<Rightarrow> u64 list \<Rightarrow> u64 list" where
  "shiftBits bitShift window =
     (let w = fold (\<lambda>i w. w[i := push_bit bitShift (w ! i) OR drop_bit (64 - bitShift) (w ! (i - 1))])
                (rev [1..<16]) window
      in w[0 := push_bit bitShift (w ! 0)])"

definition shiftWindowLeft :: "u64 list \<Rightarrow> u64 \<Rightarrow> u64 list" where
  "shiftWindowLeft window shift =
     (if 1024 \<le> shift then replicate 16 0
      else
        let wordShift = shift div 64; bitShift = shift mod 64;
            window = (if 0 < wordShift then shiftWords (unat wordShift) window else window)
        in if 0 < bitShift then shiftBits (unat bitShift) window else window)"

definition update :: "replayWindow \<Rightarrow> u64 \<Rightarrow> replayWindow" where
  "update rw nonce =
     (if nonce = 0 then rw
      else if rw_maxNonce rw = 0
      then rw\<lparr>rw_maxNonce := nonce, rw_window := (rw_window rw)[0 := 1]\<rparr>
      else if rw_maxNonce rw < nonce
      then let shift = nonce - rw_maxNonce rw;
               w = shiftWindowLeft (rw_window rw) shift
           in rw\<lparr>rw_maxNonce := nonce, rw_window := w[0 := w ! 0 OR 1]\<rparr>
      else let diff = rw_maxNonce rw - nonce
           in if diff < 1024
              then let wordIdx = unat (diff div 64); bitIdx = unat (diff mod 64)
                   in rw\<lparr>rw_window := (rw_window rw)
                          [wordIdx := rw_window rw ! wordIdx OR push_bit bitIdx 1]\<rparr>
              else rw)"

section \<open>The window as one 1024-bit string\<close>

definition wbit :: "u64 list \<Rightarrow> nat \<Rightarrow> bool" where
  "wbit w j = bit (w ! (j div 64)) (j mod 64)"

lemma fold_update_rev:
  assumes "\<And>i w w'. (\<And>j. j \<le> i \<Longrightarrow> w ! j = w' ! j) \<Longrightarrow> length w = length w' \<Longrightarrow> f i w = f i w'"
    and "n \<le> length w"
  shows "length (fold (\<lambda>i w. w[i := f i w]) (rev [a..<n]) w) = length w \<and>
    (\<forall>j < length w. fold (\<lambda>i w. w[i := f i w]) (rev [a..<n]) w ! j = (if a \<le> j \<and> j < n then f j w else w ! j))"
  using assms(2)
proof (induction n arbitrary: w)
  case (Suc n)
  show ?case
  proof (cases "a \<le> n")
    case True
    have "f j (w[n := f n w]) = f j w" if "j < n" for j
      by (rule assms(1)) (use that in auto)
    with True Suc.IH [of "w[n := f n w]"] Suc.prems show ?thesis
      by (auto simp: nth_list_update less_Suc_eq)
  qed auto
qed simp

lemma fold_update_upt:
  "n \<le> length w \<Longrightarrow> length (fold (\<lambda>i w. w[i := c]) [0..<n] w) = length w \<and>
    (\<forall>j < length w. fold (\<lambda>i w. w[i := c]) [0..<n] w ! j = (if j < n then c else w ! j))"
  by (induction n) (auto simp: nth_list_update less_Suc_eq)

lemma shiftWords_nth:
  assumes "length w = 16" "s < 16"
  shows "length (shiftWords s w) = 16"
    "j < 16 \<Longrightarrow> shiftWords s w ! j = (if s \<le> j then w ! (j - s) else 0)"
proof -
  let ?w = "fold (\<lambda>i w. w[i := w ! (i - s)]) (rev [s..<16]) w"
  have 1: "length ?w = 16 \<and> (\<forall>j < 16. ?w ! j = (if s \<le> j then w ! (j - s) else w ! j))"
    using fold_update_rev [of "\<lambda>i w. w ! (i - s)" 16 w s] assms by simp
  with fold_update_upt [of s ?w 0] assms show "length (shiftWords s w) = 16"
    "j < 16 \<Longrightarrow> shiftWords s w ! j = (if s \<le> j then w ! (j - s) else 0)"
    by (simp_all add: shiftWords_def)
qed

lemma shiftBits_nth:
  assumes "length w = 16"
  shows "length (shiftBits b w) = 16"
    "j < 16 \<Longrightarrow> shiftBits b w ! j =
       (if j = 0 then push_bit b (w ! 0) else push_bit b (w ! j) OR drop_bit (64 - b) (w ! (j - 1)))"
proof -
  let ?w = "fold (\<lambda>i w. w[i := push_bit b (w ! i) OR drop_bit (64 - b) (w ! (i - 1))]) (rev [1..<16]) w"
  have 1: "length ?w = 16 \<and> (\<forall>j < 16. ?w ! j =
      (if 1 \<le> j then push_bit b (w ! j) OR drop_bit (64 - b) (w ! (j - 1)) else w ! j))"
    using fold_update_rev [of "\<lambda>i w. push_bit b (w ! i) OR drop_bit (64 - b) (w ! (i - 1))" 16 w 1] assms
    by simp
  then show "length (shiftBits b w) = 16"
    "j < 16 \<Longrightarrow> shiftBits b w ! j =
       (if j = 0 then push_bit b (w ! 0) else push_bit b (w ! j) OR drop_bit (64 - b) (w ! (j - 1)))"
    by (auto simp: shiftBits_def Let_def nth_list_update)
qed

lemma wbit_at: "r < 64 \<Longrightarrow> wbit w (64 * q + r) = bit (w ! q) r"
  by (simp add: wbit_def)

lemma wbit_split:
  assumes "(j :: nat) < 1024" and P: "\<And>q r. q < 16 \<Longrightarrow> r < 64 \<Longrightarrow> j = 64 * q + r \<Longrightarrow> P"
  shows P
  by (rule P [of "j div 64" "j mod 64"]) (use assms(1) in auto)

lemma wbit_shiftWords:
  assumes "length w = 16" "s < 16" "j < 1024"
  shows "wbit (shiftWords s w) j \<longleftrightarrow> 64 * s \<le> j \<and> wbit w (j - 64 * s)"
  using assms(3)
proof (rule wbit_split)
  fix q r assume q: "q < 16" "r < (64 :: nat)" "j = 64 * q + r"
  show ?thesis
  proof (cases "s \<le> q")
    case True
    then have "j - 64 * s = 64 * (q - s) + r" using q by simp
    with True q show ?thesis using assms by (simp add: wbit_at shiftWords_nth)
  next
    case False
    then have "\<not> 64 * s \<le> j" using q by simp
    with False q show ?thesis using assms by (simp add: wbit_at shiftWords_nth)
  qed
qed

lemma wbit_shiftBits:
  assumes "length w = 16" "0 < b" "b < 64" "j < 1024"
  shows "wbit (shiftBits b w) j \<longleftrightarrow> b \<le> j \<and> wbit w (j - b)"
  using assms(4)
proof (rule wbit_split)
  fix q r assume q: "q < 16" "r < (64 :: nat)" "j = 64 * q + r"
  note nth = shiftBits_nth(2) [OF assms(1) q(1), of b]
  have at: "wbit (shiftBits b w) j = bit (shiftBits b w ! q) r"
    using q(2) by (simp add: q(3) wbit_at)
  consider "b \<le> r" | "r < b" "q = 0" | "r < b" "0 < q" by linarith
  then show ?thesis
  proof cases
    case 1
    then have "j - b = 64 * q + (r - b)" "b \<le> j" using q by simp_all
    then have "wbit w (j - b) = bit (w ! q) (r - b)" using q(2) by (simp add: wbit_at)
    moreover have "\<not> bit (w ! (q - 1)) (64 - b + r)"
      using 1 assms by (auto dest: bit_imp_le_length)
    ultimately show ?thesis using 1 q assms(3) \<open>b \<le> j\<close> unfolding at nth
      by (auto simp: bit_simps)
  next
    case 2
    then have "\<not> b \<le> j" using q by simp
    with 2 show ?thesis unfolding at nth by (simp add: bit_simps)
  next
    case 3
    then have "j - b = 64 * (q - 1) + (64 + r - b)" "b \<le> j" using q assms(3) by simp_all
    then have "wbit w (j - b) = bit (w ! (q - 1)) (64 + r - b)"
      using 3(1) by (simp only:) (rule wbit_at, simp)
    moreover have "64 - b + r = 64 + r - b" using assms(3) by simp
    ultimately show ?thesis using 3 \<open>b \<le> j\<close> unfolding at nth by (simp add: bit_simps)
  qed
qed

lemma wbit_shiftWindowLeft:
  assumes "length w = 16" "j < 1024"
  shows "length (shiftWindowLeft w s) = 16"
    "wbit (shiftWindowLeft w s) j \<longleftrightarrow> unat s \<le> j \<and> wbit w (j - unat s)"
proof -
  let ?ws = "unat s div 64" and ?bs = "unat s mod 64"
  have u: "unat (s div 64) = ?ws" "unat (s mod 64) = ?bs" "1024 \<le> s \<longleftrightarrow> 1024 \<le> unat s"
    "0 < s div 64 \<longleftrightarrow> 0 < ?ws" "0 < s mod 64 \<longleftrightarrow> 0 < ?bs"
    by (simp_all add: unat_div_distrib unat_mod_distrib word_le_nat_alt word_less_nat_alt)
  have s: "unat s = 64 * ?ws + ?bs" by simp
  define w1 where "w1 = (if 0 < ?ws then shiftWords ?ws w else w)"
  have w1: "length w1 = 16" "k < 1024 \<Longrightarrow> wbit w1 k \<longleftrightarrow> 64 * ?ws \<le> k \<and> wbit w (k - 64 * ?ws)"
    if "unat s < 1024" for k
    using that assms by (auto simp: w1_def shiftWords_nth wbit_shiftWords)
  have eq: "shiftWindowLeft w s = (if 0 < ?bs then shiftBits ?bs w1 else w1)" if "unat s < 1024"
    using that by (simp add: shiftWindowLeft_def Let_def u w1_def)
  show "length (shiftWindowLeft w s) = 16"
  proof (cases "unat s < 1024")
    case True
    then show ?thesis unfolding eq [OF True] using w1(1) [OF True] by (simp add: shiftBits_nth)
  qed (simp add: shiftWindowLeft_def u)
  show "wbit (shiftWindowLeft w s) j \<longleftrightarrow> unat s \<le> j \<and> wbit w (j - unat s)"
  proof (cases "1024 \<le> unat s")
    case True
    with assms show ?thesis by (simp add: shiftWindowLeft_def u wbit_def)
  next
    case False
    then have lt: "unat s < 1024" by simp
    note w1 = w1 [OF lt] and eq = eq [OF lt]
    show ?thesis
    proof (cases "0 < ?bs")
      case True
      then have "wbit (shiftWindowLeft w s) j \<longleftrightarrow> ?bs \<le> j \<and> 64 * ?ws \<le> j - ?bs \<and> wbit w (j - ?bs - 64 * ?ws)"
        using False assms w1 by (simp add: eq wbit_shiftBits)
      moreover have "?bs \<le> j \<and> 64 * ?ws \<le> j - ?bs \<longleftrightarrow> unat s \<le> j"
        using s by linarith
      moreover have "j - ?bs - 64 * ?ws = j - unat s" using s by linarith
      ultimately show ?thesis by metis
    next
      case bs: False
      then have "64 * ?ws = unat s" using s by simp
      with bs False assms w1 show ?thesis by (simp add: eq)
    qed
  qed
qed

section \<open>The window implements a set of nonces\<close>

text \<open>The specification: which nonce may be accepted after the nonces \<open>H\<close> have been marked.\<close>

definition highest :: "'a::len word set \<Rightarrow> nat" where
  "highest H = Max (insert 0 (unat ` H))"

definition replay_accepts :: "u64 set \<Rightarrow> u64 \<Rightarrow> bool" where
  "replay_accepts H n \<longleftrightarrow> n \<noteq> 0 \<and> n \<notin> H \<and> highest H < unat n + 1024"

text \<open>The window \<open>rw\<close> represents the set \<open>H\<close>.\<close>

definition represents :: "replayWindow \<Rightarrow> u64 set \<Rightarrow> bool" where
  "represents rw H \<longleftrightarrow> finite H \<and> length (rw_window rw) = 16 \<and> unat (rw_maxNonce rw) = highest H \<and>
     (\<forall>j < 1024. wbit (rw_window rw) j \<longleftrightarrow> j < highest H \<and> (\<exists>n \<in> H. unat n + j = highest H))"

lemma highest_empty [simp]: "highest {} = 0"
  by (simp add: highest_def)

lemma highest_insert: "finite H \<Longrightarrow> highest (insert n H) = max (unat n) (highest H)"
  by (simp add: highest_def insert_commute [of 0])

lemma highest_ge: "finite H \<Longrightarrow> n \<in> H \<Longrightarrow> unat n \<le> highest H"
  by (simp add: highest_def)

lemma highest_in: "finite H \<Longrightarrow> highest H \<noteq> 0 \<Longrightarrow> \<exists>n \<in> H. unat n = highest H"
proof -
  assume "finite H" "highest H \<noteq> 0"
  then have "highest H \<in> insert 0 (unat ` H)" unfolding highest_def by (intro Max_in) auto
  with \<open>highest H \<noteq> 0\<close> show ?thesis by auto
qed

lemma highest_0: "finite H \<Longrightarrow> highest H = 0 \<Longrightarrow> n \<in> H \<Longrightarrow> n = 0"
  using highest_ge [of H n] by (simp add: unat_eq_zero)

lemma represents_new: "represents newReplayWindow {}"
  by (auto simp: represents_def newReplayWindow_def wbit_def)

lemma wbit_set:
  assumes "length w = 16" "i < 1024" "j < 1024"
  shows "wbit (w[i div 64 := w ! (i div 64) OR push_bit (i mod 64) 1]) j \<longleftrightarrow> wbit w j \<or> j = i"
proof (cases "j div 64 = i div 64")
  case True
  then have "j mod 64 = i mod 64 \<longleftrightarrow> j = i" by (metis mult_div_mod_eq)
  moreover have "bit (push_bit (i mod 64) 1 :: u64) (j mod 64) \<longleftrightarrow> j mod 64 = i mod 64"
    by (auto simp: bit_simps)
  ultimately show ?thesis
    using assms True by (auto simp: wbit_def bit_or_iff)
qed (auto simp: wbit_def)

lemma wbit_set0:
  assumes "length w = 16" "j < 1024"
  shows "wbit (w[0 := w ! 0 OR 1]) j \<longleftrightarrow> wbit w j \<or> j = 0"
  using wbit_set [OF assms(1) _ assms(2), of 0] by simp

lemma unat_diff: "n \<le> m \<Longrightarrow> unat (m - n) = unat m - unat n" for m n :: "'a::len word"
  by (simp add: unat_sub_if' word_le_nat_alt)

lemma representsD:
  assumes "represents rw H"
  shows "finite H" "length (rw_window rw) = 16" "unat (rw_maxNonce rw) = highest H"
    "\<And>j. j < 1024 \<Longrightarrow> wbit (rw_window rw) j \<longleftrightarrow> j < highest H \<and> (\<exists>n \<in> H. unat n + j = highest H)"
  using assms by (simp_all add: represents_def)

lemma check_represents:
  assumes "represents rw H"
  shows "check rw n \<longleftrightarrow> replay_accepts H n"
proof -
  let ?m = "rw_maxNonce rw"
  have fin: "finite H" and len: "length (rw_window rw) = 16" and mx: "unat ?m = highest H"
    and bits: "\<And>j. j < 1024 \<Longrightarrow> wbit (rw_window rw) j \<longleftrightarrow>
                 j < highest H \<and> (\<exists>n \<in> H. unat n + j = highest H)"
    using representsD [OF assms] by simp_all
  consider "n = 0" | "n \<noteq> 0" "?m < n" | "n \<noteq> 0" "n \<le> ?m" by force
  then show ?thesis
  proof cases
    case 1
    then show ?thesis by (simp add: check_def replay_accepts_def)
  next
    case 2
    then have "highest H < unat n" using mx by (simp add: word_less_nat_alt)
    with 2 show ?thesis using highest_ge [OF fin, of n] by (auto simp: check_def replay_accepts_def)
  next
    case 3
    let ?d = "?m - n"
    have d: "unat ?d = highest H - unat n" "unat n \<le> highest H" "0 < unat n"
      using 3 mx by (simp_all add: unat_diff word_le_nat_alt unat_gt_0)
    have m0: "?m \<noteq> 0" "\<not> ?m < n" using 3 by auto
    have "check rw n \<longleftrightarrow> \<not> 1024 \<le> ?d \<and> \<not> wbit (rw_window rw) (unat ?d)"
      using 3(1) m0 and_exp_eq_0_iff_not_bit [of "rw_window rw ! unat (?d div 64)" "unat (?d mod 64)"]
      by (simp add: check_def Let_def wbit_def unat_div_distrib unat_mod_distrib push_bit_of_1)
    also have "1024 \<le> ?d \<longleftrightarrow> 1024 \<le> unat ?d" by (simp add: word_le_nat_alt)
    also have "\<not> 1024 \<le> unat ?d \<and> \<not> wbit (rw_window rw) (unat ?d) \<longleftrightarrow>
        highest H < unat n + 1024 \<and> n \<notin> H"
    proof (cases "1024 \<le> unat ?d")
      case False
      have "(\<exists>k \<in> H. unat k + unat ?d = highest H) \<longleftrightarrow> n \<in> H"
      proof -
        have "unat k + unat ?d = highest H \<longleftrightarrow> k = n" for k
          unfolding d(1) using d(2) by (simp add: word_unat_eq_iff) linarith
        then show ?thesis by auto
      qed
      with False d show ?thesis using bits [of "unat ?d"] by auto
    qed (use d in auto)
    finally show ?thesis using 3(1) by (auto simp: replay_accepts_def)
  qed
qed

text \<open>The three branches of \<open>update\<close>: the first nonce, one ahead of the window, one inside or behind it.\<close>

lemma update_first:
  assumes rep: "represents rw H" and n: "n \<noteq> 0" "rw_maxNonce rw = 0"
  shows "represents (update rw n) (insert n H)"
proof -
  note r = representsD [OF rep]
  have h0: "highest H = 0" using r(3) n(2) by simp
  then have no: "\<not> wbit (rw_window rw) j" if "j < 1024" for j using r(4) [OF that] by simp
  have only: "unat k = 0" if "k \<in> H" for k using highest_0 [OF r(1) h0 that] by simp
  have n0: "0 < unat n" using n by (simp add: unat_gt_0)
  have "rw_window rw ! 0 = 0"
  proof (rule bit_word_eqI)
    fix b assume "b < LENGTH(64)"
    then show "bit (rw_window rw ! 0) b = bit (0 :: u64) b" using no [of b] by (simp add: wbit_def)
  qed
  then have "wbit ((rw_window rw)[0 := 1]) j \<longleftrightarrow> j = 0" if "j < 1024" for j
    using wbit_set0 [OF r(2) that] no [OF that] by simp
  then show ?thesis
    using n r(1,2) h0 highest_insert [OF r(1), of n] n0 by (auto simp: represents_def update_def dest: only)
qed

lemma update_ahead:
  assumes rep: "represents rw H" and n: "rw_maxNonce rw \<noteq> 0" "rw_maxNonce rw < n"
  shows "represents (update rw n) (insert n H)"
proof -
  let ?m = "rw_maxNonce rw"
  let ?s = "n - ?m" and ?w = "shiftWindowLeft (rw_window rw) (n - ?m)"
  note r = representsD [OF rep]
  have s: "unat ?s = unat n - highest H" "highest H < unat n" "n \<noteq> 0"
    using n r(3) unat_diff [of ?m n] by (auto simp: word_less_nat_alt word_le_nat_alt)
  have l: "length ?w = 16" using wbit_shiftWindowLeft(1) [OF r(2), of 0] by simp
  have "wbit (?w[0 := ?w ! 0 OR 1]) j \<longleftrightarrow>
      j < unat n \<and> (\<exists>k \<in> insert n H. unat k + j = unat n)" if "j < 1024" for j
  proof -
    have "wbit (?w[0 := ?w ! 0 OR 1]) j \<longleftrightarrow> (unat ?s \<le> j \<and> wbit (rw_window rw) (j - unat ?s)) \<or> j = 0"
      using wbit_set0 [OF l that] wbit_shiftWindowLeft(2) [OF r(2) that] by simp
    also have "\<dots> \<longleftrightarrow> j < unat n \<and> (\<exists>k \<in> insert n H. unat k + j = unat n)"
      using r(4) [of "j - unat ?s"] that s highest_ge [OF r(1)] by fastforce
    finally show ?thesis .
  qed
  then show ?thesis
    using n r(1) l highest_insert [OF r(1), of n] s by (auto simp: represents_def update_def Let_def)
qed

lemma update_behind:
  assumes rep: "represents rw H" and n: "n \<noteq> 0" "n \<le> rw_maxNonce rw"
  shows "represents (update rw n) (insert n H)"
proof -
  let ?m = "rw_maxNonce rw"
  let ?d = "?m - n"
  note r = representsD [OF rep]
  have d: "unat ?d = highest H - unat n" "unat n \<le> highest H" "0 < unat n" "?m \<noteq> 0" "\<not> ?m < n"
    using n r(3) by (simp_all add: unat_diff word_le_nat_alt unat_gt_0) (use n in auto)
  have h: "highest (insert n H) = highest H" using highest_insert [OF r(1), of n] d by simp
  have dd: "?d < 1024 \<longleftrightarrow> unat ?d < 1024" by (simp add: word_less_nat_alt)
  have new: "(\<exists>k \<in> insert n H. unat k + j = highest H) \<longleftrightarrow>
      j = unat ?d \<or> (\<exists>k \<in> H. unat k + j = highest H)" for j
    using d by auto
  show ?thesis
  proof (cases "?d < 1024")
    case True
    then have "wbit ((rw_window rw)[unat ?d div 64 :=
        rw_window rw ! (unat ?d div 64) OR push_bit (unat ?d mod 64) 1]) j \<longleftrightarrow>
        j < highest H \<and> (\<exists>k \<in> insert n H. unat k + j = highest H)" if "j < 1024" for j
      using wbit_set [OF r(2) _ that, of "unat ?d"] r(4) [OF that] new [of j] d dd by auto
    with True show ?thesis
      using n d(4,5) r(1-3) h
      by (auto simp: represents_def update_def Let_def unat_div_distrib unat_mod_distrib)
  next
    case False
    then show ?thesis
      using n d r h dd new by (auto simp: represents_def update_def Let_def)
  qed
qed

lemma update_represents:
  assumes "represents rw H"
  shows "represents (update rw n) (insert n H)"
proof -
  note r = representsD [OF assms]
  consider "n = 0" | "n \<noteq> 0" "rw_maxNonce rw = 0" | "rw_maxNonce rw \<noteq> 0" "rw_maxNonce rw < n" | "n \<noteq> 0" "n \<le> rw_maxNonce rw"
    by force
  then show ?thesis
  proof cases
    case 1
    with r highest_insert [OF r(1), of n] show ?thesis by (auto simp: represents_def update_def)
  qed (use assms update_first update_ahead update_behind in \<open>blast+\<close>)
qed

text \<open>A rejected nonce may be added to the history for free: the window does not tell.\<close>

lemma rejected_represents:
  assumes "represents rw H" "\<not> check rw n"
  shows "represents rw (insert n H)"
proof -
  have fin: "finite H" and bits: "\<And>j. j < 1024 \<Longrightarrow> wbit (rw_window rw) j \<longleftrightarrow>
      j < highest H \<and> (\<exists>n \<in> H. unat n + j = highest H)"
    using representsD [OF assms(1)] by simp_all
  have "\<not> replay_accepts H n" using assms(2) check_represents [OF assms(1)] by blast
  then consider "n \<in> H" | "unat n = 0" | "unat n + 1024 \<le> highest H"
    unfolding replay_accepts_def by (metis not_le unat_0)
  then show ?thesis
  proof cases
    case 1
    then show ?thesis using assms(1) by (simp add: insert_absorb)
  next
    case 2
    then have "highest (insert n H) = highest H" using highest_insert [OF fin, of n] by simp
    moreover have "unat n + j \<noteq> highest H" if "j < highest H" for j using 2 that by simp
    ultimately show ?thesis using assms(1) bits
      unfolding represents_def by (metis finite_insert insert_iff)
  next
    case 3
    then have "highest (insert n H) = highest H" using highest_insert [OF fin, of n] by simp
    moreover have "unat n + j \<noteq> highest H" if "j < 1024" for j using 3 that by simp
    ultimately show ?thesis using assms(1) by (simp add: represents_def)
  qed
qed

lemma represents_run: "represents (fold (\<lambda>n rw. update rw n) ns newReplayWindow) (set ns)"
proof (induction ns rule: rev_induct)
  case (snoc n ns)
  then show ?case using update_represents by fastforce
qed (simp add: represents_new)

text \<open>C30. The 1024-bit window is exact: after any sequence of nonces has been marked as seen, in
  any order, \<open>check\<close> accepts a nonce if and only if it is not zero, is not one of the marked
  ones, and is less than 1024 behind the highest of them. The multi-word shift loses and
  invents no bit.\<close>

theorem replay_window_exact:
  "check (fold (\<lambda>n rw. update rw n) ns newReplayWindow) n \<longleftrightarrow> replay_accepts (set ns) n"
  by (rule check_represents [OF represents_run])

end
