(* ===== verification/Wire.thy ===== *)
theory Wire
  imports FW_Prelude
begin

text \<open>
  The wire primitives of \<open>wire.go\<close>: unsigned LEB128 integers of 32 and 64 bits (VarInt and
  VarLong), length-prefixed strings and UUIDs, each with its writer, its reader and the
  round trip between them.
\<close>

section \<open>Definitions\<close>

text \<open>
  \<open>PutVarInt\<close> and \<open>PutVarLong\<close> have the same loop at two widths. A result of 0 bytes means
  that the buffer is too small; the bytes written before that is noticed stay written.
\<close>

function put_leb :: "bytes \<Rightarrow> nat \<Rightarrow> 'a::len word \<Rightarrow> bytes \<times> nat" where
  "put_leb buf i v =
     (if 0x80 \<le> unat v
      then (if length buf \<le> i then (buf, 0)
            else put_leb (buf[i := ucast v OR 0x80]) (i + 1) (drop_bit 7 v))
      else (if length buf \<le> i then (buf, 0) else (buf[i := ucast v], i + 1)))"
  by pat_completeness auto
termination
  by (relation "measure (\<lambda>(buf, i, v). unat v)") (auto simp: unat_shiftr)

definition PutVarInt :: "bytes \<Rightarrow> u32 \<Rightarrow> bytes \<times> nat" where
  "PutVarInt buf v = put_leb buf 0 v"

definition PutVarLong :: "bytes \<Rightarrow> u64 \<Rightarrow> bytes \<times> nat" where
  "PutVarLong buf v = put_leb buf 0 v"

text \<open>The reading loop: at most \<open>mx\<close> bytes (5 or 10), then the overflow error \<open>ovf\<close>.\<close>

function read_leb :: "nat \<Rightarrow> fw_error \<Rightarrow> bytes \<Rightarrow> nat \<Rightarrow> 'a::len word \<Rightarrow> ('a word \<times> nat) res" where
  "read_leb mx ovf buf i val =
     (if mx \<le> i then Inl ovf
      else if length buf \<le> i then Inl ErrBufferTooSmall
      else let b = buf ! i;
               val = val OR push_bit (7 * i) (ucast (b AND 0x7F))
           in if b AND 0x80 = 0 then Inr (val, i + 1)
              else read_leb mx ovf buf (i + 1) val)"
  by pat_completeness auto
termination
  by (relation "measure (\<lambda>(mx, ovf, buf, i, val). mx - i)") auto

definition ReadVarInt :: "bytes \<Rightarrow> (u32 \<times> nat) res" where
  "ReadVarInt buf = read_leb 5 ErrVarIntOverflow buf 0 0"

definition ReadVarLong :: "bytes \<Rightarrow> (u64 \<times> nat) res" where
  "ReadVarLong buf = read_leb 10 ErrVarLongOverflow buf 0 0"

definition maxStringLength :: nat where
  "maxStringLength = 32767"

text \<open>A Go string is its bytes.\<close>

definition PutString :: "bytes \<Rightarrow> bytes \<Rightarrow> bytes \<times> nat res" where
  "PutString buf s =
     (let l = length s; need = 2 + l
      in if maxStringLength < l then (buf, Inl ErrStringTooLong)
         else if length buf < need then (buf, Inl ErrBufferTooSmall)
         else (go_copy (go_copy buf 0 (to_be 2 (of_nat l :: u16))) 2 s, Inr need))"

definition ReadString :: "bytes \<Rightarrow> (bytes \<times> nat) res" where
  "ReadString buf =
     (if length buf < 2 then Inl ErrBufferTooSmall
      else let raw = sint (of_be (take 2 buf) :: u16)
           in if raw < 0 then Inl ErrNegativeStringLength
              else let need = 2 + nat raw
                   in if length buf < need then Inl ErrBufferTooSmall
                      else Inr (slice 2 need buf, need))"

text \<open>\<open>type UUID [16]byte\<close>: the values of this type are the lists of 16 bytes.\<close>

type_synonym UUID = bytes

definition is_UUID :: "bytes \<Rightarrow> bool" where
  "is_UUID u \<longleftrightarrow> length u = 16"

definition PutUUID :: "bytes \<Rightarrow> UUID \<Rightarrow> bytes \<times> nat" where
  "PutUUID buf u = (if length buf < 16 then (buf, 0) else (go_copy buf 0 u, 16))"

definition ReadUUID :: "bytes \<Rightarrow> (UUID \<times> nat) res" where
  "ReadUUID buf = (if length buf < 16 then Inl ErrInvalidUUID else Inr (take 16 buf, 16))"

definition UUIDFromInts :: "u64 \<Rightarrow> u64 \<Rightarrow> UUID" where
  "UUIDFromInts msb lsb = go_copy (go_copy (replicate 16 0) 0 (to_be 8 msb)) 8 (to_be 8 lsb)"

definition MSB :: "UUID \<Rightarrow> u64" where
  "MSB u = of_be (take 8 u)"

definition LSB :: "UUID \<Rightarrow> u64" where
  "LSB u = of_be (drop 8 u)"

text \<open>\<open>fmt\<close>'s \<open>%x\<close> of a byte slice prints two lower-case hex digits per byte.\<close>

definition hex_digit :: "nat \<Rightarrow> char" where
  "hex_digit n = ''0123456789abcdef'' ! n"

definition hex_bytes :: "bytes \<Rightarrow> string" where
  "hex_bytes bs = concat (map (\<lambda>b. [hex_digit (unat b div 16), hex_digit (unat b mod 16)]) bs)"

definition UUID_String :: "UUID \<Rightarrow> string" where
  "UUID_String u =
     hex_bytes (slice 0 4 u) @ ''-'' @ hex_bytes (slice 4 6 u) @ ''-'' @ hex_bytes (slice 6 8 u) @
     ''-'' @ hex_bytes (slice 8 10 u) @ ''-'' @ hex_bytes (slice 10 16 u)"

section \<open>The LEB128 encoding\<close>

text \<open>The abstract encoding that the writers produce and the readers invert.\<close>

function leb :: "'a::len word \<Rightarrow> bytes" where
  "leb v = (if 0x80 \<le> unat v then (ucast v OR 0x80) # leb (drop_bit 7 v) else [ucast v])"
  by pat_completeness auto
termination
  by (relation "measure unat") (auto simp: unat_shiftr)

declare put_leb.simps [simp del] read_leb.simps [simp del] leb.simps [simp del]

lemma leb_nonempty [simp]: "leb v \<noteq> []"
  by (subst leb.simps) simp

lemma length_leb_pos [simp]: "0 < length (leb v)"
  by simp

lemma leb_ge1: "1 \<le> length (leb v)"
  using length_leb_pos [of v] by linarith

lemma length_leb_le: "unat v < 2 ^ (7 * k) \<Longrightarrow> 0 < k \<Longrightarrow> length (leb v) \<le> k"
proof (induction v arbitrary: k rule: leb.induct)
  case (1 v)
  show ?case
  proof (cases "0x80 \<le> unat v")
    case True
    with "1.prems" have "k \<noteq> 1" by auto
    with "1.prems" obtain j where k: "k = Suc j" "0 < j" by (cases k) auto
    have "unat (drop_bit 7 v) < 2 ^ (7 * j)"
      using "1.prems"(1) by (simp add: k unat_shiftr power_add less_mult_imp_div_less mult.commute)
    from "1.IH" [OF True this k(2)] show ?thesis
      using True k by (subst leb.simps) simp
  qed (use "1.prems" in \<open>subst leb.simps, simp\<close>)
qed

lemma length_leb_VarInt: "length (leb (v :: u32)) \<le> 5"
proof (rule length_leb_le)
  have "unat v < 2 ^ 32" using unsigned_less [of v] by simp
  then show "unat v < 2 ^ (7 * 5)" by simp
qed simp

lemma length_leb_VarLong: "length (leb (v :: u64)) \<le> 10"
proof (rule length_leb_le)
  have "unat v < 2 ^ 64" using unsigned_less [of v] by simp
  then show "unat v < 2 ^ (7 * 10)" by simp
qed simp

lemma put_leb_eq:
  "i + length (leb v) \<le> length buf \<Longrightarrow> put_leb buf i v = (go_copy buf i (leb v), i + length (leb v))"
proof (induction buf i v rule: put_leb.induct)
  case (1 buf i v)
  have i: "i < length buf"
    using "1.prems" length_leb_pos [of v] by linarith
  show ?case
  proof (cases "0x80 \<le> unat v")
    case True
    have l: "leb v = (ucast v OR 0x80) # leb (drop_bit 7 v)"
      using True by (subst leb.simps) simp
    with "1.prems" "1.IH" True i show ?thesis
      by (subst put_leb.simps) (simp add: go_copy_update)
  next
    case False
    with i show ?thesis
      by (subst put_leb.simps, subst leb.simps)
        (simp add: leb.simps [of v] go_copy_fits list_update_append_take_drop)
  qed
qed

lemma put_leb_small: "length buf < i + length (leb v) \<Longrightarrow> snd (put_leb buf i v) = 0"
proof (induction buf i v rule: put_leb.induct)
  case (1 buf i v)
  then show ?case
    by (subst put_leb.simps) (auto simp: leb.simps [of v] split: if_splits)
qed

lemma length_put_leb [simp]: "length (fst (put_leb buf i v)) = length buf"
proof (induction buf i v rule: put_leb.induct)
  case (1 buf i v)
  then show ?case by (subst put_leb.simps) auto
qed

text \<open>One more group of seven bits.\<close>

lemma leb_group:
  "take_bit (7 * i) w OR push_bit (7 * i) (ucast ((ucast (drop_bit (7 * i) w) OR 0x80 :: byte) AND 0x7F))
     = take_bit (7 * Suc i) (w :: 'a::len word)"
  by (rule bit_word_eqI) (auto simp: bit_simps and_7F bit_80)

lemma leb_last_group:
  assumes "unat (drop_bit (7 * i) w) < 0x80"
  shows "take_bit (7 * i) w OR push_bit (7 * i) (ucast ((ucast (drop_bit (7 * i) w) :: byte) AND 0x7F))
     = (w :: 'a::len word)"
proof (rule bit_word_eqI)
  fix n assume n: "n < LENGTH('a)"
  have "take_bit 7 (drop_bit (7 * i) w) = drop_bit (7 * i) w"
    by (rule take_bit_small) (use assms in simp)
  then have "bit (take_bit 7 (drop_bit (7 * i) w)) (n - 7 * i) = bit (drop_bit (7 * i) w) (n - 7 * i)"
    by simp
  with n show "bit (take_bit (7 * i) w OR
      push_bit (7 * i) (ucast ((ucast (drop_bit (7 * i) w) :: byte) AND 0x7F))) n = bit w n"
    by (auto simp: bit_simps and_7F)
qed

lemma read_leb_leb:
  assumes "drop i buf = leb (drop_bit (7 * i) w) @ rest"
    and "i + length (leb (drop_bit (7 * i) w)) \<le> mx"
  shows "read_leb mx ovf buf i (take_bit (7 * i) w) = Inr (w, i + length (leb (drop_bit (7 * i) w)))"
  using assms
proof (induction "mx - i" arbitrary: i)
  case 0
  then show ?case using length_leb_pos [of "drop_bit (7 * i) w"] by linarith
next
  case (Suc k)
  let ?v = "drop_bit (7 * i) w"
  have i: "i < mx" "i < length buf"
    using Suc.hyps(2) Suc.prems(1) by (auto simp: not_le [symmetric])
  have hd: "buf ! i = hd (leb ?v)" and tl: "drop (Suc i) buf = tl (leb ?v) @ rest"
    using Suc.prems(1) i(2) by (auto simp: hd_drop_conv_nth [symmetric] drop_Suc tl_drop [symmetric])
  show ?case
  proof (cases "0x80 \<le> unat ?v")
    case True
    have l: "leb ?v = (ucast ?v OR 0x80) # leb (drop_bit (7 * Suc i) w)"
      using True by (subst leb.simps) (simp add: add.commute)
    have IH: "read_leb mx ovf buf (Suc i) (take_bit (7 * Suc i) w)
        = Inr (w, Suc i + length (leb (drop_bit (7 * Suc i) w)))"
      by (rule Suc.hyps(1)) (use Suc.hyps(2) Suc.prems(2) tl l in auto)
    have b: "bit (ucast ?v OR 0x80 :: byte) 7" by (simp add: bit_simps bit_80)
    show ?thesis
      by (subst read_leb.simps)
        (use i hd l b IH in \<open>simp add: Let_def leb_group and_80_eq_0 del: mult_Suc_right\<close>)
  next
    case False
    have l: "leb ?v = [ucast ?v]"
      using False by (subst leb.simps) simp
    have "\<not> bit ?v 7"
      by (rule not_bit_small) (use False in simp)
    then have b: "\<not> bit (ucast ?v :: byte) 7" by (simp add: bit_simps)
    show ?thesis
      by (subst read_leb.simps)
        (use i hd l b False in \<open>simp add: Let_def leb_last_group and_80_eq_0\<close>)
  qed
qed

section \<open>VarInt and VarLong\<close>

lemma PutVarInt_eq [codec_simps]:
  "length (leb v) \<le> length buf \<Longrightarrow> PutVarInt buf v = (go_copy buf 0 (leb v), length (leb v))"
  by (simp add: PutVarInt_def put_leb_eq)

lemma PutVarInt_small: "length buf < length (leb v) \<Longrightarrow> snd (PutVarInt buf v) = 0"
  by (simp add: PutVarInt_def put_leb_small)

lemma length_PutVarInt [simp]: "length (fst (PutVarInt buf v)) = length buf"
  by (simp add: PutVarInt_def)

lemma ReadVarInt_leb [codec_simps]: "ReadVarInt (leb v @ rest) = Inr (v, length (leb v))"
  using read_leb_leb [of 0 "leb v @ rest" v rest 5 ErrVarIntOverflow] length_leb_VarInt [of v]
  by (simp add: ReadVarInt_def)

lemma ReadVarLong_leb [codec_simps]: "ReadVarLong (leb v @ rest) = Inr (v, length (leb v))"
  using read_leb_leb [of 0 "leb v @ rest" v rest 10 ErrVarLongOverflow] length_leb_VarLong [of v]
  by (simp add: ReadVarLong_def)

text \<open>The two integer formats as instances of the codec interface.\<close>

definition varint_res :: "bytes \<times> nat \<Rightarrow> bytes \<times> nat res" where
  "varint_res r = (fst r, if snd r = 0 then Inl ErrBufferTooSmall else Inr (snd r))"

interpretation varint: buffer_codec
  "leb :: u32 \<Rightarrow> bytes" ReadVarInt "\<lambda>_. True" "\<lambda>buf v. varint_res (PutVarInt buf v)" "\<lambda>v. length (leb v)"
  by unfold_locales (simp_all add: codec_simps varint_res_def)

interpretation varlong: buffer_codec
  "leb :: u64 \<Rightarrow> bytes" ReadVarLong "\<lambda>_. True" "\<lambda>buf v. varint_res (PutVarLong buf v)" "\<lambda>v. length (leb v)"
  by unfold_locales (simp_all add: codec_simps varint_res_def PutVarLong_def put_leb_eq)

text \<open>What a reader consumes is inside the buffer and inside the format's limit.\<close>

lemma read_leb_bound:
  "read_leb mx ovf buf i val = Inr (v, n) \<Longrightarrow> i < n \<and> n \<le> mx \<and> n \<le> length buf"
proof (induction mx ovf buf i val rule: read_leb.induct)
  case (1 mx ovf buf i val)
  from "1.prems" "1.IH" show ?case
    by (fastforce simp: read_leb.simps [of mx ovf buf i val] Let_def not_le split: if_splits)
qed

lemma read_leb_error:
  "read_leb mx ovf buf i val = Inl e \<Longrightarrow> e = ErrBufferTooSmall \<or> e = ovf"
proof (induction mx ovf buf i val rule: read_leb.induct)
  case (1 mx ovf buf i val)
  from "1.prems" "1.IH" show ?case
    by (fastforce simp: read_leb.simps [of mx ovf buf i val] Let_def not_le split: if_splits)
qed

section \<open>Strings and UUIDs\<close>

lemma be16_string_length:
  "l \<le> maxStringLength \<Longrightarrow> sint (of_nat l :: u16) = int l"
  by (simp add: maxStringLength_def signed_of_nat signed_take_bit_int_eq_self)

definition string_enc :: "bytes \<Rightarrow> bytes" where
  "string_enc s = to_be 2 (of_nat (length s) :: u16) @ s"

lemma ReadString_enc [codec_simps]:
  "length s \<le> maxStringLength \<Longrightarrow> ReadString (string_enc s @ rest) = Inr (s, length (string_enc s))"
  by (simp add: ReadString_def string_enc_def be16_string_length slice_def)

lemma PutString_ok [codec_simps]:
  "length s \<le> maxStringLength \<Longrightarrow> 2 + length s \<le> length buf \<Longrightarrow>
     PutString buf s = (go_copy buf 0 (string_enc s), Inr (2 + length s))"
  by (simp add: PutString_def Let_def string_enc_def go_copy_def)

interpretation string: buffer_codec
  string_enc ReadString "\<lambda>s. length s \<le> maxStringLength" PutString "\<lambda>s. 2 + length s"
  by unfold_locales (simp_all add: codec_simps, simp_all add: string_enc_def)

lemma ReadString_bound: "ReadString buf = Inr (s, n) \<Longrightarrow>
    n = 2 + length s \<and> n \<le> length buf \<and> length s \<le> maxStringLength"
proof -
  have "sint (of_be (take 2 buf) :: u16) < 2 ^ 15"
    using sint_lt [of "of_be (take 2 buf) :: u16"] by simp
  then show "ReadString buf = Inr (s, n) \<Longrightarrow> ?thesis"
    by (auto simp: ReadString_def Let_def maxStringLength_def length_slice split: if_splits)
qed

interpretation uuid: buffer_codec
  "\<lambda>u. u" ReadUUID is_UUID "\<lambda>buf u. varint_res (PutUUID buf u)" "\<lambda>_. 16"
  by unfold_locales (simp_all add: ReadUUID_def is_UUID_def PutUUID_def varint_res_def)

lemma UUIDFromInts_eq: "UUIDFromInts msb lsb = to_be 8 msb @ to_be 8 lsb"
  by (simp add: UUIDFromInts_def go_copy_def)

lemma hex_digit_inj: "a < 16 \<Longrightarrow> b < 16 \<Longrightarrow> hex_digit a = hex_digit b \<Longrightarrow> a = b"
  unfolding hex_digit_def by (subst (asm) nth_eq_iff_index_eq) (simp_all)

lemma hex_bytes_Cons:
  "hex_bytes (b # bs) = hex_digit (unat b div 16) # hex_digit (unat b mod 16) # hex_bytes bs"
  by (simp add: hex_bytes_def)

lemma length_hex_bytes [simp]: "length (hex_bytes bs) = 2 * length bs"
  by (induction bs) (simp_all add: hex_bytes_Cons, simp add: hex_bytes_def)

lemma unat_byte_div: "unat (b :: byte) div 16 < 16"
proof -
  have "unat b < 256" using unsigned_less [of b] by simp
  then show ?thesis by simp
qed

lemma hex_bytes_inj: "hex_bytes xs = hex_bytes ys \<Longrightarrow> xs = ys"
proof (induction xs arbitrary: ys)
  case Nil
  then have "length (hex_bytes ys) = 0" by (metis length_hex_bytes list.size(3) mult_0_right)
  then show ?case by simp
next
  case (Cons x xs)
  then have "length (hex_bytes ys) = 2 * Suc (length xs)" by (metis length_Cons length_hex_bytes)
  then obtain y ys' where ys: "ys = y # ys'" by (cases ys) auto
  with Cons have "unat x div 16 = unat y div 16" "unat x mod 16 = unat y mod 16" "xs = ys'"
    by (auto simp: hex_bytes_Cons unat_byte_div dest!: hex_digit_inj [rotated -1])
  then show ?case using ys by (metis div_mult_mod_eq word_unat_eq_iff)
qed

lemma append_inj_length: "length a = length b \<Longrightarrow> a @ c = b @ d \<Longrightarrow> a = b \<and> c = d"
  by simp

section \<open>The value of an encoding\<close>

text \<open>The unbounded number that a sequence of LEB128 bytes denotes.\<close>

fun leb_value :: "bytes \<Rightarrow> nat" where
  "leb_value [] = 0"
| "leb_value (b # bs) = unat (b AND 0x7F) + 128 * leb_value bs"

lemma leb_value_append: "leb_value (xs @ ys) = leb_value xs + 128 ^ length xs * leb_value ys"
  by (induction xs) (simp_all add: algebra_simps)

lemma unat_and_7F: "unat (b AND 0x7F) < 128" for b :: byte
proof -
  have "unat (b AND 0x7F) = take_bit 7 (unat b)"
    unfolding and_7F by (rule unsigned_take_bit_eq)
  then show ?thesis by (simp add: take_bit_eq_mod)
qed

lemma leb_value_bound: "leb_value bs < 128 ^ length bs"
proof (induction bs)
  case (Cons b bs)
  then have "leb_value bs + 1 \<le> 128 ^ length bs" by simp
  then show ?case using unat_and_7F [of b] by simp
qed simp

lemma or_push_bit_nat: "(a :: nat) < 2 ^ n \<Longrightarrow> a OR push_bit n b = a + 2 ^ n * b"
proof -
  assume "a < 2 ^ n"
  then have "take_bit n a = a" by (simp add: take_bit_nat_eq_self)
  then have "a AND push_bit n b = 0"
    by (intro bit_eqI) (metis bit_0_eq bit_and_iff bit_push_bit_iff bit_take_bit_iff bot_apply bot_bool_def not_le)
  then have "a OR push_bit n b = a + push_bit n b" by (simp add: disjunctive_add bit_eq_iff bit_simps)
  then show ?thesis by (simp add: push_bit_eq_mult mult.commute)
qed

lemma of_nat_or_push_bit:
  "a < 2 ^ n \<Longrightarrow> of_nat a OR push_bit n (of_nat b) = (of_nat (a + 2 ^ n * b) :: 'a::len word)"
  by (metis of_nat_or_eq of_nat_push_bit or_push_bit_nat)

lemma read_leb_value:
  assumes "i \<le> length buf" "val = of_nat (leb_value (take i buf))"
    and "read_leb mx ovf buf i val = Inr (v, n)"
  shows "v = of_nat (leb_value (take n buf))"
  using assms
proof (induction mx ovf buf i val rule: read_leb.induct)
  case (1 mx ovf buf i val)
  from "1.prems"(3) have i: "i < mx" "i < length buf"
    by (auto simp: read_leb.simps [of mx ovf buf i val] split: if_splits)
  let ?b = "buf ! i"
  have "leb_value (take i buf) < 2 ^ (7 * i)"
    using leb_value_bound [of "take i buf"] i by (simp add: power_mult)
  moreover have "leb_value (take (Suc i) buf) = leb_value (take i buf) + 2 ^ (7 * i) * unat (?b AND 0x7F)"
    using i by (simp add: take_Suc_conv_app_nth leb_value_append power_mult)
  ultimately have step: "val OR push_bit (7 * i) (ucast (?b AND 0x7F)) = of_nat (leb_value (take (Suc i) buf))"
    using of_nat_or_push_bit [of "leb_value (take i buf)" "7 * i" "unat (?b AND 0x7F)"] "1.prems"(2)
    by (simp add: of_nat_unat)
  show ?case
    using "1.prems"(3) "1.IH" [OF _ _ refl refl] i step
    by (auto simp: read_leb.simps [of mx ovf buf i val] Let_def not_le split: if_splits)
qed

section \<open>Properties\<close>

text \<open>VarInt round trip: whenever the buffer can hold the encoding, \<open>PutVarInt\<close> reports
  between 1 and 5 bytes, leaves the rest of the buffer unchanged, and \<open>ReadVarInt\<close> on the
  resulting buffer returns the same value and the same byte count; when it cannot, the result
  is 0 bytes.\<close>

theorem varint_roundtrip:
  "if length (leb v) \<le> length buf
   then \<exists>buf' n. PutVarInt buf v = (buf', n) \<and> 1 \<le> n \<and> n \<le> 5 \<and> length buf' = length buf \<and>
          drop n buf' = drop n buf \<and> ReadVarInt buf' = Inr (v, n)
   else snd (PutVarInt buf v) = 0"
proof (cases "length (leb v) \<le> length buf")
  case True
  then obtain buf' n where r: "varint_res (PutVarInt buf v) = (buf', Inr n)"
    "length buf' = length buf" "n \<le> length (leb v)" "ReadVarInt buf' = Inr (v, n)" "drop n buf' = drop n buf"
    using varint.put_then_read [of v buf] by auto
  then have "PutVarInt buf v = (buf', n)" "1 \<le> n"
    by (auto simp: varint_res_def prod_eq_iff split: if_splits)
  with r True show ?thesis using length_leb_VarInt [of v] by auto
qed (simp add: PutVarInt_small)

text \<open>VarLong round trip, with at most 10 bytes.\<close>

lemma varlong_roundtrip:
  "if length (leb v) \<le> length buf
   then \<exists>buf' n. PutVarLong buf v = (buf', n) \<and> 1 \<le> n \<and> n \<le> 10 \<and> length buf' = length buf \<and>
          drop n buf' = drop n buf \<and> ReadVarLong buf' = Inr (v, n)
   else snd (PutVarLong buf v) = 0"
proof (cases "length (leb v) \<le> length buf")
  case True
  then obtain buf' n where r: "varint_res (PutVarLong buf v) = (buf', Inr n)"
    "length buf' = length buf" "n \<le> length (leb v)" "ReadVarLong buf' = Inr (v, n)" "drop n buf' = drop n buf"
    using varlong.put_then_read [of v buf] by auto
  then have "PutVarLong buf v = (buf', n)" "1 \<le> n"
    by (auto simp: varint_res_def prod_eq_iff split: if_splits)
  with r True show ?thesis using length_leb_VarLong [of v] by auto
qed (simp add: PutVarLong_def put_leb_small)

text \<open>What \<open>ReadVarInt\<close> computes on arbitrary input: a success consumed between 1 and 5
  bytes of the buffer and returns the encoded number modulo \<open>2^32\<close> (an encoding of a number
  beyond 32 bits is truncated, not rejected); the only errors are the two the code names.\<close>

theorem varint_reads_value:
  "case ReadVarInt buf of
     Inr (v, n) \<Rightarrow> 1 \<le> n \<and> n \<le> 5 \<and> n \<le> length buf \<and> unat v = leb_value (take n buf) mod 2 ^ 32
   | Inl e \<Rightarrow> e = ErrBufferTooSmall \<or> e = ErrVarIntOverflow"
proof (cases "ReadVarInt buf")
  case (Inl e)
  then show ?thesis
    using read_leb_error [of 5 ErrVarIntOverflow buf 0 "0 :: u32" e] by (simp add: ReadVarInt_def)
next
  case (Inr r)
  obtain v n where r: "r = (v, n)" by (cases r)
  with Inr have rd: "read_leb 5 ErrVarIntOverflow buf 0 (0 :: u32) = Inr (v, n)"
    by (simp add: ReadVarInt_def)
  have "v = of_nat (leb_value (take n buf))"
    by (rule read_leb_value [OF _ _ rd]) simp_all
  then have "unat v = leb_value (take n buf) mod 2 ^ 32"
    by (simp add: unat_of_nat)
  with read_leb_bound [OF rd] Inr r show ?thesis by simp
qed

text \<open>String round trip: a string of at most 32767 bytes that fits is written with its
  length prefix and read back; a longer one is refused with \<open>ErrStringTooLong\<close>, one that does
  not fit with \<open>ErrBufferTooSmall\<close>, and the buffer is then unchanged.\<close>

lemma string_roundtrip:
  "if 32767 < length s then PutString buf s = (buf, Inl ErrStringTooLong)
   else if length buf < 2 + length s then PutString buf s = (buf, Inl ErrBufferTooSmall)
   else \<exists>buf'. PutString buf s = (buf', Inr (2 + length s)) \<and> length buf' = length buf \<and>
          ReadString buf' = Inr (s, 2 + length s) \<and> drop (2 + length s) buf' = drop (2 + length s) buf"
proof (cases "32767 < length s \<or> length buf < 2 + length s")
  case False
  then show ?thesis
    using string.put_then_read [of s buf] PutString_ok [of s buf] by (auto simp: maxStringLength_def)
qed (auto simp: PutString_def Let_def maxStringLength_def)

text \<open>UUIDs: building a UUID from its halves and reading the halves back is the identity
  both ways, and the textual form (36 characters) determines the UUID.\<close>

lemma uuid_halves_and_text:
  "is_UUID (UUIDFromInts msb lsb) \<and> MSB (UUIDFromInts msb lsb) = msb \<and> LSB (UUIDFromInts msb lsb) = lsb \<and>
   (is_UUID u \<longrightarrow> UUIDFromInts (MSB u) (LSB u) = u \<and> length (UUID_String u) = 36) \<and>
   (is_UUID u \<longrightarrow> is_UUID w \<longrightarrow> UUID_String u = UUID_String w \<longrightarrow> u = w)"
proof (intro conjI impI)
  assume u: "is_UUID u"
  then show "UUIDFromInts (MSB u) (LSB u) = u"
    using to_be_of_be [of "take 8 u", where 'a = 64] to_be_of_be [of "drop 8 u", where 'a = 64]
    by (simp add: UUIDFromInts_eq MSB_def LSB_def is_UUID_def)
  from u show "length (UUID_String u) = 36"
    by (simp add: UUID_String_def is_UUID_def length_slice)
  assume w: "is_UUID w" and eq: "UUID_String u = UUID_String w"
  from eq u w have "slice 0 4 u = slice 0 4 w \<and> slice 4 6 u = slice 4 6 w \<and> slice 6 8 u = slice 6 8 w \<and>
      slice 8 10 u = slice 8 10 w \<and> slice 10 16 u = slice 10 16 w"
    unfolding UUID_String_def is_UUID_def
    by (auto simp: length_slice dest!: append_inj_length [rotated] hex_bytes_inj)
  moreover have "slice 0 4 x @ slice 4 6 x @ slice 6 8 x @ slice 8 10 x @ slice 10 16 x = x"
    if "length x = 16" for x :: bytes
    using that by (intro nth_equalityI) (auto simp: slice_def nth_append)
  ultimately show "u = w" using u w by (metis is_UUID_def)
qed (simp_all add: UUIDFromInts_eq is_UUID_def MSB_def LSB_def)

end
