(* ===== verification/Packet.thy ===== *)
theory Packet
  imports Wire
begin

text \<open>
  The packet header of \<open>packet.go\<close>: flags, channel, the two VarInt sequence fields and the
  fixed 32-bit ack bitfield, with \<open>MarshalHeader\<close> and \<open>UnmarshalHeader\<close>.
\<close>

section \<open>Definitions\<close>

definition FlagFragment :: byte where "FlagFragment = 1"
definition FlagControl :: byte where "FlagControl = 2"

record PacketHeader =
  Flags :: byte
  Channel :: byte
  Sequence :: u32
  Ack :: u32
  AckField :: u32

text \<open>\<open>ControlType\<close> is a byte; these are its named values.\<close>

definition ControlConnect :: byte where "ControlConnect = 0x01"
definition ControlChallenge :: byte where "ControlChallenge = 0x02"
definition ControlResponse :: byte where "ControlResponse = 0x03"
definition ControlConnected :: byte where "ControlConnected = 0x04"
definition ControlDisconnect :: byte where "ControlDisconnect = 0x05"
definition ControlHeartbeat :: byte where "ControlHeartbeat = 0x06"
definition ControlVersionMismatch :: byte where "ControlVersionMismatch = 0x07"
definition ControlReject :: byte where "ControlReject = 0x08"
definition ControlMultiAck :: byte where "ControlMultiAck = 0x09"

lemmas control_type_defs =
  ControlConnect_def ControlChallenge_def ControlResponse_def ControlConnected_def
  ControlDisconnect_def ControlHeartbeat_def ControlVersionMismatch_def ControlReject_def
  ControlMultiAck_def

definition MarshalHeader :: "bytes \<Rightarrow> PacketHeader \<Rightarrow> bytes \<times> nat res" where
  "MarshalHeader buf h =
     (if length buf < 8 then (buf, Inl ErrInvalidPacketHeader)
      else
        let buf = buf[0 := Flags h, 1 := Channel h];
            n = 2;
            (sub, w) = PutVarInt (drop n buf) (Sequence h);
            buf = take n buf @ sub;
            n = n + w
        in if length (drop n buf) < 5 + 4 then (buf, Inl ErrInvalidPacketHeader)
           else
             let (sub, w) = PutVarInt (drop n buf) (Ack h);
                 buf = take n buf @ sub;
                 n = n + w
             in if length (drop n buf) < 4 then (buf, Inl ErrInvalidPacketHeader)
                else (go_copy buf n (to_le 4 (AckField h)), Inr (n + 4)))"

definition UnmarshalHeader :: "bytes \<Rightarrow> (PacketHeader \<times> nat) res" where
  "UnmarshalHeader buf =
     (if length buf < 8 then Inl ErrInvalidPacketHeader
      else case ReadVarInt (drop 2 buf) of
        Inl _ \<Rightarrow> Inl ErrInvalidPacketHeader
      | Inr (seq, w) \<Rightarrow>
          let n = 2 + w
          in case ReadVarInt (drop n buf) of
               Inl _ \<Rightarrow> Inl ErrInvalidPacketHeader
             | Inr (ack, w) \<Rightarrow>
                 let n = n + w
                 in if length (drop n buf) < 4 then Inl ErrInvalidPacketHeader
                    else Inr (\<lparr>Flags = buf ! 0, Channel = buf ! 1, Sequence = seq, Ack = ack,
                               AckField = of_le (take 4 (drop n buf))\<rparr>, n + 4))"

section \<open>The encoded header\<close>

definition header_enc :: "PacketHeader \<Rightarrow> bytes" where
  "header_enc h = [Flags h, Channel h] @ leb (Sequence h) @ leb (Ack h) @ to_le 4 (AckField h)"

text \<open>The space \<open>MarshalHeader\<close> insists on: nine bytes after the sequence number.\<close>

definition header_room :: "PacketHeader \<Rightarrow> nat" where
  "header_room h = 2 + length (leb (Sequence h)) + 9"

lemma length_header_enc: "8 \<le> length (header_enc h)" "length (header_enc h) \<le> 16"
    "length (header_enc h) \<le> header_room h"
  using length_leb_VarInt [of "Sequence h"] length_leb_VarInt [of "Ack h"]
    leb_ge1 [of "Sequence h"] leb_ge1 [of "Ack h"]
  unfolding header_enc_def header_room_def by (simp_all del: One_nat_def)

lemma header_room_bounds: "12 \<le> header_room h" "header_room h \<le> 16"
  using length_leb_VarInt [of "Sequence h"] leb_ge1 [of "Sequence h"]
  unfolding header_room_def by linarith+

lemma UnmarshalHeader_enc [codec_simps]:
  "UnmarshalHeader (header_enc h @ rest) = Inr (h, length (header_enc h))"
proof -
  have "8 \<le> length (header_enc h @ rest)"
    using length_header_enc(1) [of h] by simp
  moreover have "drop 2 (header_enc h @ rest) = leb (Sequence h) @ leb (Ack h) @ to_le 4 (AckField h) @ rest"
    by (simp add: header_enc_def)
  moreover have "drop (2 + length (leb (Sequence h))) (header_enc h @ rest)
      = leb (Ack h) @ to_le 4 (AckField h) @ rest"
    by (simp add: header_enc_def)
  moreover have "drop (2 + length (leb (Sequence h)) + length (leb (Ack h))) (header_enc h @ rest)
      = to_le 4 (AckField h) @ rest"
    by (simp add: header_enc_def)
  ultimately show ?thesis
    by (simp add: UnmarshalHeader_def codec_simps Let_def) (simp add: header_enc_def)
qed

lemma MarshalHeader_ok [codec_simps]:
  assumes "header_room h \<le> length buf"
  shows "MarshalHeader buf h = (go_copy buf 0 (header_enc h), Inr (length (header_enc h)))"
proof -
  let ?s = "leb (Sequence h)" and ?a = "leb (Ack h)"
  have len: "length ?s \<le> 5" "length ?a \<le> 5" "11 + length ?s \<le> length buf"
    using assms by (simp_all add: length_leb_VarInt header_room_def)
  obtain b0 b1 tl where buf: "buf = b0 # b1 # tl"
    using len(3) by (cases buf; cases "tl buf") auto
  have P1: "PutVarInt tl (Sequence h) = (?s @ drop (length ?s) tl, length ?s)"
    using len buf by (simp add: PutVarInt_eq go_copy_def)
  have P2: "PutVarInt (drop (length ?s) tl) (Ack h)
      = (?a @ drop (length ?a) (drop (length ?s) tl), length ?a)"
    using len buf by (simp add: PutVarInt_eq go_copy_def)
  let ?b = "[Flags h, Channel h] @ ?s @ ?a @ drop (length ?s + length ?a) tl"
  have "\<not> length tl - length ?s < 9" "\<not> length tl - (length ?a + length ?s) < 4"
    using len buf by simp_all
  then have "MarshalHeader buf h
      = (go_copy ?b (2 + length ?s + length ?a) (to_le 4 (AckField h)), Inr (2 + length ?s + length ?a + 4))"
    using len by (simp add: buf MarshalHeader_def Let_def P1 P2 add.commute)
  moreover have "go_copy ?b (2 + length ?s + length ?a) (to_le 4 (AckField h)) = go_copy buf 0 (header_enc h)"
    using len by (simp add: go_copy_fits buf header_enc_def add.commute drop_Cons')
  ultimately show ?thesis by (simp add: header_enc_def)
qed

lemma MarshalHeader_too_small:
  assumes "length buf < header_room h"
  shows "snd (MarshalHeader buf h) = Inl ErrInvalidPacketHeader"
proof (cases "length buf < 8")
  case False
  have "length (leb (Sequence h)) \<le> length (drop 2 (buf[0 := Flags h, 1 := Channel h]))"
    using False length_leb_VarInt [of "Sequence h"] by simp
  moreover have "length buf - Suc (Suc (length (leb (Sequence h)))) < 9"
    using assms by (simp add: header_room_def)
  ultimately show ?thesis
    using False by (simp add: MarshalHeader_def Let_def PutVarInt_eq)
qed (simp add: MarshalHeader_def)

interpretation header: buffer_codec header_enc UnmarshalHeader "\<lambda>_. True" MarshalHeader header_room
  by unfold_locales (simp_all add: codec_simps length_header_enc)

section \<open>Properties\<close>

text \<open>Header round trip: \<open>MarshalHeader\<close> succeeds exactly when the buffer has nine bytes
  beyond the flags, the channel and the encoded sequence number (at most 16 bytes in all);
  it then writes between 8 and 16 bytes that \<open>UnmarshalHeader\<close> parses back to the same header,
  and it touches nothing behind them.\<close>

theorem header_roundtrip:
  "if header_room h \<le> length buf
   then \<exists>buf' n. MarshalHeader buf h = (buf', Inr n) \<and> 8 \<le> n \<and> n \<le> 16 \<and> length buf' = length buf \<and>
          drop n buf' = drop n buf \<and> UnmarshalHeader buf' = Inr (h, n)
   else snd (MarshalHeader buf h) = Inl ErrInvalidPacketHeader"
  using header.put_then_read [of h buf] MarshalHeader_ok [of h buf] length_header_enc [of h]
  by (auto simp: MarshalHeader_too_small)

text \<open>Parsing is total and stays inside the buffer: \<open>UnmarshalHeader\<close> never fails with
  anything but \<open>ErrInvalidPacketHeader\<close>, and a parsed header took between 8 and 16 bytes that
  are all in the buffer.\<close>

lemma unmarshal_header_bounds:
  "case UnmarshalHeader buf of
     Inl e \<Rightarrow> e = ErrInvalidPacketHeader
   | Inr (h, n) \<Rightarrow> 8 \<le> n \<and> n \<le> 16 \<and> n \<le> length buf \<and> Flags h = buf ! 0 \<and> Channel h = buf ! 1"
proof -
  have rd: "1 \<le> w \<and> w \<le> 5 \<and> w \<le> length b" if "ReadVarInt b = Inr (v, w)" for b v w
    using that read_leb_bound [of 5 ErrVarIntOverflow b 0 0 v w] by (simp add: ReadVarInt_def)
  show ?thesis
    by (auto simp: UnmarshalHeader_def Let_def split: sum.splits dest!: rd)
qed

end
