(* ===== verification/Fragment.thy ===== *)
theory Fragment
  imports Packet
begin

text \<open>
  Fragmentation and reassembly (\<open>fragment.go\<close>): the five-byte fragment header, the splitting
  of a message into at most 255 fragments, and the store of partially received messages with
  its memory caps and its timeout.
\<close>

section \<open>Definitions\<close>

subsection \<open>Fragment header\<close>

definition FragFlagCompressed :: byte where "FragFlagCompressed = 1"
definition FragFlagZstd :: byte where "FragFlagZstd = 2"

record FragmentHeader =
  FragmentID :: u16
  FragmentIndex :: byte
  FragmentCount :: byte
  FragmentFlags :: byte

definition FragmentHeaderSize :: nat where "FragmentHeaderSize = 5"
definition MaxHeaderSize :: nat where "MaxHeaderSize = 16"
definition MaxFragments :: nat where "MaxFragments = 255"
definition DefaultMTU :: nat where "DefaultMTU = 1200"
definition NonceSize :: nat where "NonceSize = 8"
definition TagSize :: nat where "TagSize = 16"
definition WireOverhead :: nat where "WireOverhead = NonceSize + TagSize"

definition MaxFragmentPayload :: nat where
  "MaxFragmentPayload = DefaultMTU - WireOverhead - MaxHeaderSize - FragmentHeaderSize"

definition second :: duration where "second = 1000000000"

definition DefaultFragmentTimeout :: duration where
  "DefaultFragmentTimeout = 5 * second"

lemmas size_defs = FragmentHeaderSize_def MaxHeaderSize_def MaxFragments_def DefaultMTU_def
  NonceSize_def TagSize_def WireOverhead_def MaxFragmentPayload_def

definition MarshalFragmentHeader :: "bytes \<Rightarrow> FragmentHeader \<Rightarrow> bytes \<times> nat res" where
  "MarshalFragmentHeader buf h =
     (if length buf < FragmentHeaderSize then (buf, Inl ErrInvalidFragmentHeader)
      else ((go_copy buf 0 (to_be 2 (FragmentID h)))
              [2 := FragmentIndex h, 3 := FragmentCount h, 4 := FragmentFlags h],
            Inr FragmentHeaderSize))"

definition UnmarshalFragmentHeader :: "bytes \<Rightarrow> (FragmentHeader \<times> nat) res" where
  "UnmarshalFragmentHeader buf =
     (if length buf < FragmentHeaderSize then Inl ErrInvalidFragmentHeader
      else Inr (\<lparr>FragmentID = of_be (take 2 buf), FragmentIndex = buf ! 2,
                 FragmentCount = buf ! 3, FragmentFlags = buf ! 4\<rparr>, FragmentHeaderSize))"

subsection \<open>Splitting\<close>

text \<open>
  The loop of \<open>splitMessage\<close> cuts its fragment buffers out of one zeroed backing array at
  consecutive offsets, so the buffers are disjoint and each is a fresh zeroed slice here.
\<close>

definition fragmentCount :: "bytes \<Rightarrow> nat" where
  "fragmentCount payload =
     (if MaxFragmentPayload < length payload
      then (length payload + MaxFragmentPayload - 1) div MaxFragmentPayload else 1)"

definition splitFragment :: "bytes \<Rightarrow> u16 \<Rightarrow> byte \<Rightarrow> nat \<Rightarrow> nat \<Rightarrow> bytes res" where
  "splitFragment payload fragmentID flags count i =
     (let start = i * MaxFragmentPayload;
          end = min (start + MaxFragmentPayload) (length payload);
          fragSize = FragmentHeaderSize + (end - start);
          h = \<lparr>FragmentID = fragmentID, FragmentIndex = of_nat i, FragmentCount = of_nat count,
               FragmentFlags = flags\<rparr>
      in case MarshalFragmentHeader (replicate fragSize 0) h of
           (_, Inl e) \<Rightarrow> Inl e
         | (buf, Inr _) \<Rightarrow> Inr (go_copy buf FragmentHeaderSize (slice start end payload)))"

definition splitMessage :: "bytes \<Rightarrow> u16 \<Rightarrow> byte \<Rightarrow> bytes list res" where
  "splitMessage payload fragmentID flags =
     (let n = fragmentCount payload
      in if MaxFragments < n then Inl ErrMessageTooLarge
         else map_res (splitFragment payload fragmentID flags n) [0..<n])"

subsection \<open>Reassembly store\<close>

text \<open>In \<open>rb_fragments\<close>, \<open>None\<close> is a nil slice: the fragment has not been received.\<close>

record reassemblyBuffer =
  rb_fragments :: "bytes option list"
  rb_received :: nat
  rb_count :: nat
  rb_flags :: byte
  rb_totalBytes :: nat
  rb_createdAt :: time

record reassemblyStore =
  rs_buffers :: "(u16, reassemblyBuffer) gomap"
  rs_fragmentTimeout :: duration
  rs_maxBuffers :: int
  rs_maxBytes :: int
  rs_totalBytes :: int

definition newReassemblyStore :: "duration \<Rightarrow> int \<Rightarrow> int \<Rightarrow> reassemblyStore" where
  "newReassemblyStore timeout maxBuffers maxBytes =
     \<lparr>rs_buffers = [], rs_fragmentTimeout = timeout, rs_maxBuffers = maxBuffers,
      rs_maxBytes = maxBytes, rs_totalBytes = 0\<rparr>"

text \<open>Deleting a buffer together with its share of the byte count.\<close>

definition dropBuffer :: "reassemblyStore \<Rightarrow> u16 \<Rightarrow> reassemblyBuffer \<Rightarrow> reassemblyStore" where
  "dropBuffer s k buf =
     s\<lparr>rs_totalBytes := rs_totalBytes s - int (rb_totalBytes buf),
       rs_buffers := AList.delete k (rs_buffers s)\<rparr>"

text \<open>Lines 177-183: the buffer of this fragment id, after evicting a stale one.\<close>

definition lookupFresh :: "time \<Rightarrow> reassemblyStore \<Rightarrow> u16 \<Rightarrow> reassemblyStore \<times> reassemblyBuffer option" where
  "lookupFresh now s k =
     (case map_of (rs_buffers s) k of
        None \<Rightarrow> (s, None)
      | Some buf \<Rightarrow>
          if 0 < rs_fragmentTimeout s \<and> rs_fragmentTimeout s \<le> now - rb_createdAt buf
          then (dropBuffer s k buf, None)
          else (s, Some buf))"

text \<open>Lines 202-231: store the fragment in \<open>buf\<close>, and assemble when it was the last one.\<close>

definition storeFragment ::
    "reassemblyStore \<Rightarrow> reassemblyBuffer \<Rightarrow> FragmentHeader \<Rightarrow> bytes \<Rightarrow> reassemblyStore \<times> bytes option" where
  "storeFragment s buf fh payload =
     (let buf = buf\<lparr>rb_fragments := (rb_fragments buf)[unat (FragmentIndex fh) := Some payload],
                   rb_received := rb_received buf + 1,
                   rb_totalBytes := rb_totalBytes buf + length payload\<rparr>;
          s = s\<lparr>rs_buffers := AList.update (FragmentID fh) buf (rs_buffers s),
                rs_totalBytes := rs_totalBytes s + int (length payload)\<rparr>
      in if rb_received buf < rb_count buf then (s, None)
         else (dropBuffer s (FragmentID fh) buf,
               Some (go_copy (replicate (rb_totalBytes buf) 0) 0
                       (concat (map (case_option [] id) (rb_fragments buf))))))"

text \<open>Lines 203-208: the buffer created for the first fragment of a message.\<close>

definition newBuffer :: "time \<Rightarrow> FragmentHeader \<Rightarrow> reassemblyBuffer" where
  "newBuffer now fh =
     \<lparr>rb_fragments = replicate (unat (FragmentCount fh)) None, rb_received = 0,
      rb_count = unat (FragmentCount fh), rb_flags = FragmentFlags fh, rb_totalBytes = 0,
      rb_createdAt = now\<rparr>"

text \<open>
  \<open>Inr None\<close> is \<open>(nil, false, nil)\<close>: the message is not complete (or the fragment was dropped);
  \<open>Inr (Some m)\<close> is \<open>(m, true, nil)\<close>.
\<close>

definition addFragment ::
    "time \<Rightarrow> reassemblyStore \<Rightarrow> FragmentHeader \<Rightarrow> bytes \<Rightarrow> reassemblyStore \<times> bytes option res" where
  "addFragment now s fh payload =
     (if FragmentCount fh = 0 then (s, Inl ErrInvalidFragmentHeader)
      else if FragmentCount fh \<le> FragmentIndex fh then (s, Inl ErrInvalidFragmentHeader)
      else
        let (s, found) = lookupFresh now s (FragmentID fh)
        in case found of
             Some buf \<Rightarrow>
               if rb_count buf \<noteq> unat (FragmentCount fh) \<or> rb_flags buf \<noteq> FragmentFlags fh
               then (s, Inl ErrInvalidFragmentHeader)
               else if rb_fragments buf ! unat (FragmentIndex fh) \<noteq> None then (s, Inr None)
               else if 0 < rs_maxBytes s \<and> rs_maxBytes s < rs_totalBytes s + int (length payload)
               then (s, Inr None)
               else map_prod id Inr (storeFragment s buf fh payload)
           | None \<Rightarrow>
               if 0 < rs_maxBuffers s \<and> rs_maxBuffers s \<le> int (length (rs_buffers s)) then (s, Inr None)
               else if 0 < rs_maxBytes s \<and> rs_maxBytes s < rs_totalBytes s + int (length payload)
               then (s, Inr None)
               else map_prod id Inr (storeFragment s (newBuffer now fh) fh payload))"

text \<open>\<open>cleanup\<close> visits every entry once; the result does not depend on the order.\<close>

definition expired :: "time \<Rightarrow> duration \<Rightarrow> reassemblyBuffer \<Rightarrow> bool" where
  "expired now timeout buf \<longleftrightarrow> timeout \<le> now - rb_createdAt buf"

definition cleanupEntry ::
    "time \<Rightarrow> duration \<Rightarrow> u16 \<times> reassemblyBuffer \<Rightarrow> reassemblyStore \<times> nat \<Rightarrow> reassemblyStore \<times> nat" where
  "cleanupEntry now timeout e r =
     (case (e, r) of ((k, buf), (s, removed)) \<Rightarrow>
        if expired now timeout buf then (dropBuffer s k buf, removed + 1) else (s, removed))"

definition reassembly_cleanup :: "time \<Rightarrow> duration \<Rightarrow> reassemblyStore \<Rightarrow> reassemblyStore \<times> nat" where
  "reassembly_cleanup now timeout s = fold (cleanupEntry now timeout) (rs_buffers s) (s, 0)"

definition reassembly_reset :: "reassemblyStore \<Rightarrow> reassemblyStore" where
  "reassembly_reset s = s\<lparr>rs_buffers := [], rs_totalBytes := 0\<rparr>"

definition reassembly_pending :: "reassemblyStore \<Rightarrow> nat" where
  "reassembly_pending s = length (rs_buffers s)"

definition reassembly_bytes :: "reassemblyStore \<Rightarrow> int" where
  "reassembly_bytes s = rs_totalBytes s"

section \<open>The fragment header codec\<close>

definition frag_header_enc :: "FragmentHeader \<Rightarrow> bytes" where
  "frag_header_enc h = to_be 2 (FragmentID h) @ [FragmentIndex h, FragmentCount h, FragmentFlags h]"

lemma length_frag_header_enc [simp]: "length (frag_header_enc h) = 5"
  by (simp add: frag_header_enc_def)

lemma UnmarshalFragmentHeader_enc [codec_simps]:
  "UnmarshalFragmentHeader (frag_header_enc h @ rest) = Inr (h, 5)"
  by (simp add: UnmarshalFragmentHeader_def frag_header_enc_def FragmentHeaderSize_def nth_append)

lemma MarshalFragmentHeader_ok [codec_simps]:
  assumes "5 \<le> length buf"
  shows "MarshalFragmentHeader buf h = (go_copy buf 0 (frag_header_enc h), Inr 5)"
proof -
  obtain a b c d e tl where "buf = a # b # c # d # e # tl"
    using assms by (auto simp: numeral_eq_Suc Suc_le_length_iff)
  then show ?thesis
    using assms by (simp add: MarshalFragmentHeader_def frag_header_enc_def FragmentHeaderSize_def go_copy_def
        list_update_append)
qed

interpretation frag_header: buffer_codec
  frag_header_enc UnmarshalFragmentHeader "\<lambda>_. True" MarshalFragmentHeader "\<lambda>_. 5"
  by unfold_locales (simp_all add: codec_simps)

section \<open>Splitting covers the message\<close>

lemma MaxFragmentPayload_val: "MaxFragmentPayload = 1155"
  by (simp add: size_defs)

definition chunk :: "bytes \<Rightarrow> nat \<Rightarrow> bytes" where
  "chunk payload i = take MaxFragmentPayload (drop (i * MaxFragmentPayload) payload)"

definition frag_hdr :: "u16 \<Rightarrow> byte \<Rightarrow> nat \<Rightarrow> nat \<Rightarrow> FragmentHeader" where
  "frag_hdr k flags n i =
     \<lparr>FragmentID = k, FragmentIndex = of_nat i, FragmentCount = of_nat n, FragmentFlags = flags\<rparr>"

lemma splitFragment_eq:
  "splitFragment payload k flags n i = Inr (frag_header_enc (frag_hdr k flags n i) @ chunk payload i)"
proof -
  have "min (i * MaxFragmentPayload + MaxFragmentPayload) (length payload) - i * MaxFragmentPayload
      = length (chunk payload i)"
    by (auto simp: chunk_def min_def)
  moreover have "slice (i * MaxFragmentPayload)
      (min (i * MaxFragmentPayload + MaxFragmentPayload) (length payload)) payload = chunk payload i"
    by (auto simp: slice_def chunk_def min_def)
  ultimately show ?thesis
    by (simp add: splitFragment_def Let_def FragmentHeaderSize_def MarshalFragmentHeader_ok frag_hdr_def
        go_copy_def)
qed

lemma concat_chunks: "concat (map (chunk payload) [0..<n]) = take (n * MaxFragmentPayload) payload"
proof (induction n)
  case (Suc n)
  have "take (Suc n * MaxFragmentPayload) payload
      = take (n * MaxFragmentPayload) payload @ take MaxFragmentPayload (drop (n * MaxFragmentPayload) payload)"
    by (metis add.commute mult_Suc take_add)
  with Suc show ?case by (simp add: chunk_def)
qed simp

lemma fragmentCount_covers: "length payload \<le> fragmentCount payload * MaxFragmentPayload"
  unfolding fragmentCount_def MaxFragmentPayload_val by auto

lemma fragmentCount_ge1: "1 \<le> fragmentCount payload"
  unfolding fragmentCount_def MaxFragmentPayload_val by auto

lemma fragmentCount_le: "fragmentCount payload \<le> MaxFragments \<longleftrightarrow> length payload \<le> 255 * 1155"
  unfolding fragmentCount_def MaxFragmentPayload_val MaxFragments_def by auto

lemma fragmentCount_minimal: "1 < fragmentCount payload \<Longrightarrow> (fragmentCount payload - 1) * 1155 < length payload"
  unfolding fragmentCount_def MaxFragmentPayload_val by (auto split: if_splits)

lemma splitMessage_eq:
  "splitMessage payload k flags =
     (if length payload \<le> 255 * 1155
      then Inr (map (\<lambda>i. frag_header_enc (frag_hdr k flags (fragmentCount payload) i) @ chunk payload i)
                  [0..<fragmentCount payload])
      else Inl ErrMessageTooLarge)"
  using fragmentCount_le [of payload]
  by (auto simp: splitMessage_def Let_def splitFragment_eq map_res_ok)

section \<open>The invariant of the reassembly store\<close>

definition fragLen :: "bytes option \<Rightarrow> nat" where
  "fragLen f = (case f of None \<Rightarrow> 0 | Some d \<Rightarrow> length d)"

lemma fragLen_simps [simp]: "fragLen None = 0" "fragLen (Some d) = length d"
  by (simp_all add: fragLen_def)

definition receivedCount :: "bytes option list \<Rightarrow> nat" where
  "receivedCount fs = length (filter (\<lambda>f. f \<noteq> None) fs)"

definition rb_consistent :: "reassemblyBuffer \<Rightarrow> bool" where
  "rb_consistent b \<longleftrightarrow>
     length (rb_fragments b) = rb_count b \<and> 1 \<le> rb_count b \<and> rb_count b \<le> 255 \<and>
     rb_received b = receivedCount (rb_fragments b) \<and>
     rb_totalBytes b = sum_list (map fragLen (rb_fragments b))"

definition wf_buffer :: "reassemblyBuffer \<Rightarrow> bool" where
  "wf_buffer b \<longleftrightarrow> rb_consistent b \<and> rb_received b < rb_count b"

definition wf_store :: "reassemblyStore \<Rightarrow> bool" where
  "wf_store s \<longleftrightarrow>
     wf_map (rs_buffers s) \<and> (\<forall>(k, b) \<in> set (rs_buffers s). wf_buffer b) \<and>
     rs_totalBytes s = (\<Sum>(k, b)\<leftarrow>rs_buffers s. int (rb_totalBytes b)) \<and>
     (0 < rs_maxBuffers s \<longrightarrow> int (length (rs_buffers s)) \<le> rs_maxBuffers s) \<and>
     (0 < rs_maxBytes s \<longrightarrow> rs_totalBytes s \<le> rs_maxBytes s)"

lemma filter_update_received:
  "i < length fs \<Longrightarrow> fs ! i = None \<Longrightarrow>
     receivedCount (fs[i := Some d]) = Suc (receivedCount fs)"
  unfolding receivedCount_def
  by (induction fs arbitrary: i) (auto split: nat.splits simp: nth_Cons')

lemma sum_update_received:
  "i < length fs \<Longrightarrow> fs ! i = None \<Longrightarrow>
     sum_list (map fragLen (fs[i := Some d])) = sum_list (map fragLen fs) + length d"
  by (induction fs arbitrary: i) (auto split: nat.splits simp: nth_Cons')

lemma sum_list_int_nonneg: "0 \<le> (\<Sum>(k, b)\<leftarrow>m. int (f b))"
  by (induction m) auto

lemma wf_store_get: "wf_store s \<Longrightarrow> map_of (rs_buffers s) k = Some b \<Longrightarrow> wf_buffer b"
  by (auto simp: wf_store_def dest: map_of_SomeD)

lemma sum_delete_le:
  "wf_map m \<Longrightarrow> map_of m k = Some v \<Longrightarrow> (\<Sum>(x, b)\<leftarrow>AList.delete k m. int (f b)) \<le> (\<Sum>(x, b)\<leftarrow>m. int (f b))"
  using sum_delete [of m k v "\<lambda>b. int (f b)"] by simp

lemma wf_store_drop:
  assumes "wf_store s" "map_of (rs_buffers s) k = Some b"
  shows "wf_store (dropBuffer s k b)"
proof -
  have "length (AList.delete k (rs_buffers s)) \<le> length (rs_buffers s)"
    by (rule length_delete_le)
  then show ?thesis
    using assms sum_delete [of "rs_buffers s" k b "\<lambda>b. int (rb_totalBytes b)"]
      set_delete_subset [of k "rs_buffers s"]
    by (fastforce simp: wf_store_def dropBuffer_def)
qed

lemma lookupFresh_wf:
  assumes "wf_store s" "lookupFresh now s k = (s', found)"
  shows "wf_store s'" "map_of (rs_buffers s') k = found"
    "rs_maxBytes s' = rs_maxBytes s" "rs_maxBuffers s' = rs_maxBuffers s"
    "rs_fragmentTimeout s' = rs_fragmentTimeout s"
  using assms
  by (auto simp: lookupFresh_def wf_store_drop split: option.splits if_splits)
    (auto simp: dropBuffer_def delete_conv)

lemma storeFragment_wf:
  assumes wf: "wf_store s"
    and buf: "rb_consistent b" "rb_fragments b ! unat (FragmentIndex fh) = None"
      "unat (FragmentIndex fh) < rb_count b"
    and entry: "map_of (rs_buffers s) (FragmentID fh) = Some b \<or>
      map_of (rs_buffers s) (FragmentID fh) = None \<and> rb_totalBytes b = 0 \<and>
      (0 < rs_maxBuffers s \<longrightarrow> int (length (rs_buffers s)) < rs_maxBuffers s)"
    and cap: "0 < rs_maxBytes s \<Longrightarrow> rs_totalBytes s + int (length payload) \<le> rs_maxBytes s"
  shows "wf_store (fst (storeFragment s b fh payload))"
proof -
  let ?k = "FragmentID fh" and ?i = "unat (FragmentIndex fh)"
  define b' where "b' = b\<lparr>rb_fragments := (rb_fragments b)[?i := Some payload],
      rb_received := rb_received b + 1, rb_totalBytes := rb_totalBytes b + length payload\<rparr>"
  define s' where "s' = s\<lparr>rs_buffers := AList.update ?k b' (rs_buffers s),
      rs_totalBytes := rs_totalBytes s + int (length payload)\<rparr>"
  have b': "rb_consistent b'"
    using buf by (simp add: b'_def rb_consistent_def filter_update_received sum_update_received)
  have wfm: "wf_map (rs_buffers s)" and wfb: "\<forall>(k, b) \<in> set (rs_buffers s). wf_buffer b"
    using wf by (simp_all add: wf_store_def)
  have total: "rs_totalBytes s' = (\<Sum>(k, b)\<leftarrow>rs_buffers s'. int (rb_totalBytes b))"
    using wf entry sum_update_old [OF wfm, of ?k b "\<lambda>b. int (rb_totalBytes b)" b']
    by (auto simp: s'_def wf_store_def update_new) (simp_all add: b'_def)
  have room: "0 < rs_maxBuffers s \<longrightarrow> int (length (rs_buffers s')) \<le> rs_maxBuffers s"
    using wf entry by (auto simp: s'_def wf_store_def length_update_new length_update_old)
  show ?thesis
  proof (cases "rb_received b' < rb_count b'")
    case True
    have "\<forall>(k, b) \<in> set (rs_buffers s'). wf_buffer b"
      using wfb True b' set_alist_update [of ?k b' "rs_buffers s"]
      by (fastforce simp: s'_def wf_buffer_def)
    then have "wf_store s'"
      using wfm total room cap by (simp add: wf_store_def) (simp add: s'_def)
    with True show ?thesis
      unfolding storeFragment_def Let_def b'_def [symmetric] s'_def [symmetric] by simp
  next
    case False
    have eq: "fst (storeFragment s b fh payload) = dropBuffer s ?k b"
      using False unfolding storeFragment_def Let_def b'_def [symmetric]
      by (simp add: dropBuffer_def delete_update_same) (simp add: b'_def)
    from entry show ?thesis
    proof
      assume "map_of (rs_buffers s) ?k = Some b"
      from wf_store_drop [OF wf this] show ?thesis by (simp add: eq)
    next
      assume "map_of (rs_buffers s) ?k = None \<and> rb_totalBytes b = 0 \<and>
        (0 < rs_maxBuffers s \<longrightarrow> int (length (rs_buffers s)) < rs_maxBuffers s)"
      then show ?thesis using wf by (simp add: eq dropBuffer_def delete_absent)
    qed
  qed
qed

lemma unat_index_less: "\<not> FragmentCount fh \<le> FragmentIndex fh \<Longrightarrow>
    unat (FragmentIndex fh) < unat (FragmentCount fh)"
  by (simp add: word_less_nat_alt not_le)

lemma unat_byte_le: "unat (b :: byte) \<le> 255"
proof -
  have "unat b < 256" using unsigned_less [of b] by simp
  then show ?thesis by simp
qed

lemma newBuffer_consistent: "FragmentCount fh \<noteq> 0 \<Longrightarrow> rb_consistent (newBuffer now fh)"
  using unat_byte_le [of "FragmentCount fh"]
  by (simp add: newBuffer_def rb_consistent_def receivedCount_def Suc_le_eq unat_gt_0)

lemma addFragment_wf [inv_intros]:
  assumes "wf_store s"
  shows "wf_store (fst (addFragment now s fh payload))"
proof (cases "FragmentCount fh = 0 \<or> FragmentCount fh \<le> FragmentIndex fh")
  case False
  obtain s' found where lf: "lookupFresh now s (FragmentID fh) = (s', found)"
    by (cases "lookupFresh now s (FragmentID fh)")
  note l = lookupFresh_wf [OF assms lf]
  have idx: "unat (FragmentIndex fh) < unat (FragmentCount fh)"
    using False by (simp add: unat_index_less)
  show ?thesis
  proof (cases found)
    case None
    have "wf_store (fst (storeFragment s' (newBuffer now fh) fh payload))"
      if "0 < rs_maxBuffers s' \<longrightarrow> int (length (rs_buffers s')) < rs_maxBuffers s'"
        "0 < rs_maxBytes s' \<longrightarrow> rs_totalBytes s' + int (length payload) \<le> rs_maxBytes s'"
      by (rule storeFragment_wf [OF l(1)])
        (use that None False l idx in \<open>auto simp: newBuffer_consistent, auto simp: newBuffer_def\<close>)
    with None False l show ?thesis
      by (auto simp: addFragment_def lf not_le)
  next
    case (Some b)
    then have b: "wf_buffer b" using l by (blast intro: wf_store_get)
    have "wf_store (fst (storeFragment s' b fh payload))"
      if "rb_count b = unat (FragmentCount fh)" "rb_fragments b ! unat (FragmentIndex fh) = None"
        "0 < rs_maxBytes s' \<longrightarrow> rs_totalBytes s' + int (length payload) \<le> rs_maxBytes s'"
      by (rule storeFragment_wf [OF l(1)])
        (use that Some b l idx in \<open>auto simp: wf_buffer_def\<close>)
    with Some False l show ?thesis
      by (auto simp: addFragment_def lf not_le not_less)
  qed
qed (auto simp: addFragment_def assms)

lemma reassembly_reset_wf [inv_intros]: "wf_store s \<Longrightarrow> wf_store (reassembly_reset s)"
  by (simp add: wf_store_def reassembly_reset_def)

lemma newReassemblyStore_wf: "wf_store (newReassemblyStore t mb my)"
  by (simp add: wf_store_def newReassemblyStore_def)

text \<open>The effect of \<open>cleanup\<close>: exactly the expired buffers go.\<close>

lemma cleanup_fold:
  assumes "wf_store s" "distinct (map fst es)" "\<forall>(k, b) \<in> set es. map_of (rs_buffers s) k = Some b"
  shows "wf_store (fst (fold (cleanupEntry now t) es (s, r))) \<and>
    snd (fold (cleanupEntry now t) es (s, r)) = r + length (filter (\<lambda>(k, b). expired now t b) es) \<and>
    rs_buffers (fst (fold (cleanupEntry now t) es (s, r)))
      = filter (\<lambda>(k, b). k \<notin> fst ` {e \<in> set es. expired now t (snd e)}) (rs_buffers s)"
  using assms
proof (induction es arbitrary: s r)
  case Nil
  then show ?case by simp
next
  case (Cons e es)
  obtain k b where e: "e = (k, b)" by (cases e)
  show ?case
  proof (cases "expired now t b")
    case True
    have wf: "wf_store (dropBuffer s k b)"
      by (rule wf_store_drop) (use Cons.prems e in auto)
    have "\<forall>(k', b') \<in> set es. map_of (rs_buffers (dropBuffer s k b)) k' = Some b'"
      using Cons.prems(2,3) e by (force simp: dropBuffer_def delete_conv image_iff)
    with wf Cons.IH [of "dropBuffer s k b" "Suc r"] Cons.prems(2) e
    have IH: "wf_store (fst (fold (cleanupEntry now t) es (dropBuffer s k b, Suc r))) \<and>
      snd (fold (cleanupEntry now t) es (dropBuffer s k b, Suc r))
        = Suc r + length (filter (\<lambda>(k, b). expired now t b) es) \<and>
      rs_buffers (fst (fold (cleanupEntry now t) es (dropBuffer s k b, Suc r)))
        = filter (\<lambda>(k', b). k' \<notin> fst ` {e \<in> set es. expired now t (snd e)})
            (filter (\<lambda>(k', b). k \<noteq> k') (rs_buffers s))"
      by (simp add: dropBuffer_def AList.delete_eq)
    have "cleanupEntry now t e (s, r) = (dropBuffer s k b, Suc r)"
      using True e by (simp add: cleanupEntry_def)
    moreover have "filter (\<lambda>(k', b). k' \<notin> fst ` {e \<in> set es. expired now t (snd e)})
            (filter (\<lambda>(k', b). k \<noteq> k') (rs_buffers s))
        = filter (\<lambda>(k', b). k' \<notin> fst ` {x \<in> set (e # es). expired now t (snd x)}) (rs_buffers s)"
    proof -
      have "fst ` {x \<in> set (e # es). expired now t (snd x)}
          = insert k (fst ` {x \<in> set es. expired now t (snd x)})"
        using True e by force
      then show ?thesis by (auto intro!: filter_cong)
    qed
    ultimately show ?thesis using IH True e by simp
  next
    case False
    then have "cleanupEntry now t e (s, r) = (s, r)"
      using e by (simp add: cleanupEntry_def)
    moreover have "{x \<in> set (e # es). expired now t (snd x)} = {x \<in> set es. expired now t (snd x)}"
      using False e by auto
    ultimately show ?thesis using Cons.IH [of s r] Cons.prems e False by (simp only: fold_simps) auto
  qed
qed

lemma cleanup_effect:
  assumes "wf_store s"
  shows "rs_buffers (fst (reassembly_cleanup now t s)) = filter (\<lambda>(k, b). \<not> expired now t b) (rs_buffers s)"
    and "snd (reassembly_cleanup now t s) = length (filter (\<lambda>(k, b). expired now t b) (rs_buffers s))"
    and "wf_store (fst (reassembly_cleanup now t s))"
proof -
  have d: "distinct (map fst (rs_buffers s))"
    using assms by (simp add: wf_store_def wf_map_def)
  then have "\<forall>(k, b) \<in> set (rs_buffers s). map_of (rs_buffers s) k = Some b"
    by auto
  note c = cleanup_fold [OF assms d this, of now t 0]
  have "e \<in> set (rs_buffers s) \<Longrightarrow>
      fst e \<in> fst ` {e \<in> set (rs_buffers s). expired now t (snd e)} \<longleftrightarrow> expired now t (snd e)" for e
    using d by (auto simp: distinct_map inj_on_def)
  then have "filter (\<lambda>(k, b). k \<notin> fst ` {e \<in> set (rs_buffers s). expired now t (snd e)}) (rs_buffers s)
      = filter (\<lambda>(k, b). \<not> expired now t b) (rs_buffers s)"
    by (intro filter_cong refl) (simp add: case_prod_beta)
  with c show "rs_buffers (fst (reassembly_cleanup now t s)) = filter (\<lambda>(k, b). \<not> expired now t b) (rs_buffers s)"
    "snd (reassembly_cleanup now t s) = length (filter (\<lambda>(k, b). expired now t b) (rs_buffers s))"
    "wf_store (fst (reassembly_cleanup now t s))"
    by (simp_all add: reassembly_cleanup_def)
qed

text \<open>The limits of a store never change.\<close>

definition rs_limits :: "reassemblyStore \<Rightarrow> duration \<times> int \<times> int" where
  "rs_limits s = (rs_fragmentTimeout s, rs_maxBuffers s, rs_maxBytes s)"

lemma rs_limits_drop [simp]: "rs_limits (dropBuffer s k b) = rs_limits s"
  by (simp add: rs_limits_def dropBuffer_def)

lemma rs_limits_store [simp]: "rs_limits (fst (storeFragment s b fh p)) = rs_limits s"
  by (simp add: storeFragment_def Let_def) (simp add: rs_limits_def)

lemma rs_limits_lookup [simp]: "rs_limits (fst (lookupFresh now s k)) = rs_limits s"
  by (simp add: lookupFresh_def split: option.split)

lemma rs_limits_addFragment [simp]: "rs_limits (fst (addFragment now s fh p)) = rs_limits s"
proof -
  obtain s' found where lf: "lookupFresh now s (FragmentID fh) = (s', found)"
    by (cases "lookupFresh now s (FragmentID fh)")
  then have "rs_limits s' = rs_limits s"
    using rs_limits_lookup [of now s "FragmentID fh"] by simp
  then show ?thesis by (simp add: addFragment_def lf split: option.split)
qed

lemma rs_limits_cleanup_fold: "rs_limits (fst (fold (cleanupEntry now t) es (s, r))) = rs_limits s"
  by (induction es arbitrary: s r) (auto simp: cleanupEntry_def)

text \<open>Everything that happens to a store, as events.\<close>

datatype store_event =
    FragmentArrives time FragmentHeader bytes
  | CleanupAt time duration
  | ResetStore

fun store_step :: "store_event \<Rightarrow> reassemblyStore \<Rightarrow> reassemblyStore" where
  "store_step (FragmentArrives now fh payload) s = fst (addFragment now s fh payload)"
| "store_step (CleanupAt now timeout) s = fst (reassembly_cleanup now timeout s)"
| "store_step ResetStore s = reassembly_reset s"

interpretation store: invariant_machine store_step wf_store
proof
  show "wf_store (store_step e s)" if "wf_store s" for s e
    using that by (cases e) (auto intro: inv_intros simp: cleanup_effect)
qed

interpretation store_limits: invariant_machine store_step "\<lambda>s. rs_limits s = l" for l
proof
  show "rs_limits (store_step e s) = l" if "rs_limits s = l" for s e
    using that by (cases e) (auto simp: reassembly_cleanup_def rs_limits_cleanup_fold,
        simp add: rs_limits_def reassembly_reset_def)
qed

end
