(* ===== verification/Cipher.thy ===== *)
theory Cipher
  imports Replay Fragment
begin

text \<open>
  Packet encryption (\<open>crypto/cipher.go\<close>, \<open>crypto/keys.go\<close>): the construction of a cipher state,
  \<open>Encrypt\<close> with its nonce counter, \<open>Decrypt\<close> with its replay check, and the derivation of the
  two directional keys.

  The primitives are parameters: an AEAD is a pair of functions, and \<open>crypto_lib\<close> collects the
  constructors and the key-agreement functions of the Go standard library and of
  \<open>golang.org/x/crypto\<close>. Private and public X25519 keys are their 32-byte encodings.
\<close>

section \<open>Definitions\<close>

record aead =
  Seal :: "bytes \<Rightarrow> bytes \<Rightarrow> bytes"          \<comment> \<open>nonce, plaintext: ciphertext and tag\<close>
  Open :: "bytes \<Rightarrow> bytes \<Rightarrow> bytes option"   \<comment> \<open>nonce, ciphertext and tag: the plaintext if authentic\<close>

record crypto_lib =
  aes_NewCipher :: "bytes \<Rightarrow> bytes res"      \<comment> \<open>key to block cipher, the latter kept as bytes\<close>
  cipher_NewGCM :: "bytes \<Rightarrow> aead res"
  chacha20poly1305_New :: "bytes \<Rightarrow> aead res"
  x25519_PublicKey :: "bytes \<Rightarrow> bytes"
  x25519_ECDH :: "bytes \<Rightarrow> bytes \<Rightarrow> bytes res"
  hkdf_Extract :: "bytes \<Rightarrow> bytes \<Rightarrow> bytes"      \<comment> \<open>secret, salt\<close>
  hkdf_Expand :: "bytes \<Rightarrow> bytes \<Rightarrow> nat \<Rightarrow> bytes res"  \<comment> \<open>key, info, how many bytes to read\<close>
  sha256_Sum256 :: "bytes \<Rightarrow> bytes"

type_synonym CipherSuite = byte

definition CipherNone :: CipherSuite where "CipherNone = 0"
definition CipherAES128GCM :: CipherSuite where "CipherAES128GCM = 1"
definition CipherChaCha20Poly1305 :: CipherSuite where "CipherChaCha20Poly1305 = 2"

lemmas suite_defs = CipherNone_def CipherAES128GCM_def CipherChaCha20Poly1305_def

record CipherState =
  cs_aead :: "aead option"   \<comment> \<open>nil for \<open>CipherNone\<close>\<close>
  cs_nonce :: u64
  cs_replay :: replayWindow

definition newAEAD :: "crypto_lib \<Rightarrow> bytes \<Rightarrow> CipherSuite \<Rightarrow> aead option res" where
  "newAEAD lib key suite =
     (if suite = CipherNone then Inr None
      else if suite = CipherAES128GCM then
        (case aes_NewCipher lib key of
           Inl e \<Rightarrow> Inl e
         | Inr block \<Rightarrow> map_sum id Some (cipher_NewGCM lib block))
      else if suite = CipherChaCha20Poly1305 then map_sum id Some (chacha20poly1305_New lib key)
      else Inl ErrDecryptionFailed)"

definition NewCipherState :: "crypto_lib \<Rightarrow> bytes \<Rightarrow> CipherSuite \<Rightarrow> CipherState res" where
  "NewCipherState lib key suite =
     (case newAEAD lib key suite of
        Inl e \<Rightarrow> Inl e
      | Inr a \<Rightarrow> Inr \<lparr>cs_aead = a, cs_nonce = 0, cs_replay = newReplayWindow\<rparr>)"

text \<open>
  \<open>dst\<close> is the content of the destination buffer up to its capacity. \<open>Seal\<close> appends to
  \<open>dst[8:8]\<close>, that is, writes into \<open>dst\<close> from position 8.
\<close>

definition Encrypt :: "CipherState \<Rightarrow> bytes \<Rightarrow> bytes \<Rightarrow> CipherState \<times> bytes res" where
  "Encrypt state plaintext dst =
     (case cs_aead state of
        None \<Rightarrow>
          let dst = (if length dst < length plaintext then replicate (length plaintext) 0
                     else take (length plaintext) dst)
          in (state, Inr (go_copy dst 0 plaintext))
      | Some aead \<Rightarrow>
          let nonce = cs_nonce state + 1;
              state = state\<lparr>cs_nonce := nonce\<rparr>;
              needed = NonceSize + length plaintext + TagSize;
              dst = (if length dst < needed then replicate needed 0 else take needed dst);
              dst = go_copy dst 0 (to_le 8 nonce);
              aeadNonce = go_copy (replicate 12 0) 0 (take NonceSize dst);
              dst = go_copy dst NonceSize (Seal aead aeadNonce plaintext)
          in (state, Inr (take needed dst)))"

definition Decrypt :: "CipherState \<Rightarrow> bytes \<Rightarrow> bytes \<Rightarrow> CipherState \<times> bytes res" where
  "Decrypt state packet dst =
     (case cs_aead state of
        None \<Rightarrow>
          let dst = (if length dst < length packet then replicate (length packet) 0
                     else take (length packet) dst)
          in (state, Inr (go_copy dst 0 packet))
      | Some aead \<Rightarrow>
          if length packet < NonceSize + TagSize then (state, Inl ErrDecryptionFailed)
          else
            let nonce = of_le (take NonceSize packet)
            in if \<not> check (cs_replay state) nonce then (state, Inl ErrReplayedPacket)
               else
                 let aeadNonce = go_copy (replicate 12 0) 0 (to_le 8 nonce)
                 in (case Open aead aeadNonce (drop NonceSize packet) of
                       None \<Rightarrow> (state, Inl ErrDecryptionFailed)
                     | Some plaintext \<Rightarrow>
                         (state\<lparr>cs_replay := update (cs_replay state) nonce\<rparr>, Inr plaintext)))"

definition keySizeForSuite :: "CipherSuite \<Rightarrow> nat" where
  "keySizeForSuite suite = (if suite = CipherChaCha20Poly1305 then 32 else 16)"

record KeyPair =
  Private :: bytes
  Public :: bytes

text \<open>\<open>GenerateKey(rand.Reader)\<close> yields a private key or an error; \<open>r\<close> is what it yields.\<close>

definition GenerateKeyPair :: "crypto_lib \<Rightarrow> bytes res \<Rightarrow> KeyPair res" where
  "GenerateKeyPair lib r =
     (case r of Inl e \<Rightarrow> Inl e
      | Inr private \<Rightarrow> Inr \<lparr>Private = private, Public = x25519_PublicKey lib private\<rparr>)"

definition c2s_info :: bytes where "c2s_info = [0x63, 0x32, 0x73]"
definition s2c_info :: bytes where "s2c_info = [0x73, 0x32, 0x63]"

definition DeriveKeys ::
  "crypto_lib \<Rightarrow> bytes \<Rightarrow> bytes \<Rightarrow> bytes \<Rightarrow> CipherSuite \<Rightarrow> (bytes \<times> bytes) res" where
  "DeriveKeys lib myPrivate theirPublic challengeToken suite =
     (case x25519_ECDH lib myPrivate theirPublic of
        Inl e \<Rightarrow> Inl e
      | Inr shared \<Rightarrow>
          let prk = hkdf_Extract lib shared challengeToken;
              keySize = keySizeForSuite suite
          in (case hkdf_Expand lib prk c2s_info keySize of
                Inl e \<Rightarrow> Inl e
              | Inr c2sKey \<Rightarrow>
                  (case hkdf_Expand lib prk s2c_info keySize of
                     Inl e \<Rightarrow> Inl e
                   | Inr s2cKey \<Rightarrow> Inr (c2sKey, s2cKey))))"

section \<open>What the code relies on\<close>

text \<open>An AEAD opens what it sealed under the same nonce, and its tag has 16 bytes.\<close>

definition aead_ok :: "aead \<Rightarrow> bool" where
  "aead_ok a \<longleftrightarrow> (\<forall>n p. Open a n (Seal a n p) = Some p \<and> length (Seal a n p) = length p + TagSize)"

text \<open>Both ends of an X25519 exchange compute the same secret.\<close>

definition ecdh_agrees :: "crypto_lib \<Rightarrow> bool" where
  "ecdh_agrees lib \<longleftrightarrow>
     (\<forall>a b. x25519_ECDH lib a (x25519_PublicKey lib b) = x25519_ECDH lib b (x25519_PublicKey lib a))"

section \<open>Encrypt and Decrypt\<close>

text \<open>The wire image of a plaintext under nonce \<open>n\<close>.\<close>

definition sealed :: "aead \<Rightarrow> u64 \<Rightarrow> bytes \<Rightarrow> bytes" where
  "sealed a n p = to_le 8 n @ Seal a (to_le 8 n @ replicate 4 0) p"

lemma aead_nonce: "go_copy (replicate 12 0) 0 (to_le 8 n) = to_le 8 n @ replicate 4 0"
  by (simp add: go_copy_def numeral_eq_Suc)

lemma Encrypt_sealed:
  assumes "cs_aead st = Some a" "aead_ok a"
  shows "Encrypt st p dst = (st\<lparr>cs_nonce := cs_nonce st + 1\<rparr>, Inr (sealed a (cs_nonce st + 1) p))"
proof -
  let ?n = "cs_nonce st + 1" and ?needed = "NonceSize + length p + TagSize"
  define d where "d = (if length dst < ?needed then replicate ?needed 0 else take ?needed dst)"
  have ld: "length d = ?needed" by (simp add: d_def)
  define d1 where "d1 = go_copy d 0 (to_le 8 ?n)"
  have d1: "take NonceSize d1 = to_le 8 ?n" "length d1 = ?needed"
    using ld by (simp_all add: d1_def go_copy_def size_defs)
  have "length (Seal a (to_le 8 ?n @ replicate 4 0) p) = length p + TagSize"
    using assms(2) by (simp add: aead_ok_def)
  then have "take ?needed (go_copy d1 NonceSize (Seal a (to_le 8 ?n @ replicate 4 0) p)) = sealed a ?n p"
    using d1 by (simp add: go_copy_def sealed_def NonceSize_def TagSize_def)
  then show ?thesis
    using assms(1) d1(1) by (simp add: Encrypt_def Let_def d_def [symmetric] d1_def [symmetric] aead_nonce)
qed

lemma Encrypt_pass:
  "cs_aead st = None \<Longrightarrow> Encrypt st p dst = (st, Inr p)"
  by (auto simp: Encrypt_def Let_def go_copy_def)

lemma Decrypt_pass:
  "cs_aead st = None \<Longrightarrow> Decrypt st p dst = (st, Inr p)"
  by (auto simp: Decrypt_def Let_def go_copy_def)

lemma length_sealed: "aead_ok a \<Longrightarrow> length (sealed a n p) = length p + WireOverhead"
  by (simp add: sealed_def aead_ok_def size_defs)

lemma Decrypt_sealed:
  assumes "cs_aead st = Some a" "aead_ok a"
  shows "Decrypt st (sealed a n p) dst =
     (if check (cs_replay st) n then (st\<lparr>cs_replay := update (cs_replay st) n\<rparr>, Inr p)
      else (st, Inl ErrReplayedPacket))"
proof -
  have "take 8 (sealed a n p) = to_le 8 n" "drop 8 (sealed a n p) = Seal a (to_le 8 n @ replicate 4 0) p"
    by (simp_all add: sealed_def)
  then show ?thesis
    using assms length_sealed [OF assms(2), of n p]
    by (simp add: Decrypt_def size_defs Let_def aead_nonce aead_ok_def)
qed

text \<open>Key agreement: both ends of an exchange derive the same pair of keys, or fail alike; the
  keys have the length the suite needs.\<close>

lemma DeriveKeys_agree:
  "ecdh_agrees lib \<Longrightarrow> DeriveKeys lib a (x25519_PublicKey lib b) token suite =
     DeriveKeys lib b (x25519_PublicKey lib a) token suite"
  by (simp add: DeriveKeys_def ecdh_agrees_def)

lemma DeriveKeys_length:
  assumes "DeriveKeys lib a pub token suite = Inr (c2s, s2c)"
    and "\<And>prk info n out. hkdf_Expand lib prk info n = Inr out \<Longrightarrow> length out = n"
  shows "length c2s = keySizeForSuite suite \<and> length s2c = keySizeForSuite suite"
  using assms(1) by (auto simp: DeriveKeys_def Let_def split: sum.splits dest: assms(2))

text \<open>A receiving state that follows a sending one: the same AEAD, and no nonce seen beyond the
  sender's counter. A packet sent next is accepted and read as it was sent, whether or not
  earlier ones were lost.\<close>

definition in_sync :: "CipherState \<Rightarrow> CipherState \<Rightarrow> bool" where
  "in_sync s r \<longleftrightarrow> cs_aead s = cs_aead r \<and> (\<forall>a. cs_aead s = Some a \<longrightarrow> aead_ok a) \<and>
     (\<exists>H. represents (cs_replay r) H \<and> (\<forall>n \<in> H. n \<le> cs_nonce s))"

definition nonces_left :: "CipherState \<Rightarrow> nat \<Rightarrow> bool" where
  "nonces_left s k \<longleftrightarrow> unat (cs_nonce s) + k < 2 ^ 64"

lemma fresh_nonce_accepted:
  assumes "represents rw H" "\<forall>n \<in> H. n \<le> m" "m < n"
  shows "check rw n"
proof -
  have "finite H" using assms(1) by (simp add: represents_def)
  then have "highest H \<le> unat m"
    using assms(2) by (auto simp: highest_def word_le_nat_alt)
  moreover have "n \<notin> H" using assms(2,3) by (meson leD)
  moreover have "unat m < unat n" using assms(3) by (simp add: word_less_nat_alt)
  moreover from this have "n \<noteq> 0" by (metis less_nat_zero_code unat_0)
  ultimately show ?thesis
    unfolding check_represents [OF assms(1)] replay_accepts_def by linarith
qed

lemma in_sync_step:
  assumes "in_sync s r" "nonces_left s (Suc k)"
  obtains s' w r' where "\<And>dst. Encrypt s p dst = (s', Inr w)" "\<And>dst. Decrypt r w dst = (r', Inr p)"
    "in_sync s' r'" "in_sync s' r" "nonces_left s' k" "length w \<le> length p + WireOverhead"
proof (cases "cs_aead s")
  case None
  moreover have "nonces_left s k" using assms(2) by (simp add: nonces_left_def)
  ultimately show thesis
    using that [of s p r] assms by (simp add: in_sync_def Encrypt_pass Decrypt_pass)
next
  case (Some a)
  obtain H where H: "represents (cs_replay r) H" "\<forall>n \<in> H. n \<le> cs_nonce s"
    and ok: "aead_ok a" "cs_aead r = Some a" using assms(1) Some by (auto simp: in_sync_def)
  have "unat (cs_nonce s + 1) = Suc (unat (cs_nonce s))"
    using assms(2) by (simp add: nonces_left_def unat_plus_if_size word_size)
  then have lt: "cs_nonce s < cs_nonce s + 1" and left: "nonces_left (s\<lparr>cs_nonce := cs_nonce s + 1\<rparr>) k"
    using assms(2) by (simp_all add: nonces_left_def word_less_nat_alt)
  have "check (cs_replay r) (cs_nonce s + 1)" by (rule fresh_nonce_accepted [OF H lt])
  moreover have le: "\<forall>n \<in> insert (cs_nonce s + 1) H. n \<le> cs_nonce s + 1"
    using H(2) lt by (auto intro: order_trans [OF _ less_imp_le])
  moreover have "\<exists>H. represents (update (cs_replay r) (cs_nonce s + 1)) H \<and> (\<forall>n\<in>H. n \<le> cs_nonce s + 1)"
    "\<exists>H. represents (cs_replay r) H \<and> (\<forall>n\<in>H. n \<le> cs_nonce s + 1)"
    using update_represents [OF H(1)] H(1) le by blast+
  ultimately show thesis
    using that [of "s\<lparr>cs_nonce := cs_nonce s + 1\<rparr>" "sealed a (cs_nonce s + 1) p"
        "r\<lparr>cs_replay := update (cs_replay r) (cs_nonce s + 1)\<rparr>"]
      Encrypt_sealed [OF Some ok(1)] Decrypt_sealed [OF ok(2,1)] Some ok left
      length_sealed [OF ok(1)]
    by (auto simp: in_sync_def)
qed

text \<open>Encrypting and decrypting a sequence of packets with one cipher state.\<close>

fun encryptAll :: "CipherState \<Rightarrow> bytes list \<Rightarrow> CipherState \<times> bytes res list" where
  "encryptAll st [] = (st, [])"
| "encryptAll st (p # ps) =
     (let (st, w) = Encrypt st p []; (st, ws) = encryptAll st ps in (st, w # ws))"

fun decryptAll :: "CipherState \<Rightarrow> bytes list \<Rightarrow> CipherState \<times> bytes res list" where
  "decryptAll st [] = (st, [])"
| "decryptAll st (w # ws) =
     (let (st, p) = Decrypt st w []; (st, ps) = decryptAll st ws in (st, p # ps))"

lemma encryptAll_sealed:
  assumes "cs_aead st = Some a" "aead_ok a"
  shows "snd (encryptAll st ps) =
     map (\<lambda>i. Inr (sealed a (cs_nonce st + 1 + of_nat i) (ps ! i))) [0..<length ps]"
  using assms(1)
proof (induction ps arbitrary: st)
  case (Cons p ps)
  let ?st = "st\<lparr>cs_nonce := cs_nonce st + 1\<rparr>"
  have "snd (encryptAll st (p # ps)) = Inr (sealed a (cs_nonce st + 1) p) # snd (encryptAll ?st ps)"
    by (simp add: Encrypt_sealed [OF Cons.prems assms(2)] split: prod.split)
  also have "snd (encryptAll ?st ps) =
      map (\<lambda>i. Inr (sealed a (cs_nonce st + 1 + of_nat (Suc i)) ((p # ps) ! Suc i))) [0..<length ps]"
    using Cons.IH [of ?st] Cons.prems by (simp add: add.commute add.left_commute)
  finally show ?case
    by (simp add: upt_conv_Cons map_Suc_upt [symmetric] del: upt_Suc)
qed simp

text \<open>The verdict on the packet number \<open>i\<close> when the packets \<open>seen\<close> were delivered before.\<close>

definition verdict :: "bytes list \<Rightarrow> nat list \<Rightarrow> nat \<Rightarrow> bytes res" where
  "verdict ps seen i =
     (if i \<in> set seen \<or> (\<exists>j \<in> set seen. i + 1024 \<le> j) then Inl ErrReplayedPacket else Inr (ps ! i))"

fun verdicts :: "bytes list \<Rightarrow> nat list \<Rightarrow> nat list \<Rightarrow> bytes res list" where
  "verdicts ps seen [] = []"
| "verdicts ps seen (i # is) = verdict ps seen i # verdicts ps (i # seen) is"

definition nonce_of :: "nat \<Rightarrow> u64" where "nonce_of i = of_nat (Suc i)"

lemma unat_nonce_of: "Suc i < 2 ^ 64 \<Longrightarrow> unat (nonce_of i) = Suc i"
  by (simp add: nonce_of_def unsigned_of_nat take_bit_nat_eq_self del: of_nat_Suc)

lemma nonce_of_verdict:
  assumes "Suc i < 2 ^ 64" "\<And>j. j \<in> set seen \<Longrightarrow> Suc j < 2 ^ 64"
  shows "replay_accepts (nonce_of ` set seen) (nonce_of i) \<longleftrightarrow>
    \<not> (i \<in> set seen \<or> (\<exists>j \<in> set seen. i + 1024 \<le> j))"
proof -
  have u: "unat (nonce_of j) = Suc j" if "j \<in> insert i (set seen)" for j
    using that assms unat_nonce_of by auto
  have "nonce_of i \<noteq> 0" using u [of i] by auto
  moreover have "nonce_of i \<in> nonce_of ` set seen \<longleftrightarrow> i \<in> set seen"
    using u by (metis (no_types, lifting) image_iff insert_iff nat.inject)
  moreover have "highest (nonce_of ` set seen) = Max (insert 0 (Suc ` set seen))"
    unfolding highest_def image_image using u by (simp cong: image_cong)
  ultimately show ?thesis
    unfolding replay_accepts_def u [OF insertI1] by (auto simp: not_le)
qed

lemma decryptAll_sealed:
  assumes "aead_ok a" "length ps < 2 ^ 64 - 1"
    and "cs_aead st = Some a" "represents (cs_replay st) (nonce_of ` set seen)"
    and "set seen \<subseteq> {..<length ps}" "set is \<subseteq> {..<length ps}"
  shows "snd (decryptAll st (map (\<lambda>i. sealed a (nonce_of i) (ps ! i)) is)) = verdicts ps seen is"
  using assms(3-)
proof (induction "is" arbitrary: st seen)
  case (Cons i "is")
  have small: "Suc i < 2 ^ 64" "\<And>j. j \<in> set seen \<Longrightarrow> Suc j < 2 ^ 64"
    using Cons.prems(3,4) assms(2) by force+
  have acc: "check (cs_replay st) (nonce_of i) \<longleftrightarrow>
      \<not> (i \<in> set seen \<or> (\<exists>j \<in> set seen. i + 1024 \<le> j))"
    unfolding check_represents [OF Cons.prems(2)] by (rule nonce_of_verdict [OF small])
  note step = Decrypt_sealed [OF Cons.prems(1) assms(1), of "nonce_of i" "ps ! i" "[]"]
  define st' where "st' = fst (Decrypt st (sealed a (nonce_of i) (ps ! i)) [])"
  have "cs_aead st' = Some a" "represents (cs_replay st') (nonce_of ` set (i # seen))"
    using Cons.prems(1,2) update_represents [OF Cons.prems(2)] rejected_represents [OF Cons.prems(2)]
    by (simp_all add: st'_def step)
  then have "snd (decryptAll st' (map (\<lambda>i. sealed a (nonce_of i) (ps ! i)) is)) = verdicts ps (i # seen) is"
    using Cons.IH Cons.prems(3,4) by simp
  moreover have "snd (Decrypt st (sealed a (nonce_of i) (ps ! i)) []) = verdict ps seen i"
    using acc by (simp add: step verdict_def)
  ultimately show ?case
    by (simp add: st'_def split_beta)
qed simp

lemma map_sum_case: "map_sum id f x = (case x of Inl e \<Rightarrow> Inl e | Inr y \<Rightarrow> Inr (f y))"
  by (cases x) auto

lemma NewCipherState_fresh:
  "NewCipherState lib key suite = Inr st \<Longrightarrow>
     cs_nonce st = 0 \<and> cs_replay st = newReplayWindow \<and> (cs_aead st = None \<longleftrightarrow> suite = CipherNone)"
  by (auto simp: NewCipherState_def newAEAD_def suite_defs map_sum_case split: if_splits sum.splits)

text \<open>The datagrams among \<open>ws\<close> that decrypt successfully, and the nonce a datagram carries.\<close>

definition accepted :: "CipherState \<Rightarrow> bytes list \<Rightarrow> bytes list" where
  "accepted st ws = map fst (filter (\<lambda>(w, r). \<not> isl r) (zip ws (snd (decryptAll st ws))))"

definition wire_nonce :: "bytes \<Rightarrow> u64" where "wire_nonce w = of_le (take 8 w)"

text \<open>A decryption either fails and changes nothing, or marks one fresh nonce.\<close>

lemma Decrypt_cases:
  assumes "cs_aead st = Some a" "Decrypt st w dst = (st', r)"
  shows "st' = st \<and> isl r \<or>
    st' = st\<lparr>cs_replay := update (cs_replay st) (wire_nonce w)\<rparr> \<and> \<not> isl r \<and>
    check (cs_replay st) (wire_nonce w)"
  using assms unfolding Decrypt_def wire_nonce_def
  by (auto simp: Let_def NonceSize_def split: if_splits option.splits)

lemma accepted_simps [simp]:
  "accepted st [] = []"
  "accepted st (w # ws) =
     (case Decrypt st w [] of (st', r) \<Rightarrow> if isl r then accepted st' ws else w # accepted st' ws)"
  by (simp_all add: accepted_def split_beta)

lemma decryptAll_once:
  assumes "cs_aead st = Some a" "represents (cs_replay st) H"
  shows "distinct (map wire_nonce (accepted st ws)) \<and> wire_nonce ` set (accepted st ws) \<inter> insert 0 H = {}"
  using assms
proof (induction ws arbitrary: st H)
  case (Cons w ws)
  let ?n = "wire_nonce w"
  show ?case
  proof (cases "Decrypt st w []")
    case (Pair st' r)
    from Decrypt_cases [OF Cons.prems(1) Pair] show ?thesis
    proof (elim disjE conjE)
      assume "st' = st" "isl r"
      then show ?thesis using Pair Cons.IH [OF Cons.prems] by simp
    next
      assume ok: "st' = st\<lparr>cs_replay := update (cs_replay st) ?n\<rparr>" "\<not> isl r" "check (cs_replay st) ?n"
      have "?n \<noteq> 0" "?n \<notin> H"
        using ok(3) check_represents [OF Cons.prems(2)] by (auto simp: replay_accepts_def)
      moreover have "cs_aead st' = Some a" "represents (cs_replay st') (insert ?n H)"
        using Cons.prems(1) update_represents [OF Cons.prems(2)] by (simp_all add: ok(1))
      ultimately show ?thesis using Cons.IH [of st' "insert ?n H"] Pair ok(2) by auto
    qed
  qed
qed simp

text \<open>What a fresh encrypted state has decrypted it rejects from then on.\<close>

lemma Decrypt_replayed:
  assumes "NewCipherState lib key suite = Inr st" "Decrypt st w dst = (r, Inr p)" "suite \<noteq> CipherNone"
  shows "Decrypt r w dst' = (r, Inl ErrReplayedPacket)"
proof -
  obtain a where a: "cs_aead st = Some a" "cs_replay st = newReplayWindow"
    using NewCipherState_fresh [OF assms(1)] assms(3) by auto
  have r: "r = st\<lparr>cs_replay := update newReplayWindow (wire_nonce w)\<rparr>"
    using Decrypt_cases [OF a(1) assms(2)] a(2) by auto
  have "\<not> check (cs_replay r) (wire_nonce w)"
    using check_represents [OF update_represents [OF represents_new, of "wire_nonce w"]]
    by (simp add: r replay_accepts_def)
  moreover have "\<not> length w < NonceSize + TagSize"
    using assms(2) a(1) by (auto simp: Decrypt_def split: if_splits)
  ultimately show ?thesis using a(1) by (simp add: Decrypt_def r Let_def wire_nonce_def NonceSize_def)
qed

section \<open>Properties\<close>

text \<open>C8. The secure channel. A sender encrypts any fewer than \<open>2^64 - 1\<close> packets with a fresh
  cipher state; the network delivers any selection of them in any order, with any number of
  repetitions, to a fresh state of the same AEAD. Then each delivery yields exactly the
  plaintext that was sent, unless that packet was delivered before or lies 1024 or more
  packets behind one that was: then, and only then, the result is \<open>ErrReplayedPacket\<close>.\<close>

theorem secure_channel:
  assumes "NewCipherState lib key suite = Inr st" "cs_aead st = Some a" "aead_ok a"
    and "length ps < 2 ^ 64 - 1" "set is \<subseteq> {..<length ps}"
  shows "\<exists>ws. snd (encryptAll st ps) = map Inr ws \<and> length ws = length ps \<and>
     snd (decryptAll st (map (\<lambda>i. ws ! i) is)) = verdicts ps [] is"
proof -
  define ws where "ws = map (\<lambda>i. sealed a (nonce_of i) (ps ! i)) [0..<length ps]"
  have fresh: "cs_nonce st = 0" "cs_replay st = newReplayWindow"
    using NewCipherState_fresh [OF assms(1)] by simp_all
  have "snd (encryptAll st ps) = map Inr ws"
    using encryptAll_sealed [OF assms(2,3)] fresh by (simp add: ws_def nonce_of_def o_def)
  moreover have sel: "map (\<lambda>i. ws ! i) is = map (\<lambda>i. sealed a (nonce_of i) (ps ! i)) is"
    using assms(5) by (auto simp: ws_def)
  have "snd (decryptAll st (map (\<lambda>i. ws ! i) is)) = verdicts ps [] is"
    unfolding sel using decryptAll_sealed [OF assms(3,4,2), of "[]" "is"] assms(5) fresh represents_new by simp
  moreover have "length ws = length ps" by (simp add: ws_def)
  ultimately show ?thesis by blast
qed

text \<open>C29. Replay protection against arbitrary input: whatever sequence of datagrams an attacker
  feeds to a fresh receiving cipher state, the ones that decrypt successfully carry pairwise
  distinct, non-zero nonces. No datagram is ever accepted twice.\<close>

theorem no_packet_accepted_twice:
  assumes "NewCipherState lib key suite = Inr st" "suite \<noteq> CipherNone"
  shows "distinct (map wire_nonce (accepted st ws)) \<and> 0 \<notin> set (map wire_nonce (accepted st ws))"
proof -
  obtain a where "cs_aead st = Some a"
    using NewCipherState_fresh [OF assms(1)] assms(2) by (cases "cs_aead st") auto
  then show ?thesis
    using decryptAll_once [of st a "{}" ws] NewCipherState_fresh [OF assms(1)] represents_new by auto
qed

text \<open>A rejected datagram has no effect: when \<open>Decrypt\<close> fails, the error is
  \<open>ErrDecryptionFailed\<close> or \<open>ErrReplayedPacket\<close>, and the state, the replay window included, is
  the one before the call. A datagram shorter than the 24 bytes of overhead always fails.\<close>

theorem decrypt_failure_changes_nothing:
  assumes "Decrypt st w dst = (st', Inl e)"
  shows "st' = st \<and> e \<in> {ErrDecryptionFailed, ErrReplayedPacket} \<and> cs_aead st \<noteq> None \<and>
     (length w < WireOverhead \<longrightarrow> e = ErrDecryptionFailed)"
  using assms unfolding Decrypt_def
  by (auto simp: Let_def size_defs split: if_splits option.splits)

section \<open>Witnesses\<close>

text \<open>
  A concrete instance of the parameters: an AEAD that appends a tag made of the nonce and
  checks it, and a commutative key exchange.
\<close>

definition toy_aead :: aead where
  "toy_aead = \<lparr>Seal = (\<lambda>n p. p @ take 16 (n @ replicate 16 0)),
     Open = (\<lambda>n c. if drop (length c - 16) c = take 16 (n @ replicate 16 0) then Some (take (length c - 16) c)
                   else None)\<rparr>"

definition toy_lib :: crypto_lib where
  "toy_lib = \<lparr>aes_NewCipher = Inr, cipher_NewGCM = (\<lambda>_. Inr toy_aead),
     chacha20poly1305_New = (\<lambda>_. Inr toy_aead), x25519_PublicKey = (\<lambda>k. k),
     x25519_ECDH = (\<lambda>a b. Inr (map2 (+) a b)), hkdf_Extract = (@),
     hkdf_Expand = (\<lambda>k i n. Inr (take n (i @ k @ replicate n 0))), sha256_Sum256 = (\<lambda>d. take 32 (d @ replicate 32 0))\<rparr>"

lemma toy_aead_ok: "aead_ok toy_aead"
  by (auto simp: aead_ok_def toy_aead_def TagSize_def min_def)

lemma toy_ecdh: "ecdh_agrees toy_lib"
proof -
  have "map2 (+) a b = map2 (+) b a" for a b :: bytes
    by (induction a b rule: list_induct2') (simp_all add: add.commute)
  then show ?thesis by (simp add: ecdh_agrees_def toy_lib_def)
qed

definition toy_state :: CipherState where
  "toy_state = \<lparr>cs_aead = Some toy_aead, cs_nonce = 0, cs_replay = newReplayWindow\<rparr>"

lemma toy_NewCipherState: "NewCipherState toy_lib key 1 = Inr toy_state"
  by (simp add: NewCipherState_def newAEAD_def suite_defs toy_lib_def toy_state_def)

theorem secure_channel_witness:
  "\<exists>ws. snd (encryptAll toy_state [[1], [2], [3]]) = map Inr ws \<and> length ws = 3 \<and>
     snd (decryptAll toy_state [ws ! 2, ws ! 0, ws ! 2, ws ! 1]) =
       [Inr [3], Inr [1], Inl ErrReplayedPacket, Inr [2]]"
  using secure_channel [OF toy_NewCipherState _ toy_aead_ok, of "[[1], [2], [3]]" "[2, 0, 2, 1]"]
  by (simp add: toy_state_def verdict_def numeral_3_eq_3 del: encryptAll.simps decryptAll.simps)

theorem no_packet_accepted_twice_witness:
  "distinct (map wire_nonce (accepted toy_state (replicate 2 (sealed toy_aead 1 [7]))))"
  using no_packet_accepted_twice [OF toy_NewCipherState] by (simp add: CipherNone_def)

theorem decrypt_failure_changes_nothing_witness:
  "Decrypt toy_state [1, 2, 3] [] = (toy_state, Inl ErrDecryptionFailed) \<and>
   ErrDecryptionFailed \<in> {ErrDecryptionFailed, ErrReplayedPacket}"
proof -
  have "Decrypt toy_state [1, 2, 3] [] = (toy_state, Inl ErrDecryptionFailed)"
    by (simp add: Decrypt_def toy_state_def size_defs)
  with decrypt_failure_changes_nothing [OF this] show ?thesis by simp
qed

end
