(* ===== verification/Config.thy ===== *)
theory Config
  imports Congestion Cipher
begin

text \<open>
  Configuration (\<open>config.go\<close>): delivery modes and channel layouts with their builder, the
  compression settings, feature flags, the server and client configurations with their
  defaults, and the zero-value handling of \<open>NewServer\<close> and \<open>NewClient\<close>. The Go types \<open>DeliveryMode\<close>
  and \<open>CompressionAlgorithm\<close> are bytes: any byte may occur, the named values are constants.
\<close>

section \<open>Definitions\<close>

subsection \<open>Channel layouts\<close>

type_synonym DeliveryMode = byte

definition ReliableOrdered :: DeliveryMode where "ReliableOrdered = 0"
definition ReliableUnordered :: DeliveryMode where "ReliableUnordered = 1"
definition Unreliable :: DeliveryMode where "Unreliable = 2"
definition UnreliableSequenced :: DeliveryMode where "UnreliableSequenced = 3"

lemmas mode_defs = ReliableOrdered_def ReliableUnordered_def Unreliable_def UnreliableSequenced_def

record channelDef =
  Mode :: DeliveryMode
  StreamIndex :: byte

type_synonym ChannelLayout = "channelDef list"

definition DefaultChannelLayout :: ChannelLayout where
  "DefaultChannelLayout =
     [\<lparr>Mode = ReliableOrdered, StreamIndex = 0\<rparr>, \<lparr>Mode = ReliableUnordered, StreamIndex = 0\<rparr>,
      \<lparr>Mode = Unreliable, StreamIndex = 0\<rparr>, \<lparr>Mode = UnreliableSequenced, StreamIndex = 0\<rparr>]"

type_synonym ChannelLayoutBuilder = "channelDef list"

definition NewChannelLayoutBuilder :: ChannelLayoutBuilder where
  "NewChannelLayoutBuilder = []"

definition AddChannel :: "DeliveryMode \<Rightarrow> byte \<Rightarrow> ChannelLayoutBuilder \<Rightarrow> ChannelLayoutBuilder" where
  "AddChannel mode streamIndex b = b @ [\<lparr>Mode = mode, StreamIndex = streamIndex\<rparr>]"

definition Build :: "ChannelLayoutBuilder \<Rightarrow> ChannelLayout res" where
  "Build b =
     (if length b = 0 \<or> 256 < length b then Inl ErrInvalidChannelLayout
      else Inr (go_copy (replicate (length b) \<lparr>Mode = 0, StreamIndex = 0\<rparr>) 0 b))"

subsection \<open>Compression settings and features\<close>

type_synonym CompressionAlgorithm = byte

definition CompressionNone :: CompressionAlgorithm where "CompressionNone = 0"
definition CompressionLZ4 :: CompressionAlgorithm where "CompressionLZ4 = 1"
definition CompressionZstd :: CompressionAlgorithm where "CompressionZstd = 2"

lemmas algorithm_defs = CompressionNone_def CompressionLZ4_def CompressionZstd_def

record CompressionConfig =
  cfg_Algorithm :: CompressionAlgorithm
  cfg_Hurdle :: u32
  cfg_ZstdLevel :: int
  cfg_Dictionary :: "bytes option"   \<comment> \<open>nil or a slice\<close>

definition emptyCompression :: CompressionConfig where
  "emptyCompression = \<lparr>cfg_Algorithm = CompressionNone, cfg_Hurdle = 0, cfg_ZstdLevel = 0, cfg_Dictionary = None\<rparr>"

definition DefaultCompressionHurdle :: u32 where "DefaultCompressionHurdle = 128"
definition MaxDecompressedSize :: nat where "MaxDecompressedSize = 4 * 1024 * 1024"

definition FeatureSendBatching :: byte where "FeatureSendBatching = 1"
definition FeatureConnectionMigration :: byte where "FeatureConnectionMigration = 2"

definition featuresFromConfig :: "bool \<Rightarrow> bool \<Rightarrow> byte" where
  "featuresFromConfig batching migration =
     (let f = 0;
          f = (if batching then f OR FeatureSendBatching else f)
      in if migration then f OR FeatureConnectionMigration else f)"

subsection \<open>Server and client configurations\<close>

definition DefaultInitialCwnd :: int where "DefaultInitialCwnd = 4"
definition maxRetransmits :: int where "maxRetransmits = 15"
definition DefaultMaxReorderWindow :: int where "DefaultMaxReorderWindow = 1024"
definition DefaultMaxReassemblyBuffers :: int where "DefaultMaxReassemblyBuffers = 64"
definition DefaultMaxReassemblyBytes :: int where "DefaultMaxReassemblyBytes = 4 * 1024 * 1024"
definition DefaultHandshakeRateLimit :: real where "DefaultHandshakeRateLimit = 10"
definition DefaultHandshakeBurst :: real where "DefaultHandshakeBurst = 20"
definition handshakeLimiterMaxEntries :: nat where "handshakeLimiterMaxEntries = 8192"

lemmas default_defs = DefaultInitialCwnd_def maxRetransmits_def DefaultMaxReorderWindow_def
  DefaultMaxReassemblyBuffers_def DefaultMaxReassemblyBytes_def DefaultHandshakeRateLimit_def
  DefaultHandshakeBurst_def

datatype TickMode = TickAuto | TickDriven

record ServerConfig =
  sc_MTU :: int
  sc_MaxConnections :: int
  sc_TickRate :: int
  sc_TickMode :: TickMode
  sc_HeartbeatInterval :: duration
  sc_ConnTimeout :: duration
  sc_HandshakeTimeout :: duration
  sc_ChannelLayout :: ChannelLayout
  sc_Compression :: CompressionConfig
  sc_Congestion :: CongestionMode
  sc_CipherPreference :: CipherSuite
  sc_MaxRetransmits :: int
  sc_FragmentTimeout :: duration
  sc_InitialCwnd :: int
  sc_MaxReorderWindow :: int
  sc_MaxReassemblyBuffers :: int
  sc_MaxReassemblyBytes :: int
  sc_MaxPendingHandshakes :: int
  sc_HandshakeRateLimit :: real
  sc_HandshakeBurst :: real
  sc_SendBatching :: bool
  sc_ConnectionMigration :: bool
  sc_CoalesceIO :: bool
  sc_CoalesceReaders :: int

definition DefaultServerConfig :: ServerConfig where
  "DefaultServerConfig =
     \<lparr>sc_MTU = int DefaultMTU, sc_MaxConnections = 1024, sc_TickRate = 100, sc_TickMode = TickAuto,
      sc_HeartbeatInterval = 1 * second, sc_ConnTimeout = 10 * second,
      sc_HandshakeTimeout = 5 * second, sc_ChannelLayout = DefaultChannelLayout,
      sc_Compression = emptyCompression, sc_Congestion = Conservative,
      sc_CipherPreference = CipherAES128GCM, sc_MaxRetransmits = maxRetransmits,
      sc_FragmentTimeout = DefaultFragmentTimeout, sc_InitialCwnd = DefaultInitialCwnd,
      sc_MaxReorderWindow = DefaultMaxReorderWindow,
      sc_MaxReassemblyBuffers = DefaultMaxReassemblyBuffers,
      sc_MaxReassemblyBytes = DefaultMaxReassemblyBytes, sc_MaxPendingHandshakes = 0,
      sc_HandshakeRateLimit = 0, sc_HandshakeBurst = 0, sc_SendBatching = False,
      sc_ConnectionMigration = False, sc_CoalesceIO = False, sc_CoalesceReaders = 0\<rparr>"

record ClientConfig =
  cc_MTU :: int
  cc_TickRate :: int
  cc_TickMode :: TickMode
  cc_HeartbeatInterval :: duration
  cc_ConnTimeout :: duration
  cc_ConnectTimeout :: duration
  cc_ChannelLayout :: ChannelLayout
  cc_Compression :: CompressionConfig
  cc_Congestion :: CongestionMode
  cc_CipherPreference :: CipherSuite
  cc_MaxRetransmits :: int
  cc_FragmentTimeout :: duration
  cc_InitialCwnd :: int
  cc_MaxReorderWindow :: int
  cc_MaxReassemblyBuffers :: int
  cc_MaxReassemblyBytes :: int
  cc_SendBatching :: bool
  cc_ConnectionMigration :: bool

definition DefaultClientConfig :: ClientConfig where
  "DefaultClientConfig =
     \<lparr>cc_MTU = int DefaultMTU, cc_TickRate = 100, cc_TickMode = TickAuto,
      cc_HeartbeatInterval = 1 * second, cc_ConnTimeout = 10 * second,
      cc_ConnectTimeout = 5 * second, cc_ChannelLayout = DefaultChannelLayout,
      cc_Compression = emptyCompression, cc_Congestion = Conservative,
      cc_CipherPreference = CipherAES128GCM, cc_MaxRetransmits = maxRetransmits,
      cc_FragmentTimeout = DefaultFragmentTimeout, cc_InitialCwnd = DefaultInitialCwnd,
      cc_MaxReorderWindow = DefaultMaxReorderWindow,
      cc_MaxReassemblyBuffers = DefaultMaxReassemblyBuffers,
      cc_MaxReassemblyBytes = DefaultMaxReassemblyBytes, cc_SendBatching = False,
      cc_ConnectionMigration = False\<rparr>"

text \<open>\<open>if x == 0 { x = d }\<close>, also what \<open>cmp.Or(x, d)\<close> computes.\<close>

definition or_default :: "'a::zero \<Rightarrow> 'a \<Rightarrow> 'a" where
  "or_default x d = (if x = 0 then d else x)"

definition serverDefaults :: "int \<Rightarrow> ServerConfig \<Rightarrow> ServerConfig" where
  "serverDefaults numCPU config =
     (let config = config\<lparr>sc_MTU := or_default (sc_MTU config) (int DefaultMTU),
            sc_MaxConnections := or_default (sc_MaxConnections config) 1024,
            sc_TickRate := or_default (sc_TickRate config) 100,
            sc_HeartbeatInterval := or_default (sc_HeartbeatInterval config) (1 * second),
            sc_ConnTimeout := or_default (sc_ConnTimeout config) (10 * second),
            sc_HandshakeTimeout := or_default (sc_HandshakeTimeout config) (5 * second),
            sc_ChannelLayout := (if length (sc_ChannelLayout config) = 0 then DefaultChannelLayout
                                 else sc_ChannelLayout config),
            sc_MaxRetransmits := or_default (sc_MaxRetransmits config) maxRetransmits,
            sc_FragmentTimeout := or_default (sc_FragmentTimeout config) DefaultFragmentTimeout,
            sc_InitialCwnd := or_default (sc_InitialCwnd config) DefaultInitialCwnd,
            sc_MaxReorderWindow := or_default (sc_MaxReorderWindow config) DefaultMaxReorderWindow,
            sc_MaxReassemblyBuffers := or_default (sc_MaxReassemblyBuffers config) DefaultMaxReassemblyBuffers,
            sc_MaxReassemblyBytes := or_default (sc_MaxReassemblyBytes config) DefaultMaxReassemblyBytes\<rparr>;
          config = config\<lparr>
            sc_MaxPendingHandshakes := or_default (sc_MaxPendingHandshakes config) (4 * sc_MaxConnections config),
            sc_HandshakeRateLimit := or_default (sc_HandshakeRateLimit config) DefaultHandshakeRateLimit,
            sc_HandshakeBurst := or_default (sc_HandshakeBurst config) DefaultHandshakeBurst\<rparr>
      in if sc_CoalesceIO config \<and> sc_CoalesceReaders config \<le> 0
         then config\<lparr>sc_CoalesceReaders := numCPU\<rparr> else config)"

definition clientDefaults :: "ClientConfig \<Rightarrow> ClientConfig" where
  "clientDefaults config =
     config\<lparr>cc_MTU := or_default (cc_MTU config) (int DefaultMTU),
       cc_TickRate := or_default (cc_TickRate config) 100,
       cc_HeartbeatInterval := or_default (cc_HeartbeatInterval config) (1 * second),
       cc_ConnTimeout := or_default (cc_ConnTimeout config) (10 * second),
       cc_ConnectTimeout := or_default (cc_ConnectTimeout config) (5 * second),
       cc_ChannelLayout := (if length (cc_ChannelLayout config) = 0 then DefaultChannelLayout
                            else cc_ChannelLayout config),
       cc_MaxRetransmits := or_default (cc_MaxRetransmits config) maxRetransmits,
       cc_FragmentTimeout := or_default (cc_FragmentTimeout config) DefaultFragmentTimeout,
       cc_InitialCwnd := or_default (cc_InitialCwnd config) DefaultInitialCwnd,
       cc_MaxReorderWindow := or_default (cc_MaxReorderWindow config) DefaultMaxReorderWindow,
       cc_MaxReassemblyBuffers := or_default (cc_MaxReassemblyBuffers config) DefaultMaxReassemblyBuffers,
       cc_MaxReassemblyBytes := or_default (cc_MaxReassemblyBytes config) DefaultMaxReassemblyBytes\<rparr>"

section \<open>Lemmas and properties\<close>

lemma or_default_simps [simp]:
  "or_default 0 d = d" "x \<noteq> 0 \<Longrightarrow> or_default x d = x"
  "d \<noteq> 0 \<Longrightarrow> or_default x d \<noteq> 0" "or_default (or_default x d) d = or_default x d"
  by (simp_all add: or_default_def)

lemma featuresFromConfig_bits:
  "featuresFromConfig b m AND FeatureSendBatching \<noteq> 0 \<longleftrightarrow> b"
  "featuresFromConfig b m AND FeatureConnectionMigration \<noteq> 0 \<longleftrightarrow> m"
  by (simp_all add: featuresFromConfig_def FeatureSendBatching_def FeatureConnectionMigration_def)

lemma Build_ok: "Build b = (if b = [] \<or> 256 < length b then Inl ErrInvalidChannelLayout else Inr b)"
  by (simp add: Build_def go_copy_def)

lemma fold_AddChannel:
  "fold (\<lambda>(m, i). AddChannel m i) ds b = b @ map (\<lambda>(m, i). \<lparr>Mode = m, StreamIndex = i\<rparr>) ds"
  by (induction ds arbitrary: b) (auto simp: AddChannel_def)

text \<open>The layout builder: adding channels one by one and building gives exactly those
  channels in that order, or \<open>ErrInvalidChannelLayout\<close> for none or more than 256, so every
  channel of a built layout can be addressed by the channel byte of the packet header.\<close>

lemma layout_builder_exact:
  "Build (fold (\<lambda>(m, i). AddChannel m i) ds NewChannelLayoutBuilder) =
     (if ds = [] \<or> 256 < length ds then Inl ErrInvalidChannelLayout
      else Inr (map (\<lambda>(m, i). \<lparr>Mode = m, StreamIndex = i\<rparr>) ds))"
  by (simp add: Build_ok fold_AddChannel NewChannelLayoutBuilder_def)

lemma serverDefaults_sel:
  "sc_MTU (serverDefaults k c) = or_default (sc_MTU c) (int DefaultMTU)"
  "sc_MaxConnections (serverDefaults k c) = or_default (sc_MaxConnections c) 1024"
  "sc_TickRate (serverDefaults k c) = or_default (sc_TickRate c) 100"
  "sc_HeartbeatInterval (serverDefaults k c) = or_default (sc_HeartbeatInterval c) (1 * second)"
  "sc_ConnTimeout (serverDefaults k c) = or_default (sc_ConnTimeout c) (10 * second)"
  "sc_HandshakeTimeout (serverDefaults k c) = or_default (sc_HandshakeTimeout c) (5 * second)"
  "sc_MaxRetransmits (serverDefaults k c) = or_default (sc_MaxRetransmits c) maxRetransmits"
  "sc_FragmentTimeout (serverDefaults k c) = or_default (sc_FragmentTimeout c) DefaultFragmentTimeout"
  "sc_InitialCwnd (serverDefaults k c) = or_default (sc_InitialCwnd c) DefaultInitialCwnd"
  "sc_MaxReorderWindow (serverDefaults k c) = or_default (sc_MaxReorderWindow c) DefaultMaxReorderWindow"
  "sc_MaxReassemblyBuffers (serverDefaults k c) = or_default (sc_MaxReassemblyBuffers c) DefaultMaxReassemblyBuffers"
  "sc_MaxReassemblyBytes (serverDefaults k c) = or_default (sc_MaxReassemblyBytes c) DefaultMaxReassemblyBytes"
  "sc_MaxPendingHandshakes (serverDefaults k c) = or_default (sc_MaxPendingHandshakes c) (4 * or_default (sc_MaxConnections c) 1024)"
  "sc_HandshakeRateLimit (serverDefaults k c) = or_default (sc_HandshakeRateLimit c) DefaultHandshakeRateLimit"
  "sc_HandshakeBurst (serverDefaults k c) = or_default (sc_HandshakeBurst c) DefaultHandshakeBurst"
  "sc_TickMode (serverDefaults k c) = sc_TickMode c"
  "sc_Compression (serverDefaults k c) = sc_Compression c"
  "sc_Congestion (serverDefaults k c) = sc_Congestion c"
  "sc_CipherPreference (serverDefaults k c) = sc_CipherPreference c"
  "sc_SendBatching (serverDefaults k c) = sc_SendBatching c"
  "sc_ConnectionMigration (serverDefaults k c) = sc_ConnectionMigration c"
  "sc_CoalesceIO (serverDefaults k c) = sc_CoalesceIO c"
  "sc_ChannelLayout (serverDefaults k c) = (if sc_ChannelLayout c = [] then DefaultChannelLayout else sc_ChannelLayout c)"
  "sc_CoalesceReaders (serverDefaults k c) = (if sc_CoalesceIO c \<and> sc_CoalesceReaders c \<le> 0 then k else sc_CoalesceReaders c)"
  unfolding serverDefaults_def Let_def by simp_all

lemma serverDefaults_idem: "serverDefaults k (serverDefaults k c) = serverDefaults k c"
  by (rule ServerConfig.equality) (simp_all add: serverDefaults_sel DefaultChannelLayout_def)

lemma clientDefaults_idem: "clientDefaults (clientDefaults c) = clientDefaults c"
  by (simp add: clientDefaults_def DefaultChannelLayout_def)

lemma clientDefaults_default: "clientDefaults DefaultClientConfig = DefaultClientConfig"
  by (simp add: clientDefaults_def DefaultClientConfig_def default_defs second_def
      DefaultFragmentTimeout_def DefaultMTU_def DefaultChannelLayout_def)

lemma serverDefaults_nonzero:
  "sc_MTU (serverDefaults k c) \<noteq> 0" "sc_TickRate (serverDefaults k c) \<noteq> 0"
  "sc_ConnTimeout (serverDefaults k c) \<noteq> 0" "sc_HandshakeTimeout (serverDefaults k c) \<noteq> 0"
  "sc_MaxConnections (serverDefaults k c) \<noteq> 0" "sc_MaxPendingHandshakes (serverDefaults k c) \<noteq> 0"
  "sc_ChannelLayout (serverDefaults k c) \<noteq> []" "sc_MaxReorderWindow (serverDefaults k c) \<noteq> 0"
  "sc_MaxReassemblyBytes (serverDefaults k c) \<noteq> 0" "sc_HandshakeBurst (serverDefaults k c) \<noteq> 0"
  by (simp_all add: serverDefaults_sel default_defs second_def DefaultMTU_def DefaultChannelLayout_def)

text \<open>Configuration defaults: the constructors leave no limit, timeout or window of the
  configuration at zero and no layout empty, and applying them to a configuration that went
  through them changes nothing.\<close>

lemma server_defaults_complete:
  "sc_MTU (serverDefaults k c) \<noteq> 0 \<and> sc_TickRate (serverDefaults k c) \<noteq> 0 \<and>
   sc_ConnTimeout (serverDefaults k c) \<noteq> 0 \<and> sc_HandshakeTimeout (serverDefaults k c) \<noteq> 0 \<and>
   sc_MaxConnections (serverDefaults k c) \<noteq> 0 \<and> sc_MaxPendingHandshakes (serverDefaults k c) \<noteq> 0 \<and>
   sc_ChannelLayout (serverDefaults k c) \<noteq> [] \<and> sc_MaxReorderWindow (serverDefaults k c) \<noteq> 0 \<and>
   sc_MaxReassemblyBytes (serverDefaults k c) \<noteq> 0 \<and> sc_HandshakeBurst (serverDefaults k c) \<noteq> 0 \<and>
   serverDefaults k (serverDefaults k c) = serverDefaults k c \<and>
   clientDefaults (clientDefaults cc) = clientDefaults cc \<and>
   clientDefaults DefaultClientConfig = DefaultClientConfig"
  by (simp add: serverDefaults_idem clientDefaults_idem clientDefaults_default serverDefaults_nonzero)

end
