(* ===== verification/Rtt.thy ===== *)
theory Rtt
  imports FW_Prelude
begin

text \<open>
  The two smoothing estimators: the round-trip estimator of \<open>internal/rtt/rtt.go\<close>
  (Jacobson/Karels) and the bandwidth estimator of \<open>internal/bandwidth/bandwidth.go\<close>.
  \<open>float64\<close> values are real numbers, so rounding is not modelled; the conversion of seconds to a
  \<open>time.Duration\<close> truncates towards zero, as in Go. \<open>time.Now()\<close> is an argument.
\<close>

section \<open>Definitions\<close>

definition rtoMin :: real where "rtoMin = 50 / 1000"
definition rtoMax :: real where "rtoMax = 5"
definition rttAlpha :: real where "rttAlpha = 125 / 1000"
definition rttBeta :: real where "rttBeta = 25 / 100"

record rtt_State =
  rs_srtt :: real
  rs_rttvar :: real
  rs_rto :: real
  rs_hasSample :: bool

definition rtt_New :: rtt_State where
  "rtt_New = \<lparr>rs_srtt = 0, rs_rttvar = 0, rs_rto = 1, rs_hasSample = False\<rparr>"

definition Seconds :: "duration \<Rightarrow> real" where
  "Seconds d = real_of_int d / 1000000000"

definition AddSample :: "duration \<Rightarrow> rtt_State \<Rightarrow> rtt_State" where
  "AddSample sample r =
     (let s = Seconds sample;
          r = (if \<not> rs_hasSample r
               then r\<lparr>rs_srtt := s, rs_rttvar := s / 2, rs_hasSample := True\<rparr>
               else let r = r\<lparr>rs_rttvar := (1 - rttBeta) * rs_rttvar r + rttBeta * \<bar>rs_srtt r - s\<bar>\<rparr>
                    in r\<lparr>rs_srtt := (1 - rttAlpha) * rs_srtt r + rttAlpha * s\<rparr>);
          r = r\<lparr>rs_rto := rs_srtt r + 4 * rs_rttvar r\<rparr>;
          r = r\<lparr>rs_rto := max (rs_rto r) rtoMin\<rparr>
      in r\<lparr>rs_rto := min (rs_rto r) rtoMax\<rparr>)"

definition RTO :: "rtt_State \<Rightarrow> duration" where
  "RTO r = trunc_real (rs_rto r * 1000000000)"

definition SRTT :: "rtt_State \<Rightarrow> duration" where
  "SRTT r = trunc_real (rs_srtt r * 1000000000)"

definition RTTVar :: "rtt_State \<Rightarrow> duration" where
  "RTTVar r = trunc_real (rs_rttvar r * 1000000000)"

record Estimator =
  bw_bytes :: u64
  bw_estimate :: real
  bw_lastTick :: time
  bw_started :: bool

definition bw_alpha :: real where "bw_alpha = 2 / 10"

definition bw_New :: "time \<Rightarrow> Estimator" where
  "bw_New now = \<lparr>bw_bytes = 0, bw_estimate = 0, bw_lastTick = now, bw_started = False\<rparr>"

definition bw_Record :: "u64 \<Rightarrow> Estimator \<Rightarrow> Estimator" where
  "bw_Record n e = e\<lparr>bw_bytes := bw_bytes e + n\<rparr>"

definition bw_Tick :: "time \<Rightarrow> Estimator \<Rightarrow> Estimator" where
  "bw_Tick now e =
     (let dt = Seconds (now - bw_lastTick e)
      in if dt \<le> 0 then e
         else
           let rate = real (unat (bw_bytes e)) / dt;
               e = (if \<not> bw_started e then e\<lparr>bw_estimate := rate, bw_started := True\<rparr>
                    else e\<lparr>bw_estimate := bw_alpha * rate + (1 - bw_alpha) * bw_estimate e\<rparr>)
           in e\<lparr>bw_bytes := 0, bw_lastTick := now\<rparr>)"

definition BytesPerSecond :: "Estimator \<Rightarrow> real" where
  "BytesPerSecond e = bw_estimate e"

lemmas rtt_consts = rtoMin_def rtoMax_def rttAlpha_def rttBeta_def

section \<open>The round-trip estimator\<close>

definition wf_rtt :: "rtt_State \<Rightarrow> bool" where
  "wf_rtt r \<longleftrightarrow> rtoMin \<le> rs_rto r \<and> rs_rto r \<le> rtoMax"

lemma AddSample_wf: "wf_rtt (AddSample s r)"
  by (simp add: wf_rtt_def AddSample_def Let_def rtt_consts)

lemma rtt_New_wf: "wf_rtt rtt_New"
  by (simp add: wf_rtt_def rtt_New_def rtt_consts)

interpretation rtt: invariant_machine AddSample wf_rtt
  by unfold_locales (rule AddSample_wf)

lemma RTO_bounds: "wf_rtt r \<Longrightarrow> 50000000 \<le> RTO r \<and> RTO r \<le> 5000000000"
  by (auto simp: wf_rtt_def RTO_def trunc_real_def rtt_consts le_floor_iff floor_le_iff)

lemma convex_bounds:
  fixes x y a lo hi :: real
  assumes "lo \<le> x" "x \<le> hi" "lo \<le> y" "y \<le> hi" "0 \<le> a" "a \<le> 1"
  shows "lo \<le> (1 - a) * x + a * y" "(1 - a) * x + a * y \<le> hi"
proof -
  have "(1 - a) * lo + a * lo \<le> (1 - a) * x + a * y"
    using assms by (intro add_mono mult_left_mono) auto
  then show "lo \<le> (1 - a) * x + a * y" by (simp add: algebra_simps)
  have "(1 - a) * x + a * y \<le> (1 - a) * hi + a * hi"
    using assms by (intro add_mono mult_left_mono) auto
  then show "(1 - a) * x + a * y \<le> hi" by (simp add: algebra_simps)
qed

definition srtt_in :: "real \<Rightarrow> real \<Rightarrow> rtt_State \<Rightarrow> bool" where
  "srtt_in lo hi r \<longleftrightarrow> rs_hasSample r \<and> lo \<le> rs_srtt r \<and> rs_srtt r \<le> hi \<and>
     0 \<le> rs_rttvar r \<and> rs_rttvar r \<le> hi"

lemma AddSample_srtt_in:
  assumes "0 \<le> lo" "lo \<le> Seconds s" "Seconds s \<le> hi" "\<not> rs_hasSample r \<or> srtt_in lo hi r"
  shows "srtt_in lo hi (AddSample s r)"
proof (cases "rs_hasSample r")
  case False
  with assms show ?thesis by (auto simp: srtt_in_def AddSample_def Let_def)
next
  case True
  with assms have r: "lo \<le> rs_srtt r" "rs_srtt r \<le> hi" "0 \<le> rs_rttvar r" "rs_rttvar r \<le> hi"
    by (auto simp: srtt_in_def)
  have d: "0 \<le> \<bar>rs_srtt r - Seconds s\<bar>" "\<bar>rs_srtt r - Seconds s\<bar> \<le> hi"
    using r assms by auto
  show ?thesis
    using True convex_bounds [OF r(1,2) assms(2,3), of rttAlpha] convex_bounds [OF r(3,4) d, of rttBeta]
    by (simp add: srtt_in_def AddSample_def Let_def rtt_consts)
qed

lemma AddSamples_srtt_in:
  assumes "0 \<le> lo" "\<forall>s \<in> set ss. lo \<le> Seconds s \<and> Seconds s \<le> hi"
    and "srtt_in lo hi r"
  shows "srtt_in lo hi (fold AddSample ss r)"
  using assms(2,3) by (induction ss arbitrary: r) (auto intro: AddSample_srtt_in [OF assms(1)])

text \<open>The retransmission timeout is always between 50 ms and 5 s, in nanoseconds, whatever
  samples are fed to the estimator (negative ones included), and 1 s before the first.\<close>

theorem rto_always_bounded:
  "50000000 \<le> RTO (fold AddSample ss rtt_New) \<and> RTO (fold AddSample ss rtt_New) \<le> 5000000000 \<and>
   RTO rtt_New = 1000000000"
  using RTO_bounds [OF rtt.run_inv [OF rtt_New_wf]]
  by (simp add: RTO_def rtt_New_def trunc_real_def)

text \<open>The smoothed round-trip time never leaves the range of the samples, and the variance
  stays between 0 and the largest sample: with samples between \<open>lo\<close> and \<open>hi\<close> nanoseconds, so
  is what \<open>SRTT\<close> reports.\<close>

lemma srtt_within_samples:
  assumes "ss \<noteq> []" "\<forall>s \<in> set ss. lo \<le> s \<and> s \<le> hi" "0 \<le> lo"
  shows "lo \<le> SRTT (fold AddSample ss rtt_New) \<and> SRTT (fold AddSample ss rtt_New) \<le> hi \<and>
     0 \<le> RTTVar (fold AddSample ss rtt_New) \<and> RTTVar (fold AddSample ss rtt_New) \<le> hi"
proof -
  obtain s ss' where ss: "ss = s # ss'" using assms(1) by (cases ss) auto
  have bounds: "\<forall>s \<in> set ss. Seconds lo \<le> Seconds s \<and> Seconds s \<le> Seconds hi"
    using assms(2) by (auto simp: Seconds_def divide_right_mono)
  have lo0: "0 \<le> Seconds lo" using assms(3) by (simp add: Seconds_def)
  have "srtt_in (Seconds lo) (Seconds hi) (fold AddSample ss rtt_New)"
    using AddSamples_srtt_in [OF lo0, of ss' "Seconds hi" "AddSample s rtt_New"]
      AddSample_srtt_in [OF lo0, of s "Seconds hi" rtt_New] bounds ss by (simp add: rtt_New_def)
  then have "Seconds lo \<le> rs_srtt (fold AddSample ss rtt_New)" "rs_srtt (fold AddSample ss rtt_New) \<le> Seconds hi"
    "0 \<le> rs_rttvar (fold AddSample ss rtt_New)" "rs_rttvar (fold AddSample ss rtt_New) \<le> Seconds hi"
    by (simp_all add: srtt_in_def)
  then show ?thesis using lo0
    by (auto simp: SRTT_def RTTVar_def trunc_real_def Seconds_def le_floor_iff floor_le_iff field_simps)
qed

section \<open>The bandwidth estimator\<close>

lemma bw_Tick_estimate:
  assumes "bw_lastTick e < now" "real (unat (bw_bytes e)) / Seconds (now - bw_lastTick e) \<le> hi"
    and "0 \<le> bw_estimate e" "bw_estimate e \<le> hi"
  shows "0 \<le> bw_estimate (bw_Tick now e) \<and> bw_estimate (bw_Tick now e) \<le> hi \<and> bw_bytes (bw_Tick now e) = 0"
proof -
  have dt: "0 < Seconds (now - bw_lastTick e)" using assms(1) by (simp add: Seconds_def)
  let ?r = "real (unat (bw_bytes e)) / Seconds (now - bw_lastTick e)"
  have "0 \<le> ?r" using dt by (intro divide_nonneg_pos of_nat_0_le_iff)
  with convex_bounds [OF assms(3,4) this assms(2), of bw_alpha] show ?thesis
    using dt assms(2) by (simp add: bw_Tick_def Let_def bw_alpha_def algebra_simps)
qed

text \<open>One measurement period: \<open>n\<close> bytes are recorded, then the tick comes \<open>dt\<close> later.\<close>

definition bw_period :: "u64 \<times> duration \<Rightarrow> Estimator \<Rightarrow> Estimator" where
  "bw_period p e = bw_Tick (bw_lastTick e + snd p) (bw_Record (fst p) e)"

definition rate_ok :: "real \<Rightarrow> u64 \<times> duration \<Rightarrow> bool" where
  "rate_ok hi p \<longleftrightarrow> 0 < snd p \<and> real (unat (fst p)) / Seconds (snd p) \<le> hi"

lemma bw_periods:
  assumes "0 \<le> bw_estimate e" "bw_estimate e \<le> hi" "bw_bytes e = 0" "list_all (rate_ok hi) ps"
  shows "0 \<le> bw_estimate (fold bw_period ps e) \<and> bw_estimate (fold bw_period ps e) \<le> hi"
  using assms
proof (induction ps arbitrary: e)
  case (Cons p ps)
  have "0 \<le> bw_estimate (bw_period p e) \<and> bw_estimate (bw_period p e) \<le> hi \<and> bw_bytes (bw_period p e) = 0"
    unfolding bw_period_def
    using Cons.prems by (intro bw_Tick_estimate) (simp_all add: bw_Record_def rate_ok_def)
  then show ?case using Cons.IH [of "bw_period p e"] Cons.prems(4) by simp
qed simp

text \<open>The bandwidth estimate is a weighted mean of the measured rates: it is never negative
  and never above the highest rate measured in any period, and a tick that comes no later
  than the one before changes nothing.\<close>

lemma bandwidth_within_rates:
  assumes "list_all (rate_ok hi) ps" "0 \<le> hi"
  shows "0 \<le> BytesPerSecond (fold bw_period ps (bw_New t0)) \<and>
     BytesPerSecond (fold bw_period ps (bw_New t0)) \<le> hi \<and>
     (t \<le> bw_lastTick e \<longrightarrow> bw_Tick t e = e)"
  using bw_periods [of "bw_New t0" hi ps] assms
  by (auto simp: bw_New_def BytesPerSecond_def bw_Tick_def Let_def Seconds_def divide_le_0_iff)

end
