(* ===== verification/Channel.thy ===== *)
theory Channel
  imports Config Rtt
begin

text \<open>
  A logical channel (\<open>channel.go\<close>): send sequence numbers, the 33-packet ack window of the
  receiver, the retransmission queue, and delivery according to the channel's mode.

  The mutex makes each method one atomic step, so a method is a function on the \<open>channel\<close>
  record. \<open>time.Now()\<close> is an argument. The pooled buffer behind a pending packet is in
  \<open>PooledSend\<close>: \<open>pp_raw\<close> is the packet's content. A payload is \<open>bytes option\<close> because the code uses a
  nil slice as the placeholder of a fragment; \<open>ch_recvBuffer\<close> is an option because it is nil for
  channels that are not ordered and after \<open>releasePendingBuffers\<close>, and writing to a nil map
  panics.
\<close>

section \<open>Definitions\<close>

record pendingPacket =
  pp_raw :: bytes
  pp_sendTime :: time
  pp_retransmitCount :: int
  pp_nextRetransmit :: time
  pp_firstTransmit :: bool
  pp_sequence :: u32

record channel =
  ch_mode :: DeliveryMode
  ch_streamIndex :: byte
  ch_maxReorderWindow :: u32
  ch_sendSeq :: u32
  ch_pending :: int
  ch_recvAck :: u32
  ch_recvAckField :: u32
  ch_pendingSend :: "pendingPacket list"
  ch_recvBuffer :: "(u32, bytes option) gomap option"
  ch_recvNextDeliver :: u32
  ch_lastRecvSeq :: u32
  ch_needsAck :: bool

definition newChannel :: "u32 \<Rightarrow> channelDef \<Rightarrow> channel" where
  "newChannel w d =
     \<lparr>ch_mode = Mode d, ch_streamIndex = StreamIndex d, ch_maxReorderWindow = w,
      ch_sendSeq = 0, ch_pending = 0, ch_recvAck = 0, ch_recvAckField = 0, ch_pendingSend = [],
      ch_recvBuffer = (if Mode d = ReliableOrdered then Some [] else None),
      ch_recvNextDeliver = 1, ch_lastRecvSeq = 0, ch_needsAck = False\<rparr>"

definition newChannels :: "ChannelLayout \<Rightarrow> int \<Rightarrow> channel list" where
  "newChannels layout maxReorderWindow =
     (let w = (if 0 < maxReorderWindow then word_of_int maxReorderWindow else 0)
      in map (newChannel w) layout)"

definition nextSequence :: "channel \<Rightarrow> channel \<times> u32" where
  "nextSequence ch = (let s = ch_sendSeq ch + 1 in (ch\<lparr>ch_sendSeq := s\<rparr>, s))"

definition recordReceive :: "u32 \<Rightarrow> channel \<Rightarrow> channel \<times> bool" where
  "recordReceive seq ch =
     (if seq = 0 then (ch, False)
      else if ch_mode ch = ReliableOrdered \<and> 0 < ch_maxReorderWindow ch \<and>
              ch_recvNextDeliver ch \<le> seq \<and> ch_maxReorderWindow ch \<le> seq - ch_recvNextDeliver ch
      then (ch, False)
      else if ch_recvAck ch = 0
      then (ch\<lparr>ch_recvAck := seq, ch_recvAckField := 0, ch_needsAck := True\<rparr>, True)
      else if ch_recvAck ch < seq
      then let diff = seq - ch_recvAck ch;
               field = (if diff \<le> 32
                        then push_bit (unat diff) (ch_recvAckField ch) OR push_bit (unat (diff - 1)) 1
                        else 0)
           in (ch\<lparr>ch_recvAckField := field, ch_recvAck := seq, ch_needsAck := True\<rparr>, True)
      else if seq = ch_recvAck ch then (ch, False)
      else
        let diff = ch_recvAck ch - seq
        in if diff \<le> 32
           then let b = push_bit (unat (diff - 1)) 1
                in if ch_recvAckField ch AND b \<noteq> 0 then (ch, False)
                   else (ch\<lparr>ch_recvAckField := ch_recvAckField ch OR b, ch_needsAck := True\<rparr>, True)
           else (ch, False))"

definition ackState :: "channel \<Rightarrow> u32 \<times> u32" where
  "ackState ch = (ch_recvAck ch, ch_recvAckField ch)"

definition isAcked :: "u32 \<Rightarrow> u32 \<Rightarrow> u32 \<Rightarrow> bool" where
  "isAcked seq ack ackField =
     (if seq = ack then True
      else if seq < ack \<and> ack - seq \<le> 32
      then ackField AND push_bit (unat (ack - seq - 1)) 1 \<noteq> 0
      else False)"

text \<open>The loop of \<open>processAcks\<close>: the packets kept, the sequence numbers acked, and the
  updated counter and RTT state (\<open>None\<close> when the caller passes a nil estimator).\<close>

fun ackLoop :: "time \<Rightarrow> u32 \<Rightarrow> u32 \<Rightarrow> pendingPacket list \<Rightarrow> int \<Rightarrow> rtt_State option \<Rightarrow>
    pendingPacket list \<times> u32 list \<times> int \<times> rtt_State option" where
  "ackLoop now ack ackField [] cnt r = ([], [], cnt, r)"
| "ackLoop now ack ackField (p # ps) cnt r =
     (if isAcked (pp_sequence p) ack ackField
      then let r = (if pp_firstTransmit p then map_option (AddSample (now - pp_sendTime p)) r else r);
               (kept, acked, cnt, r) = ackLoop now ack ackField ps (cnt - 1) r
           in (kept, pp_sequence p # acked, cnt, r)
      else let (kept, acked, cnt, r) = ackLoop now ack ackField ps cnt r
           in (p # kept, acked, cnt, r))"

definition processAcks ::
  "time \<Rightarrow> u32 \<Rightarrow> u32 \<Rightarrow> rtt_State option \<Rightarrow> channel \<Rightarrow> channel \<times> rtt_State option \<times> u32 list" where
  "processAcks now ack ackField r ch =
     (if ack = 0 \<or> length (ch_pendingSend ch) = 0 then (ch, r, [])
      else let (kept, acked, cnt, r) = ackLoop now ack ackField (ch_pendingSend ch) (ch_pending ch) r
           in (ch\<lparr>ch_pendingSend := kept, ch_pending := cnt\<rparr>, r, acked))"

function drain :: "(u32, bytes option) gomap \<Rightarrow> u32 \<Rightarrow> (u32, bytes option) gomap \<times> u32 \<times> bytes option list" where
  "drain buf next =
     (case map_of buf next of
        None \<Rightarrow> (buf, next, [])
      | Some p \<Rightarrow>
          let (buf', next', result) = drain (AList.delete next buf) (next + 1)
          in (buf', next', p # result))"
  by auto
termination
  by (relation "measure (\<lambda>(buf, next). length buf)") (auto simp: length_delete_present)

definition deliverReliableOrdered ::
  "u32 \<Rightarrow> bytes option \<Rightarrow> channel \<Rightarrow> (channel \<times> bytes option list) res" where
  "deliverReliableOrdered seq payload ch =
     (case ch_recvBuffer ch of
        None \<Rightarrow> Inl PanicNilMap
      | Some buf \<Rightarrow>
          let (buf, next, result) = drain (AList.update seq payload buf) (ch_recvNextDeliver ch);
              buf = (if map_of buf seq \<noteq> None
                     then AList.update seq (Some (case payload of None \<Rightarrow> [] | Some p \<Rightarrow> p)) buf
                     else buf)
          in Inr (ch\<lparr>ch_recvBuffer := Some buf, ch_recvNextDeliver := next\<rparr>, result))"

definition deliverReliableUnordered :: "bytes option \<Rightarrow> bytes option list" where
  "deliverReliableUnordered payload = [payload]"

definition deliverUnreliable :: "bytes option \<Rightarrow> bytes option list" where
  "deliverUnreliable payload = [payload]"

definition deliverUnreliableSequenced ::
  "u32 \<Rightarrow> bytes option \<Rightarrow> channel \<Rightarrow> channel \<times> bytes option list" where
  "deliverUnreliableSequenced seq payload ch =
     (if ch_lastRecvSeq ch < seq then (ch\<lparr>ch_lastRecvSeq := seq\<rparr>, [payload]) else (ch, []))"

definition deliver :: "u32 \<Rightarrow> bytes option \<Rightarrow> channel \<Rightarrow> (channel \<times> bytes option list) res" where
  "deliver seq payload ch =
     (if ch_mode ch = ReliableOrdered then deliverReliableOrdered seq payload ch
      else if ch_mode ch = ReliableUnordered then Inr (ch, deliverReliableUnordered payload)
      else if ch_mode ch = Unreliable then Inr (ch, deliverUnreliable payload)
      else if ch_mode ch = UnreliableSequenced then Inr (deliverUnreliableSequenced seq payload ch)
      else Inr (ch, []))"

definition clearNeedsAck :: "channel \<Rightarrow> channel \<times> bool" where
  "clearNeedsAck ch = (if ch_needsAck ch then (ch\<lparr>ch_needsAck := False\<rparr>, True) else (ch, False))"

definition addPending :: "pendingPacket \<Rightarrow> channel \<Rightarrow> channel" where
  "addPending p ch = ch\<lparr>ch_pendingSend := ch_pendingSend ch @ [p], ch_pending := ch_pending ch + 1\<rparr>"

definition pendingCount :: "channel \<Rightarrow> int" where
  "pendingCount ch = ch_pending ch"

definition releasePendingBuffers :: "channel \<Rightarrow> channel" where
  "releasePendingBuffers ch = ch\<lparr>ch_pendingSend := [], ch_recvBuffer := None, ch_pending := 0\<rparr>"

text \<open>The loop updates the packets in place and stops at the first one that has run out of
  retries, leaving the ones after it as they are.\<close>

fun retransmitLoop :: "time \<Rightarrow> duration \<Rightarrow> int \<Rightarrow> pendingPacket list \<Rightarrow>
    pendingPacket list \<times> pendingPacket list \<times> bool" where
  "retransmitLoop now rto maxRetries [] = ([], [], False)"
| "retransmitLoop now rto maxRetries (p # ps) =
     (if now < pp_nextRetransmit p
      then let (ps', rs, kill) = retransmitLoop now rto maxRetries ps in (p # ps', rs, kill)
      else
        let p = p\<lparr>pp_retransmitCount := pp_retransmitCount p + 1\<rparr>
        in if maxRetries < pp_retransmitCount p then (p # ps, [], True)
           else
             let p = p\<lparr>pp_firstTransmit := False, pp_nextRetransmit := now + rto\<rparr>;
                 (ps', rs, kill) = retransmitLoop now rto maxRetries ps
             in (p # ps', p # rs, kill))"

definition checkRetransmissions ::
  "time \<Rightarrow> duration \<Rightarrow> int \<Rightarrow> channel \<Rightarrow> channel \<times> pendingPacket list \<times> bool" where
  "checkRetransmissions now rto maxRetries ch =
     (let (ps, rs, kill) = retransmitLoop now rto maxRetries (ch_pendingSend ch)
      in (ch\<lparr>ch_pendingSend := ps\<rparr>, if kill then [] else rs, kill))"

declare drain.simps [simp del]

section \<open>Ack tracking\<close>

text \<open>
  The specification of the ack window: the set \<open>A\<close> of sequence numbers accepted so far.
  \<open>tracks ch A\<close> says that \<open>recvAck\<close> and the bit field represent \<open>A\<close>; \<open>fresh A seq\<close> that \<open>seq\<close> is
  new and at most 32 behind the highest; \<open>in_window\<close> is the receive window of an ordered channel.
\<close>

definition tracks :: "channel \<Rightarrow> u32 set \<Rightarrow> bool" where
  "tracks ch A \<longleftrightarrow> 0 \<notin> A \<and> unat (ch_recvAck ch) = highest A \<and>
     (\<forall>j < 32. bit (ch_recvAckField ch) j \<longleftrightarrow> (\<exists>n \<in> A. unat n + Suc j = highest A))"

definition fresh :: "u32 set \<Rightarrow> u32 \<Rightarrow> bool" where
  "fresh A seq \<longleftrightarrow> seq \<noteq> 0 \<and> seq \<notin> A \<and> highest A \<le> unat seq + 32"

definition in_window :: "channel \<Rightarrow> u32 \<Rightarrow> bool" where
  "in_window ch seq \<longleftrightarrow> ch_mode ch = ReliableOrdered \<longrightarrow> ch_maxReorderWindow ch = 0 \<or>
     seq < ch_recvNextDeliver ch \<or> seq - ch_recvNextDeliver ch < ch_maxReorderWindow ch"

lemma tracks_new: "tracks (newChannel w d) {}"
  by (simp add: tracks_def newChannel_def)

lemma unat_diff_pred:
  fixes m n :: "'a::len word"
  assumes "n < m"
  shows "unat (m - n - 1) = unat m - unat n - 1" "unat (m - n) = unat m - unat n"
proof -
  show d: "unat (m - n) = unat m - unat n" using assms by (intro unat_diff) simp
  have "1 \<le> m - n" using assms d by (simp add: word_le_nat_alt word_less_nat_alt)
  then show "unat (m - n - 1) = unat m - unat n - 1" using unat_diff [of 1 "m - n"] d by simp
qed

lemma member_at_distance:
  fixes seq :: "'a::len word"
  assumes "unat seq < h"
  shows "(\<exists>n \<in> A. unat n + Suc (h - unat seq - 1) = h) \<longleftrightarrow> seq \<in> A"
proof -
  have "unat n + Suc (h - unat seq - 1) = h \<longleftrightarrow> n = seq" for n
    using assms by (simp add: word_unat_eq_iff) linarith
  then show ?thesis by auto
qed

lemma tracks_shift:
  fixes f seq :: u32
  assumes "finite A" "highest A < unat seq" "highest A \<noteq> 0" "j < 32"
    and bits: "\<And>j. j < 32 \<Longrightarrow> bit f j \<longleftrightarrow> (\<exists>n \<in> A. unat n + Suc j = highest A)"
    and d: "d = unat seq - highest A"
  shows "bit (if d \<le> 32 then push_bit d f OR push_bit (d - 1) 1 else 0) j \<longleftrightarrow>
     (\<exists>n \<in> insert seq A. unat n + Suc j = unat seq)" (is "bit ?f j \<longleftrightarrow> ?R")
proof -
  obtain m where m: "m \<in> A" "unat m = highest A" using highest_in [OF assms(1,3)] by blast
  have d0: "0 < d" using assms(2) d by simp
  consider "d \<le> j" | "j = d - 1" | "Suc j < d" using assms(2) d by linarith
  then show ?thesis
  proof cases
    case 1
    then have "bit ?f j \<longleftrightarrow> bit f (j - d)" using assms(4) d0 by (auto simp: bit_simps)
    also have "\<dots> \<longleftrightarrow> (\<exists>n \<in> A. unat n + Suc (j - d) = highest A)" using bits assms(4) by simp
    also have "\<dots> \<longleftrightarrow> (\<exists>n \<in> A. unat n + Suc j = unat seq)"
    proof -
      have "unat n + Suc (j - d) = highest A \<longleftrightarrow> unat n + Suc j = unat seq" for n :: u32
        using 1 d assms(2) by linarith
      then show ?thesis by simp
    qed
    also have "\<dots> \<longleftrightarrow> ?R" by simp
    finally show ?thesis .
  next
    case 2
    then have "bit ?f j" using assms(4) d assms(2) by (auto simp: bit_simps)
    moreover have "unat m + Suc j = unat seq" using m 2 d assms(2) by simp
    ultimately show ?thesis using m(1) by auto
  next
    case 3
    then have "\<not> bit ?f j" by (auto simp: bit_simps)
    moreover have "unat n + Suc j \<noteq> unat seq" if "n \<in> A" for n
      using highest_ge [OF assms(1) that] 3 d by linarith
    ultimately show ?thesis by auto
  qed
qed

text \<open>The branches of \<open>recordReceive\<close>.\<close>

lemma in_window_guard:
  "ch_mode ch = ReliableOrdered \<and> 0 < ch_maxReorderWindow ch \<and> ch_recvNextDeliver ch \<le> seq \<and>
     ch_maxReorderWindow ch \<le> seq - ch_recvNextDeliver ch \<longleftrightarrow> \<not> in_window ch seq"
  by (auto simp: in_window_def not_le word_gt_0)

lemma recordReceive_reject: "seq = 0 \<or> \<not> in_window ch seq \<Longrightarrow> recordReceive seq ch = (ch, False)"
  unfolding recordReceive_def in_window_guard by auto

lemma recordReceive_first:
  "seq \<noteq> 0 \<Longrightarrow> in_window ch seq \<Longrightarrow> ch_recvAck ch = 0 \<Longrightarrow>
     recordReceive seq ch = (ch\<lparr>ch_recvAck := seq, ch_recvAckField := 0, ch_needsAck := True\<rparr>, True)"
  unfolding recordReceive_def in_window_guard by simp

lemma recordReceive_newer:
  assumes "seq \<noteq> 0" "in_window ch seq" "ch_recvAck ch \<noteq> 0" "ch_recvAck ch < seq"
  defines "d \<equiv> unat seq - unat (ch_recvAck ch)"
  shows "recordReceive seq ch =
    (ch\<lparr>ch_recvAckField := (if d \<le> 32 then push_bit d (ch_recvAckField ch) OR push_bit (d - 1) 1 else 0),
        ch_recvAck := seq, ch_needsAck := True\<rparr>, True)"
  using assms(1-4) unat_diff_pred [OF assms(4)] unfolding recordReceive_def in_window_guard d_def
  by (simp add: Let_def word_le_nat_alt)

lemma recordReceive_same:
  "in_window ch seq \<Longrightarrow> seq = ch_recvAck ch \<Longrightarrow> ch_recvAck ch \<noteq> 0 \<Longrightarrow> recordReceive seq ch = (ch, False)"
  unfolding recordReceive_def in_window_guard by simp

lemma recordReceive_older:
  assumes "seq \<noteq> 0" "in_window ch seq" "seq < ch_recvAck ch"
  defines "d \<equiv> unat (ch_recvAck ch) - unat seq"
  shows "recordReceive seq ch =
    (if d \<le> 32 \<and> \<not> bit (ch_recvAckField ch) (d - 1)
     then (ch\<lparr>ch_recvAckField := ch_recvAckField ch OR push_bit (d - 1) 1, ch_needsAck := True\<rparr>, True)
     else (ch, False))"
proof -
  have "ch_recvAck ch \<noteq> 0" "\<not> ch_recvAck ch < seq" "seq \<noteq> ch_recvAck ch" using assms(3) by auto
  then show ?thesis
    using assms(1,2) unat_diff_pred [OF assms(3)] unfolding recordReceive_def in_window_guard d_def
    by (simp add: Let_def word_le_nat_alt and_exp_eq_0_iff_not_bit)
qed

lemma recordReceive_branches:
  obtains "seq = 0 \<or> \<not> in_window ch seq"
  | "seq \<noteq> 0" "in_window ch seq" "ch_recvAck ch = 0"
  | "seq \<noteq> 0" "in_window ch seq" "ch_recvAck ch \<noteq> 0" "ch_recvAck ch < seq"
  | "in_window ch seq" "seq = ch_recvAck ch" "ch_recvAck ch \<noteq> 0"
  | "seq \<noteq> 0" "in_window ch seq" "seq < ch_recvAck ch"
  by force

lemma recordReceive_frame_ex:
  "\<exists>a f. fst (recordReceive seq ch) = ch\<lparr>ch_recvAck := a, ch_recvAckField := f,
     ch_needsAck := (ch_needsAck ch \<or> snd (recordReceive seq ch))\<rparr> \<and>
     (snd (recordReceive seq ch) \<or> fst (recordReceive seq ch) = ch)"
proof (cases rule: recordReceive_branches [of seq ch])
  case 1
  then show ?thesis by (intro exI [of _ "ch_recvAck ch"] exI [of _ "ch_recvAckField ch"])
      (simp add: recordReceive_reject)
next
  case 2
  then show ?thesis by (intro exI) (simp add: recordReceive_first)
next
  case 3
  show ?thesis unfolding recordReceive_newer [OF 3]
    by (intro exI [of _ seq] exI [of _ "ch_recvAckField (fst (recordReceive seq ch))"])
      (simp add: recordReceive_newer [OF 3])
next
  case 4
  then show ?thesis by (intro exI [of _ "ch_recvAck ch"] exI [of _ "ch_recvAckField ch"])
      (simp add: recordReceive_same)
next
  case 5
  have "fst (recordReceive seq ch) = ch\<lparr>ch_recvAck := ch_recvAck ch,
      ch_recvAckField := ch_recvAckField (fst (recordReceive seq ch)),
      ch_needsAck := (ch_needsAck ch \<or> snd (recordReceive seq ch))\<rparr>"
    unfolding recordReceive_older [OF 5] by simp
  moreover have "snd (recordReceive seq ch) \<or> fst (recordReceive seq ch) = ch"
    unfolding recordReceive_older [OF 5] by simp
  ultimately show ?thesis by blast
qed

lemma recordReceive_frame [simp]:
  "ch_mode (fst (recordReceive seq ch)) = ch_mode ch"
  "ch_maxReorderWindow (fst (recordReceive seq ch)) = ch_maxReorderWindow ch"
  "ch_sendSeq (fst (recordReceive seq ch)) = ch_sendSeq ch"
  "ch_pending (fst (recordReceive seq ch)) = ch_pending ch"
  "ch_pendingSend (fst (recordReceive seq ch)) = ch_pendingSend ch"
  "ch_recvBuffer (fst (recordReceive seq ch)) = ch_recvBuffer ch"
  "ch_recvNextDeliver (fst (recordReceive seq ch)) = ch_recvNextDeliver ch"
  "ch_lastRecvSeq (fst (recordReceive seq ch)) = ch_lastRecvSeq ch"
  "ch_needsAck (fst (recordReceive seq ch)) \<longleftrightarrow> ch_needsAck ch \<or> snd (recordReceive seq ch)"
  using recordReceive_frame_ex [of seq ch] by (elim exE conjE; simp)+

lemma recordReceive_tracks:
  assumes "tracks ch A"
  shows "snd (recordReceive seq ch) \<longleftrightarrow> in_window ch seq \<and> fresh A seq"
    and "tracks (fst (recordReceive seq ch)) (if snd (recordReceive seq ch) then insert seq A else A)"
proof -
  let ?m = "ch_recvAck ch" and ?f = "ch_recvAckField ch" and ?r = "recordReceive seq ch"
  have fin: "finite A" by simp
  have A0: "0 \<notin> A" and mx: "unat ?m = highest A"
    and bits: "\<And>j. j < 32 \<Longrightarrow> bit ?f j \<longleftrightarrow> (\<exists>n \<in> A. unat n + Suc j = highest A)"
    using assms(1) by (simp_all add: tracks_def)
  note hi = highest_insert [OF fin, of seq]
  have "(snd ?r \<longleftrightarrow> in_window ch seq \<and> fresh A seq) \<and> tracks (fst ?r) (if snd ?r then insert seq A else A)"
  proof (cases rule: recordReceive_branches [of seq ch])
    case 1
    then show ?thesis using assms by (auto simp: recordReceive_reject fresh_def)
  next
    case 2
    then have "A = {}" using mx A0 highest_0 [OF fin] by auto
    with 2 show ?thesis by (simp add: recordReceive_first fresh_def tracks_def highest_insert)
  next
    case 3
    have gt: "highest A < unat seq" "highest A \<noteq> 0"
      using 3 mx unat_eq_zero [of ?m] by (simp_all add: word_less_nat_alt)
    have "seq \<notin> A" using highest_ge [OF fin, of seq] gt by auto
    then have fr: "fresh A seq" using 3 gt by (simp add: fresh_def)
    define f where "f = (if unat seq - highest A \<le> 32
      then push_bit (unat seq - highest A) ?f OR push_bit (unat seq - highest A - 1) 1 else 0)"
    have "bit f j \<longleftrightarrow> (\<exists>n \<in> insert seq A. unat n + Suc j = unat seq)" if "j < 32" for j
      unfolding f_def by (rule tracks_shift [OF fin gt that bits refl])
    then show ?thesis
      using 3 fr A0 hi gt unfolding recordReceive_newer [OF 3] mx f_def [symmetric]
      by (simp add: tracks_def)
  next
    case 4
    then have "highest A \<noteq> 0" using mx by (metis unat_eq_zero)
    then have "seq \<in> A" using highest_in [OF fin] mx 4(2) by (metis word_unat_eq_iff)
    then show ?thesis using assms unfolding recordReceive_same [OF 4] by (simp add: fresh_def)
  next
    case 5
    let ?d = "highest A - unat seq"
    have lt: "unat seq < highest A" using 5 mx by (simp add: word_less_nat_alt)
    have in_A: "bit ?f (?d - 1) \<longleftrightarrow> seq \<in> A" if "?d \<le> 32"
      using bits [of "?d - 1"] that lt member_at_distance [OF lt, of A] by simp
    have "highest A \<le> unat seq + 32 \<longleftrightarrow> ?d \<le> 32" by linarith
    then have fr: "fresh A seq \<longleftrightarrow> ?d \<le> 32 \<and> \<not> bit ?f (?d - 1)"
      using 5 in_A by (auto simp: fresh_def)
    have "bit (?f OR push_bit (?d - 1) 1) j \<longleftrightarrow> (\<exists>n \<in> insert seq A. unat n + Suc j = highest A)"
      if "j < 32" for j
      using bits [OF that] that lt by (auto simp: bit_simps)
    moreover have "highest (insert seq A) = highest A" using hi lt by simp
    ultimately show ?thesis
      using 5 fr assms mx unfolding recordReceive_older [OF 5] mx by (simp add: tracks_def)
  qed
  then show "snd ?r \<longleftrightarrow> in_window ch seq \<and> fresh A seq"
    "tracks (fst ?r) (if snd ?r then insert seq A else A)" by blast+
qed

lemma isAcked_tracks:
  assumes "tracks ch A" "seq \<noteq> 0" "ackState ch = (ack, field)"
  shows "isAcked seq ack field \<longleftrightarrow> seq \<in> A \<and> highest A \<le> unat seq + 32"
proof -
  have fin: "finite A" by simp
  have A0: "0 \<notin> A" and mx: "unat ack = highest A"
    and bits: "\<And>j. j < 32 \<Longrightarrow> bit field j \<longleftrightarrow> (\<exists>n \<in> A. unat n + Suc j = highest A)"
    using assms(1,3) by (auto simp: tracks_def ackState_def)
  consider "seq = ack" | "ack < seq" | "seq < ack" by force
  then show ?thesis
  proof cases
    case 1
    then have "seq \<in> A" using highest_in [OF fin] mx assms(2) by (metis unat_eq_zero word_unat_eq_iff)
    with 1 mx show ?thesis by (simp add: isAcked_def)
  next
    case 2
    then have "seq \<notin> A" using highest_ge [OF fin, of seq] mx by (auto simp: word_less_nat_alt)
    with 2 show ?thesis by (auto simp: isAcked_def)
  next
    case 3
    let ?d = "highest A - unat seq"
    have lt: "unat seq < highest A" using 3 mx by (simp add: word_less_nat_alt)
    have d: "ack - seq \<le> 32 \<longleftrightarrow> ?d \<le> 32" "unat (ack - seq - 1) = ?d - 1"
      using unat_diff_pred [OF 3] mx by (auto simp: word_le_nat_alt)
    have in_A: "bit field (?d - 1) \<longleftrightarrow> seq \<in> A" if "?d \<le> 32"
      using bits [of "?d - 1"] that lt member_at_distance [OF lt, of A] by simp
    with 3 lt show ?thesis by (auto simp: isAcked_def d and_exp_eq_0_iff_not_bit)
  qed
qed

section \<open>The retransmission queue\<close>

text \<open>The atomic counter \<open>pending\<close> always equals the length of the queue it mirrors.\<close>

definition wf_queue :: "channel \<Rightarrow> bool" where
  "wf_queue ch \<longleftrightarrow> ch_pending ch = int (length (ch_pendingSend ch))"

definition acked_packet :: "u32 \<Rightarrow> u32 \<Rightarrow> pendingPacket \<Rightarrow> bool" where
  "acked_packet ack field p \<longleftrightarrow> isAcked (pp_sequence p) ack field"

text \<open>Karn's algorithm: the samples come from the acked packets that were never retransmitted.\<close>

definition rtt_samples :: "time \<Rightarrow> pendingPacket list \<Rightarrow> duration list" where
  "rtt_samples now ps = map (\<lambda>p. now - pp_sendTime p) (filter pp_firstTransmit ps)"

lemma ackLoop_spec:
  "ackLoop now ack field ps cnt r =
     (filter (\<lambda>p. \<not> acked_packet ack field p) ps, map pp_sequence (filter (acked_packet ack field) ps),
      cnt - int (length (filter (acked_packet ack field) ps)),
      map_option (fold AddSample (rtt_samples now (filter (acked_packet ack field) ps))) r)"
proof (induction ps arbitrary: cnt r)
  case Nil
  then show ?case by (cases r) (simp_all add: rtt_samples_def)
next
  case (Cons p ps)
  then show ?case by (cases r) (auto simp: acked_packet_def rtt_samples_def)
qed

lemma processAcks_spec:
  fixes field :: u32
  assumes "wf_queue ch" "ack \<noteq> 0"
  defines "yes \<equiv> filter (acked_packet ack field) (ch_pendingSend ch)"
  defines "no \<equiv> filter (\<lambda>p. \<not> acked_packet ack field p) (ch_pendingSend ch)"
  shows "processAcks now ack field r ch =
    (ch\<lparr>ch_pendingSend := no, ch_pending := int (length no)\<rparr>,
     map_option (fold AddSample (rtt_samples now yes)) r, map pp_sequence yes)"
proof (cases "ch_pendingSend ch = []")
  case True
  then have "ch_pending ch = 0" using assms(1) by (simp add: wf_queue_def)
  with True show ?thesis
    by (cases r) (simp_all add: processAcks_def no_def yes_def rtt_samples_def)
next
  case False
  have "int (length no) = ch_pending ch - int (length yes)"
    using assms(1) sum_length_filter_compl [of "acked_packet ack field" "ch_pendingSend ch"]
    by (simp add: wf_queue_def yes_def no_def)
  with False assms(2) show ?thesis
    by (simp add: processAcks_def ackLoop_spec yes_def no_def)
qed

text \<open>A packet is due when its retransmission time has come.\<close>

definition due :: "time \<Rightarrow> pendingPacket \<Rightarrow> bool" where
  "due now p \<longleftrightarrow> pp_nextRetransmit p \<le> now"

definition resent :: "time \<Rightarrow> duration \<Rightarrow> pendingPacket \<Rightarrow> pendingPacket" where
  "resent now rto p = p\<lparr>pp_retransmitCount := pp_retransmitCount p + 1, pp_firstTransmit := False,
     pp_nextRetransmit := now + rto\<rparr>"

lemma retransmitLoop_spec:
  "retransmitLoop now rto m ps = (ps', rs, kill) \<Longrightarrow>
     (kill \<longleftrightarrow> (\<exists>p \<in> set ps. due now p \<and> m \<le> pp_retransmitCount p)) \<and>
     (\<not> kill \<longrightarrow> ps' = map (\<lambda>p. if due now p then resent now rto p else p) ps \<and>
        rs = map (resent now rto) (filter (due now) ps)) \<and>
     length ps' = length ps \<and> map pp_sequence ps' = map pp_sequence ps"
proof (induction ps arbitrary: ps' rs kill)
  case (Cons p ps)
  obtain qs rs' k where rec: "retransmitLoop now rto m ps = (qs, rs', k)"
    by (cases "retransmitLoop now rto m ps")
  from Cons.IH [OF rec] Cons.prems show ?case
    by (auto simp: rec Let_def due_def resent_def not_le split: if_splits)
qed auto

lemma wf_queue_ops:
  assumes "wf_queue ch"
  shows "wf_queue (addPending p ch)" "wf_queue (releasePendingBuffers ch)"
    "wf_queue (fst (processAcks now ack field r ch))"
    "wf_queue (fst (checkRetransmissions now rto m ch))"
    "wf_queue (fst (recordReceive seq ch))" "wf_queue (fst (clearNeedsAck ch))"
    "wf_queue (fst (nextSequence ch))"
    "deliver seq payload ch = Inr (ch', ms) \<Longrightarrow> wf_queue ch'"
proof -
  show "wf_queue (addPending p ch)" "wf_queue (releasePendingBuffers ch)"
    "wf_queue (fst (clearNeedsAck ch))" "wf_queue (fst (nextSequence ch))"
    using assms by (simp_all add: wf_queue_def addPending_def releasePendingBuffers_def
        clearNeedsAck_def nextSequence_def Let_def)
  show "wf_queue (fst (processAcks now ack field r ch))"
  proof (cases "ack = 0")
    case True
    with assms show ?thesis by (simp add: processAcks_def)
  next
    case False
    show ?thesis by (simp add: processAcks_spec [OF assms False] wf_queue_def)
  qed
  obtain ps' rs k where loop: "retransmitLoop now rto m (ch_pendingSend ch) = (ps', rs, k)"
    by (cases "retransmitLoop now rto m (ch_pendingSend ch)")
  with assms retransmitLoop_spec [OF loop] show "wf_queue (fst (checkRetransmissions now rto m ch))"
    by (simp add: checkRetransmissions_def wf_queue_def)
  show "wf_queue (fst (recordReceive seq ch))" using assms by (simp add: wf_queue_def)
  show "deliver seq payload ch = Inr (ch', ms) \<Longrightarrow> wf_queue ch'"
    using assms by (auto simp: wf_queue_def deliver_def deliverReliableOrdered_def Let_def
        deliverUnreliableSequenced_def split: if_splits option.splits prod.splits)
qed

end
