(* ===== verification/Delivery.thy ===== *)
theory Delivery
  imports Channel
begin

text \<open>
  What a channel guarantees: each sequence number is accepted at most once, the
  acknowledgements sent back are truthful, reliable-ordered channels deliver in order,
  sequenced channels deliver only newer packets, and the retransmission queue behaves as
  Karn's algorithm and the retry limit demand. The receive path is the one of
  \<open>handleDecrypted\<close> and \<open>processPacket\<close>: \<open>recordReceive\<close>, then \<open>deliver\<close> if it was accepted.
\<close>

section \<open>Definitions\<close>

text \<open>
  The packets of a channel arrive in some order, with losses and repetitions: \<open>seqs\<close> are the
  sequence numbers in order of arrival, and \<open>f\<close> gives the payload the sender put into each packet
  (a retransmission carries the same bytes; \<open>None\<close> is the placeholder of a fragment that does
  not complete its message). The result is the channel, the accepted sequence numbers and the
  deliveries.
\<close>

fun receivePackets :: "(u32 \<Rightarrow> bytes option) \<Rightarrow> u32 list \<Rightarrow> channel \<Rightarrow>
    (channel \<times> u32 list \<times> bytes option list) res" where
  "receivePackets f [] ch = Inr (ch, [], [])"
| "receivePackets f (seq # seqs) ch =
     (let (ch, ok) = recordReceive seq ch
      in if \<not> ok then receivePackets f seqs ch
         else case deliver seq (f seq) ch of
                Inl e \<Rightarrow> Inl e
              | Inr (ch, ms) \<Rightarrow>
                  (case receivePackets f seqs ch of
                     Inl e \<Rightarrow> Inl e
                   | Inr (ch, acc, ms') \<Rightarrow> Inr (ch, seq # acc, ms @ ms')))"

section \<open>Acceptance and acknowledgement\<close>

lemma deliver_frame:
  "deliver seq p ch = Inr (ch', ms) \<Longrightarrow>
     ch_recvAck ch' = ch_recvAck ch \<and> ch_recvAckField ch' = ch_recvAckField ch \<and>
     ch_mode ch' = ch_mode ch \<and> ch_maxReorderWindow ch' = ch_maxReorderWindow ch"
  by (auto simp: deliver_def deliverReliableOrdered_def deliverUnreliableSequenced_def Let_def
      split: if_splits option.splits prod.splits)

lemma deliver_tracks: "deliver seq p ch = Inr (ch', ms) \<Longrightarrow> tracks ch A \<Longrightarrow> tracks ch' A"
  using deliver_frame [of seq p ch ch' ms] by (simp add: tracks_def)

lemma receivePackets_tracks:
  assumes "receivePackets f seqs ch = Inr (ch', acc, ms)" "tracks ch A"
  shows "tracks ch' (A \<union> set acc) \<and> distinct acc \<and> set acc \<inter> A = {} \<and> 0 \<notin> set acc \<and> set acc \<subseteq> set seqs \<and>
    (\<forall>s \<in> set acc. highest A \<le> unat s + 32)"
  using assms
proof (induction seqs arbitrary: ch A acc ms)
  case (Cons seq seqs)
  obtain ch1 ok where r: "recordReceive seq ch = (ch1, ok)" by (cases "recordReceive seq ch")
  note t = recordReceive_tracks [OF Cons.prems(2), of seq, unfolded r, simplified]
  show ?case
  proof (cases ok)
    case False
    then have "receivePackets f seqs ch1 = Inr (ch', acc, ms)" using Cons.prems(1) r by simp
    from Cons.IH [OF this] t False show ?thesis by auto
  next
    case True
    then obtain ch2 ms1 acc' ms2 where d: "deliver seq (f seq) ch1 = Inr (ch2, ms1)"
      and rest: "receivePackets f seqs ch2 = Inr (ch', acc', ms2)" and acc: "acc = seq # acc'"
      using Cons.prems(1) r by (auto split: sum.splits prod.splits)
    have "tracks ch2 (insert seq A)" using deliver_tracks [OF d] t True by simp
    moreover have "highest A \<le> highest (insert seq A)" by (simp add: highest_insert)
    ultimately show ?thesis
      using Cons.IH [OF rest, of "insert seq A"] t(1) True acc by (fastforce simp: fresh_def)
  qed
qed auto

text \<open>C26. Exactly-once acceptance and truthful acknowledgements. Whatever packets arrive on a new
  channel of any mode, in any order and with any repetitions: no sequence number is accepted
  twice, 0 never; and the ack and bit field the channel then reports acknowledge to the sender
  exactly the accepted sequence numbers that are at most 32 behind the highest accepted one.
  The sender never drops an undelivered packet from its queue.\<close>

theorem acks_are_truthful:
  assumes "receivePackets f seqs (newChannel w d) = Inr (ch, acc, ms)" "seq \<noteq> 0"
  shows "distinct acc \<and> 0 \<notin> set acc \<and> set acc \<subseteq> set seqs \<and>
    (isAcked seq (ch_recvAck ch) (ch_recvAckField ch) \<longleftrightarrow>
       seq \<in> set acc \<and> highest (set acc) \<le> unat seq + 32)"
  using receivePackets_tracks [OF assms(1) tracks_new] isAcked_tracks [of ch "set acc" seq] assms(2)
  by (simp add: ackState_def)

text \<open>Whether a packet is accepted, in terms of what was accepted before.\<close>

lemma receivePackets_Cons_accept:
  assumes "tracks ch A" "in_window ch seq" "fresh A seq"
    and "deliver seq (f seq) (fst (recordReceive seq ch)) = Inr (ch2, ms1)"
  shows "receivePackets f (seq # seqs) ch = (case receivePackets f seqs ch2 of Inl e \<Rightarrow> Inl e
     | Inr (ch, acc, ms') \<Rightarrow> Inr (ch, seq # acc, ms1 @ ms'))" "tracks ch2 (insert seq A)"
  using recordReceive_tracks [OF assms(1), of seq] assms deliver_tracks [OF assms(4)]
  by (simp_all add: split_beta)

lemma receivePackets_Cons_reject:
  assumes "tracks ch A" "\<not> (in_window ch seq \<and> fresh A seq)"
  shows "receivePackets f (seq # seqs) ch = receivePackets f seqs ch"
  using recordReceive_tracks(1) [OF assms(1), of seq] assms(2) recordReceive_frame_ex [of seq ch]
  by (auto simp: split_beta)

section \<open>Reliable-ordered delivery\<close>

text \<open>The drain loop takes the longest run of consecutive entries.\<close>

lemma drain_spec:
  "drain buf next = (buf', next', res) \<Longrightarrow> wf_map buf \<Longrightarrow>
     next' = next + of_nat (length res) \<and> wf_map buf' \<and> map_of buf' next' = None \<and>
     (\<forall>i < length res. map_of buf (next + of_nat i) = Some (res ! i)) \<and>
     (\<forall>s. map_of buf' s = (if \<exists>i < length res. s = next + of_nat i then None else map_of buf s))"
proof (induction buf "next" arbitrary: buf' next' res rule: drain.induct)
  case (1 buf "next")
  show ?case
  proof (cases "map_of buf next")
    case None
    then show ?thesis using 1(2,3) by (subst (asm) drain.simps) auto
  next
    case (Some p)
    obtain b n r where rec: "drain (AList.delete next buf) (next + 1) = (b, n, r)"
      by (cases "drain (AList.delete next buf) (next + 1)")
    have out: "buf' = b" "next' = n" "res = p # r"
      using 1(2) Some rec by (subst (asm) drain.simps; simp)+
    note IH = 1(1) [OF Some rec wf_map_delete [OF 1(3)]]
    have at: "map_of buf (next + of_nat i) = Some (res ! i)" if "i < length res" for i
    proof (cases i)
      case 0
      then show ?thesis using Some out by simp
    next
      case (Suc j)
      then have "j < length r" using that out by simp
      then have "map_of (AList.delete next buf) (next + 1 + of_nat j) = Some (r ! j)" using IH by blast
      then show ?thesis using Suc out by (auto simp: map_of_delete_if add.assoc split: if_splits)
    qed
    have ex: "(\<exists>i < length res. s = next + of_nat i) \<longleftrightarrow> s = next \<or> (\<exists>i < length r. s = next + 1 + of_nat i)" for s
      unfolding out by (auto simp: less_Suc_eq_0_disj add.assoc)
    have "map_of buf' s = (if \<exists>i < length res. s = next + of_nat i then None else map_of buf s)" for s
      unfolding ex using IH out by (auto simp: map_of_delete_if)
    moreover have "next' = next + of_nat (length res)" using IH out by (simp add: add.assoc)
    moreover have "wf_map buf'" "map_of buf' next' = None"
      unfolding out using IH by - (elim conjE, assumption)+
    ultimately show ?thesis using at by blast
  qed
qed

text \<open>
  A delivered payload is the sent one; a buffered placeholder (nil) comes out as an empty slice.
\<close>

definition delivered_as :: "bytes option \<Rightarrow> bytes option \<Rightarrow> bool" where
  "delivered_as p v \<longleftrightarrow> v = p \<or> p = None \<and> v = Some []"

text \<open>
  The invariant of an ordered channel that has accepted the sequence numbers \<open>A\<close>: they are the
  delivered ones, below \<open>recvNextDeliver\<close>, and the buffered ones, all above it and inside the
  window.
\<close>

definition ordered_inv :: "(u32 \<Rightarrow> bytes option) \<Rightarrow> u32 set \<Rightarrow> channel \<Rightarrow> bool" where
  "ordered_inv f A ch \<longleftrightarrow> ch_mode ch = ReliableOrdered \<and> tracks ch A \<and> ch_recvNextDeliver ch \<noteq> 0 \<and>
     (\<exists>buf. ch_recvBuffer ch = Some buf \<and> wf_map buf \<and>
        (\<forall>s. s \<in> A \<longleftrightarrow> s \<noteq> 0 \<and> s < ch_recvNextDeliver ch \<or> map_of buf s \<noteq> None) \<and>
        (\<forall>s v. map_of buf s = Some v \<longrightarrow> ch_recvNextDeliver ch < s \<and> delivered_as (f s) v \<and>
           (ch_maxReorderWindow ch = 0 \<or> unat s < unat (ch_recvNextDeliver ch) + unat (ch_maxReorderWindow ch))))"

lemma ordered_inv_new:
  "Mode d = ReliableOrdered \<Longrightarrow> ordered_inv f {} (newChannel w d)"
  using tracks_new [of w d]
  by (auto simp: ordered_inv_def newChannel_def word_less_nat_alt unat_gt_0 unat_eq_zero)

lemma consecutive_words:
  fixes n :: u32
  assumes "\<And>i. i < k \<Longrightarrow> unat (n + of_nat i) < 2 ^ 32 - 1"
  shows "i \<le> k \<Longrightarrow> unat (n + of_nat i) = unat n + i"
proof (induction i)
  case (Suc i)
  then have "unat (n + of_nat i) < 2 ^ 32 - 1" "unat (n + of_nat i) = unat n + i"
    using assms [of i] by (simp_all only: Suc_le_eq less_imp_le)
  then have "unat (n + of_nat i + 1) = Suc (unat n + i)"
    by (simp add: unat_plus_if')
  then show ?case by (simp add: algebra_simps)
qed simp

text \<open>While the sequence numbers do not wrap, the drain loop empties an interval of the buffer.\<close>

lemma drain_interval:
  fixes n :: u32
  assumes dr: "drain b n = (b2, n2, ms)" "wf_map b"
    and dom: "\<forall>s v. map_of b s = Some v \<longrightarrow> unat s < 2 ^ 32 - 1 \<and> n \<le> s"
  shows "unat n2 = unat n + length ms" "wf_map b2"
    "\<And>i. i < length ms \<Longrightarrow> map_of b (n + of_nat i) = Some (ms ! i)"
    "\<And>s. map_of b2 s = (if n \<le> s \<and> s < n2 then None else map_of b s)"
    "\<And>s. n \<le> s \<Longrightarrow> s < n2 \<Longrightarrow> map_of b s \<noteq> None"
    "\<And>s. map_of b2 s \<noteq> None \<Longrightarrow> n2 < s"
proof -
  have sp: "n2 = n + of_nat (length ms)" "wf_map b2" "map_of b2 n2 = None"
    "\<And>i. i < length ms \<Longrightarrow> map_of b (n + of_nat i) = Some (ms ! i)"
    "\<And>s. map_of b2 s = (if \<exists>i < length ms. s = n + of_nat i then None else map_of b s)"
    using drain_spec [OF dr] by blast+
  have cons: "unat (n + of_nat i) = unat n + i" if "i \<le> length ms" for i
    using that consecutive_words [of "length ms" n] dom sp(4) by blast
  have run: "(\<exists>i < length ms. s = n + of_nat i) \<longleftrightarrow> n \<le> s \<and> s < n2" for s
  proof
    assume "n \<le> s \<and> s < n2"
    then have "unat n \<le> unat s" "unat s < unat n + length ms"
      using cons [of "length ms"] sp(1) by (simp_all add: word_le_nat_alt word_less_nat_alt)
    then have "unat s - unat n < length ms" "s = n + of_nat (unat s - unat n)"
      using cons [of "unat s - unat n"] by (simp_all add: word_unat_eq_iff)
    then show "\<exists>i < length ms. s = n + of_nat i" by blast
  qed (use cons sp(1) in \<open>auto simp: word_le_nat_alt word_less_nat_alt\<close>)
  show "unat n2 = unat n + length ms" using cons [of "length ms"] sp(1) by simp
  show b2: "map_of b2 s = (if n \<le> s \<and> s < n2 then None else map_of b s)" for s
    using sp(5) [of s] unfolding run .
  show "map_of b s \<noteq> None" if "n \<le> s" "s < n2" for s using that run [of s] sp(4) by auto
  show "n2 < s" if "map_of b2 s \<noteq> None" for s
  proof -
    have out: "\<not> (n \<le> s \<and> s < n2)" "map_of b s \<noteq> None" using that b2 [of s] by (simp_all split: if_splits)
    then have "n \<le> s" using dom by blast
    moreover have "s \<noteq> n2" using that sp(3) by auto
    ultimately show ?thesis using out(1) by simp
  qed
qed (use drain_spec [OF dr] in blast)+

text \<open>The buffer of an ordered channel with the accepted packet added: every entry is in the window.\<close>

lemma ordered_stored:
  assumes inv: "ordered_inv f A ch" and acc: "in_window ch seq" "fresh A seq" and buf: "ch_recvBuffer ch = Some buf"
    and small: "unat seq < 2 ^ 32 - 1" "\<forall>s \<in> A. unat s < 2 ^ 32 - 1"
    and v: "map_of (AList.update seq (f seq) buf) s = Some v"
  shows "unat s < 2 ^ 32 - 1 \<and> ch_recvNextDeliver ch \<le> s" "delivered_as (f s) v"
    "ch_maxReorderWindow ch = 0 \<or> unat s < unat (ch_recvNextDeliver ch) + unat (ch_maxReorderWindow ch)"
proof -
  let ?n = "ch_recvNextDeliver ch" and ?W = "ch_maxReorderWindow ch"
  have le: "?n \<le> seq" using acc(2) inv buf by (auto simp: ordered_inv_def fresh_def not_less)
  then have win: "?W = 0 \<or> unat seq < unat ?n + unat ?W"
    using acc(1) inv unat_diff [OF le] by (auto simp: ordered_inv_def in_window_def word_less_nat_alt word_le_nat_alt)
  show "unat s < 2 ^ 32 - 1 \<and> ?n \<le> s" "delivered_as (f s) v" "?W = 0 \<or> unat s < unat ?n + unat ?W"
    using v inv buf le win small
    by (auto simp: ordered_inv_def map_of_update_if delivered_as_def intro: less_imp_le split: if_splits)
qed

lemma ordered_step:
  assumes inv: "ordered_inv f A ch" and acc: "in_window ch seq" "fresh A seq"
    and small: "unat seq < 2 ^ 32 - 1" "\<forall>s \<in> A. unat s < 2 ^ 32 - 1"
  shows "\<exists>ch2 ms. deliver seq (f seq) (fst (recordReceive seq ch)) = Inr (ch2, ms) \<and>
    ordered_inv f (insert seq A) ch2 \<and> ch_maxReorderWindow ch2 = ch_maxReorderWindow ch \<and>
    unat (ch_recvNextDeliver ch2) = unat (ch_recvNextDeliver ch) + length ms \<and>
    (\<forall>i < length ms. delivered_as (f (ch_recvNextDeliver ch + of_nat i)) (ms ! i))"
proof -
  let ?ch = "fst (recordReceive seq ch)" and ?n = "ch_recvNextDeliver ch" and ?W = "ch_maxReorderWindow ch"
  obtain buf where mode: "ch_mode ch = ReliableOrdered" and tr: "tracks ch A" and n0: "?n \<noteq> 0"
    and buf: "ch_recvBuffer ch = Some buf" and wf: "wf_map buf"
    and inA: "\<And>s. s \<in> A \<longleftrightarrow> s \<noteq> 0 \<and> s < ?n \<or> map_of buf s \<noteq> None"
    using inv by (auto simp: ordered_inv_def)
  define b1 where "b1 = AList.update seq (f seq) buf"
  note st = ordered_stored [OF inv acc buf small, folded b1_def]
  obtain b2 n2 ms where dr: "drain b1 ?n = (b2, n2, ms)" by (cases "drain b1 ?n")
  have wf1: "wf_map b1" using wf by (simp add: b1_def)
  have "\<forall>s v. map_of b1 s = Some v \<longrightarrow> unat s < 2 ^ 32 - 1 \<and> ?n \<le> s" using st(1) by blast
  note sp = drain_interval [OF dr wf1 this]
  define b3 where "b3 = (if map_of b2 seq \<noteq> None
    then AList.update seq (Some (case f seq of None \<Rightarrow> [] | Some p \<Rightarrow> p)) b2 else b2)"
  define ch2 where "ch2 = ?ch\<lparr>ch_recvBuffer := Some b3, ch_recvNextDeliver := n2\<rparr>"
  have del: "deliver seq (f seq) ?ch = Inr (ch2, ms)"
    using mode buf dr by (simp add: deliver_def deliverReliableOrdered_def b1_def b3_def ch2_def Let_def)
  have b3: "map_of b3 s \<noteq> None \<longleftrightarrow> map_of b2 s \<noteq> None" "wf_map b3" for s
    using sp(2) by (auto simp: b3_def map_of_update_if)
  have b3v: "delivered_as (f s) v" if "map_of b3 s = Some v" for s v
  proof (cases "s = seq \<and> map_of b2 seq \<noteq> None")
    case True
    then show ?thesis using that by (auto simp: b3_def map_of_update_if delivered_as_def split: option.splits)
  next
    case False
    then have "map_of b2 s = Some v" using that by (auto simp: b3_def map_of_update_if split: if_splits)
    then show ?thesis using st(2) sp(4) [of s] by (simp split: if_splits)
  qed
  have in3: "map_of b3 s \<noteq> None \<longleftrightarrow> map_of b1 s \<noteq> None \<and> \<not> (?n \<le> s \<and> s < n2)" for s
    unfolding b3(1) sp(4) [of s] by simp
  have above: "n2 < s" if "map_of b3 s \<noteq> None" for s using that sp(6) [of s] b3(1) by simp
  have le: "?n \<le> n2" using sp(1) by (simp add: word_le_nat_alt)
  have "s \<in> insert seq A \<longleftrightarrow> s \<noteq> 0 \<and> s < n2 \<or> map_of b3 s \<noteq> None" for s
  proof -
    have "s \<in> insert seq A \<longleftrightarrow> s \<noteq> 0 \<and> s < ?n \<or> map_of b1 s \<noteq> None"
      using inA [of s] acc(2) by (auto simp: b1_def map_of_update_if fresh_def)
    also have "\<dots> \<longleftrightarrow> s \<noteq> 0 \<and> s < n2 \<or> map_of b3 s \<noteq> None"
      using in3 [of s] sp(5) [of s] le n0 by (cases "?n \<le> s \<and> s < n2") auto
    finally show ?thesis .
  qed
  moreover have "?W = 0 \<or> unat s < unat n2 + unat ?W" if "map_of b3 s = Some v" for s v
    using that in3 [of s] st(3) [of s] sp(1) by fastforce
  moreover have "tracks ch2 (insert seq A)"
    using deliver_tracks [OF del] recordReceive_tracks [OF tr, of seq] acc by simp
  moreover have "n2 \<noteq> 0" using sp(1) n0 by (metis add_is_0 unat_0 unat_eq_zero)
  ultimately have "ordered_inv f (insert seq A) ch2"
    using mode b3(2) b3v above unfolding ordered_inv_def by (simp add: ch2_def)
  then show ?thesis using del sp(1) st(2) [OF sp(3)] by (auto simp: ch2_def)
qed

definition no_wrap :: "u32 set \<Rightarrow> bool" where
  "no_wrap A \<longleftrightarrow> (\<forall>s \<in> A. unat s < 2 ^ 32 - 1)"

text \<open>The deliveries \<open>ms\<close> are the payloads of the packets from number \<open>n\<close> on, in order.\<close>

definition in_order :: "(u32 \<Rightarrow> bytes option) \<Rightarrow> u32 \<Rightarrow> bytes option list \<Rightarrow> bool" where
  "in_order f n ms \<longleftrightarrow> (\<forall>i < length ms. delivered_as (f (n + of_nat i)) (ms ! i))"

lemma in_order_append:
  "in_order f n ms \<Longrightarrow> in_order f (n + of_nat (length ms)) ms' \<Longrightarrow> in_order f n (ms @ ms')"
proof -
  assume a: "in_order f n ms" "in_order f (n + of_nat (length ms)) ms'"
  have "delivered_as (f (n + of_nat i)) ((ms @ ms') ! i)" if "i < length (ms @ ms')" for i
  proof (cases "i < length ms")
    case True
    then show ?thesis using a(1) by (simp add: in_order_def nth_append)
  next
    case False
    then have "n + of_nat (length ms) + of_nat (i - length ms) = n + of_nat i"
      by (simp add: add.assoc flip: of_nat_add)
    moreover have "i - length ms < length ms'" using that False by simp
    ultimately show ?thesis using a(2) False unfolding in_order_def nth_append by metis
  qed
  then show ?thesis by (simp add: in_order_def)
qed

lemma of_nat_unat_id: "of_nat (unat x) = x" for x :: "'a::len word"
  by simp

lemma ordered_run:
  assumes "ordered_inv f A ch" "no_wrap A" "no_wrap (set seqs)"
  shows "\<exists>ch' acc ms. receivePackets f seqs ch = Inr (ch', acc, ms) \<and> ordered_inv f (A \<union> set acc) ch' \<and>
    no_wrap (A \<union> set acc) \<and> ch_maxReorderWindow ch' = ch_maxReorderWindow ch \<and>
    unat (ch_recvNextDeliver ch') = unat (ch_recvNextDeliver ch) + length ms \<and>
    in_order f (ch_recvNextDeliver ch) ms"
  using assms
proof (induction seqs arbitrary: A ch)
  case Nil
  then show ?case by (simp add: in_order_def)
next
  case (Cons seq seqs)
  have tr: "tracks ch A" using Cons.prems(1) by (simp add: ordered_inv_def)
  have nw: "no_wrap (set seqs)" "unat seq < 2 ^ 32 - 1" "\<forall>s \<in> A. unat s < 2 ^ 32 - 1"
    using Cons.prems by (auto simp: no_wrap_def)
  show ?case
  proof (cases "in_window ch seq \<and> fresh A seq")
    case False
    then show ?thesis
      using Cons.IH [OF Cons.prems(1,2) nw(1)] receivePackets_Cons_reject [OF tr False] by simp
  next
    case True
    then obtain ch2 ms where st: "deliver seq (f seq) (fst (recordReceive seq ch)) = Inr (ch2, ms)"
      "ordered_inv f (insert seq A) ch2" "ch_maxReorderWindow ch2 = ch_maxReorderWindow ch"
      "unat (ch_recvNextDeliver ch2) = unat (ch_recvNextDeliver ch) + length ms"
      "in_order f (ch_recvNextDeliver ch) ms"
      using ordered_step [OF Cons.prems(1) _ _ nw(2,3)] unfolding in_order_def by blast
    have "no_wrap (insert seq A)" using Cons.prems nw by (simp add: no_wrap_def)
    from Cons.IH [OF st(2) this nw(1)] obtain ch' acc ms' where
      rest: "receivePackets f seqs ch2 = Inr (ch', acc, ms')" "ordered_inv f (insert seq A \<union> set acc) ch'"
      "no_wrap (insert seq A \<union> set acc)" "ch_maxReorderWindow ch' = ch_maxReorderWindow ch2"
      "unat (ch_recvNextDeliver ch') = unat (ch_recvNextDeliver ch2) + length ms'"
      "in_order f (ch_recvNextDeliver ch2) ms'"
      by blast
    have "ch_recvNextDeliver ch2 = ch_recvNextDeliver ch + of_nat (length ms)"
      using st(4) of_nat_unat_id [of "ch_recvNextDeliver ch2"] of_nat_unat_id [of "ch_recvNextDeliver ch"]
      by (metis of_nat_add)
    then have "in_order f (ch_recvNextDeliver ch) (ms @ ms')"
      using in_order_append [OF st(5)] rest(6) by simp
    moreover have "receivePackets f (seq # seqs) ch = Inr (ch', seq # acc, ms @ ms')"
      using receivePackets_Cons_accept(1) [of ch A seq f ch2 ms seqs] tr True st(1) rest(1) by simp
    ultimately show ?thesis using rest st by simp
  qed
qed

lemma buffer_bounded:
  assumes "ordered_inv f A ch" "ch_recvBuffer ch = Some buf" "ch_maxReorderWindow ch \<noteq> 0"
  shows "length buf < unat (ch_maxReorderWindow ch)"
proof -
  let ?n = "unat (ch_recvNextDeliver ch)" and ?W = "unat (ch_maxReorderWindow ch)"
  have "wf_map buf" and rng: "\<And>s v. map_of buf s = Some v \<Longrightarrow> ch_recvNextDeliver ch < s \<and> unat s < ?n + ?W"
    using assms by (auto simp: ordered_inv_def)
  then have "unat ` fst ` set buf \<subseteq> {Suc ?n..<?n + ?W}"
    by (force simp: wf_map_def word_less_nat_alt Suc_le_eq)
  then have "card (unat ` fst ` set buf) \<le> ?W - 1"
    using card_mono [of "{Suc ?n..<?n + ?W}"] by fastforce
  moreover have "card (unat ` fst ` set buf) = length buf"
    using \<open>wf_map buf\<close> distinct_card [of "map fst buf"] card_image [of unat "fst ` set buf"]
    by (simp add: wf_map_def inj_on_def word_unat_eq_iff)
  moreover have "0 < ?W" using assms(3) by (simp add: unat_gt_0)
  ultimately show ?thesis by linarith
qed

text \<open>C25. Reliable-ordered delivery. Whatever order the packets of a new ordered channel arrive
  in, with any losses and repetitions (and sequence numbers short of wrapping around), the
  code does not panic, and what it hands to the application is the payloads number 1, 2, 3, ...
  in order, each once and without a gap, up to the first number that has not been accepted.
  Of the packets that wait for it, the buffer holds fewer than the configured window.\<close>

theorem ordered_delivery:
  assumes "Mode d = ReliableOrdered" "no_wrap (set seqs)"
  shows "\<exists>ch acc ms buf. receivePackets f seqs (newChannel w d) = Inr (ch, acc, ms) \<and>
    in_order f 1 ms \<and> (\<forall>s. unat s \<in> {1..length ms} \<longrightarrow> s \<in> set acc) \<and>
    of_nat (Suc (length ms)) \<notin> set acc \<and>
    ch_recvBuffer ch = Some buf \<and> (w \<noteq> 0 \<longrightarrow> length buf < unat w)"
proof -
  obtain ch acc ms where run: "receivePackets f seqs (newChannel w d) = Inr (ch, acc, ms)"
    "ordered_inv f (set acc) ch" "ch_maxReorderWindow ch = w"
    "unat (ch_recvNextDeliver ch) = Suc (length ms)" "in_order f 1 ms"
    using ordered_run [OF ordered_inv_new [OF assms(1)] _ assms(2), of f w]
    by (auto simp: no_wrap_def newChannel_def)
  obtain buf where buf: "ch_recvBuffer ch = Some buf"
    "\<And>s. s \<in> set acc \<longleftrightarrow> s \<noteq> 0 \<and> s < ch_recvNextDeliver ch \<or> map_of buf s \<noteq> None"
    "\<And>s v. map_of buf s = Some v \<Longrightarrow> ch_recvNextDeliver ch < s"
    using run(2) by (auto simp: ordered_inv_def)
  have nxt: "ch_recvNextDeliver ch = of_nat (Suc (length ms))"
    using run(4) of_nat_unat_id by metis
  have "ch_recvNextDeliver ch \<notin> set acc"
    using buf(2) [of "ch_recvNextDeliver ch"] buf(3) [of "ch_recvNextDeliver ch"] by fastforce
  moreover have "s \<in> set acc" if "unat s \<in> {1..length ms}" for s
    using that buf(2) [of s] run(4) by (auto simp: word_less_nat_alt)
  ultimately show ?thesis
    using run buf(1) buffer_bounded [OF run(2) buf(1)] nxt by metis
qed

theorem acks_are_truthful_witness:
  "\<exists>ch. receivePackets (\<lambda>_. Some []) [3, 1, 3] (newChannel 0 \<lparr>Mode = Unreliable, StreamIndex = 0\<rparr>) =
     Inr (ch, [3, 1], [Some [], Some []]) \<and>
   isAcked 1 (ch_recvAck ch) (ch_recvAckField ch) \<and> \<not> isAcked 2 (ch_recvAck ch) (ch_recvAckField ch)"
proof -
  obtain ch where run: "receivePackets (\<lambda>_. Some []) [3, 1, 3] (newChannel 0 \<lparr>Mode = Unreliable, StreamIndex = 0\<rparr>) =
      Inr (ch, [3, 1], [Some [], Some []])"
    by (simp add: recordReceive_def newChannel_def deliver_def mode_defs deliverUnreliable_def Let_def)
  with acks_are_truthful [OF run, of 1] acks_are_truthful [OF run, of 2] show ?thesis
    by (simp add: highest_def)
qed

theorem ordered_delivery_witness:
  "\<exists>ch acc ms buf. receivePackets (\<lambda>s. Some [ucast s]) [2, 1, 4] (newChannel 8 \<lparr>Mode = ReliableOrdered, StreamIndex = 0\<rparr>) =
     Inr (ch, acc, ms) \<and> in_order (\<lambda>s. Some [ucast s]) 1 ms \<and> ch_recvBuffer ch = Some buf \<and> length buf < 8"
  using ordered_delivery [of "\<lparr>Mode = ReliableOrdered, StreamIndex = 0\<rparr>" "[2, 1, 4]" "\<lambda>s. Some [ucast s]" 8]
  by (auto simp: no_wrap_def)

end
