(* ===== verification/Batch.thy ===== *)
theory Batch
  imports FW_Prelude
begin

text \<open>
  Batch frames (\<open>batch.go\<close>): several encrypted packets in one datagram, and \<open>flushBatch\<close>, which
  packs the queued packets of a connection into datagrams of at most the MTU.

  The injected \<open>sendFunc\<close> is a parameter: a function on some network state that may fail. The
  buffer pool is added in \<open>PooledTick\<close>; the recycling of the batch slice is not modelled.
\<close>

section \<open>Definitions\<close>

definition BatchHeaderSize :: nat where "BatchHeaderSize = 1"
definition BatchLenSize :: nat where "BatchLenSize = 2"

lemmas batch_size_defs = BatchHeaderSize_def BatchLenSize_def

definition len16 :: "bytes \<Rightarrow> bytes" where
  "len16 p = to_le 2 (of_nat (length p) :: u16)"

fun marshalEntries :: "bytes \<Rightarrow> nat \<Rightarrow> bytes list \<Rightarrow> bytes \<times> nat" where
  "marshalEntries dst n [] = (dst, n)"
| "marshalEntries dst n (p # ps) =
     (let dst = go_copy dst n (len16 p);
          n = n + BatchLenSize;
          dst = go_copy dst n p;
          n = n + length p
      in marshalEntries dst n ps)"

definition MarshalBatch :: "bytes \<Rightarrow> bytes list \<Rightarrow> bytes \<times> nat res" where
  "MarshalBatch dst packets =
     (if length packets = 0 \<or> 255 < length packets then (dst, Inl ErrInvalidBatchFrame)
      else
        let needed = fold (\<lambda>p n. n + BatchLenSize + length p) packets BatchHeaderSize
        in if length dst < needed then (dst, Inl ErrBufferTooSmall)
           else let (dst, n) = marshalEntries (dst[0 := of_nat (length packets)]) 1 packets
                in (dst, Inr n))"

fun unmarshalEntries :: "bytes \<Rightarrow> nat \<Rightarrow> nat \<Rightarrow> bytes list res" where
  "unmarshalEntries data 0 offset = Inr []"
| "unmarshalEntries data (Suc k) offset =
     (if length data < offset + BatchLenSize then Inl ErrInvalidBatchFrame
      else
        let pktLen = unat (of_le (slice offset (offset + 2) data) :: u16);
            offset = offset + BatchLenSize
        in if length data < offset + pktLen then Inl ErrInvalidBatchFrame
           else case unmarshalEntries data k (offset + pktLen) of
                  Inl e \<Rightarrow> Inl e
                | Inr ps \<Rightarrow> Inr (slice offset (offset + pktLen) data # ps))"

definition UnmarshalBatch :: "bytes \<Rightarrow> bytes list res" where
  "UnmarshalBatch data =
     (if length data < BatchHeaderSize then Inl ErrInvalidBatchFrame
      else let count = unat (data ! 0)
           in if count = 0 then Inl ErrInvalidBatchFrame
              else unmarshalEntries data count BatchHeaderSize)"

definition BatchOverhead :: "int \<Rightarrow> int" where
  "BatchOverhead n = int BatchHeaderSize + n * int BatchLenSize"

text \<open>The injected \<open>sendFunc\<close>, on a network state \<open>'n\<close>; \<open>None\<close> is success.\<close>

type_synonym 'n sendFunc = "'n \<Rightarrow> bytes \<Rightarrow> 'n \<times> fw_error option"

text \<open>The datagram under construction: \<open>dgBuf\<close> (nil or a slice) and \<open>pktCount\<close>.\<close>

type_synonym dgram = "bytes option \<times> nat"

definition batchFlush :: "'n sendFunc \<Rightarrow> 'n \<Rightarrow> dgram \<Rightarrow> 'n \<times> dgram \<times> fw_error option" where
  "batchFlush sf net dg =
     (case dg of (dgBuf, pktCount) \<Rightarrow>
        if pktCount = 0 then (net, dg, None)
        else case dgBuf of
               None \<Rightarrow> (net, dg, Some PanicOutOfRange)
             | Some buf \<Rightarrow>
                 let (net, err) = sf net (buf[0 := of_nat pktCount]) in (net, (None, 0), err))"

fun flushLoop :: "int \<Rightarrow> 'n sendFunc \<Rightarrow> bytes list \<Rightarrow> 'n \<Rightarrow> dgram \<Rightarrow> 'n \<times> fw_error option" where
  "flushLoop mtu sf [] net dg = (let (net, dg, err) = batchFlush sf net dg in (net, err))"
| "flushLoop mtu sf (pkt # pkts) net dg =
     (let entrySize = BatchLenSize + length pkt
      in if mtu < int (BatchHeaderSize + entrySize)
         then
           let (net, dg, err) = batchFlush sf net dg
           in if err \<noteq> None then (net, err)
              else
                let (net, err) = sf net (1 # len16 pkt @ pkt)
                in if err \<noteq> None then (net, err) else flushLoop mtu sf pkts net dg
         else
           let dgBuf = (case fst dg of None \<Rightarrow> [0] | Some b \<Rightarrow> b)
           in if mtu < int (length dgBuf + entrySize) \<or> 255 \<le> snd dg
              then
                let (net, dg', err) = batchFlush sf net (Some dgBuf, snd dg)
                in if err \<noteq> None then (net, err)
                   else flushLoop mtu sf pkts net (Some ([0] @ len16 pkt @ pkt), snd dg' + 1)
              else flushLoop mtu sf pkts net (Some (dgBuf @ len16 pkt @ pkt), snd dg + 1))"

text \<open>\<open>flushBatch\<close> on the content of the batch buffer, which is empty afterwards.\<close>

definition flushBatch :: "int \<Rightarrow> 'n sendFunc \<Rightarrow> bytes list \<Rightarrow> 'n \<Rightarrow> 'n \<times> fw_error option" where
  "flushBatch mtu sf batchBuf net =
     (if batchBuf = [] then (net, None) else flushLoop mtu sf batchBuf net (None, 0))"

section \<open>Frames\<close>

definition entries :: "bytes list \<Rightarrow> bytes" where
  "entries ps = concat (map (\<lambda>p. len16 p @ p) ps)"

definition frame :: "bytes list \<Rightarrow> bytes" where
  "frame ps = of_nat (length ps) # entries ps"

definition framable :: "bytes list \<Rightarrow> bool" where
  "framable ps \<longleftrightarrow> ps \<noteq> [] \<and> length ps \<le> 255 \<and> (\<forall>p \<in> set ps. length p < 2 ^ 16)"

lemma length_len16 [simp]: "length (len16 p) = 2"
  by (simp add: len16_def)

lemma entries_simps [simp]:
  "entries [] = []" "entries (p # ps) = len16 p @ p @ entries ps" "entries (ps @ qs) = entries ps @ entries qs"
  by (simp_all add: entries_def)

lemma of_le_len16: "length p < 2 ^ 16 \<Longrightarrow> unat (of_le (len16 p) :: u16) = length p"
  by (simp add: len16_def unsigned_of_nat take_bit_nat_eq_self)

lemma unmarshalEntries_entries:
  assumes "\<forall>p \<in> set ps. length p < 2 ^ 16"
  shows "unmarshalEntries (pre @ entries ps @ rest) (length ps) (length pre) = Inr ps"
  using assms
proof (induction ps arbitrary: pre)
  case (Cons p ps)
  have "unmarshalEntries ((pre @ len16 p @ p) @ entries ps @ rest) (length ps) (length (pre @ len16 p @ p)) = Inr ps"
    using Cons.IH [of "pre @ len16 p @ p"] Cons.prems by simp
  moreover have "slice (length pre) (length pre + 2) (pre @ len16 p @ p @ entries ps @ rest) = len16 p"
    "slice (length pre + 2) (length pre + 2 + length p) (pre @ len16 p @ p @ entries ps @ rest) = p"
    by (simp_all add: slice_def)
  ultimately show ?case
    using Cons.prems of_le_len16 [of p] by (simp add: BatchLenSize_def Let_def add.assoc)
qed simp

lemma UnmarshalBatch_frame: "framable ps \<Longrightarrow> UnmarshalBatch (frame ps @ rest) = Inr ps"
proof -
  assume fr: "framable ps"
  have u: "unat (of_nat (length ps) :: byte) = length ps"
    using fr by (simp add: framable_def unsigned_of_nat take_bit_nat_eq_self)
  then show ?thesis
    using fr unmarshalEntries_entries [of ps "[of_nat (length ps)]" rest]
    by (simp add: UnmarshalBatch_def frame_def framable_def BatchHeaderSize_def)
qed

lemma marshalEntries_entries:
  "n + length (entries ps) \<le> length dst \<Longrightarrow>
     marshalEntries dst n ps = (take n dst @ entries ps @ drop (n + length (entries ps)) dst, n + length (entries ps))"
proof (induction ps arbitrary: dst n)
  case (Cons p ps)
  let ?d = "go_copy (go_copy dst n (len16 p)) (n + 2) p"
  have d: "take (n + 2 + length p) ?d = take n dst @ len16 p @ p" "length ?d = length dst"
    "drop (n + 2 + length p) ?d = drop (n + 2 + length p) dst"
    using Cons.prems by (simp_all add: go_copy_def add.commute)
  have "drop (n + 2 + length p + k) ?d = drop (n + 2 + length p + k) dst" for k
    using d(3) by (metis drop_drop add.commute)
  then show ?case
    using Cons.IH [of "n + 2 + length p" ?d] Cons.prems d by (simp add: BatchLenSize_def Let_def add.assoc)
qed simp

lemma fold_needed: "fold (\<lambda>p n. n + BatchLenSize + length p) ps a = a + length (entries ps)"
  by (induction ps arbitrary: a) (simp_all add: BatchLenSize_def)

lemma MarshalBatch_frame:
  "MarshalBatch dst ps =
     (if ps = [] \<or> 255 < length ps then (dst, Inl ErrInvalidBatchFrame)
      else if length dst < length (frame ps) then (dst, Inl ErrBufferTooSmall)
      else (frame ps @ drop (length (frame ps)) dst, Inr (length (frame ps))))"
proof -
  have "take (Suc 0) (dst[0 := x]) = [x]" "drop (Suc k) (dst[0 := x]) = drop (Suc k) dst" if "dst \<noteq> []" for x k
    using that by (cases dst; simp)+
  moreover have "dst \<noteq> []" if "\<not> length dst < Suc (length (entries ps))" using that by auto
  ultimately show ?thesis
    by (auto simp: MarshalBatch_def fold_needed BatchHeaderSize_def frame_def marshalEntries_entries)
qed

text \<open>Batch frames: \<open>MarshalBatch\<close> accepts 1 to 255 packets and needs exactly the length of the
  frame (the announced overhead plus the packets); on success \<open>UnmarshalBatch\<close> reads the same
  packets back, in order, whatever follows in the buffer, provided no packet is longer than
  the 16-bit length field can say. Otherwise the buffer is untouched.\<close>

theorem batch_roundtrip:
  "MarshalBatch dst ps = (dst', r) \<Longrightarrow>
   (case r of
      Inl e \<Rightarrow> dst' = dst \<and> (e = ErrInvalidBatchFrame \<and> (ps = [] \<or> 255 < length ps) \<or>
        e = ErrBufferTooSmall \<and> int (length dst) < BatchOverhead (int (length ps)) + int (length (concat ps)))
    | Inr n \<Rightarrow> int n = BatchOverhead (int (length ps)) + int (length (concat ps)) \<and> n \<le> length dst \<and>
        length dst' = length dst \<and> drop n dst' = drop n dst \<and>
        ((\<forall>p \<in> set ps. length p < 2 ^ 16) \<longrightarrow> UnmarshalBatch dst' = Inr ps))"
proof -
  assume m: "MarshalBatch dst ps = (dst', r)"
  have len: "int (length (frame ps)) = BatchOverhead (int (length ps)) + int (length (concat ps))"
  proof -
    have "length (entries ps) = 2 * length ps + length (concat ps)" by (induction ps) auto
    then show ?thesis by (simp add: frame_def BatchOverhead_def batch_size_defs)
  qed
  consider "ps = [] \<or> 255 < length ps" | "\<not> (ps = [] \<or> 255 < length ps)" "length dst < length (frame ps)"
    | "\<not> (ps = [] \<or> 255 < length ps)" "length (frame ps) \<le> length dst" by linarith
  then show ?thesis
  proof cases
    case 3
    then have "UnmarshalBatch dst' = Inr ps" if "\<forall>p \<in> set ps. length p < 2 ^ 16"
      using m UnmarshalBatch_frame [of ps] that by (auto simp: MarshalBatch_frame framable_def)
    with 3 m len show ?thesis by (auto simp: MarshalBatch_frame)
  qed (use m len in \<open>auto simp: MarshalBatch_frame\<close>)
qed

theorem batch_roundtrip_witness:
  "UnmarshalBatch (fst (MarshalBatch (replicate 10 0) [[1, 2], [3]])) = Inr [[1, 2], [3]]"
proof -
  obtain dst' where "MarshalBatch (replicate 10 0) [[1, 2], [3]] = (dst', Inr 8)"
    by (simp add: MarshalBatch_frame frame_def)
  with batch_roundtrip [OF this] show ?thesis by simp
qed

section \<open>Flushing\<close>

text \<open>A network that never fails and records what was sent.\<close>

definition recorder :: "bytes list sendFunc" where
  "recorder net d = (net @ [d], None)"

lemma recorder_sends: "recorder net d = (net @ [d], None)"
  by (simp add: recorder_def)

text \<open>The packets \<open>ps\<close> were split into the datagrams \<open>ds\<close>.\<close>

definition packed :: "int \<Rightarrow> bytes list \<Rightarrow> bytes list \<Rightarrow> bool" where
  "packed mtu ps ds \<longleftrightarrow> (\<exists>groups. concat groups = ps \<and> ds = map frame groups \<and> (\<forall>g \<in> set groups. framable g) \<and>
     (\<forall>g \<in> set groups. int (length (frame g)) \<le> mtu \<or> length g = 1))"

lemma packed_append: "packed mtu ps ds \<Longrightarrow> packed mtu qs es \<Longrightarrow> packed mtu (ps @ qs) (ds @ es)"
  unfolding packed_def
proof (elim exE conjE)
  fix g h assume "concat g = ps" "ds = map frame g" "\<forall>x \<in> set g. framable x" "\<forall>x \<in> set g. int (length (frame x)) \<le> mtu \<or> length x = 1"
    "concat h = qs" "es = map frame h" "\<forall>x \<in> set h. framable x" "\<forall>x \<in> set h. int (length (frame x)) \<le> mtu \<or> length x = 1"
  then show "\<exists>groups. concat groups = ps @ qs \<and> ds @ es = map frame groups \<and> (\<forall>g \<in> set groups. framable g) \<and>
      (\<forall>g \<in> set groups. int (length (frame g)) \<le> mtu \<or> length g = 1)"
    by (intro exI [of _ "g @ h"]) auto
qed

lemma packed_single: "framable g \<Longrightarrow> int (length (frame g)) \<le> mtu \<or> length g = 1 \<Longrightarrow> packed mtu g [frame g]"
  unfolding packed_def by (intro exI [of _ "[g]"]) auto

lemma packed_Nil: "packed mtu [] []"
  unfolding packed_def by (intro exI [of _ "[]"]) auto

text \<open>The datagram under construction holds the packets \<open>qs\<close>.\<close>

definition open_dg :: "int \<Rightarrow> bytes list \<Rightarrow> dgram \<Rightarrow> bool" where
  "open_dg mtu qs dg \<longleftrightarrow> (qs = [] \<and> dg = (None, 0)) \<or>
     (framable qs \<and> int (length (frame qs)) \<le> mtu \<and> dg = (Some (0 # entries qs), length qs))"

lemma batchFlush_open:
  assumes "open_dg mtu qs dg"
  shows "\<exists>ds. batchFlush recorder net dg = (net @ ds, (None, 0), None) \<and> packed mtu qs ds"
  using assms packed_Nil packed_single [of qs mtu]
  by (auto simp: open_dg_def batchFlush_def recorder_def frame_def framable_def)

lemma flushLoop_packed:
  assumes "open_dg mtu qs dg" "\<forall>p \<in> set ps. length p < 2 ^ 16"
  shows "\<exists>ds. flushLoop mtu recorder ps net dg = (net @ ds, None) \<and> packed mtu (qs @ ps) ds"
  using assms
proof (induction ps arbitrary: qs dg net)
  case Nil
  then show ?case using batchFlush_open [of mtu qs dg net] by auto
next
  case (Cons p ps)
  let ?big = "mtu < int (3 + length p)"
  have fr1: "framable [p]" using Cons.prems by (simp add: framable_def)
  have fp: "frame [p] = 1 # len16 p @ p" by (simp add: frame_def)
  obtain ds where fl: "batchFlush recorder net dg = (net @ ds, (None, 0), None)" "packed mtu qs ds"
    using batchFlush_open [OF Cons.prems(1)] by blast
  consider "?big" | "\<not> ?big" "qs = []" "dg = (None, 0)"
    | "\<not> ?big" "framable qs" "dg = (Some (0 # entries qs), length qs)"
        "mtu < int (length (0 # entries qs) + (2 + length p)) \<or> 255 \<le> length qs"
    | "\<not> ?big" "framable qs" "dg = (Some (0 # entries qs), length qs)"
        "\<not> (mtu < int (length (0 # entries qs) + (2 + length p)) \<or> 255 \<le> length qs)"
    using Cons.prems(1) by (auto simp: open_dg_def)
  then show ?case
  proof cases
    case 1
    obtain es where es: "flushLoop mtu recorder ps (net @ ds @ [frame [p]]) (None, 0) = (net @ ds @ [frame [p]] @ es, None)"
      "packed mtu ([] @ ps) es"
      using Cons.IH [of "[]" "(None, 0)" "net @ ds @ [frame [p]]"] Cons.prems(2) by (auto simp: open_dg_def)
    have "packed mtu (qs @ [p] @ ps) (ds @ [frame [p]] @ es)"
      using fl(2) es(2) packed_single [OF fr1] by (intro packed_append) auto
    moreover have sent: "recorder (net @ ds) (1 # len16 p @ p) = (net @ ds @ [frame [p]], None)"
      by (simp add: recorder_sends fp)
    then have "flushLoop mtu recorder (p # ps) net dg = (net @ ds @ [frame [p]] @ es, None)"
      using 1 fl(1) es(1) by (simp add: batch_size_defs Let_def sent)
    ultimately show ?thesis by auto
  next
    case 2
    then have "open_dg mtu [p] (Some (0 # len16 p @ p), 1)"
      using fr1 by (simp add: open_dg_def fp)
    from Cons.IH [OF this, of net] Cons.prems(2) 2 show ?thesis by (auto simp: batch_size_defs Let_def)
  next
    case 3
    have fl3: "batchFlush recorder net (Some (0 # entries qs), length qs) = (net @ ds, (None, 0), None)"
      using fl(1) 3(3) by simp
    have "open_dg mtu [p] (Some (0 # len16 p @ p), 1)"
      using fr1 3(1) by (simp add: open_dg_def fp)
    then obtain es where es: "flushLoop mtu recorder ps (net @ ds) (Some (0 # len16 p @ p), 1) = (net @ ds @ es, None)"
      "packed mtu ([p] @ ps) es"
      using Cons.IH [of "[p]" "(Some (0 # len16 p @ p), 1)" "net @ ds"] Cons.prems(2) by auto
    then show ?thesis using 3 fl3 packed_append [OF fl(2) es(2)] by (auto simp: batch_size_defs Let_def)
  next
    case 4
    then have "open_dg mtu (qs @ [p]) (Some (0 # entries qs @ len16 p @ p), length qs + 1)"
      using Cons.prems(2) by (auto simp: open_dg_def framable_def frame_def)
    from Cons.IH [OF this, of net] Cons.prems(2) 4 show ?thesis by (auto simp: batch_size_defs Let_def)
  qed
qed

text \<open>C34. \<open>flushBatch\<close> loses, repeats and reorders nothing: when the network accepts them, the
  datagrams it sends are well-formed frames whose packets, unpacked by \<open>UnmarshalBatch\<close> and
  concatenated, are exactly the queued packets in order, and every datagram fits the MTU unless
  it carries a single packet.\<close>

theorem flush_batch_complete:
  assumes "\<forall>p \<in> set ps. length p < 2 ^ 16"
  shows "\<exists>ds groups. flushBatch mtu recorder ps [] = (ds, None) \<and>
     map UnmarshalBatch ds = map Inr groups \<and> concat groups = ps \<and>
     list_all2 (\<lambda>d g. int (length d) \<le> mtu \<or> length g = 1) ds groups"
proof -
  obtain ds where ds: "flushBatch mtu recorder ps [] = (ds, None)" "packed mtu ps ds"
  proof (cases "ps = []")
    case True
    then show ?thesis using that packed_Nil by (simp add: flushBatch_def)
  next
    case False
    then show ?thesis
      using that flushLoop_packed [of mtu "[]" "(None, 0)" ps "[]"] assms by (auto simp: flushBatch_def open_dg_def)
  qed
  from ds(2) obtain groups where g: "concat groups = ps" "ds = map frame groups"
    "\<forall>g \<in> set groups. framable g" "\<forall>g \<in> set groups. int (length (frame g)) \<le> mtu \<or> length g = 1"
    by (auto simp: packed_def)
  have "map UnmarshalBatch ds = map Inr groups"
    using g(2,3) UnmarshalBatch_frame [of _ "[]"] by auto
  moreover have "list_all2 (\<lambda>d g. int (length d) \<le> mtu \<or> length g = 1) ds groups"
    using g(2,4) by (simp add: list_all2_map1 list_all2_same)
  ultimately show ?thesis using ds(1) g(1) by blast
qed

theorem flush_batch_complete_witness:
  "\<exists>ds groups. flushBatch 1200 recorder [[1, 2], [3]] [] = (ds, None) \<and>
     map UnmarshalBatch ds = map Inr groups \<and> concat groups = [[1, 2], [3]]"
  using flush_batch_complete [of "[[1, 2], [3]]" 1200] by auto

end
