(* ===== verification/Control.thy ===== *)
theory Control
  imports Config
begin

text \<open>
  Control packets (first half of \<open>handshake.go\<close>): the payloads of CONNECT, CHALLENGE, RESPONSE,
  VERSION_MISMATCH, REJECT, DISCONNECT and MULTI_ACK with their encoders and decoders, and the
  builders and the parser of complete control packets. A fixed-size Go array (challenge token,
  migration token) is a byte list of that length; the public key and the dictionary hash are
  slices, and slicing one that is shorter than 32 bytes panics.
\<close>

section \<open>Definitions\<close>

type_synonym MigrationToken = bytes

definition MigrationTokenSize :: nat where "MigrationTokenSize = 8"

definition compressionOK :: byte where "compressionOK = 0"
definition compressionDictMismatch :: byte where "compressionDictMismatch = 1"
definition RejectServerFull :: byte where "RejectServerFull = 0"
definition RejectBanned :: byte where "RejectBanned = 1"

record connectPacket =
  con_ProtocolVersion :: byte
  con_AppVersion :: u16
  con_PublicKey :: bytes
  con_CipherPref :: CipherSuite
  con_Compression :: CompressionAlgorithm
  con_DictHash :: "bytes option"
  con_Features :: byte

record challengePacket =
  cha_ProtocolVersion :: byte
  cha_AppVersion :: u16
  cha_PublicKey :: bytes
  cha_ChallengeToken :: bytes
  cha_SelectedCipher :: CipherSuite
  cha_CompressionAck :: byte
  cha_Features :: byte
  cha_MigrationToken :: MigrationToken

definition connectMinSize :: nat where "connectMinSize = 1 + 1 + 2 + 32 + 1 + 1 + 1 + 1"
definition connectWithDictSize :: nat where "connectWithDictSize = connectMinSize + 32"
definition challengeMinSize :: nat where "challengeMinSize = 1 + 1 + 2 + 32 + 32 + 1 + 1 + 1"
definition challengeWithMigration :: nat where "challengeWithMigration = challengeMinSize + 8"
definition responseSize :: nat where "responseSize = 1 + 32"
definition versionMismatchSize :: nat where "versionMismatchSize = 1 + 1 + 2"
definition rejectSize :: nat where "rejectSize = 1 + 1"
definition disconnectPaySize :: nat where "disconnectPaySize = 1"

lemmas ctrl_size_defs = connectMinSize_def connectWithDictSize_def challengeMinSize_def
  challengeWithMigration_def responseSize_def versionMismatchSize_def rejectSize_def
  disconnectPaySize_def MigrationTokenSize_def

definition marshalConnect :: "bytes \<Rightarrow> connectPacket \<Rightarrow> bytes \<times> nat res" where
  "marshalConnect buf cp =
     (let needed = (if con_DictHash cp \<noteq> None then connectWithDictSize else connectMinSize)
      in if length buf < needed then (buf, Inl ErrBufferTooSmall)
         else
           let buf = buf[0 := ControlConnect];
               buf = buf[1 := con_ProtocolVersion cp];
               buf = go_copy buf 2 (to_be 2 (con_AppVersion cp))
           in if length (con_PublicKey cp) < 32 then (buf, Inl PanicOutOfRange)
              else
                let buf = go_copy buf 4 (take 32 (con_PublicKey cp));
                    buf = buf[36 := con_CipherPref cp];
                    buf = buf[37 := con_Compression cp]
                in case con_DictHash cp of
                     Some h \<Rightarrow>
                       let buf = buf[38 := 1]
                       in if length h < 32 then (buf, Inl PanicOutOfRange)
                          else let buf = go_copy buf 39 (take 32 h);
                                   buf = buf[71 := con_Features cp]
                               in (buf, Inr 72)
                   | None \<Rightarrow>
                       let buf = buf[38 := 0];
                           buf = buf[39 := con_Features cp]
                       in (buf, Inr 40))"

definition unmarshalConnect :: "bytes \<Rightarrow> connectPacket res" where
  "unmarshalConnect data =
     (if length data < connectMinSize then Inl ErrInvalidHandshake
      else if data ! 0 \<noteq> ControlConnect then Inl ErrInvalidHandshake
      else
        let cp = \<lparr>con_ProtocolVersion = data ! 1, con_AppVersion = of_be (slice 2 4 data),
                  con_PublicKey = go_copy (replicate 32 0) 0 (slice 4 36 data),
                  con_CipherPref = data ! 36, con_Compression = data ! 37,
                  con_DictHash = None, con_Features = 0\<rparr>
        in if data ! 38 = 1
           then if length data < connectWithDictSize then Inl ErrInvalidHandshake
                else Inr (cp\<lparr>con_DictHash := Some (go_copy (replicate 32 0) 0 (slice 39 71 data)),
                             con_Features := data ! 71\<rparr>)
           else Inr (cp\<lparr>con_Features := data ! 39\<rparr>))"

definition marshalChallenge :: "bytes \<Rightarrow> challengePacket \<Rightarrow> bytes \<times> nat res" where
  "marshalChallenge buf cp =
     (let migrates = cha_Features cp AND FeatureConnectionMigration \<noteq> 0;
          needed = (if migrates then challengeWithMigration else challengeMinSize)
      in if length buf < needed then (buf, Inl ErrBufferTooSmall)
         else
           let buf = buf[0 := ControlChallenge];
               buf = buf[1 := cha_ProtocolVersion cp];
               buf = go_copy buf 2 (to_be 2 (cha_AppVersion cp))
           in if length (cha_PublicKey cp) < 32 then (buf, Inl PanicOutOfRange)
              else
                let buf = go_copy buf 4 (take 32 (cha_PublicKey cp));
                    buf = go_copy buf 36 (cha_ChallengeToken cp);
                    buf = buf[68 := cha_SelectedCipher cp];
                    buf = buf[69 := cha_CompressionAck cp];
                    buf = buf[70 := cha_Features cp]
                in if migrates
                   then (go_copy buf 71 (cha_MigrationToken cp), Inr (71 + MigrationTokenSize))
                   else (buf, Inr 71))"

definition unmarshalChallenge :: "bytes \<Rightarrow> challengePacket res" where
  "unmarshalChallenge data =
     (if length data < challengeMinSize then Inl ErrInvalidHandshake
      else if data ! 0 \<noteq> ControlChallenge then Inl ErrInvalidHandshake
      else
        let cp = \<lparr>cha_ProtocolVersion = data ! 1, cha_AppVersion = of_be (slice 2 4 data),
                  cha_PublicKey = go_copy (replicate 32 0) 0 (slice 4 36 data),
                  cha_ChallengeToken = go_copy (replicate 32 0) 0 (slice 36 68 data),
                  cha_SelectedCipher = data ! 68, cha_CompressionAck = data ! 69,
                  cha_Features = data ! 70, cha_MigrationToken = replicate 8 0\<rparr>
        in if cha_Features cp AND FeatureConnectionMigration \<noteq> 0
           then if length data < challengeWithMigration then Inl ErrInvalidHandshake
                else Inr (cp\<lparr>cha_MigrationToken :=
                       go_copy (replicate 8 0) 0 (slice 71 (71 + MigrationTokenSize) data)\<rparr>)
           else Inr cp)"

definition marshalResponse :: "bytes \<Rightarrow> bytes \<Rightarrow> bytes \<times> nat res" where
  "marshalResponse buf token =
     (if length buf < responseSize then (buf, Inl ErrBufferTooSmall)
      else (go_copy (buf[0 := ControlResponse]) 1 token, Inr responseSize))"

definition unmarshalResponse :: "bytes \<Rightarrow> bytes res" where
  "unmarshalResponse data =
     (if length data < responseSize then Inl ErrInvalidHandshake
      else if data ! 0 \<noteq> ControlResponse then Inl ErrInvalidHandshake
      else Inr (go_copy (replicate 32 0) 0 (slice 1 33 data)))"

definition marshalVersionMismatch :: "bytes \<Rightarrow> byte \<times> u16 \<Rightarrow> bytes \<times> nat res" where
  "marshalVersionMismatch buf v =
     (if length buf < versionMismatchSize then (buf, Inl ErrBufferTooSmall)
      else (go_copy (buf[0 := ControlVersionMismatch, 1 := fst v]) 2 (to_be 2 (snd v)), Inr versionMismatchSize))"

definition unmarshalVersionMismatch :: "bytes \<Rightarrow> (byte \<times> u16) res" where
  "unmarshalVersionMismatch data =
     (if length data < versionMismatchSize then Inl ErrInvalidHandshake
      else if data ! 0 \<noteq> ControlVersionMismatch then Inl ErrInvalidHandshake
      else Inr (data ! 1, of_be (slice 2 4 data)))"

definition marshalReject :: "bytes \<Rightarrow> byte \<Rightarrow> bytes \<times> nat res" where
  "marshalReject buf reason =
     (if length buf < rejectSize then (buf, Inl ErrBufferTooSmall)
      else (buf[0 := ControlReject, 1 := reason], Inr rejectSize))"

definition unmarshalReject :: "bytes \<Rightarrow> byte res" where
  "unmarshalReject data =
     (if length data < rejectSize then Inl ErrInvalidHandshake
      else if data ! 0 \<noteq> ControlReject then Inl ErrInvalidHandshake
      else Inr (data ! 1))"

record multiAckEntry =
  mae_Channel :: byte
  mae_Ack :: u32
  mae_AckField :: u32

fun marshalAckEntries :: "bytes \<Rightarrow> nat \<Rightarrow> multiAckEntry list \<Rightarrow> bytes \<times> nat res" where
  "marshalAckEntries buf offset [] = (buf, Inr offset)"
| "marshalAckEntries buf offset (e # es) =
     (if length buf < offset + 10 then (buf, Inl ErrBufferTooSmall)
      else
        let buf = buf[offset := mae_Channel e];
            offset = offset + 1;
            (sub, w) = PutVarInt (drop offset buf) (mae_Ack e);
            buf = take offset buf @ sub;
            offset = offset + w;
            buf = go_copy buf offset (to_le 4 (mae_AckField e))
        in marshalAckEntries buf (offset + 4) es)"

definition marshalMultiAck :: "bytes \<Rightarrow> multiAckEntry list \<Rightarrow> bytes \<times> nat res" where
  "marshalMultiAck buf entries =
     (if length buf < 2 then (buf, Inl ErrBufferTooSmall)
      else marshalAckEntries (buf[0 := ControlMultiAck, 1 := of_nat (length entries)]) 2 entries)"

fun unmarshalAckEntries :: "bytes \<Rightarrow> nat \<Rightarrow> nat \<Rightarrow> (multiAckEntry list \<times> nat) res" where
  "unmarshalAckEntries data 0 offset = Inr ([], offset)"
| "unmarshalAckEntries data (Suc k) offset =
     (if length data \<le> offset then Inl ErrInvalidHandshake
      else
        let ch = data ! offset;
            offset = offset + 1
        in case ReadVarInt (drop offset data) of
             Inl e \<Rightarrow> Inl e
           | Inr (ack, n) \<Rightarrow>
               let offset = offset + n
               in if length data < offset + 4 then Inl ErrInvalidHandshake
                  else case unmarshalAckEntries data k (offset + 4) of
                         Inl e \<Rightarrow> Inl e
                       | Inr (es, off) \<Rightarrow>
                           Inr (\<lparr>mae_Channel = ch, mae_Ack = ack,
                                 mae_AckField = of_le (take 4 (drop offset data))\<rparr> # es, off))"

definition unmarshalMultiAck :: "bytes \<Rightarrow> (multiAckEntry list \<times> nat) res" where
  "unmarshalMultiAck data =
     (if length data < 1 then Inl ErrInvalidHandshake
      else unmarshalAckEntries data (unat (data ! 0)) 1)"

definition marshalDisconnect :: "bytes \<Rightarrow> bytes \<times> nat res" where
  "marshalDisconnect buf =
     (if length buf < disconnectPaySize then (buf, Inl ErrBufferTooSmall)
      else (buf[0 := ControlDisconnect], Inr disconnectPaySize))"

subsection \<open>Complete packets\<close>

definition buildControlPacket :: "bytes \<Rightarrow> PacketHeader \<Rightarrow> bytes \<Rightarrow> bytes \<times> nat res" where
  "buildControlPacket buf hdr controlPayload =
     (let hdr = hdr\<lparr>Flags := Flags hdr OR FlagControl\<rparr>
      in case MarshalHeader buf hdr of
           (buf, Inl e) \<Rightarrow> (buf, Inl e)
         | (buf, Inr n) \<Rightarrow>
             if length (drop n buf) < length controlPayload then (buf, Inl ErrBufferTooSmall)
             else (go_copy buf n controlPayload, Inr (n + length controlPayload)))"

definition parseControlPacket :: "bytes \<Rightarrow> (PacketHeader \<times> byte \<times> bytes) res" where
  "parseControlPacket data =
     (case UnmarshalHeader data of
        Inl e \<Rightarrow> Inl e
      | Inr (hdr, n) \<Rightarrow>
          if Flags hdr AND FlagControl = 0 then Inl ErrInvalidHandshake
          else if length (drop n data) < 1 then Inl ErrInvalidHandshake
          else Inr (hdr, data ! n, drop n data))"

definition controlHeader :: PacketHeader where
  "controlHeader = \<lparr>Flags = FlagControl, Channel = 0, Sequence = 0, Ack = 0, AckField = 0\<rparr>"

text \<open>The body shared by the five convenience builders: the header, then the payload encoder on
  the rest of the buffer.\<close>

definition buildPacket :: "(bytes \<Rightarrow> 'a \<Rightarrow> bytes \<times> nat res) \<Rightarrow> bytes \<Rightarrow> 'a \<Rightarrow> bytes \<times> nat res" where
  "buildPacket marshal buf x =
     (case MarshalHeader buf controlHeader of
        (buf, Inl e) \<Rightarrow> (buf, Inl e)
      | (buf, Inr n) \<Rightarrow>
          (case marshal (drop n buf) x of
             (sub, Inl e) \<Rightarrow> (take n buf @ sub, Inl e)
           | (sub, Inr w) \<Rightarrow> (take n buf @ sub, Inr (n + w))))"

definition buildConnectPacket :: "bytes \<Rightarrow> connectPacket \<Rightarrow> bytes \<times> nat res" where
  "buildConnectPacket = buildPacket marshalConnect"

definition buildChallengePacket :: "bytes \<Rightarrow> challengePacket \<Rightarrow> bytes \<times> nat res" where
  "buildChallengePacket = buildPacket marshalChallenge"

definition buildResponsePacket :: "bytes \<Rightarrow> bytes \<Rightarrow> bytes \<times> nat res" where
  "buildResponsePacket = buildPacket marshalResponse"

definition buildVersionMismatchPacket :: "bytes \<Rightarrow> byte \<times> u16 \<Rightarrow> bytes \<times> nat res" where
  "buildVersionMismatchPacket = buildPacket marshalVersionMismatch"

definition buildRejectPacket :: "bytes \<Rightarrow> byte \<Rightarrow> bytes \<times> nat res" where
  "buildRejectPacket = buildPacket marshalReject"

section \<open>Encodings\<close>

definition connect_enc :: "connectPacket \<Rightarrow> bytes" where
  "connect_enc cp = [ControlConnect, con_ProtocolVersion cp] @ to_be 2 (con_AppVersion cp) @
     con_PublicKey cp @ [con_CipherPref cp, con_Compression cp] @
     (case con_DictHash cp of None \<Rightarrow> [0] | Some h \<Rightarrow> 1 # h) @ [con_Features cp]"

definition wf_connect :: "connectPacket \<Rightarrow> bool" where
  "wf_connect cp \<longleftrightarrow> length (con_PublicKey cp) = 32 \<and> (\<forall>h. con_DictHash cp = Some h \<longrightarrow> length h = 32)"

definition challenge_enc :: "challengePacket \<Rightarrow> bytes" where
  "challenge_enc cp = [ControlChallenge, cha_ProtocolVersion cp] @ to_be 2 (cha_AppVersion cp) @
     cha_PublicKey cp @ cha_ChallengeToken cp @
     [cha_SelectedCipher cp, cha_CompressionAck cp, cha_Features cp] @
     (if cha_Features cp AND FeatureConnectionMigration \<noteq> 0 then cha_MigrationToken cp else [])"

text \<open>The migration token is not transmitted, and so is zero, when migration was not negotiated.\<close>

definition wf_challenge :: "challengePacket \<Rightarrow> bool" where
  "wf_challenge cp \<longleftrightarrow> length (cha_PublicKey cp) = 32 \<and> length (cha_ChallengeToken cp) = 32 \<and>
     length (cha_MigrationToken cp) = 8 \<and>
     (cha_Features cp AND FeatureConnectionMigration = 0 \<longrightarrow> cha_MigrationToken cp = replicate 8 0)"

definition with_length :: "('a \<Rightarrow> bytes) \<Rightarrow> (bytes \<Rightarrow> 'a res) \<Rightarrow> bytes \<Rightarrow> ('a \<times> nat) res" where
  "with_length enc dec b = map_sum id (\<lambda>x. (x, length (enc x))) (dec b)"

lemma update_go_copy: "i < length buf \<Longrightarrow> buf[i := x] = go_copy buf i [x]"
  by (simp add: go_copy_def list_update_append_take_drop Suc_leI take_Cons' Suc_le_eq)

lemma go_copy_go_copy:
  "j = i + length xs \<Longrightarrow> i + length xs + length ys \<le> length buf \<Longrightarrow>
     go_copy (go_copy buf i xs) j ys = go_copy buf i (xs @ ys)"
  by (simp add: go_copy_def add.commute add.left_commute)

lemma go_copy_id: "length xs = n \<Longrightarrow> go_copy (replicate n 0) 0 xs = xs"
  by (simp add: go_copy_def)

lemma length_connect_enc:
  "wf_connect cp \<Longrightarrow> length (connect_enc cp) = (if con_DictHash cp \<noteq> None then 72 else 40)"
  by (auto simp: connect_enc_def wf_connect_def)

lemma length_challenge_enc:
  "wf_challenge cp \<Longrightarrow> length (challenge_enc cp) =
     (if cha_Features cp AND FeatureConnectionMigration \<noteq> 0 then 79 else 71)"
  by (auto simp: challenge_enc_def wf_challenge_def)

lemmas write_simps = update_go_copy go_copy_go_copy

lemma unmarshalConnect_enc [codec_simps]:
  assumes "wf_connect cp"
  shows "unmarshalConnect (connect_enc cp @ rest) = Inr cp"
proof (cases "con_DictHash cp")
  case None
  let ?d = "connect_enc cp @ rest"
  have pk: "length (con_PublicKey cp) = 32" using assms by (simp add: wf_connect_def)
  have d: "?d = [ControlConnect, con_ProtocolVersion cp] @ to_be 2 (con_AppVersion cp) @ con_PublicKey cp @
      [con_CipherPref cp, con_Compression cp, 0, con_Features cp] @ rest"
    using None by (simp add: connect_enc_def)
  have f: "?d ! 0 = ControlConnect" "?d ! 1 = con_ProtocolVersion cp" "slice 2 4 ?d = to_be 2 (con_AppVersion cp)"
    "slice 4 36 ?d = con_PublicKey cp" "?d ! 36 = con_CipherPref cp" "?d ! 37 = con_Compression cp"
    "?d ! 38 = 0" "?d ! 39 = con_Features cp" "40 \<le> length ?d"
    unfolding d using pk by (simp_all add: slice_def nth_append)
  with None pk show ?thesis
    by (cases cp) (simp add: unmarshalConnect_def ctrl_size_defs go_copy_id Let_def)
next
  case (Some h)
  let ?d = "connect_enc cp @ rest"
  have pk: "length (con_PublicKey cp) = 32" "length h = 32" using assms Some by (simp_all add: wf_connect_def)
  have d: "?d = [ControlConnect, con_ProtocolVersion cp] @ to_be 2 (con_AppVersion cp) @ con_PublicKey cp @
      [con_CipherPref cp, con_Compression cp, 1] @ h @ [con_Features cp] @ rest"
    using Some by (simp add: connect_enc_def)
  have f: "?d ! 0 = ControlConnect" "?d ! 1 = con_ProtocolVersion cp" "slice 2 4 ?d = to_be 2 (con_AppVersion cp)"
    "slice 4 36 ?d = con_PublicKey cp" "?d ! 36 = con_CipherPref cp" "?d ! 37 = con_Compression cp"
    "?d ! 38 = 1" "slice 39 71 ?d = h" "?d ! 71 = con_Features cp" "72 \<le> length ?d"
    unfolding d using pk by (simp_all add: slice_def nth_append)
  with Some pk show ?thesis
    by (cases cp) (simp add: unmarshalConnect_def ctrl_size_defs go_copy_id Let_def)
qed

lemma marshalConnect_ok [codec_simps]:
  assumes "wf_connect cp" "length (connect_enc cp) \<le> length buf"
  shows "marshalConnect buf cp = (go_copy buf 0 (connect_enc cp), Inr (length (connect_enc cp)))"
proof -
  have pk: "length (con_PublicKey cp) = 32" "buf \<noteq> []"
    using assms length_connect_enc [OF assms(1)] by (auto simp: wf_connect_def split: if_splits)
  show ?thesis
  proof (cases "con_DictHash cp")
    case None
    with assms pk length_connect_enc [OF assms(1)] show ?thesis
      by (simp add: marshalConnect_def ctrl_size_defs Let_def write_simps connect_enc_def)
  next
    case (Some h)
    then have h: "length h = 32" using assms by (simp add: wf_connect_def)
    with Some assms pk length_connect_enc [OF assms(1)] show ?thesis
      by (simp add: marshalConnect_def ctrl_size_defs Let_def write_simps connect_enc_def)
  qed
qed

lemma unmarshalChallenge_enc [codec_simps]:
  assumes "wf_challenge cp"
  shows "unmarshalChallenge (challenge_enc cp @ rest) = Inr cp"
proof -
  let ?d = "challenge_enc cp @ rest" and ?m = "cha_Features cp AND FeatureConnectionMigration \<noteq> 0"
  have l: "length (cha_PublicKey cp) = 32" "length (cha_ChallengeToken cp) = 32" "length (cha_MigrationToken cp) = 8"
    using assms by (simp_all add: wf_challenge_def)
  have d: "?d = [ControlChallenge, cha_ProtocolVersion cp] @ to_be 2 (cha_AppVersion cp) @ cha_PublicKey cp @
      cha_ChallengeToken cp @ [cha_SelectedCipher cp, cha_CompressionAck cp, cha_Features cp] @
      (if ?m then cha_MigrationToken cp else []) @ rest" by (simp add: challenge_enc_def)
  have f: "?d ! 0 = ControlChallenge" "?d ! 1 = cha_ProtocolVersion cp" "slice 2 4 ?d = to_be 2 (cha_AppVersion cp)"
    "slice 4 36 ?d = cha_PublicKey cp" "slice 36 68 ?d = cha_ChallengeToken cp"
    "?d ! 68 = cha_SelectedCipher cp" "?d ! 69 = cha_CompressionAck cp" "?d ! 70 = cha_Features cp"
    "?m \<Longrightarrow> slice 71 79 ?d = cha_MigrationToken cp"
    unfolding d using l by (simp_all add: slice_def nth_append)
  have "length ?d = length (challenge_enc cp) + length rest" by simp
  with f l length_challenge_enc [OF assms] assms show ?thesis
    by (cases cp) (auto simp: unmarshalChallenge_def ctrl_size_defs go_copy_id Let_def wf_challenge_def)
qed

lemma marshalChallenge_ok [codec_simps]:
  assumes "wf_challenge cp" "length (challenge_enc cp) \<le> length buf"
  shows "marshalChallenge buf cp = (go_copy buf 0 (challenge_enc cp), Inr (length (challenge_enc cp)))"
proof -
  have "length (cha_PublicKey cp) = 32" "length (cha_ChallengeToken cp) = 32" "length (cha_MigrationToken cp) = 8"
    "buf \<noteq> []"
    using assms length_challenge_enc [OF assms(1)] by (auto simp: wf_challenge_def split: if_splits)
  with assms length_challenge_enc [OF assms(1)] show ?thesis
    by (cases "cha_Features cp AND FeatureConnectionMigration = 0")
      (simp_all add: marshalChallenge_def ctrl_size_defs Let_def write_simps challenge_enc_def)
qed

definition response_enc :: "bytes \<Rightarrow> bytes" where "response_enc token = ControlResponse # token"
definition mismatch_enc :: "byte \<times> u16 \<Rightarrow> bytes" where
  "mismatch_enc v = [ControlVersionMismatch, fst v] @ to_be 2 (snd v)"
definition reject_enc :: "byte \<Rightarrow> bytes" where "reject_enc r = [ControlReject, r]"

lemma marshalResponse_ok [codec_simps]:
  assumes "length token = 32" "33 \<le> length buf"
  shows "marshalResponse buf token = (go_copy buf 0 (response_enc token), Inr 33)"
proof -
  have "buf \<noteq> []" using assms(2) by auto
  with assms show ?thesis
    by (simp add: marshalResponse_def ctrl_size_defs write_simps response_enc_def)
qed

lemma marshalVersionMismatch_ok [codec_simps]:
  assumes "4 \<le> length buf"
  shows "marshalVersionMismatch buf v = (go_copy buf 0 (mismatch_enc v), Inr 4)"
proof -
  have "buf \<noteq> []" using assms by auto
  with assms show ?thesis
    by (simp add: marshalVersionMismatch_def ctrl_size_defs write_simps mismatch_enc_def)
qed

lemma marshalReject_ok [codec_simps]:
  assumes "2 \<le> length buf"
  shows "marshalReject buf r = (go_copy buf 0 (reject_enc r), Inr 2)"
proof -
  have "buf \<noteq> []" using assms by auto
  with assms show ?thesis
    by (simp add: marshalReject_def ctrl_size_defs write_simps reject_enc_def)
qed

section \<open>Building and parsing complete packets\<close>

text \<open>The interface of a control message: a buffer codec whose encodings start with the type byte.\<close>

locale control_codec = buffer_codec enc dec wf put room
  for enc :: "'a \<Rightarrow> bytes" and dec :: "bytes \<Rightarrow> ('a \<times> nat) res" and wf :: "'a \<Rightarrow> bool"
    and put :: "bytes \<Rightarrow> 'a \<Rightarrow> bytes \<times> nat res" and room :: "'a \<Rightarrow> nat" +
  fixes ct :: byte
  assumes enc_type: "wf x \<Longrightarrow> \<exists>rest. enc x = ct # rest"
begin

lemma build_parse:
  assumes "wf x" "8 + room x \<le> length buf" "12 \<le> length buf"
  shows "\<exists>buf' n. buildPacket put buf x = (buf', Inr n) \<and> n = 8 + length (enc x) \<and> n \<le> length buf' \<and>
     parseControlPacket (take n buf') = Inr (controlHeader, ct, enc x) \<and> dec (enc x) = Inr (x, length (enc x)) \<and>
     take 8 (take n buf') = header_enc controlHeader"
proof -
  have hl: "length (header_enc controlHeader) = 8" "header_room controlHeader = 12"
    by (simp_all add: header_enc_def header_room_def controlHeader_def leb.simps)
  let ?h = "header_enc controlHeader"
  let ?b = "go_copy buf 0 ?h"
  have m: "MarshalHeader buf controlHeader = (?b, Inr 8)"
    using MarshalHeader_ok [of controlHeader buf] assms(3) hl by simp
  have b: "take 8 ?b = ?h" "length (drop 8 ?b) = length buf - 8"
    using hl assms(3) by (simp_all add: go_copy_def)
  have p: "put (drop 8 ?b) x = (go_copy (drop 8 ?b) 0 (enc x), Inr (length (enc x)))"
    using assms b by (intro put_ok) simp_all
  have len: "length (enc x) \<le> length (drop 8 ?b)" using enc_room [OF assms(1)] assms(2) b by linarith
  let ?b2 = "?h @ go_copy (drop 8 ?b) 0 (enc x)"
  have bp: "buildPacket put buf x = (?b2, Inr (8 + length (enc x)))"
    by (simp add: buildPacket_def m p b(1))
  have t: "take (8 + length (enc x)) ?b2 = ?h @ enc x" "8 + length (enc x) \<le> length ?b2"
    using hl len by (simp_all add: go_copy_def)
  obtain r where r: "enc x = ct # r" using enc_type [OF assms(1)] by blast
  have "parseControlPacket (?h @ enc x) = Inr (controlHeader, ct, enc x)"
    using hl r by (simp add: parseControlPacket_def codec_simps nth_append controlHeader_def FlagControl_def)
  moreover have "dec (enc x) = Inr (x, length (enc x))" using dec_enc [OF assms(1), of "[]"] by simp
  moreover have "take 8 (?h @ enc x) = ?h" using hl(1) by simp
  ultimately show ?thesis using bp t by (metis (no_types, lifting))
qed

end

lemma enc_types:
  "\<exists>rest. connect_enc cp = ControlConnect # rest" "\<exists>rest. challenge_enc ch = ControlChallenge # rest"
  by (simp_all add: connect_enc_def challenge_enc_def)

interpretation connect: control_codec connect_enc "with_length connect_enc unmarshalConnect" wf_connect
  marshalConnect "\<lambda>cp. length (connect_enc cp)" ControlConnect
  by unfold_locales (simp_all add: with_length_def codec_simps enc_types)

interpretation challenge: control_codec challenge_enc "with_length challenge_enc unmarshalChallenge" wf_challenge
  marshalChallenge "\<lambda>cp. length (challenge_enc cp)" ControlChallenge
  by unfold_locales (simp_all add: with_length_def codec_simps enc_types)

interpretation response: control_codec response_enc "with_length response_enc unmarshalResponse" "\<lambda>t. length t = 32"
  marshalResponse "\<lambda>_. 33" ControlResponse
  by unfold_locales
    (simp_all add: codec_simps with_length_def response_enc_def unmarshalResponse_def ctrl_size_defs slice_def go_copy_id)

interpretation mismatch: control_codec mismatch_enc "with_length mismatch_enc unmarshalVersionMismatch" "\<lambda>_. True"
  marshalVersionMismatch "\<lambda>_. 4" ControlVersionMismatch
  by unfold_locales
    (simp_all add: codec_simps with_length_def mismatch_enc_def unmarshalVersionMismatch_def ctrl_size_defs slice_def)

interpretation reject: control_codec reject_enc "with_length reject_enc unmarshalReject" "\<lambda>_. True"
  marshalReject "\<lambda>_. 2" ControlReject
  by unfold_locales
    (simp_all add: codec_simps with_length_def reject_enc_def unmarshalReject_def ctrl_size_defs)

section \<open>Multi-channel acknowledgements\<close>

definition ack_entry_enc :: "multiAckEntry \<Rightarrow> bytes" where
  "ack_entry_enc e = mae_Channel e # leb (mae_Ack e) @ to_le 4 (mae_AckField e)"

definition ack_entries_enc :: "multiAckEntry list \<Rightarrow> bytes" where
  "ack_entries_enc es = concat (map ack_entry_enc es)"

lemma length_ack_entry: "6 \<le> length (ack_entry_enc e)" "length (ack_entry_enc e) \<le> 10"
  using length_leb_VarInt [of "mae_Ack e"] leb_ge1 [of "mae_Ack e"] by (simp_all add: ack_entry_enc_def)

lemma ack_entries_simps [simp]:
  "ack_entries_enc [] = []" "ack_entries_enc (e # es) = ack_entry_enc e @ ack_entries_enc es"
  by (simp_all add: ack_entries_enc_def)

lemma length_ack_entries:
  "6 * length es \<le> length (ack_entries_enc es)" "length (ack_entries_enc es) \<le> 10 * length es"
proof (induction es)
  case (Cons e es)
  { case 1 then show ?case using length_ack_entry [of e] Cons by simp }
  { case 2 then show ?case using length_ack_entry [of e] Cons by simp }
qed simp_all

lemma unmarshalAckEntries_enc:
  "unmarshalAckEntries (pre @ ack_entries_enc es @ rest) (length es) (length pre) =
     Inr (es, length pre + length (ack_entries_enc es))"
proof (induction es arbitrary: pre)
  case (Cons e es)
  let ?d = "pre @ ack_entries_enc (e # es) @ rest"
  have "drop (length pre + 1) ?d = leb (mae_Ack e) @ to_le 4 (mae_AckField e) @ ack_entries_enc es @ rest"
    by (simp add: ack_entry_enc_def)
  moreover have "drop (length pre + 1 + length (leb (mae_Ack e))) ?d = to_le 4 (mae_AckField e) @ ack_entries_enc es @ rest"
    by (simp add: ack_entry_enc_def)
  moreover have "?d ! length pre = mae_Channel e" by (simp add: ack_entry_enc_def nth_append)
  moreover have "unmarshalAckEntries ?d (length es) (length pre + 1 + length (leb (mae_Ack e)) + 4) =
      Inr (es, length pre + length (ack_entries_enc (e # es)))"
    using Cons.IH [of "pre @ ack_entry_enc e"] by (simp add: ack_entry_enc_def ac_simps)
  moreover have "length pre < length ?d" "length pre + 1 + length (leb (mae_Ack e)) + 4 \<le> length ?d"
    by (simp_all add: ack_entry_enc_def)
  ultimately show ?case by (simp add: codec_simps Let_def del: ack_entries_simps)
qed simp

lemma marshalAckEntries_step:
  assumes "offset + 10 \<le> length buf"
  shows "marshalAckEntries buf offset (e # es) =
     marshalAckEntries (go_copy buf offset (ack_entry_enc e)) (offset + length (ack_entry_enc e)) es"
proof -
  let ?b1 = "buf[offset := mae_Channel e]" and ?l = "leb (mae_Ack e)"
  have b1: "?b1 = go_copy buf offset [mae_Channel e]" using assms by (intro update_go_copy) simp
  have "PutVarInt (drop (offset + 1) ?b1) (mae_Ack e) = (go_copy (drop (offset + 1) ?b1) 0 ?l, length ?l)"
    using assms length_leb_VarInt [of "mae_Ack e"] by (intro PutVarInt_eq) simp
  moreover have "take (offset + 1) ?b1 @ go_copy (drop (offset + 1) ?b1) 0 ?l = go_copy ?b1 (offset + 1) ?l"
    using assms by (simp add: go_copy_def add.commute)
  moreover have "go_copy ?b1 (offset + 1) ?l = go_copy buf offset (mae_Channel e # ?l)"
    unfolding b1 using assms length_leb_VarInt [of "mae_Ack e"] by (subst go_copy_go_copy) simp_all
  moreover have "go_copy (go_copy buf offset (mae_Channel e # ?l)) (offset + 1 + length ?l) (to_le 4 (mae_AckField e)) =
      go_copy buf offset (ack_entry_enc e)"
    using assms length_leb_VarInt [of "mae_Ack e"] by (subst go_copy_go_copy) (simp_all add: ack_entry_enc_def)
  ultimately show ?thesis using assms by (simp add: Let_def ack_entry_enc_def ac_simps)
qed

lemma marshalAckEntries_ok:
  assumes "marshalAckEntries buf offset es = (buf', Inr n)" "offset \<le> length buf"
  shows "n = offset + length (ack_entries_enc es) \<and> buf' = go_copy buf offset (ack_entries_enc es) \<and> n \<le> length buf"
  using assms
proof (induction es arbitrary: buf offset)
  case (Cons e es)
  have room: "offset + 10 \<le> length buf" using Cons.prems(1) by (auto split: if_splits)
  have len: "offset + length (ack_entry_enc e) \<le> length buf" using length_ack_entry(2) [of e] room by linarith
  note st = marshalAckEntries_step [OF room, of e es]
  from Cons.IH [of "go_copy buf offset (ack_entry_enc e)" "offset + length (ack_entry_enc e)"] Cons.prems len
  have "n = offset + length (ack_entry_enc e) + length (ack_entries_enc es)" "n \<le> length buf"
    "buf' = go_copy (go_copy buf offset (ack_entry_enc e)) (offset + length (ack_entry_enc e)) (ack_entries_enc es)"
    unfolding st by simp_all
  then show ?case by (simp add: go_copy_go_copy)
qed simp

lemma marshalAckEntries_enough:
  "offset + 10 * length es \<le> length buf \<Longrightarrow> \<exists>buf' n. marshalAckEntries buf offset es = (buf', Inr n)"
proof (induction es arbitrary: buf offset)
  case (Cons e es)
  then have room: "offset + 10 \<le> length buf" by simp
  have "offset + length (ack_entry_enc e) + 10 * length es \<le> length (go_copy buf offset (ack_entry_enc e))"
    using Cons.prems length_ack_entry(2) [of e] by simp
  from Cons.IH [OF this] show ?case unfolding marshalAckEntries_step [OF room] .
qed simp

lemma marshalAckEntries_full:
  assumes "length buf < offset + 6 * length es + 4" "es \<noteq> []"
  shows "\<exists>buf'. marshalAckEntries buf offset es = (buf', Inl ErrBufferTooSmall)"
  using assms
proof (induction es arbitrary: buf offset)
  case (Cons e es)
  show ?case
  proof (cases "offset + 10 \<le> length buf")
    case True
    then have "es \<noteq> []" using Cons.prems(1) by auto
    moreover have "length (go_copy buf offset (ack_entry_enc e)) < offset + length (ack_entry_enc e) + 6 * length es + 4"
      using Cons.prems(1) length_ack_entry(1) [of e] True by simp
    ultimately show ?thesis unfolding marshalAckEntries_step [OF True] using Cons.IH by blast
  qed simp
qed simp

section \<open>Properties\<close>

text \<open>The handshake messages survive the wire: built into the 128-byte buffers the code
  uses, a CONNECT and a CHALLENGE packet parse back, from exactly the bytes sent, to a control
  packet of the right type whose payload decodes to the same message, optional dictionary hash
  and migration token included.\<close>

theorem handshake_messages_roundtrip:
  assumes "wf_connect cp" "wf_challenge ch" "length buf = 128"
  shows "(\<exists>buf' n p. buildConnectPacket buf cp = (buf', Inr n) \<and>
       parseControlPacket (take n buf') = Inr (controlHeader, ControlConnect, p) \<and> unmarshalConnect p = Inr cp) \<and>
     (\<exists>buf' n p. buildChallengePacket buf ch = (buf', Inr n) \<and>
       parseControlPacket (take n buf') = Inr (controlHeader, ControlChallenge, p) \<and> unmarshalChallenge p = Inr ch)"
proof -
  have "8 + length (connect_enc cp) \<le> length buf" "8 + length (challenge_enc ch) \<le> length buf" "12 \<le> length buf"
    using length_connect_enc [OF assms(1)] length_challenge_enc [OF assms(2)] assms(3) by simp_all
  moreover have "unmarshalConnect (connect_enc cp) = Inr cp" "unmarshalChallenge (challenge_enc ch) = Inr ch"
    using unmarshalConnect_enc [OF assms(1), of "[]"] unmarshalChallenge_enc [OF assms(2), of "[]"] by simp_all
  ultimately show ?thesis
    using connect.build_parse [OF assms(1), of buf] challenge.build_parse [OF assms(2), of buf]
    unfolding buildConnectPacket_def buildChallengePacket_def by blast
qed

definition sample_connect :: connectPacket where
  "sample_connect = \<lparr>con_ProtocolVersion = 1, con_AppVersion = 7, con_PublicKey = replicate 32 5,
     con_CipherPref = 1, con_Compression = 2, con_DictHash = Some (replicate 32 9), con_Features = 3\<rparr>"

definition sample_challenge :: challengePacket where
  "sample_challenge = \<lparr>cha_ProtocolVersion = 1, cha_AppVersion = 7, cha_PublicKey = replicate 32 5,
     cha_ChallengeToken = replicate 32 8, cha_SelectedCipher = 1, cha_CompressionAck = 0, cha_Features = 2,
     cha_MigrationToken = [1, 2, 3, 4, 5, 6, 7, 8]\<rparr>"

theorem handshake_messages_roundtrip_witness:
  "\<exists>buf' n p. buildConnectPacket (replicate 128 0) sample_connect = (buf', Inr n) \<and>
     parseControlPacket (take n buf') = Inr (controlHeader, ControlConnect, p) \<and> unmarshalConnect p = Inr sample_connect"
proof -
  have "wf_connect sample_connect" "wf_challenge sample_challenge"
    by (simp_all add: wf_connect_def sample_connect_def wf_challenge_def sample_challenge_def FeatureConnectionMigration_def)
  from handshake_messages_roundtrip [OF this, of "replicate 128 0"] show ?thesis by simp
qed

text \<open>C35. The multi-channel acknowledgement: when \<open>marshalMultiAck\<close> succeeds, the receiver decodes
  exactly the same entries from the bytes sent. It always succeeds for up to 25 channels in the
  256-byte buffer of \<open>sendMultiChannelHeartbeat\<close>, and never for 42 or more.\<close>

theorem multi_ack_roundtrip:
  assumes "length es \<le> 255" "length buf = 256"
  shows "(case marshalMultiAck buf es of
       (buf', Inl e) \<Rightarrow> e = ErrBufferTooSmall \<and> 25 < length es
     | (buf', Inr n) \<Rightarrow> length es < 42 \<and> take 1 buf' = [ControlMultiAck] \<and> n \<le> 256 \<and>
         unmarshalMultiAck (drop 1 (take n buf')) = Inr (es, n - 1))"
proof -
  let ?b = "buf[0 := ControlMultiAck, 1 := of_nat (length es)]"
  have mm: "marshalMultiAck buf es = marshalAckEntries ?b 2 es" using assms by (simp add: marshalMultiAck_def)
  obtain x y rest where buf: "buf = x # y # rest" using assms(2) by (cases buf; cases "tl buf") auto
  have lenb: "length ?b = 256" "take 2 ?b = [ControlMultiAck, of_nat (length es)]"
    using assms(2) by (simp_all add: buf)
  have cnt: "unat (of_nat (length es) :: byte) = length es"
    using assms(1) by (simp add: unsigned_of_nat take_bit_nat_eq_self)
  have err: "e = ErrBufferTooSmall" if "marshalAckEntries b off es' = (b', Inl e)" for b off es' b' e
    using that by (induction b off es' rule: marshalAckEntries.induct) (auto simp: Let_def split: if_splits prod.splits)
  obtain buf' r where res: "marshalAckEntries ?b 2 es = (buf', r)" by (cases "marshalAckEntries ?b 2 es")
  show ?thesis
  proof (cases r)
    case (Inl e)
    then have "25 < length es"
      using marshalAckEntries_enough [of 2 es ?b] lenb res by (cases "length es \<le> 25") auto
    with Inl res err show ?thesis by (simp add: mm)
  next
    case (Inr n)
    have ok: "n = 2 + length (ack_entries_enc es)" "buf' = go_copy ?b 2 (ack_entries_enc es)" "n \<le> 256"
      using marshalAckEntries_ok [of ?b 2 es buf' n] res Inr lenb by simp_all
    have "length es < 42"
      using marshalAckEntries_full [of ?b 2 es] res Inr lenb by (cases "length es < 42"; cases es) auto
    moreover have t: "take n buf' = [ControlMultiAck, of_nat (length es)] @ ack_entries_enc es"
      using ok lenb take_go_copy_end [of 2 "ack_entries_enc es" ?b] by simp
    moreover have "take 1 buf' = take 1 (take n buf')" using ok(1) by simp
    moreover have "unmarshalMultiAck (drop 1 (take n buf')) = Inr (es, n - 1)"
      using unmarshalAckEntries_enc [of "[of_nat (length es)]" es "[]"] cnt ok(1)
      unfolding t by (simp add: unmarshalMultiAck_def)
    ultimately show ?thesis using res Inr ok(3) by (simp add: mm)
  qed
qed

theorem multi_ack_roundtrip_witness:
  "\<exists>buf' n. marshalMultiAck (replicate 256 0) [\<lparr>mae_Channel = 3, mae_Ack = 300, mae_AckField = 5\<rparr>] = (buf', Inr n) \<and>
     unmarshalMultiAck (drop 1 (take n buf')) = Inr ([\<lparr>mae_Channel = 3, mae_Ack = 300, mae_AckField = 5\<rparr>], n - 1)"
  using multi_ack_roundtrip [of "[\<lparr>mae_Channel = 3, mae_Ack = 300, mae_AckField = 5\<rparr>]" "replicate 256 0"]
  by (auto split: prod.splits sum.splits)

end
