(* ===== verification/Compress.thy ===== *)
theory Compress
  imports Config
begin

text \<open>
  Payload compression (\<open>compress.go\<close>): the LZ4 and Zstd compressors, the per-connection
  compressor pool, and the choice between compressed and plain payloads. The two compression
  libraries are parameters, collected in \<open>comp_lib\<close>. The pools of encoders and decoders only
  cache objects that \<open>newEncoder\<close> and \<open>newDecoder\<close> create from the same options, so they are
  not modelled. An error that wraps a sentinel (\<open>fmt.Errorf\<close> with \<open>%w\<close>) is not equal to the sentinel;
  such an error is \<open>ErrOther\<close> here. \<open>DictionaryHash\<close> is the SHA-256 of the crypto library.
\<close>

section \<open>Definitions\<close>

record comp_lib =
  lz4_CompressBlock :: "bytes \<Rightarrow> bytes res"            \<comment> \<open>the block written; empty when incompressible\<close>
  lz4_UncompressBlock :: "bytes \<Rightarrow> nat \<Rightarrow> bytes res"   \<comment> \<open>block, size of the destination\<close>
  zstd_DictID :: "bytes \<Rightarrow> nat res"                    \<comment> \<open>\<open>InspectDictionary\<close> and \<open>ID\<close>\<close>
  zstd_NewWriter :: "bytes option \<Rightarrow> unit res"         \<comment> \<open>with or without a dictionary\<close>
  zstd_NewReader :: "bytes option \<Rightarrow> unit res"
  zstd_EncodeAll :: "bytes option \<Rightarrow> bytes \<Rightarrow> bytes"
  zstd_DecodeAll :: "bytes option \<Rightarrow> nat \<Rightarrow> bytes \<Rightarrow> bytes res"  \<comment> \<open>dictionary, memory limit, frame\<close>

subsection \<open>LZ4\<close>

text \<open>\<open>dst\<close> is the content before the call; the result is appended to it.\<close>

definition lz4_Compress :: "comp_lib \<Rightarrow> bytes \<Rightarrow> bytes \<Rightarrow> bytes res" where
  "lz4_Compress lib dst src =
     (if length src = 0 then Inr dst
      else case lz4_CompressBlock lib src of
             Inl e \<Rightarrow> Inl ErrOther
           | Inr block \<Rightarrow>
               if length block = 0 then Inl ErrCompressionFailed
               else Inr (dst @ to_le 4 (of_nat (length src) :: u32) @ block))"

definition lz4_Decompress :: "comp_lib \<Rightarrow> bytes \<Rightarrow> bytes \<Rightarrow> bytes res" where
  "lz4_Decompress lib dst src =
     (if length src < 4 then Inl ErrDecompressionFailed
      else
        let origSize = unat (of_le (take 4 src) :: u32)
        in if MaxDecompressedSize < origSize then Inl ErrDecompressionFailed
           else if origSize = 0 then Inr dst
           else case lz4_UncompressBlock lib (drop 4 src) origSize of
                  Inl e \<Rightarrow> Inl ErrOther
                | Inr out \<Rightarrow> Inr (dst @ out))"

subsection \<open>Zstd\<close>

record zstdCompressor =
  z_dict :: "bytes option"

text \<open>A dictionary is used only if it can be inspected and has a non-zero id.\<close>

definition zstdDict :: "comp_lib \<Rightarrow> zstdCompressor \<Rightarrow> bytes option" where
  "zstdDict lib c =
     (case z_dict c of
        None \<Rightarrow> None
      | Some d \<Rightarrow> (case zstd_DictID lib d of Inl e \<Rightarrow> None | Inr i \<Rightarrow> if i \<noteq> 0 then Some d else None))"

definition newEncoder :: "comp_lib \<Rightarrow> zstdCompressor \<Rightarrow> unit res" where
  "newEncoder lib c = zstd_NewWriter lib (zstdDict lib c)"

definition newDecoder :: "comp_lib \<Rightarrow> zstdCompressor \<Rightarrow> unit res" where
  "newDecoder lib c = zstd_NewReader lib (zstdDict lib c)"

definition newZstdCompressor :: "comp_lib \<Rightarrow> int \<Rightarrow> bytes option \<Rightarrow> zstdCompressor res" where
  "newZstdCompressor lib level dict =
     (let c = \<lparr>z_dict = dict\<rparr>
      in case newEncoder lib c of
           Inl e \<Rightarrow> Inl ErrOther
         | Inr _ \<Rightarrow> (case newDecoder lib c of Inl e \<Rightarrow> Inl ErrOther | Inr _ \<Rightarrow> Inr c))"

definition zstd_Compress :: "comp_lib \<Rightarrow> zstdCompressor \<Rightarrow> bytes \<Rightarrow> bytes \<Rightarrow> bytes res" where
  "zstd_Compress lib c dst src =
     (case newEncoder lib c of
        Inl e \<Rightarrow> Inl ErrOther
      | Inr _ \<Rightarrow> Inr (dst @ zstd_EncodeAll lib (zstdDict lib c) src))"

definition zstd_Decompress :: "comp_lib \<Rightarrow> zstdCompressor \<Rightarrow> bytes \<Rightarrow> bytes \<Rightarrow> bytes res" where
  "zstd_Decompress lib c dst src =
     (case newDecoder lib c of
        Inl e \<Rightarrow> Inl ErrOther
      | Inr _ \<Rightarrow>
          (case zstd_DecodeAll lib (zstdDict lib c) MaxDecompressedSize src of
             Inl e \<Rightarrow> Inl ErrOther
           | Inr out \<Rightarrow> Inr (dst @ out)))"

subsection \<open>The pool\<close>

text \<open>The interface \<open>Compressor\<close> and its two implementations.\<close>

datatype Compressor = LZ4 | Zstd zstdCompressor

fun Compress :: "comp_lib \<Rightarrow> Compressor \<Rightarrow> bytes \<Rightarrow> bytes \<Rightarrow> bytes res" where
  "Compress lib LZ4 dst src = lz4_Compress lib dst src"
| "Compress lib (Zstd c) dst src = zstd_Compress lib c dst src"

fun Algorithm :: "Compressor \<Rightarrow> CompressionAlgorithm" where
  "Algorithm LZ4 = CompressionLZ4"
| "Algorithm (Zstd c) = CompressionZstd"

record compressorPool =
  cp_config :: CompressionConfig
  cp_compressor :: "Compressor option"

definition newCompressorPool :: "comp_lib \<Rightarrow> CompressionConfig \<Rightarrow> compressorPool res" where
  "newCompressorPool lib config =
     (let compressor =
            (if cfg_Algorithm config = CompressionNone then Inr None
             else if cfg_Algorithm config = CompressionLZ4 then Inr (Some LZ4)
             else if cfg_Algorithm config = CompressionZstd
             then case newZstdCompressor lib (cfg_ZstdLevel config) (cfg_Dictionary config) of
                    Inl e \<Rightarrow> Inl e
                  | Inr c \<Rightarrow> Inr (Some (Zstd c))
             else Inl ErrOther)
      in case compressor of
           Inl e \<Rightarrow> Inl e
         | Inr c \<Rightarrow>
             Inr \<lparr>cp_config = (if cfg_Hurdle config = 0 \<and> cfg_Algorithm config \<noteq> CompressionNone
                               then config\<lparr>cfg_Hurdle := DefaultCompressionHurdle\<rparr> else config),
                  cp_compressor = c\<rparr>)"

definition compressPayload :: "comp_lib \<Rightarrow> compressorPool \<Rightarrow> bytes \<Rightarrow> (bytes \<times> byte) res" where
  "compressPayload lib p payload =
     (case cp_compressor p of
        None \<Rightarrow> Inr (payload, 0)
      | Some cmpr \<Rightarrow>
          if (of_nat (length payload) :: u32) < cfg_Hurdle (cp_config p) then Inr (payload, 0)
          else case Compress lib cmpr [] payload of
                 Inl e \<Rightarrow> if e = ErrCompressionFailed then Inr (payload, 0) else Inl e
               | Inr compressed \<Rightarrow>
                   if length payload \<le> length compressed then Inr (payload, 0)
                   else
                     let flags = FragFlagCompressed;
                         flags = (if Algorithm cmpr = CompressionZstd then flags OR FragFlagZstd else flags)
                     in Inr (compressed, flags))"

definition decompressPayload :: "comp_lib \<Rightarrow> compressorPool \<Rightarrow> bytes \<Rightarrow> byte \<Rightarrow> bytes res" where
  "decompressPayload lib p payload flags =
     (if flags AND FragFlagCompressed = 0 then Inr payload
      else if flags AND FragFlagZstd \<noteq> 0
      then case cp_compressor p of
             Some (Zstd c) \<Rightarrow> zstd_Decompress lib c [] payload
           | Some LZ4 \<Rightarrow> zstd_Decompress lib \<lparr>z_dict = None\<rparr> [] payload
           | None \<Rightarrow>
               (case newZstdCompressor lib 0 None of
                  Inl e \<Rightarrow> Inl e
                | Inr tmp \<Rightarrow> zstd_Decompress lib tmp [] payload)
      else lz4_Decompress lib [] payload)"

text \<open>Byte lists do not tell a nil slice from an empty one. It matters in one place: of an LZ4 payload
  that declares the size 0, \<open>Decompress(nil, src)\<close> returns its first argument, the nil slice, and the
  handler is not called for it.\<close>

definition decompressesToNil :: "bytes \<Rightarrow> byte \<Rightarrow> bool" where
  "decompressesToNil payload flags \<longleftrightarrow>
     flags AND FragFlagCompressed \<noteq> 0 \<and> flags AND FragFlagZstd = 0 \<and> (of_le (take 4 payload) :: u32) = 0"

definition DictionaryHash :: "crypto_lib \<Rightarrow> bytes \<Rightarrow> bytes" where
  "DictionaryHash lib dict = sha256_Sum256 lib dict"

section \<open>What the code relies on\<close>

text \<open>The libraries decompress what they compressed, into a large enough destination and under
  the same dictionary, and never return more than the destination or the limit holds.\<close>

definition comp_lib_ok :: "comp_lib \<Rightarrow> bool" where
  "comp_lib_ok lib \<longleftrightarrow>
     (\<forall>src block. lz4_CompressBlock lib src = Inr block \<and> block \<noteq> [] \<longrightarrow>
        lz4_UncompressBlock lib block (length src) = Inr src) \<and>
     (\<forall>block n out. lz4_UncompressBlock lib block n = Inr out \<longrightarrow> length out \<le> n) \<and>
     (\<forall>d src n. length src \<le> n \<longrightarrow> zstd_DecodeAll lib d n (zstd_EncodeAll lib d src) = Inr src) \<and>
     (\<forall>d n frame out. zstd_DecodeAll lib d n frame = Inr out \<longrightarrow> length out \<le> n)"

section \<open>Lemmas\<close>

lemma newZstd_ok:
  "newZstdCompressor lib l d = Inr c \<Longrightarrow>
     c = \<lparr>z_dict = d\<rparr> \<and> newEncoder lib c = Inr () \<and> newDecoder lib c = Inr ()"
  by (auto simp: newZstdCompressor_def Let_def split: sum.splits)

lemma newCompressorPool_zstd:
  "newCompressorPool lib cfg = Inr p \<Longrightarrow> cp_compressor p = Some (Zstd c) \<Longrightarrow>
     newEncoder lib c = Inr () \<and> newDecoder lib c = Inr ()"
  by (auto simp: newCompressorPool_def Let_def split: if_splits sum.splits dest: newZstd_ok)

lemma flags_bits [simp]:
  "FragFlagCompressed \<noteq> 0" "FragFlagZstd \<noteq> 0" "FragFlagCompressed AND FragFlagZstd = 0"
  "(FragFlagCompressed OR FragFlagZstd) AND FragFlagCompressed \<noteq> 0"
  "(FragFlagCompressed OR FragFlagZstd) AND FragFlagZstd \<noteq> 0"
  by (simp_all add: FragFlagCompressed_def FragFlagZstd_def)

lemma lz4_roundtrip:
  assumes "comp_lib_ok lib" "lz4_Compress lib [] src = Inr c" "src \<noteq> []" "length src \<le> MaxDecompressedSize"
  shows "lz4_Decompress lib [] c = Inr src"
proof -
  obtain block where c: "lz4_CompressBlock lib src = Inr block" "block \<noteq> []"
    "c = to_le 4 (of_nat (length src) :: u32) @ block"
    using assms(2,3) by (auto simp: lz4_Compress_def split: sum.splits if_splits)
  have "unat (of_nat (length src) :: u32) = length src"
    using assms(4) by (simp add: MaxDecompressedSize_def unsigned_of_nat take_bit_nat_eq_self)
  moreover have "lz4_UncompressBlock lib block (length src) = Inr src"
    using assms(1) c(1,2) by (auto simp: comp_lib_ok_def)
  ultimately show ?thesis using assms(3,4) by (simp add: lz4_Decompress_def c(3))
qed

lemma lz4_oversize:
  assumes "lz4_Compress lib [] src = Inr c" "MaxDecompressedSize < length src" "length src < 2 ^ 32"
  shows "lz4_Decompress lib [] c = Inl ErrDecompressionFailed"
proof -
  have "unat (of_nat (length src) :: u32) = length src"
    using assms(3) by (simp add: unsigned_of_nat take_bit_nat_eq_self)
  moreover obtain block where "c = to_le 4 (of_nat (length src) :: u32) @ block"
    using assms(1,2) by (auto simp: lz4_Compress_def split: sum.splits if_splits)
  ultimately show ?thesis using assms(2) by (simp add: lz4_Decompress_def)
qed

lemma compressPayload_cases:
  assumes "compressPayload lib p payload = Inr (c, flags)"
  obtains "c = payload" "flags = 0"
  | cmpr where "cp_compressor p = Some cmpr" "Compress lib cmpr [] payload = Inr c" "length c < length payload"
      "flags = (if Algorithm cmpr = CompressionZstd then FragFlagCompressed OR FragFlagZstd else FragFlagCompressed)"
  using assms by (auto simp: compressPayload_def Let_def split: option.splits sum.splits if_splits)

lemma compress_decompress:
  assumes "comp_lib_ok lib" "newCompressorPool lib cfg = Inr p" "length payload \<le> MaxDecompressedSize"
    and "compressPayload lib p payload = Inr (c, flags)"
  shows "decompressPayload lib p c flags = Inr payload \<and> length c \<le> length payload"
  using assms(4)
proof (cases rule: compressPayload_cases)
  case 1
  then show ?thesis by (simp add: decompressPayload_def)
next
  case (2 cmpr)
  show ?thesis
  proof (cases cmpr)
    case LZ4
    have "payload \<noteq> []" using 2(3) by auto
    then have "lz4_Decompress lib [] c = Inr payload"
      using lz4_roundtrip [OF assms(1)] 2(2) LZ4 assms(3) by simp
    then show ?thesis using 2 LZ4 by (simp add: decompressPayload_def algorithm_defs)
  next
    case (Zstd z)
    have "newEncoder lib z = Inr ()" "newDecoder lib z = Inr ()"
      using newCompressorPool_zstd [OF assms(2)] 2(1) Zstd by auto
    moreover have "zstd_DecodeAll lib d MaxDecompressedSize (zstd_EncodeAll lib d payload) = Inr payload" for d
      using assms(1,3) by (auto simp: comp_lib_ok_def)
    ultimately show ?thesis
      using 2 Zstd by (auto simp: decompressPayload_def zstd_Compress_def zstd_Decompress_def)
  qed
qed

lemma compress_not_nil:
  assumes "length payload \<le> MaxDecompressedSize" "compressPayload lib p payload = Inr (c, flags)"
  shows "\<not> decompressesToNil c flags"
  using assms(2)
proof (cases rule: compressPayload_cases)
  case (2 cmpr)
  show ?thesis
  proof (cases cmpr)
    case LZ4
    then obtain block where c: "c = to_le 4 (of_nat (length payload) :: u32) @ block"
      using 2(2,3) by (auto simp: lz4_Compress_def split: sum.splits if_splits)
    have "unat (of_nat (length payload) :: u32) = length payload"
      using assms(1) by (simp add: MaxDecompressedSize_def unsigned_of_nat take_bit_nat_eq_self)
    then have "(of_nat (length payload) :: u32) \<noteq> 0" using 2(3) by (metis not_less_zero unat_0)
    then show ?thesis by (simp add: decompressesToNil_def c)
  qed (use 2(4) in \<open>simp add: decompressesToNil_def\<close>)
qed (simp add: decompressesToNil_def)

section \<open>Properties\<close>

text \<open>C36. Compression is transparent: for payloads of up to 4 MB, whatever \<open>compressPayload\<close>
  returns (compressed or not, never longer than the payload), \<open>decompressPayload\<close> of a pool with
  the same configuration turns back into the payload.\<close>

theorem compression_roundtrip:
  assumes "comp_lib_ok lib" "newCompressorPool lib cfg = Inr p" "length payload \<le> MaxDecompressedSize"
    and "compressPayload lib p payload = Inr (c, flags)"
  shows "decompressPayload lib p c flags = Inr payload \<and> length c \<le> length payload"
  by (rule compress_decompress [OF assms])

text \<open>Decompression bombs are stopped: a payload that is marked as compressed never
  decompresses to more than 4 MB, whatever the peer sent and whatever the pool's configuration.\<close>

theorem decompression_bounded:
  assumes "comp_lib_ok lib" "flags AND FragFlagCompressed \<noteq> 0" "decompressPayload lib p payload flags = Inr out"
  shows "length out \<le> 4 * 1024 * 1024"
proof -
  have z: "length out \<le> MaxDecompressedSize" if "zstd_Decompress lib c [] payload = Inr out" for c
    using that assms(1) by (auto simp: zstd_Decompress_def comp_lib_ok_def split: sum.splits)
  have l: "length out \<le> MaxDecompressedSize" if "lz4_Decompress lib [] payload = Inr out"
    using that assms(1)
    by (fastforce simp: lz4_Decompress_def comp_lib_ok_def Let_def split: sum.splits if_splits)
  show ?thesis
    using assms(2,3) z l
    by (auto simp: decompressPayload_def MaxDecompressedSize_def
        split: if_splits option.splits sum.splits Compressor.splits)
qed

text \<open>The sender does not respect that limit: with LZ4, a compressible payload of more than
  4 MB is accepted and compressed, and every receiver then rejects it with
  \<open>ErrDecompressionFailed\<close>.\<close>

theorem oversize_payload_undeliverable:
  assumes "cp_compressor p = Some LZ4" "compressPayload lib p payload = Inr (c, flags)" "flags \<noteq> 0"
    and "MaxDecompressedSize < length payload" "length payload < 2 ^ 32"
  shows "decompressPayload lib q c flags = Inl ErrDecompressionFailed"
proof -
  have "lz4_Compress lib [] payload = Inr c" "flags = FragFlagCompressed"
    using assms(1-3) by (auto simp: compressPayload_def Let_def algorithm_defs split: sum.splits if_splits)
  then show ?thesis using lz4_oversize [OF _ assms(4,5)] by (simp add: decompressPayload_def)
qed

section \<open>Witnesses\<close>

text \<open>A concrete pair of libraries: run-length coding of constant strings for LZ4, the identity
  for Zstd.\<close>

definition toy_comp :: comp_lib where
  "toy_comp = \<lparr>
     lz4_CompressBlock = (\<lambda>src. case src of [] \<Rightarrow> Inr [] | b # bs \<Rightarrow>
        if bs = replicate (length bs) b then Inr [b] else Inr []),
     lz4_UncompressBlock = (\<lambda>block n. case block of [b] \<Rightarrow> Inr (replicate n b) | _ \<Rightarrow> Inl ErrOther),
     zstd_DictID = (\<lambda>_. Inr 1), zstd_NewWriter = (\<lambda>_. Inr ()), zstd_NewReader = (\<lambda>_. Inr ()),
     zstd_EncodeAll = (\<lambda>_ src. src),
     zstd_DecodeAll = (\<lambda>_ n frame. if length frame \<le> n then Inr frame else Inl ErrOther)\<rparr>"

lemma toy_comp_ok: "comp_lib_ok toy_comp"
proof -
  have "lz4_UncompressBlock toy_comp block (length src) = Inr src"
    if "lz4_CompressBlock toy_comp src = Inr block" "block \<noteq> []" for src block
    using that by (auto simp: toy_comp_def split: list.splits if_splits)
  moreover have "length out \<le> n" if "lz4_UncompressBlock toy_comp block n = Inr out" for block n out
    using that by (auto simp: toy_comp_def split: list.splits if_splits)
  ultimately show ?thesis by (auto simp: comp_lib_ok_def toy_comp_def split: if_splits)
qed

definition lz4_config :: CompressionConfig where
  "lz4_config = \<lparr>cfg_Algorithm = CompressionLZ4, cfg_Hurdle = 8, cfg_ZstdLevel = 0, cfg_Dictionary = None\<rparr>"

definition lz4_pool :: compressorPool where
  "lz4_pool = \<lparr>cp_config = lz4_config, cp_compressor = Some LZ4\<rparr>"

lemma lz4_pool_new: "newCompressorPool toy_comp lz4_config = Inr lz4_pool"
  by (simp add: newCompressorPool_def lz4_config_def lz4_pool_def algorithm_defs)

lemma lz4_pool_compresses:
  assumes "8 \<le> n" "n < 2 ^ 32"
  shows "compressPayload toy_comp lz4_pool (replicate n 7) =
     Inr (to_le 4 (of_nat n :: u32) @ [7], FragFlagCompressed)"
proof -
  have "\<not> (of_nat n :: u32) < 8"
    using assms by (simp add: word_less_nat_alt unsigned_of_nat take_bit_nat_eq_self)
  moreover have "lz4_CompressBlock toy_comp (replicate n 7) = Inr [7]"
    using assms(1) by (cases n) (simp_all add: toy_comp_def)
  ultimately show ?thesis
    using assms by (simp add: compressPayload_def lz4_pool_def lz4_config_def lz4_Compress_def algorithm_defs)
qed

theorem compression_roundtrip_witness:
  "decompressPayload toy_comp lz4_pool (to_le 4 (200 :: u32) @ [7]) FragFlagCompressed = Inr (replicate 200 7)"
  using compression_roundtrip [OF toy_comp_ok lz4_pool_new, of "replicate 200 7"] lz4_pool_compresses [of 200]
  by (simp add: MaxDecompressedSize_def)

theorem decompression_bounded_witness:
  "length (replicate 200 (7 :: byte)) \<le> 4 * 1024 * 1024"
proof (rule decompression_bounded [OF toy_comp_ok, of FragFlagCompressed lz4_pool "to_le 4 (200 :: u32) @ [7]"])
  show "decompressPayload toy_comp lz4_pool (to_le 4 (200 :: u32) @ [7]) FragFlagCompressed = Inr (replicate 200 7)"
    by (simp add: decompressPayload_def lz4_Decompress_def toy_comp_def MaxDecompressedSize_def)
qed simp

theorem oversize_payload_undeliverable_witness:
  "decompressPayload toy_comp lz4_pool (to_le 4 (5000000 :: u32) @ [7]) FragFlagCompressed =
     Inl ErrDecompressionFailed"
  using oversize_payload_undeliverable [of lz4_pool toy_comp "replicate 5000000 7"] lz4_pool_compresses [of 5000000]
  by (simp add: MaxDecompressedSize_def lz4_pool_def FragFlagCompressed_def)

end
