(* ===== verification/Loss.thy ===== *)
theory Loss
  imports FW_Prelude
begin

text \<open>
  The loss tracker of \<open>internal/stats/loss.go\<close>: a ring buffer over the last 100 reliable
  packets, refined to a plain list of the most recent sends. The atomic counters are \<open>int\<close>
  (they never leave the range 0 to 100) and the ratio of \<open>Loss\<close> is a real number.
\<close>

section \<open>Definitions\<close>

definition lossWindowSize :: nat where "lossWindowSize = 100"

record lossEntry =
  le_seq :: u32
  le_acked :: bool

record LossTracker =
  lt_entries :: "lossEntry list"
  lt_head :: nat
  lt_count :: int
  lt_ackCount :: int

definition NewLossTracker :: LossTracker where
  "NewLossTracker = \<lparr>lt_entries = replicate lossWindowSize \<lparr>le_seq = 0, le_acked = False\<rparr>,
     lt_head = 0, lt_count = 0, lt_ackCount = 0\<rparr>"

definition RecordSend :: "u32 \<Rightarrow> LossTracker \<Rightarrow> LossTracker" where
  "RecordSend seq lt =
     (let c = lt_count lt;
          lt = (if c = int lossWindowSize \<and> le_acked (lt_entries lt ! lt_head lt)
                then lt\<lparr>lt_ackCount := lt_ackCount lt - 1\<rparr> else lt);
          lt = lt\<lparr>lt_entries := (lt_entries lt)[lt_head lt := \<lparr>le_seq = seq, le_acked = False\<rparr>],
                  lt_head := (lt_head lt + 1) mod lossWindowSize\<rparr>
      in if c < int lossWindowSize then lt\<lparr>lt_count := lt_count lt + 1\<rparr> else lt)"

text \<open>\<open>(head - 1 - i + 100) % 100\<close>; the sum is never negative, as \<open>i < 100\<close>.\<close>

definition ring_index :: "LossTracker \<Rightarrow> nat \<Rightarrow> nat" where
  "ring_index lt i = (lt_head lt + lossWindowSize - 1 - i) mod lossWindowSize"

text \<open>The search loop, over the ages \<open>i\<close> it has still to look at.\<close>

fun recordAckLoop :: "u32 \<Rightarrow> nat list \<Rightarrow> LossTracker \<Rightarrow> LossTracker" where
  "recordAckLoop seq [] lt = lt"
| "recordAckLoop seq (i # is) lt =
     (let idx = ring_index lt i
      in if le_seq (lt_entries lt ! idx) = seq
         then if \<not> le_acked (lt_entries lt ! idx)
              then lt\<lparr>lt_entries := (lt_entries lt)[idx := (lt_entries lt ! idx)\<lparr>le_acked := True\<rparr>],
                      lt_ackCount := lt_ackCount lt + 1\<rparr>
              else lt
         else recordAckLoop seq is lt)"

definition RecordAck :: "u32 \<Rightarrow> LossTracker \<Rightarrow> LossTracker" where
  "RecordAck seq lt = recordAckLoop seq [0..<nat (lt_count lt)] lt"

definition Loss :: "LossTracker \<Rightarrow> real" where
  "Loss lt = (if lt_count lt = 0 then 0 else 1 - real_of_int (lt_ackCount lt) / real_of_int (lt_count lt))"

section \<open>The abstract history\<close>

text \<open>The specification: the sends of the window, the most recent first.\<close>

fun mark_acked :: "u32 \<Rightarrow> lossEntry list \<Rightarrow> lossEntry list" where
  "mark_acked seq [] = []"
| "mark_acked seq (e # es) =
     (if le_seq e = seq then e\<lparr>le_acked := True\<rparr> # es else e # mark_acked seq es)"

datatype loss_event = LSend u32 | LAck u32

fun history_step :: "loss_event \<Rightarrow> lossEntry list \<Rightarrow> lossEntry list" where
  "history_step (LSend seq) es = take 100 (\<lparr>le_seq = seq, le_acked = False\<rparr> # es)"
| "history_step (LAck seq) es = mark_acked seq es"

fun loss_step :: "loss_event \<Rightarrow> LossTracker \<Rightarrow> LossTracker" where
  "loss_step (LSend seq) lt = RecordSend seq lt"
| "loss_step (LAck seq) lt = RecordAck seq lt"

definition history :: "LossTracker \<Rightarrow> lossEntry list" where
  "history lt = map (\<lambda>i. lt_entries lt ! ring_index lt i) [0..<nat (lt_count lt)]"

definition acked_count :: "lossEntry list \<Rightarrow> int" where
  "acked_count es = int (length (filter le_acked es))"

definition wf_loss :: "LossTracker \<Rightarrow> bool" where
  "wf_loss lt \<longleftrightarrow> length (lt_entries lt) = 100 \<and> lt_head lt < 100 \<and>
     0 \<le> lt_count lt \<and> lt_count lt \<le> 100 \<and> lt_ackCount lt = acked_count (history lt)"

lemma length_history [simp]: "length (history lt) = nat (lt_count lt)"
  by (simp add: history_def)

lemma acked_count_le: "acked_count es \<le> int (length es)" "0 \<le> acked_count es"
  by (simp_all add: acked_count_def)

lemma acked_count_simps [simp]:
  "acked_count [] = 0"
  "acked_count (e # es) = (if le_acked e then 1 else 0) + acked_count es"
  "acked_count (es @ es') = acked_count es + acked_count es'"
  by (simp_all add: acked_count_def)

lemma ring_index_less: "ring_index lt i < 100"
  by (simp add: ring_index_def lossWindowSize_def)

lemma ring_index_eq:
  "h < 100 \<Longrightarrow> i < 100 \<Longrightarrow> (h + 100 - 1 - i) mod 100 = (if i < h then h - 1 - i else h + 99 - i)" for h i :: nat
  by (auto simp: mod_if)

lemma ring_index_inj:
  "lt_head lt < 100 \<Longrightarrow> i < 100 \<Longrightarrow> j < 100 \<Longrightarrow> ring_index lt i = ring_index lt j \<longleftrightarrow> i = j"
  unfolding ring_index_def lossWindowSize_def ring_index_eq by (auto split: if_splits)

section \<open>RecordSend\<close>

lemma history_RecordSend:
  assumes "wf_loss lt"
  shows "history (RecordSend seq lt) = take 100 (\<lparr>le_seq = seq, le_acked = False\<rparr> # history lt)"
proof (rule nth_equalityI)
  let ?lt = "RecordSend seq lt"
  have wf: "length (lt_entries lt) = 100" "lt_head lt < 100" "0 \<le> lt_count lt" "lt_count lt \<le> 100"
    using assms by (simp_all add: wf_loss_def)
  have cnt: "nat (lt_count ?lt) = min 100 (Suc (nat (lt_count lt)))"
    using wf by (auto simp: RecordSend_def Let_def lossWindowSize_def)
  then show "length (history ?lt) = length (take 100 (\<lparr>le_seq = seq, le_acked = False\<rparr> # history lt))"
    by simp
  fix i assume "i < length (history ?lt)"
  then have i: "i < 100" "i \<le> nat (lt_count lt)" using cnt by auto
  have ent: "lt_entries ?lt = (lt_entries lt)[lt_head lt := \<lparr>le_seq = seq, le_acked = False\<rparr>]"
    "lt_head ?lt = (lt_head lt + 1) mod 100"
    by (simp_all add: RecordSend_def Let_def lossWindowSize_def)
  have idx: "ring_index ?lt i = (case i of 0 \<Rightarrow> lt_head lt | Suc j \<Rightarrow> ring_index lt j)"
    using i wf by (auto simp: ring_index_def ent lossWindowSize_def mod_if split: nat.split)
  have "lt_head lt \<noteq> ring_index lt j" if "j < 99" for j
    using that wf ring_index_eq [OF wf(2), of j] unfolding ring_index_def lossWindowSize_def
    by (auto split: if_splits)
  then have "lt_entries ?lt ! ring_index ?lt i =
      (case i of 0 \<Rightarrow> \<lparr>le_seq = seq, le_acked = False\<rparr> | Suc j \<Rightarrow> lt_entries lt ! ring_index lt j)"
    using wf i unfolding idx ent(1) by (auto split: nat.split)
  then show "history ?lt ! i = take 100 (\<lparr>le_seq = seq, le_acked = False\<rparr> # history lt) ! i"
    using i \<open>i < length (history ?lt)\<close> by (auto simp: history_def split: nat.split)
qed

lemma wf_RecordSend:
  assumes "wf_loss lt"
  shows "wf_loss (RecordSend seq lt)"
proof -
  have wf: "length (lt_entries lt) = 100" "lt_head lt < 100" "0 \<le> lt_count lt" "lt_count lt \<le> 100"
    "lt_ackCount lt = acked_count (history lt)"
    using assms by (simp_all add: wf_loss_def)
  have "lt_ackCount (RecordSend seq lt) = acked_count (take 99 (history lt))"
  proof (cases "lt_count lt = 100")
    case True
    have "lt_entries lt ! lt_head lt = history lt ! 99"
      using True wf by (simp add: history_def ring_index_def lossWindowSize_def)
    then have "history lt = take 99 (history lt) @ [lt_entries lt ! lt_head lt]"
      using True take_Suc_conv_app_nth [of 99 "history lt"] by simp
    then have "acked_count (history lt) =
        acked_count (take 99 (history lt)) + acked_count [lt_entries lt ! lt_head lt]"
      by (metis acked_count_simps(3))
    with True wf show ?thesis by (auto simp: RecordSend_def Let_def lossWindowSize_def)
  next
    case False
    with wf show ?thesis by (auto simp: RecordSend_def Let_def lossWindowSize_def)
  qed
  moreover have "acked_count (history (RecordSend seq lt)) = acked_count (take 99 (history lt))"
    by (simp add: history_RecordSend [OF assms] take_Cons')
  ultimately show ?thesis
    using wf by (auto simp: wf_loss_def RecordSend_def Let_def lossWindowSize_def)
qed

section \<open>RecordAck\<close>

lemma recordAckLoop_spec:
  fixes lt a b seq
  assumes "lt_head lt < 100" "length (lt_entries lt) = 100" "a \<le> b" "b \<le> 100"
  defines "es \<equiv> map (\<lambda>i. lt_entries lt ! ring_index lt i) [a..<b]"
  defines "lt' \<equiv> recordAckLoop seq [a..<b] lt"
  shows "map (\<lambda>i. lt_entries lt' ! ring_index lt i) [a..<b] = mark_acked seq es \<and>
    (\<forall>i < 100. i \<notin> {a..<b} \<longrightarrow> lt_entries lt' ! ring_index lt i = lt_entries lt ! ring_index lt i) \<and>
    lt_head lt' = lt_head lt \<and> lt_count lt' = lt_count lt \<and> length (lt_entries lt') = 100 \<and>
    lt_ackCount lt' = lt_ackCount lt + acked_count (mark_acked seq es) - acked_count es"
  using assms(3) unfolding es_def lt'_def
proof (induction "b - a" arbitrary: a)
  case 0
  then show ?case using assms by simp
next
  case (Suc d)
  let ?e = "lt_entries lt ! ring_index lt a"
  have ab: "a < b" "Suc a \<le> b" "d = b - Suc a" using Suc by simp_all
  have other: "ring_index lt a \<noteq> ring_index lt i" if "i < 100" "i \<noteq> a" for i
    using ring_index_inj [OF assms(1), of a i] that ab assms(4) by auto
  show ?case
  proof (cases "le_seq ?e = seq")
    case True
    have "map (\<lambda>i. (lt_entries lt)[ring_index lt a := x] ! ring_index lt i) [Suc a..<b] =
        map (\<lambda>i. lt_entries lt ! ring_index lt i) [Suc a..<b]" for x
      using assms(4) by (intro map_cong refl nth_list_update_neq other) auto
    moreover have "\<lparr>le_seq = seq, le_acked = True\<rparr> = ?e" if "le_acked ?e"
      using True that by (cases ?e) simp
    ultimately show ?thesis using True ab other ring_index_less [of lt a] assms(1,2)
      by (auto simp: upt_conv_Cons Let_def)
  next
    case False
    have "a \<notin> {Suc a..<b}" "a < 100" using ab assms(4) by auto
    then show ?thesis using Suc.hyps(1) [OF ab(3,2)] False ab(1)
      by (auto simp: upt_conv_Cons Let_def)
  qed
qed

lemma RecordAck_spec:
  assumes "wf_loss lt"
  shows "history (RecordAck seq lt) = mark_acked seq (history lt) \<and> wf_loss (RecordAck seq lt)"
proof -
  have wf: "length (lt_entries lt) = 100" "lt_head lt < 100" "0 \<le> lt_count lt" "lt_count lt \<le> 100"
    "lt_ackCount lt = acked_count (history lt)"
    using assms by (simp_all add: wf_loss_def)
  note spec = recordAckLoop_spec [OF wf(2,1), of 0 "nat (lt_count lt)" seq, folded RecordAck_def history_def]
  have ri: "ring_index (RecordAck seq lt) = ring_index lt"
    using spec wf by (auto simp: ring_index_def fun_eq_iff)
  have h: "history (RecordAck seq lt) = mark_acked seq (history lt)"
    using spec wf by (simp add: history_def [of "RecordAck seq lt"] ri)
  then show ?thesis using spec wf by (simp add: wf_loss_def)
qed

section \<open>Refinement\<close>

lemma loss_step_refines:
  "wf_loss lt \<Longrightarrow> wf_loss (loss_step e lt) \<and> history (loss_step e lt) = history_step e (history lt)"
  by (cases e) (simp_all add: wf_RecordSend history_RecordSend RecordAck_spec)

lemma wf_NewLossTracker: "wf_loss NewLossTracker" "history NewLossTracker = []"
  by (simp_all add: wf_loss_def NewLossTracker_def history_def lossWindowSize_def)

interpretation loss: invariant_machine loss_step wf_loss
  by unfold_locales (simp add: loss_step_refines)

lemma history_run: "wf_loss lt \<Longrightarrow> history (fold loss_step es lt) = fold history_step es (history lt)"
  by (induction es arbitrary: lt) (simp_all add: loss_step_refines)

definition sent_history :: "loss_event list \<Rightarrow> lossEntry list" where
  "sent_history es = fold history_step es []"

text \<open>C37. The ring buffer refines a list of the last 100 sends: after any sequence of sends and
  acknowledgements from a new tracker, \<open>Loss\<close> is the share of the entries of that list that
  have not been acknowledged (0 when it is empty), so it lies between 0 and 1; an ack marks
  the most recent send with its sequence number, and a send pushes out the oldest entry.\<close>

theorem loss_refines_history:
  "Loss (fold loss_step es NewLossTracker) =
      (if sent_history es = [] then 0
       else real (length (filter (\<lambda>e. \<not> le_acked e) (sent_history es))) / real (length (sent_history es))) \<and>
    0 \<le> Loss (fold loss_step es NewLossTracker) \<and> Loss (fold loss_step es NewLossTracker) \<le> 1"
proof -
  let ?lt = "fold loss_step es NewLossTracker"
  have wf: "wf_loss ?lt" by (rule loss.run_inv [OF wf_NewLossTracker(1)])
  have hist: "history ?lt = sent_history es"
    unfolding sent_history_def using history_run [OF wf_NewLossTracker(1)] wf_NewLossTracker(2) by simp
  have c: "lt_count ?lt = int (length (sent_history es))" "lt_ackCount ?lt = acked_count (sent_history es)"
    using wf hist length_history [of ?lt] by (auto simp: wf_loss_def simp del: length_history)
  have split: "int (length (sent_history es)) = acked_count (sent_history es) + int (length (filter (\<lambda>e. \<not> le_acked e) (sent_history es)))"
    unfolding acked_count_def using sum_length_filter_compl [of le_acked "sent_history es"] by linarith
  define n u where "n = real (length (sent_history es))"
    and "u = real (length (filter (\<lambda>e. \<not> le_acked e) (sent_history es)))"
  have nu: "real_of_int (acked_count (sent_history es)) = n - u" "0 \<le> u" "u \<le> n"
    using split by (simp_all add: n_def u_def)
  have "Loss ?lt = (if sent_history es = [] then 0 else u / n)"
    using nu(1) by (simp add: Loss_def c n_def diff_divide_distrib)
  moreover have "0 \<le> u / n" "u / n \<le> 1"
    using nu by (auto simp: divide_le_eq_1)
  ultimately show ?thesis by (simp add: n_def u_def)
qed

end
