(* ===== verification/Tables.thy ===== *)
theory Tables
  imports FW_Prelude
begin

text \<open>
  The server's tables: the sharded connection table, the table of pending handshakes with its
  cap (both in \<open>server.go\<close>) and the migration-token table (\<open>migrate.go\<close>). The stored pointers are
  values of a type parameter. The connection table and the token table implement the interface
  \<open>keyed_table\<close>; the pending table, which refuses entries at its cap, keeps its invariant as an
  \<open>invariant_machine\<close>.
\<close>

section \<open>Definitions\<close>

text \<open>\<open>netip.Addr\<close> and \<open>netip.AddrPort\<close>: the 16-byte form, whether it is an IPv4 address, the zone.\<close>

record Addr =
  as16 :: bytes
  is4 :: bool
  zone :: string

record AddrPort =
  ap_addr :: Addr
  ap_port :: u16

subsection \<open>Connection table\<close>

definition connShardCount :: nat where "connShardCount = 64"

type_synonym 'c connectionTable = "(AddrPort, 'c) gomap list"

definition newConnectionTable :: "'c connectionTable" where
  "newConnectionTable = replicate connShardCount []"

definition fnv_step :: "u32 \<Rightarrow> u32 \<Rightarrow> u32" where
  "fnv_step c h = (h XOR c) * 16777619"

definition shardFor :: "AddrPort \<Rightarrow> nat" where
  "shardFor addr =
     (let h = fold (\<lambda>c. fnv_step (ucast c)) (as16 (ap_addr addr)) 2166136261;
          p = ap_port addr;
          h = fnv_step (ucast (drop_bit 8 p)) h;
          h = fnv_step (ucast (p AND 0xFF)) h
      in unat (h mod of_nat connShardCount))"

definition conns_get :: "'c connectionTable \<Rightarrow> AddrPort \<Rightarrow> 'c option" where
  "conns_get ct addr = map_of (ct ! shardFor addr) addr"

definition conns_put :: "AddrPort \<Rightarrow> 'c \<Rightarrow> 'c connectionTable \<Rightarrow> 'c connectionTable" where
  "conns_put addr conn ct = ct[shardFor addr := AList.update addr conn (ct ! shardFor addr)]"

definition conns_remove :: "AddrPort \<Rightarrow> 'c connectionTable \<Rightarrow> 'c connectionTable" where
  "conns_remove addr ct = ct[shardFor addr := AList.delete addr (ct ! shardFor addr)]"

definition conns_count :: "'c connectionTable \<Rightarrow> nat" where
  "conns_count ct = fold (\<lambda>s total. total + length s) ct 0"

definition conns_forEach :: "('c \<Rightarrow> 's \<Rightarrow> 's) \<Rightarrow> 'c connectionTable \<Rightarrow> 's \<Rightarrow> 's" where
  "conns_forEach fn ct = fold (\<lambda>s. fold (\<lambda>(a, c). fn c) s) ct"

subsection \<open>Pending handshakes\<close>

record 'h pendingTable =
  pt_pending :: "(AddrPort, 'h) gomap"
  pt_maxSize :: int

definition newPendingTable :: "int \<Rightarrow> 'h pendingTable" where
  "newPendingTable maxSize = \<lparr>pt_pending = [], pt_maxSize = maxSize\<rparr>"

definition pending_get :: "'h pendingTable \<Rightarrow> AddrPort \<Rightarrow> 'h option" where
  "pending_get pt addr = map_of (pt_pending pt) addr"

definition pending_put :: "AddrPort \<Rightarrow> 'h \<Rightarrow> 'h pendingTable \<Rightarrow> 'h pendingTable \<times> bool" where
  "pending_put addr ph pt =
     (if map_of (pt_pending pt) addr = None \<and> 0 < pt_maxSize pt \<and>
         pt_maxSize pt \<le> int (length (pt_pending pt))
      then (pt, False)
      else (pt\<lparr>pt_pending := AList.update addr ph (pt_pending pt)\<rparr>, True))"

definition pending_remove :: "AddrPort \<Rightarrow> 'h pendingTable \<Rightarrow> 'h pendingTable" where
  "pending_remove addr pt = pt\<lparr>pt_pending := AList.delete addr (pt_pending pt)\<rparr>"

text \<open>\<open>expired\<close> is \<open>isExpired\<close> of the handshake record at the time of the call.\<close>

definition pending_cleanup :: "('h \<Rightarrow> bool) \<Rightarrow> 'h pendingTable \<Rightarrow> 'h pendingTable" where
  "pending_cleanup isExpired pt =
     fold (\<lambda>(addr, ph) t. if isExpired ph then t\<lparr>pt_pending := AList.delete addr (pt_pending t)\<rparr> else t)
       (pt_pending pt) pt"

subsection \<open>Migration tokens\<close>

type_synonym 'c tokenTable = "(bytes, 'c) gomap"

definition newTokenTable :: "'c tokenTable" where "newTokenTable = []"

definition tokens_get :: "'c tokenTable \<Rightarrow> bytes \<Rightarrow> 'c option" where
  "tokens_get tt token = map_of tt token"

definition tokens_put :: "bytes \<Rightarrow> 'c \<Rightarrow> 'c tokenTable \<Rightarrow> 'c tokenTable" where
  "tokens_put token conn tt = AList.update token conn tt"

definition tokens_remove :: "bytes \<Rightarrow> 'c tokenTable \<Rightarrow> 'c tokenTable" where
  "tokens_remove token tt = AList.delete token tt"

definition tokens_count :: "'c tokenTable \<Rightarrow> nat" where
  "tokens_count tt = length tt"

section \<open>The sharded table is a map\<close>

lemma shardFor_less [simp]: "shardFor a < 64"
proof -
  have "unat (h mod 64) < 64" for h :: u32
    by (simp add: unat_mod_distrib)
  then show ?thesis by (simp add: shardFor_def Let_def connShardCount_def)
qed

text \<open>Every shard holds only addresses that hash to it.\<close>

definition wf_conns :: "'c connectionTable \<Rightarrow> bool" where
  "wf_conns ct \<longleftrightarrow> length ct = 64 \<and>
     (\<forall>i < 64. wf_map (ct ! i) \<and> (\<forall>a v. map_of (ct ! i) a = Some v \<longrightarrow> shardFor a = i))"

interpretation conns: keyed_table newConnectionTable conns_get conns_put conns_remove wf_conns
proof
  show "wf_conns newConnectionTable" by (simp add: wf_conns_def newConnectionTable_def connShardCount_def)
  show "conns_get newConnectionTable k = None" for k
    by (simp add: conns_get_def newConnectionTable_def connShardCount_def)
  fix ct :: "'c connectionTable" and k k' :: AddrPort and v :: 'c assume wf: "wf_conns ct"
  then show "wf_conns (conns_put k v ct)" "wf_conns (conns_remove k ct)"
    by (auto simp: wf_conns_def conns_put_def conns_remove_def nth_list_update map_of_update_if
        map_of_delete_if split: if_splits)
  show "conns_get (conns_put k v ct) k' = (if k' = k then Some v else conns_get ct k')"
    "conns_get (conns_remove k ct) k' = (if k' = k then None else conns_get ct k')"
    using wf by (auto simp: wf_conns_def conns_get_def conns_put_def conns_remove_def nth_list_update
        map_of_update_if map_of_delete_if)
qed

interpretation tokens: keyed_table newTokenTable tokens_get tokens_put tokens_remove wf_map
  by unfold_locales
    (simp_all add: newTokenTable_def tokens_get_def tokens_put_def tokens_remove_def map_of_update_if map_of_delete_if)

lemma length_wf_map: "wf_map m \<Longrightarrow> length m = card (dom (map_of m))"
  using distinct_card [of "map fst m"] by (simp add: wf_map_def dom_map_of_conv_image_fst)

lemma fold_count: "fold (\<lambda>s total. total + length s) xs n = n + (\<Sum>s\<leftarrow>xs. length s)"
  by (induction xs arbitrary: n) auto

lemma conns_count_sum: "conns_count ct = (\<Sum>i < length ct. length (ct ! i))"
  by (simp add: conns_count_def fold_count sum_list_sum_nth atLeast0LessThan)

lemma conns_count_card:
  assumes "wf_conns ct"
  shows "conns_count ct = card (dom (conns_get ct))"
proof -
  have sh: "\<And>i. i < 64 \<Longrightarrow> wf_map (ct ! i)" "\<And>i a. i < 64 \<Longrightarrow> a \<in> dom (map_of (ct ! i)) \<Longrightarrow> shardFor a = i"
    and len: "length ct = 64"
    using assms by (auto simp: wf_conns_def)
  have dom: "dom (conns_get ct) = (\<Union>i \<in> {..<64}. dom (map_of (ct ! i)))"
  proof (intro set_eqI iffI)
    fix a assume "a \<in> dom (conns_get ct)"
    then have "a \<in> dom (map_of (ct ! shardFor a))" by (simp add: conns_get_def dom_def)
    then show "a \<in> (\<Union>i \<in> {..<64}. dom (map_of (ct ! i)))" using shardFor_less by blast
  next
    fix a assume "a \<in> (\<Union>i \<in> {..<64}. dom (map_of (ct ! i)))"
    then obtain i where "i < 64" "a \<in> dom (map_of (ct ! i))" by blast
    with sh(2) show "a \<in> dom (conns_get ct)" by (simp add: conns_get_def dom_def)
  qed
  have "card (\<Union>i \<in> {..<64}. dom (map_of (ct ! i))) = (\<Sum>i < 64. card (dom (map_of (ct ! i))))"
    by (rule card_UN_disjoint) (auto simp: finite_dom_map_of dest: sh(2))
  then show ?thesis using sh(1) len by (simp add: dom conns_count_sum length_wf_map)
qed

section \<open>Pending handshakes\<close>

definition wf_pending :: "'h pendingTable \<Rightarrow> bool" where
  "wf_pending pt \<longleftrightarrow> wf_map (pt_pending pt) \<and>
     (0 < pt_maxSize pt \<longrightarrow> int (length (pt_pending pt)) \<le> pt_maxSize pt)"

lemma cleanup_filter:
  assumes "distinct (map fst es)" "\<And>a p. (a, p) \<in> set es \<Longrightarrow> map_of m a = Some p"
  shows "fold (\<lambda>(addr, ph) t. if isExpired ph then t\<lparr>pt_pending := AList.delete addr (pt_pending t)\<rparr> else t)
      es \<lparr>pt_pending = m, pt_maxSize = k\<rparr> =
    \<lparr>pt_pending = filter (\<lambda>(a, p). \<not> (a \<in> fst ` set (filter (isExpired \<circ> snd) es))) m, pt_maxSize = k\<rparr>"
  using assms
proof (induction es arbitrary: m)
  case (Cons e es)
  obtain a p where e: "e = (a, p)" by (cases e)
  have fresh: "a \<notin> fst ` set es" using Cons.prems(1) e by simp
  have "\<And>b q. (b, q) \<in> set es \<Longrightarrow> map_of (AList.delete a m) b = Some q"
    using Cons.prems(2) fresh by (force simp: map_of_delete_if)
  then have "fold (\<lambda>(addr, ph) t. if isExpired ph then t\<lparr>pt_pending := AList.delete addr (pt_pending t)\<rparr> else t)
      es \<lparr>pt_pending = AList.delete a m, pt_maxSize = k\<rparr> =
    \<lparr>pt_pending = filter (\<lambda>(a, p). \<not> (a \<in> fst ` set (filter (isExpired \<circ> snd) es))) (AList.delete a m), pt_maxSize = k\<rparr>"
    using Cons.IH [of "AList.delete a m"] Cons.prems(1) by simp
  moreover have "AList.delete a m = filter (\<lambda>(b, q). b \<noteq> a) m"
    by (simp add: AList.delete_eq split_beta' eq_commute)
  ultimately show ?case
    using Cons.IH [of m] Cons.prems e by (auto simp: split_beta' conj_commute intro!: filter_cong)
qed simp

lemma pending_cleanup_eq:
  assumes "wf_map (pt_pending pt)"
  shows "pending_cleanup isExpired pt = pt\<lparr>pt_pending := filter (\<lambda>(a, p). \<not> isExpired p) (pt_pending pt)\<rparr>"
proof -
  let ?m = "pt_pending pt"
  have dist: "distinct (map fst ?m)" using assms by (simp add: wf_map_def)
  have "pending_cleanup isExpired pt =
      \<lparr>pt_pending = filter (\<lambda>(a, p). \<not> (a \<in> fst ` set (filter (isExpired \<circ> snd) ?m))) ?m, pt_maxSize = pt_maxSize pt\<rparr>"
    unfolding pending_cleanup_def using cleanup_filter [OF dist, of ?m isExpired "pt_maxSize pt"] dist
    by (cases pt) (simp add: map_of_is_SomeI)
  also have "filter (\<lambda>(a, p). \<not> (a \<in> fst ` set (filter (isExpired \<circ> snd) ?m))) ?m = filter (\<lambda>(a, p). \<not> isExpired p) ?m"
  proof (intro filter_cong refl)
    fix x assume x: "x \<in> set ?m"
    obtain a p where ap: "x = (a, p)" by (cases x)
    have uniq: "p' = p" if "(a, p') \<in> set ?m" for p'
      using map_of_is_SomeI [OF dist that] map_of_is_SomeI [OF dist x [unfolded ap]] by simp
    have "a \<in> fst ` set (filter (isExpired \<circ> snd) ?m) \<longleftrightarrow> (\<exists>p'. (a, p') \<in> set ?m \<and> isExpired p')"
      by force
    also have "\<dots> \<longleftrightarrow> isExpired p" using uniq x [unfolded ap] by blast
    finally show "(case x of (a, p) \<Rightarrow> \<not> (a \<in> fst ` set (filter (isExpired \<circ> snd) ?m))) = (case x of (a, p) \<Rightarrow> \<not> isExpired p)"
      by (simp add: ap)
  qed
  finally show ?thesis by (cases pt) simp
qed

datatype 'h pending_event = PPut AddrPort 'h | PRemove AddrPort | PCleanup "'h \<Rightarrow> bool"

fun pending_step :: "'h pending_event \<Rightarrow> 'h pendingTable \<Rightarrow> 'h pendingTable" where
  "pending_step (PPut a h) pt = fst (pending_put a h pt)"
| "pending_step (PRemove a) pt = pending_remove a pt"
| "pending_step (PCleanup f) pt = pending_cleanup f pt"

lemma length_filter_int: "int (length (filter P xs)) \<le> int (length xs)"
  by simp

interpretation pending: invariant_machine pending_step "\<lambda>pt. wf_pending pt \<and> pt_maxSize pt = k" for k
proof
  fix pt :: "'h pendingTable" and e assume wf: "wf_pending pt \<and> pt_maxSize pt = k"
  show "wf_pending (pending_step e pt) \<and> pt_maxSize (pending_step e pt) = k"
  proof (cases e)
    case (PPut a h)
    then show ?thesis
      using wf by (cases "map_of (pt_pending pt) a")
        (auto simp: pending_put_def wf_pending_def length_update_new length_update_old)
  next
    case (PRemove a)
    then show ?thesis
      using wf length_delete_le [of a "pt_pending pt"] by (auto simp: pending_remove_def wf_pending_def)
  next
    case (PCleanup f)
    then show ?thesis
      using wf order_trans [OF length_filter_int [of "\<lambda>(a, p). \<not> f p" "pt_pending pt"], of k]
      by (auto simp: pending_cleanup_eq wf_pending_def)
  qed
qed

section \<open>Properties\<close>

text \<open>Sharding is invisible: after any sequence of insertions and removals, a lookup in the
  connection table gives exactly what it gives in one big map, and the count is the number of
  addresses present, so the 64 FNV-hashed shards lose and duplicate no connection.\<close>

theorem connection_table_is_map:
  "conns_get (fold (table_run conns_put conns_remove) es newConnectionTable) = fold map_op es Map.empty \<and>
   conns_count (fold (table_run conns_put conns_remove) es newConnectionTable) = card (dom (fold map_op es Map.empty))"
proof -
  have "wf_conns ct \<Longrightarrow> wf_conns (fold (table_run conns_put conns_remove) es ct)" for ct
    by (induction es arbitrary: ct) (simp_all add: conns.table_run_wf)
  from conns_count_card [OF this [OF conns.wf_empty]] show ?thesis
    using conns.run_refines_empty [of es] by simp
qed

text \<open>The table of pending handshakes never exceeds its cap, whatever CONNECTs arrive; a new
  handshake is refused exactly when the table is full and the address is not already in it;
  and the cleanup removes exactly the expired ones.\<close>

theorem pending_table_bounded:
  "let pt = fold pending_step es (newPendingTable k) in
     (k \<le> 0 \<or> int (length (pt_pending pt)) \<le> k) \<and>
     (snd (pending_put a h pt) \<longleftrightarrow> \<not> (pending_get pt a = None \<and> 0 < k \<and> k \<le> int (length (pt_pending pt)))) \<and>
     (if snd (pending_put a h pt) then pending_get (fst (pending_put a h pt)) a = Some h
      else fst (pending_put a h pt) = pt) \<and>
     pt_pending (pending_cleanup f pt) = filter (\<lambda>(a, p). \<not> f p) (pt_pending pt)"
proof -
  have "wf_pending (newPendingTable k) \<and> pt_maxSize (newPendingTable k) = k"
    by (simp add: wf_pending_def newPendingTable_def)
  from pending.run_inv [OF this, of es] show ?thesis
    by (auto simp: Let_def wf_pending_def pending_put_def pending_get_def pending_cleanup_eq map_of_update_if)
qed

end
