(* ===== verification/Connection.thy ===== *)
theory Connection
  imports Delivery Batch Control Compress Loss Tables
begin

text \<open>
  A connection (\<open>connection.go\<close>): its state, the send queue, and the send pipeline compress -
  fragment - header - encrypt - write.

  Every method is a function on the \<open>connection\<close> record; the mutexes and atomics of the code make
  these steps atomic. \<open>time.Now()\<close> is an argument. The injected \<open>sendFunc\<close> works on the pair of the
  connection (it counts bytes there) and a network state \<open>'u\<close>, and is a parameter wherever the
  code calls it; it is an option where the code checks it for nil. Pooled buffers are fresh
  zeroed buffers: every byte that leaves a function has been overwritten (\<open>PooledSend\<close> has them as they
  are). The compressor pool is
  an option because \<open>newConnection\<close> drops the error of \<open>newCompressorPool\<close> and keeps a nil pool.
\<close>

section \<open>Definitions\<close>

datatype ConnState = StateDisconnected | StateConnecting | StateConnected | StateDisconnecting

datatype DisconnectReason =
  DisconnectGraceful | DisconnectTimeout | DisconnectError | DisconnectRejected | DisconnectKicked

fun ConnState_String :: "ConnState \<Rightarrow> string" where
  "ConnState_String StateDisconnected = ''Disconnected''"
| "ConnState_String StateConnecting = ''Connecting''"
| "ConnState_String StateConnected = ''Connected''"
| "ConnState_String StateDisconnecting = ''Disconnecting''"

fun DisconnectReason_String :: "DisconnectReason \<Rightarrow> string" where
  "DisconnectReason_String DisconnectGraceful = ''Graceful''"
| "DisconnectReason_String DisconnectTimeout = ''Timeout''"
| "DisconnectReason_String DisconnectError = ''Error''"
| "DisconnectReason_String DisconnectRejected = ''Rejected''"
| "DisconnectReason_String DisconnectKicked = ''Kicked''"

record outgoingMessage =
  om_data :: bytes
  om_channel :: byte

definition maxDisconnectRetries :: int where "maxDisconnectRetries = 3"
definition maxBatchQueueSize :: nat where "maxBatchQueueSize = 256"

record connection =
  c_state :: ConnState
  c_remoteAddr :: AddrPort
  c_sendCipher :: CipherState
  c_recvCipher :: CipherState
  c_suite :: CipherSuite
  c_channels :: "channel list"
  c_rtt :: rtt_State
  c_layout :: ChannelLayout
  c_reassembly :: reassemblyStore
  c_compress :: "compressorPool option"
  c_cc :: Controller
  c_fragmentID :: u32
  c_lastSend :: time
  c_lastRecv :: time
  c_createdAt :: time
  c_sendQueue :: "outgoingMessage list"
  c_bytesSent :: u64
  c_bytesReceived :: u64
  c_loss :: LossTracker
  c_sendBW :: Estimator
  c_recvBW :: Estimator
  c_disconnectRetries :: int
  c_nextDisconnectRetry :: time
  c_disconnectPacket :: "bytes option"
  c_features :: byte
  c_migrationToken :: MigrationToken
  c_batchEnabled :: bool
  c_batchBuf :: "bytes list"
  c_skipBatch :: bool

record connSettings =
  set_maxReorderWindow :: int
  set_maxReassemblyBuffers :: int
  set_maxReassemblyBytes :: int
  set_fragmentTimeout :: duration

record connectionInput =
  in_addr :: AddrPort
  in_sendCipher :: CipherState
  in_recvCipher :: CipherState
  in_suite :: CipherSuite
  in_layout :: ChannelLayout
  in_compression :: CompressionConfig
  in_congestionMode :: CongestionMode
  in_initialCwnd :: int
  in_features :: byte
  in_token :: MigrationToken
  in_settings :: connSettings

text \<open>\<open>nextDisconnectRetry\<close> starts as the zero \<open>time.Time\<close>; it is set before it is read.\<close>

definition newConnection :: "comp_lib \<Rightarrow> time \<Rightarrow> connectionInput \<Rightarrow> connection" where
  "newConnection lib now inp =
     (let cp = (case newCompressorPool lib (in_compression inp) of Inl _ \<Rightarrow> None | Inr p \<Rightarrow> Some p);
          s = in_settings inp
      in \<lparr>c_state = StateConnected, c_remoteAddr = in_addr inp,
          c_sendCipher = in_sendCipher inp, c_recvCipher = in_recvCipher inp, c_suite = in_suite inp,
          c_channels = newChannels (in_layout inp) (or_default (set_maxReorderWindow s) DefaultMaxReorderWindow),
          c_rtt = rtt_New, c_layout = in_layout inp,
          c_reassembly = newReassemblyStore
            (or_default (set_fragmentTimeout s) DefaultFragmentTimeout)
            (or_default (set_maxReassemblyBuffers s) DefaultMaxReassemblyBuffers)
            (or_default (set_maxReassemblyBytes s) DefaultMaxReassemblyBytes),
          c_compress = cp, c_cc = NewController (in_congestionMode inp) (in_initialCwnd inp),
          c_fragmentID = 0, c_lastSend = now, c_lastRecv = now, c_createdAt = now,
          c_sendQueue = [], c_bytesSent = 0, c_bytesReceived = 0, c_loss = NewLossTracker,
          c_sendBW = bw_New now, c_recvBW = bw_New now,
          c_disconnectRetries = 0, c_nextDisconnectRetry = 0, c_disconnectPacket = None,
          c_features = in_features inp, c_migrationToken = in_token inp,
          c_batchEnabled = (in_features inp AND FeatureSendBatching \<noteq> 0),
          c_batchBuf = [], c_skipBatch = False\<rparr>)"

subsection \<open>Queueing\<close>

definition enqueueSend :: "bytes \<Rightarrow> byte \<Rightarrow> connection \<Rightarrow> connection \<times> fw_error option" where
  "enqueueSend data channel c =
     (if c_state c \<noteq> StateConnected then (c, Some ErrConnectionClosed)
      else if length (c_channels c) \<le> unat channel then (c, Some ErrInvalidChannel)
      else (c\<lparr>c_sendQueue := c_sendQueue c @ [\<lparr>om_data = data, om_channel = channel\<rparr>]\<rparr>, None))"

definition drainSendQueue :: "connection \<Rightarrow> connection \<times> outgoingMessage list" where
  "drainSendQueue c = (if length (c_sendQueue c) = 0 then (c, []) else (c\<lparr>c_sendQueue := []\<rparr>, c_sendQueue c))"

definition requeue :: "outgoingMessage list \<Rightarrow> connection \<Rightarrow> connection" where
  "requeue msgs c = c\<lparr>c_sendQueue := msgs @ c_sendQueue c\<rparr>"

subsection \<open>Small methods\<close>

definition conn_channel :: "connection \<Rightarrow> byte \<Rightarrow> channel option" where
  "conn_channel c i = (if length (c_channels c) \<le> unat i then None else Some (c_channels c ! unat i))"

definition InFlightCount :: "connection \<Rightarrow> int" where
  "InFlightCount c = fold (\<lambda>ch n. n + pendingCount ch) (c_channels c) 0"

definition needsHeartbeatAt :: "time \<Rightarrow> duration \<Rightarrow> connection \<Rightarrow> bool" where
  "needsHeartbeatAt now interval c \<longleftrightarrow> c_state c = StateConnected \<and> interval \<le> now - c_lastSend c"

definition isTimedOutAt :: "time \<Rightarrow> duration \<Rightarrow> connection \<Rightarrow> bool" where
  "isTimedOutAt now timeout c \<longleftrightarrow> timeout \<le> now - c_lastRecv c"

definition nextFragmentID :: "connection \<Rightarrow> connection \<times> u16" where
  "nextFragmentID c = (let n = c_fragmentID c + 1 in (c\<lparr>c_fragmentID := n\<rparr>, ucast n))"

definition conn_releasePendingBuffers :: "connection \<Rightarrow> connection" where
  "conn_releasePendingBuffers c =
     c\<lparr>c_channels := map releasePendingBuffers (c_channels c),
       c_reassembly := reassembly_reset (c_reassembly c),
       c_disconnectPacket := None, c_batchBuf := []\<rparr>"

definition tickBandwidth :: "time \<Rightarrow> connection \<Rightarrow> connection" where
  "tickBandwidth now c = c\<lparr>c_sendBW := bw_Tick now (c_sendBW c), c_recvBW := bw_Tick now (c_recvBW c)\<rparr>"

record ConnectionStats =
  st_RTT :: duration
  st_RTTVariance :: duration
  st_PacketLoss :: real
  st_BytesSent :: u64
  st_BytesReceived :: u64
  st_CongestionWindow :: int
  st_Uptime :: duration
  st_SendBandwidth :: real
  st_RecvBandwidth :: real

definition Stats :: "time \<Rightarrow> connection \<Rightarrow> ConnectionStats" where
  "Stats now c =
     \<lparr>st_RTT = SRTT (c_rtt c), st_RTTVariance = RTTVar (c_rtt c), st_PacketLoss = Loss.Loss (c_loss c),
      st_BytesSent = c_bytesSent c, st_BytesReceived = c_bytesReceived c,
      st_CongestionWindow = Window (c_cc c), st_Uptime = now - c_createdAt c,
      st_SendBandwidth = BytesPerSecond (c_sendBW c), st_RecvBandwidth = BytesPerSecond (c_recvBW c)\<rparr>"

subsection \<open>The send pipeline\<close>

type_synonym 'u st = "connection \<times> 'u"

definition getSendBuffer :: "nat \<Rightarrow> bytes" where
  "getSendBuffer n = replicate n 0"

text \<open>The batch frame of a single packet, built in \<open>sendFramed\<close> and in \<open>Close\<close>.\<close>

definition singleFrame :: "bytes \<Rightarrow> bytes" where
  "singleFrame encrypted =
     (let n = BatchHeaderSize + BatchLenSize + length encrypted
      in go_copy ((getSendBuffer n)[0 := 1, 1 := of_nat (length encrypted),
                                    2 := of_nat (drop_bit 8 (length encrypted))]) 3 encrypted)"

definition sendFramed :: "'u st sendFunc \<Rightarrow> bytes \<Rightarrow> 'u st \<Rightarrow> 'u st \<times> fw_error option" where
  "sendFramed sf encrypted s =
     (if c_batchEnabled (fst s) then sf s (singleFrame encrypted) else sf s encrypted)"

definition writeEncrypted :: "'u st sendFunc \<Rightarrow> bytes \<Rightarrow> 'u st \<Rightarrow> 'u st \<times> fw_error option" where
  "writeEncrypted sf encrypted s =
     (case s of (c, u) \<Rightarrow>
        if c_batchEnabled c \<and> \<not> c_skipBatch c \<and> length (c_batchBuf c) < maxBatchQueueSize
        then ((c\<lparr>c_batchBuf := c_batchBuf c @ [encrypted]\<rparr>, u), None)
        else sendFramed sf encrypted s)"

definition setChannel :: "nat \<Rightarrow> channel \<Rightarrow> connection \<Rightarrow> connection" where
  "setChannel i ch c = c\<lparr>c_channels := (c_channels c)[i := ch]\<rparr>"

definition reliable :: "channel \<Rightarrow> bool" where
  "reliable ch \<longleftrightarrow> ch_mode ch = ReliableOrdered \<or> ch_mode ch = ReliableUnordered"

definition currentRTO :: "connection \<Rightarrow> duration" where
  "currentRTO c = (let rto = RTO (c_rtt c) in if HalvesRTO (c_cc c) then rto div 2 else rto)"

text \<open>Queueing a packet for retransmission after it has been written, if the channel is reliable.\<close>

definition trackSent :: "byte \<Rightarrow> u32 \<Rightarrow> bytes \<Rightarrow> time \<Rightarrow> connection \<Rightarrow> connection" where
  "trackSent i seq plaintext now c =
     (let ch = c_channels c ! unat i
      in if reliable ch
         then (setChannel (unat i) (addPending \<lparr>pp_raw = plaintext, pp_sendTime = now, pp_retransmitCount = 0,
                 pp_nextRetransmit = now + currentRTO c, pp_firstTransmit = True, pp_sequence = seq\<rparr> ch) c)
               \<lparr>c_loss := RecordSend seq (c_loss c)\<rparr>
         else c)"

text \<open>One packet, from the sequence number to the retransmission queue: the body of
  \<open>sendSinglePacket\<close>, and of the loop of \<open>sendFragmented\<close>.\<close>

definition sendPacket ::
  "'u st sendFunc \<Rightarrow> byte \<Rightarrow> byte \<Rightarrow> bytes \<Rightarrow> time \<Rightarrow> 'u st \<Rightarrow> 'u st \<times> fw_error option" where
  "sendPacket sf flags channelID payload now s =
     (case s of (c, u) \<Rightarrow>
        let (ch, seq) = nextSequence (c_channels c ! unat channelID);
            c = setChannel (unat channelID) ch c;
            (ack, ackField) = ackState ch;
            hdr = \<lparr>Flags = flags, Channel = channelID, Sequence = seq, Ack = ack, AckField = ackField\<rparr>
        in case MarshalHeader (getSendBuffer (MaxHeaderSize + length payload)) hdr of
             (buf, Inl e) \<Rightarrow> ((c, u), Some e)
           | (buf, Inr n) \<Rightarrow>
               let plaintext = take (n + length payload) (go_copy buf n payload);
                   (cipher, r) = Encrypt (c_sendCipher c) plaintext
                     (getSendBuffer (NonceSize + length plaintext + TagSize));
                   c = c\<lparr>c_sendCipher := cipher\<rparr>
               in case r of
                    Inl e \<Rightarrow> ((c, u), Some e)
                  | Inr encrypted \<Rightarrow>
                      (case writeEncrypted sf encrypted (c, u) of
                         (s, Some e) \<Rightarrow> (s, Some e)
                       | ((c, u), None) \<Rightarrow> ((trackSent channelID seq plaintext now c, u), None)))"

definition sendSinglePacket ::
  "'u st sendFunc \<Rightarrow> byte \<Rightarrow> bytes \<Rightarrow> time \<Rightarrow> 'u st \<Rightarrow> 'u st \<times> fw_error option" where
  "sendSinglePacket sf channelID payload now s =
     (case sendPacket sf 0 channelID payload now s of
        (s, Some e) \<Rightarrow> (s, Some e)
      | ((c, u), None) \<Rightarrow> ((c\<lparr>c_lastSend := now\<rparr>, u), None))"

fun sendFragments ::
  "'u st sendFunc \<Rightarrow> byte \<Rightarrow> bytes list \<Rightarrow> time \<Rightarrow> 'u st \<Rightarrow> 'u st \<times> fw_error option" where
  "sendFragments sf channelID [] now s = (s, None)"
| "sendFragments sf channelID (frag # frags) now s =
     (case sendPacket sf FlagFragment channelID frag now s of
        (s, Some e) \<Rightarrow> (s, Some e)
      | (s, None) \<Rightarrow> sendFragments sf channelID frags now s)"

definition sendFragmented ::
  "'u st sendFunc \<Rightarrow> byte \<Rightarrow> bytes \<Rightarrow> byte \<Rightarrow> time \<Rightarrow> 'u st \<Rightarrow> 'u st \<times> fw_error option" where
  "sendFragmented sf channelID compressed fragFlags now s =
     (case s of (c, u) \<Rightarrow>
        let (c, fid) = nextFragmentID c
        in case splitMessage compressed fid fragFlags of
             Inl e \<Rightarrow> ((c, u), Some e)
           | Inr fragments \<Rightarrow>
               (case sendFragments sf channelID fragments now (c, u) of
                  (s, Some e) \<Rightarrow> (s, Some e)
                | ((c, u), None) \<Rightarrow> ((c\<lparr>c_lastSend := now\<rparr>, u), None)))"

definition sendMessage ::
  "comp_lib \<Rightarrow> 'u st sendFunc \<Rightarrow> bytes \<Rightarrow> byte \<Rightarrow> time \<Rightarrow> 'u st \<Rightarrow> 'u st \<times> fw_error option" where
  "sendMessage lib sf data channelID now s =
     (if conn_channel (fst s) channelID = None then (s, Some ErrInvalidChannel)
      else case c_compress (fst s) of
             None \<Rightarrow> (s, Some PanicNilPointer)
           | Some pool \<Rightarrow>
               (case compressPayload lib pool data of
                  Inl e \<Rightarrow> (s, Some e)
                | Inr (compressed, fragFlags) \<Rightarrow>
                    if MaxFragmentPayload < length compressed \<or> fragFlags \<noteq> 0
                    then sendFragmented sf channelID compressed fragFlags now s
                    else sendSinglePacket sf channelID compressed now s))"

definition SendImmediate ::
  "comp_lib \<Rightarrow> 'u st sendFunc option \<Rightarrow> bytes \<Rightarrow> byte \<Rightarrow> time \<Rightarrow> 'u st \<Rightarrow> 'u st \<times> fw_error option" where
  "SendImmediate lib sf data channel now s =
     (case s of (c, u) \<Rightarrow>
        if c_state c \<noteq> StateConnected then (s, Some ErrConnectionClosed)
        else if length (c_channels c) \<le> unat channel then (s, Some ErrInvalidChannel)
        else case sf of
               None \<Rightarrow> (s, Some ErrConnectionClosed)
             | Some sf \<Rightarrow>
                 let ((c, u), err) = sendMessage lib sf data channel now (c\<lparr>c_skipBatch := True\<rparr>, u)
                 in ((c\<lparr>c_skipBatch := False\<rparr>, u), err))"

subsection \<open>Acks, heartbeats and closing\<close>

definition ackEntries :: "byte list \<Rightarrow> connection \<Rightarrow> multiAckEntry list" where
  "ackEntries channelIDs c =
     concat (map (\<lambda>i. case conn_channel c i of
                        None \<Rightarrow> []
                      | Some ch \<Rightarrow> [\<lparr>mae_Channel = i, mae_Ack = fst (ackState ch), mae_AckField = snd (ackState ch)\<rparr>])
                 channelIDs)"

definition sendMultiChannelHeartbeat ::
  "'u st sendFunc \<Rightarrow> byte list \<Rightarrow> time \<Rightarrow> 'u st \<Rightarrow> 'u st \<times> fw_error option" where
  "sendMultiChannelHeartbeat sf channelIDs now s =
     (case s of (c, u) \<Rightarrow>
        let entries = ackEntries channelIDs c
        in if length entries = 0 then (s, None)
           else case marshalMultiAck (replicate 256 0) entries of
                  (ctrlBuf, Inl e) \<Rightarrow> (s, Some e)
                | (ctrlBuf, Inr n) \<Rightarrow>
                    (case buildControlPacket (getSendBuffer (64 + n)) controlHeader (take n ctrlBuf) of
                       (buf, Inl e) \<Rightarrow> (s, Some e)
                     | (buf, Inr pn) \<Rightarrow>
                         let (cipher, r) = Encrypt (c_sendCipher c) (take pn buf) (getSendBuffer (NonceSize + pn + TagSize));
                             c = c\<lparr>c_sendCipher := cipher\<rparr>
                         in case r of
                              Inl e \<Rightarrow> ((c, u), Some e)
                            | Inr encrypted \<Rightarrow>
                                (case sendFramed sf encrypted (c, u) of
                                   (s, Some e) \<Rightarrow> (s, Some e)
                                 | ((c, u), None) \<Rightarrow> ((c\<lparr>c_lastSend := now\<rparr>, u), None))))"

definition sendHeartbeat :: "'u st sendFunc \<Rightarrow> time \<Rightarrow> 'u st \<Rightarrow> 'u st \<times> fw_error option" where
  "sendHeartbeat sf = sendMultiChannelHeartbeat sf [0]"

definition Close :: "'u st sendFunc option \<Rightarrow> time \<Rightarrow> 'u st \<Rightarrow> 'u st \<times> fw_error option" where
  "Close sf now s =
     (case s of (c, u) \<Rightarrow>
        if c_state c \<noteq> StateConnected then (s, Some ErrConnectionClosed)
        else
          let c = c\<lparr>c_state := StateDisconnecting\<rparr>
          in case sf of
               None \<Rightarrow> ((c, u), None)
             | Some sf \<Rightarrow>
                 (case marshalDisconnect (replicate 1 0) of
                    (ctrlBuf, Inl e) \<Rightarrow> ((c, u), None)
                  | (ctrlBuf, Inr n) \<Rightarrow>
                      (case buildControlPacket (getSendBuffer 64) controlHeader (take n ctrlBuf) of
                         (buf, Inl e) \<Rightarrow> ((c, u), None)
                       | (buf, Inr pn) \<Rightarrow>
                           let (cipher, r) = Encrypt (c_sendCipher c) (take pn buf) [];
                               c = c\<lparr>c_sendCipher := cipher\<rparr>
                           in case r of
                                Inl e \<Rightarrow> ((c, u), None)
                              | Inr encrypted \<Rightarrow>
                                  let pktData = (if c_batchEnabled c then singleFrame encrypted else encrypted);
                                      c = c\<lparr>c_disconnectPacket := Some pktData, c_disconnectRetries := 0,
                                            c_nextDisconnectRetry := now + RTO (c_rtt c)\<rparr>
                                  in (fst (sf (c, u) pktData), None))))"

end
