(* ===== verification/Pipeline.thy ===== *)
theory Pipeline
  imports Connection
begin

text \<open>
  The per-connection work of server and client: the receive pipeline (\<open>handleDecrypted\<close> and
  \<open>processPacket\<close> in \<open>server.go\<close>, \<open>processPacket\<close> in \<open>client.go\<close>) and \<open>tickConnection\<close>. The two files
  contain the same code but for the way a connection is removed (from the server's tables, or by
  clearing the client's pointer). The model therefore has the code once, and it produces a list
  of effects, in the order of the code: calls of the user's handler, and \<open>RemoveConnection\<close> for
  the removal. Server and client interpret them.

  The result is \<open>Inl\<close> only when the code panics. The handler observes; it does not call back into
  the connection.
\<close>

section \<open>Definitions\<close>

datatype effect =
    OnConnect
  | OnMessage bytes byte
  | OnError fw_error
  | OnDisconnect DisconnectReason
  | RemoveConnection

subsection \<open>Receiving\<close>

text \<open>\<open>ch.processAcks\<close> and what follows it: the controller and the loss tracker.\<close>

definition applyAcks :: "time \<Rightarrow> byte \<Rightarrow> u32 \<Rightarrow> u32 \<Rightarrow> connection \<Rightarrow> connection" where
  "applyAcks now i ack ackField c =
     (let (ch, r, acked) = processAcks now ack ackField (Some (c_rtt c)) (c_channels c ! unat i);
          c = (setChannel (unat i) ch c)\<lparr>c_rtt := (case r of None \<Rightarrow> c_rtt c | Some r \<Rightarrow> r)\<rparr>
      in if 0 < length acked
         then c\<lparr>c_cc := OnAck (int (length acked)) (c_cc c), c_loss := fold RecordAck acked (c_loss c)\<rparr>
         else c)"

definition applyMultiAck :: "time \<Rightarrow> multiAckEntry \<Rightarrow> connection \<Rightarrow> connection" where
  "applyMultiAck now e c =
     (if conn_channel c (mae_Channel e) = None then c
      else applyAcks now (mae_Channel e) (mae_Ack e) (mae_AckField e) c)"

text \<open>The end of a connection: \<open>releasePendingBuffers\<close> and \<open>setState(StateDisconnected)\<close>.\<close>

definition teardown :: "connection \<Rightarrow> connection" where
  "teardown c = (conn_releasePendingBuffers c)\<lparr>c_state := StateDisconnected\<rparr>"

definition handleControl :: "time \<Rightarrow> bytes \<Rightarrow> connection \<Rightarrow> connection \<times> effect list" where
  "handleControl now body c =
     (if length body < 1 then (c, [])
      else if body ! 0 = ControlHeartbeat then (c, [])
      else if body ! 0 = ControlMultiAck
      then case unmarshalMultiAck (drop 1 body) of
             Inl e \<Rightarrow> (c, [])
           | Inr (acks, k) \<Rightarrow> (fold (applyMultiAck now) acks c, [])
      else if body ! 0 = ControlDisconnect
      then (teardown c, [RemoveConnection, OnDisconnect DisconnectGraceful])
      else (c, []))"

definition deliverTo :: "byte \<Rightarrow> u32 \<Rightarrow> bytes option \<Rightarrow> connection \<Rightarrow> (connection \<times> bytes option list) res" where
  "deliverTo i seq payload c =
     (case deliver seq payload (c_channels c ! unat i) of
        Inl e \<Rightarrow> Inl e
      | Inr (ch, msgs) \<Rightarrow> Inr (setChannel (unat i) ch c, msgs))"

text \<open>The loop at the end: \<open>OnMessage\<close> for every message that is not nil.\<close>

definition messages :: "byte \<Rightarrow> bytes option list \<Rightarrow> effect list" where
  "messages i msgs = concat (map (\<lambda>m. case m of None \<Rightarrow> [] | Some b \<Rightarrow> [OnMessage b i]) msgs)"

definition deliverMessages :: "byte \<Rightarrow> u32 \<Rightarrow> bytes option \<Rightarrow> connection \<Rightarrow> (connection \<times> effect list) res" where
  "deliverMessages i seq payload c =
     (case deliverTo i seq payload c of
        Inl e \<Rightarrow> Inl e
      | Inr (c, msgs) \<Rightarrow> Inr (c, messages i msgs))"

text \<open>Decompression through a pool that may be nil: only a compressed payload dereferences it.\<close>

definition decompressOn :: "comp_lib \<Rightarrow> compressorPool option \<Rightarrow> bytes \<Rightarrow> byte \<Rightarrow> bytes option res res" where
  "decompressOn lib pool payload flags =
     (case pool of
        Some p \<Rightarrow> Inr (map_sum id (\<lambda>d. if decompressesToNil payload flags then None else Some d) (decompressPayload lib p payload flags))
      | None \<Rightarrow> if flags AND FragFlagCompressed = 0 then Inr (Inr (Some payload)) else Inl PanicNilPointer)"

definition handleFragment ::
  "comp_lib \<Rightarrow> time \<Rightarrow> PacketHeader \<Rightarrow> bytes \<Rightarrow> connection \<Rightarrow> (connection \<times> effect list) res" where
  "handleFragment lib now hdr payload c =
     (case UnmarshalFragmentHeader payload of
        Inl e \<Rightarrow> Inr (c, [OnError e])
      | Inr (fh, fn) \<Rightarrow>
          let (store, r) = addFragment now (c_reassembly c) fh (drop fn payload);
              c = c\<lparr>c_reassembly := store\<rparr>
          in case r of
               Inl e \<Rightarrow> Inr (c, [OnError e])
             | Inr None \<Rightarrow>
                 (case deliverTo (Channel hdr) (Sequence hdr) None c of
                    Inl e \<Rightarrow> Inl e
                  | Inr (c, msgs) \<Rightarrow> Inr (c, []))
             | Inr (Some assembled) \<Rightarrow>
                 (case decompressOn lib (c_compress c) assembled (FragmentFlags fh) of
                    Inl e \<Rightarrow> Inl e
                  | Inr (Inl e) \<Rightarrow> Inr (c, [OnError e])
                  | Inr (Inr decompressed) \<Rightarrow> deliverMessages (Channel hdr) (Sequence hdr) decompressed c))"

definition handleDecrypted ::
  "comp_lib \<Rightarrow> time \<Rightarrow> bytes \<Rightarrow> connection \<Rightarrow> (connection \<times> effect list) res" where
  "handleDecrypted lib now decrypted c =
     (case UnmarshalHeader decrypted of
        Inl e \<Rightarrow> Inr (c, [OnError e])
      | Inr (hdr, n) \<Rightarrow>
          let c = c\<lparr>c_lastRecv := now\<rparr>
          in if conn_channel c (Channel hdr) = None then Inr (c, [])
             else
               let c = applyAcks now (Channel hdr) (Ack hdr) (AckField hdr) c
               in if Flags hdr AND FlagControl \<noteq> 0 then Inr (handleControl now (drop n decrypted) c)
                  else
                    let (ch, ok) = recordReceive (Sequence hdr) (c_channels c ! unat (Channel hdr));
                        c = setChannel (unat (Channel hdr)) ch c
                    in if \<not> ok then Inr (c, [])
                       else if Flags hdr AND FlagFragment \<noteq> 0
                       then handleFragment lib now hdr (drop n decrypted) c
                       else deliverMessages (Channel hdr) (Sequence hdr) (Some (drop n decrypted)) c)"

definition getDecryptBuffer :: bytes where
  "getDecryptBuffer = replicate DefaultMTU 0"

definition processPacket ::
  "comp_lib \<Rightarrow> time \<Rightarrow> bytes \<Rightarrow> connection \<Rightarrow> (connection \<times> effect list) res" where
  "processPacket lib now data c =
     (let (cipher, r) = Decrypt (c_recvCipher c) data getDecryptBuffer;
          c = c\<lparr>c_recvCipher := cipher\<rparr>
      in case r of
           Inl e \<Rightarrow> Inr (c, [OnError e])
         | Inr decrypted \<Rightarrow> handleDecrypted lib now decrypted c)"

fun processPackets ::
  "comp_lib \<Rightarrow> time \<Rightarrow> bytes list \<Rightarrow> connection \<Rightarrow> (connection \<times> effect list) res" where
  "processPackets lib now [] c = Inr (c, [])"
| "processPackets lib now (pkt # pkts) c =
     (case processPacket lib now pkt c of
        Inl e \<Rightarrow> Inl e
      | Inr (c, es) \<Rightarrow>
          (case processPackets lib now pkts c of
             Inl e \<Rightarrow> Inl e
           | Inr (c, es') \<Rightarrow> Inr (c, es @ es')))"

definition countReceived :: "nat \<Rightarrow> connection \<Rightarrow> connection" where
  "countReceived n c =
     c\<lparr>c_bytesReceived := c_bytesReceived c + of_nat n, c_recvBW := bw_Record (of_nat n) (c_recvBW c)\<rparr>"

text \<open>\<open>processConnData\<close> after the server has stripped the migration token.\<close>

definition processConnData ::
  "comp_lib \<Rightarrow> time \<Rightarrow> bytes \<Rightarrow> connection \<Rightarrow> (connection \<times> effect list) res" where
  "processConnData lib now data c =
     (let c = countReceived (length data) c
      in if c_batchEnabled c
         then case UnmarshalBatch data of
                Inl e \<Rightarrow> Inr (c, [OnError e])
              | Inr packets \<Rightarrow> processPackets lib now packets c
         else processPacket lib now data c)"

subsection \<open>Ticking\<close>

record tickParams =
  tp_ConnTimeout :: duration
  tp_MaxRetransmits :: int
  tp_MTU :: int
  tp_HeartbeatInterval :: duration
  tp_FragmentTimeout :: duration

fun retransmitPackets :: "'u st sendFunc \<Rightarrow> time \<Rightarrow> pendingPacket list \<Rightarrow> 'u st \<Rightarrow> 'u st" where
  "retransmitPackets sf now [] s = s"
| "retransmitPackets sf now (p # ps) s =
     (case s of (c, u) \<Rightarrow>
        let (cipher, r) = Encrypt (c_sendCipher c) (pp_raw p) (getSendBuffer (NonceSize + length (pp_raw p) + TagSize));
            c = c\<lparr>c_sendCipher := cipher\<rparr>
        in case r of
             Inl e \<Rightarrow> retransmitPackets sf now ps (c, u)
           | Inr encrypted \<Rightarrow>
               let ((c, u), err) = sendFramed sf encrypted (c, u);
                   c = c\<lparr>c_lastSend := now, c_cc := OnLoss (c_cc c)\<rparr>
               in retransmitPackets sf now ps (c, u))"

fun retransmitChannels ::
  "'u st sendFunc \<Rightarrow> time \<Rightarrow> duration \<Rightarrow> int \<Rightarrow> nat list \<Rightarrow> 'u st \<Rightarrow> 'u st \<times> bool" where
  "retransmitChannels sf now rto maxRetries [] s = (s, False)"
| "retransmitChannels sf now rto maxRetries (i # is) s =
     (case s of (c, u) \<Rightarrow>
        let (ch, retransmits, kill) = checkRetransmissions now rto maxRetries (c_channels c ! i);
            c = setChannel i ch c
        in if kill then ((c, u), True)
           else retransmitChannels sf now rto maxRetries is (retransmitPackets sf now retransmits (c, u)))"

definition is_panic :: "fw_error \<Rightarrow> bool" where
  "is_panic e \<longleftrightarrow> e = PanicOutOfRange \<or> e = PanicNilMap \<or> e = PanicNilPointer"

text \<open>What becomes of an error a method returns: a callback, unless it stands for a panic.\<close>

definition report :: "fw_error option \<Rightarrow> effect list res" where
  "report err =
     (case err of None \<Rightarrow> Inr [] | Some e \<Rightarrow> if is_panic e then Inl e else Inr [OnError e])"

fun sendQueued ::
  "comp_lib \<Rightarrow> 'u st sendFunc \<Rightarrow> time \<Rightarrow> outgoingMessage list \<Rightarrow> 'u st \<Rightarrow> ('u st \<times> effect list) res" where
  "sendQueued lib sf now [] s = Inr (s, [])"
| "sendQueued lib sf now (m # ms) s =
     (if \<not> CanSend (c_cc (fst s)) (InFlightCount (fst s)) then Inr ((requeue (m # ms) (fst s), snd s), [])
      else
        let (s, err) = sendMessage lib sf (om_data m) (om_channel m) now s
        in case report err of
             Inl e \<Rightarrow> Inl e
           | Inr es \<Rightarrow>
               (case sendQueued lib sf now ms s of
                  Inl e \<Rightarrow> Inl e
                | Inr (s, es') \<Rightarrow> Inr (s, es @ es')))"

definition conn_flushBatch :: "int \<Rightarrow> 'u st sendFunc \<Rightarrow> 'u st \<Rightarrow> 'u st \<times> fw_error option" where
  "conn_flushBatch mtu sf s =
     (case s of (c, u) \<Rightarrow> flushBatch mtu sf (c_batchBuf c) (c\<lparr>c_batchBuf := []\<rparr>, u))"

text \<open>The channels that need an ack, whose flags the loop clears.\<close>

definition takeAckChannels :: "connection \<Rightarrow> connection \<times> byte list" where
  "takeAckChannels c =
     (c\<lparr>c_channels := map (fst \<circ> clearNeedsAck) (c_channels c)\<rparr>,
      map of_nat (filter (\<lambda>i. snd (clearNeedsAck (c_channels c ! i))) [0..<length (c_channels c)]))"

definition tickDisconnecting ::
  "'u st sendFunc \<Rightarrow> time \<Rightarrow> 'u st \<Rightarrow> 'u st \<times> effect list" where
  "tickDisconnecting sf now s =
     (case s of (c, u) \<Rightarrow>
        if maxDisconnectRetries \<le> c_disconnectRetries c
        then ((teardown c, u), [RemoveConnection, OnDisconnect DisconnectGraceful])
        else case c_disconnectPacket c of
               None \<Rightarrow> (s, [])
             | Some pkt \<Rightarrow>
                 if c_nextDisconnectRetry c < now
                 then let ((c, u), err) = sf (c, u) pkt
                      in ((c\<lparr>c_disconnectRetries := c_disconnectRetries c + 1,
                             c_nextDisconnectRetry := now + RTO (c_rtt c)\<rparr>, u), [])
                 else (s, []))"

text \<open>The last part of a tick, after the retransmissions.\<close>

definition tickSend ::
  "comp_lib \<Rightarrow> tickParams \<Rightarrow> 'u st sendFunc \<Rightarrow> time \<Rightarrow> 'u st \<Rightarrow> ('u st \<times> effect list) res" where
  "tickSend lib p sf now s =
     (let (c, msgs) = drainSendQueue (fst s)
      in case sendQueued lib sf now msgs (c, snd s) of
           Inl e \<Rightarrow> Inl e
         | Inr (s, es) \<Rightarrow>
             let (s, err) = (if c_batchEnabled (fst s) then conn_flushBatch (tp_MTU p) sf s else (s, None))
             in case report err of
                  Inl e \<Rightarrow> Inl e
                | Inr es' \<Rightarrow>
                    let (c, acks) = takeAckChannels (fst s);
                        s = (c, snd s);
                        s = (if 0 < length acks then fst (sendMultiChannelHeartbeat sf acks now s) else s);
                        s = (if needsHeartbeatAt now (tp_HeartbeatInterval p) (fst s) then fst (sendHeartbeat sf now s) else s);
                        c = (fst s)\<lparr>c_reassembly := fst (reassembly_cleanup now (tp_FragmentTimeout p) (c_reassembly (fst s)))\<rparr>
                    in Inr ((tickBandwidth now c, snd s), es @ es'))"

definition tickConnection ::
  "comp_lib \<Rightarrow> tickParams \<Rightarrow> 'u st sendFunc \<Rightarrow> time \<Rightarrow> 'u st \<Rightarrow> ('u st \<times> effect list) res" where
  "tickConnection lib p sf now s =
     (case s of (c, u) \<Rightarrow>
        if c_state c = StateDisconnecting then Inr (tickDisconnecting sf now s)
        else if c_state c \<noteq> StateConnected then Inr (s, [])
        else if isTimedOutAt now (tp_ConnTimeout p) c
        then Inr ((teardown c, u), [RemoveConnection, OnDisconnect DisconnectTimeout])
        else
          let ((c, u), kill) =
                retransmitChannels sf now (currentRTO c) (tp_MaxRetransmits p) [0..<length (c_channels c)] s
          in if kill
             then Inr ((teardown c, u), [RemoveConnection, OnError ErrMaxRetransmits, OnDisconnect DisconnectError])
             else tickSend lib p sf now (c, u))"

end
