(* ===== verification/Lifecycle.thy ===== *)
theory Lifecycle
  imports Pipeline
begin

text \<open>
  The life of a connection: what every step of the pipelines keeps, how the state moves from
  connected to disconnected, and that the code does not panic. The \<open>sendFunc\<close> is the interface
  \<open>counting\<close>: whatever the network does, it changes only the byte counters of the connection.
  Server and client provide it.
\<close>

section \<open>Channels\<close>

text \<open>A channel with its reorder buffer: an ordered channel that has not been released.\<close>

definition open_channel :: "channel \<Rightarrow> bool" where
  "open_channel ch \<longleftrightarrow> (ch_mode ch = ReliableOrdered \<longrightarrow> ch_recvBuffer ch \<noteq> None)"

lemma processAcks_frame:
  "\<exists>ps n r' acked. processAcks now ack field (Some r) ch = (ch\<lparr>ch_pendingSend := ps, ch_pending := n\<rparr>, r', acked)"
  by (auto simp: processAcks_def Let_def split: prod.splits)
     (metis channel.surjective channel.update_convs(5) channel.update_convs(8))+

lemma recordReceive_open [simp]:
  "open_channel (fst (recordReceive seq ch)) = open_channel ch" "ch_mode (fst (recordReceive seq ch)) = ch_mode ch"
  by (auto simp: open_channel_def recordReceive_def Let_def)

lemma deliver_open:
  assumes "open_channel ch"
  obtains ch' msgs where "deliver seq p ch = Inr (ch', msgs)" "open_channel ch'" "ch_mode ch' = ch_mode ch"
proof -
  have "\<exists>ch' msgs. deliver seq p ch = Inr (ch', msgs) \<and> open_channel ch' \<and> ch_mode ch' = ch_mode ch"
    using assms
    by (auto simp: open_channel_def deliver_def deliverReliableOrdered_def deliverUnreliableSequenced_def Let_def split_beta)
  then show thesis using that by blast
qed

lemma deliver_mode: "deliver seq p ch = Inr (ch', msgs) \<Longrightarrow> ch_mode ch' = ch_mode ch"
  by (auto simp: deliver_def deliverReliableOrdered_def deliverUnreliableSequenced_def Let_def
      split: if_splits prod.splits option.splits)

section \<open>What a step keeps\<close>

text \<open>The identity of a connection and its state.\<close>

definition keeps :: "connection \<Rightarrow> connection \<Rightarrow> bool" where
  "keeps c c' \<longleftrightarrow> c_state c' = c_state c \<and> c_remoteAddr c' = c_remoteAddr c \<and> c_suite c' = c_suite c \<and>
     c_layout c' = c_layout c \<and> c_compress c' = c_compress c \<and> c_createdAt c' = c_createdAt c \<and>
     c_features c' = c_features c \<and> c_migrationToken c' = c_migrationToken c \<and>
     c_batchEnabled c' = c_batchEnabled c \<and> map ch_mode (c_channels c') = map ch_mode (c_channels c)"

lemma keeps_refl [simp]: "keeps c c"
  by (simp add: keeps_def)

lemma keeps_trans [trans]: "keeps a b \<Longrightarrow> keeps b c \<Longrightarrow> keeps a c"
  by (simp add: keeps_def)

text \<open>A connection that can be used: its compressor pool and all its buffers exist.\<close>

definition live :: "connection \<Rightarrow> bool" where
  "live c \<longleftrightarrow> c_compress c \<noteq> None \<and> (\<forall>ch \<in> set (c_channels c). open_channel ch)"

definition closed :: "connection \<Rightarrow> connection" where
  "closed c = c\<lparr>c_state := StateDisconnected\<rparr>"

text \<open>The outcome of a step: the connection is removed and disconnected, or it lives on.\<close>

definition outcome :: "connection \<Rightarrow> connection \<Rightarrow> effect list \<Rightarrow> bool" where
  "outcome c c' es \<longleftrightarrow> keeps (if RemoveConnection \<in> set es then closed c else c) c' \<and>
     (live c \<longrightarrow> RemoveConnection \<notin> set es \<longrightarrow> live c') \<and>
     length (filter (\<lambda>e. e = RemoveConnection) es) = length (filter (\<lambda>e. \<exists>r. e = OnDisconnect r) es)"

lemma outcome_refl:
  "RemoveConnection \<notin> set es \<Longrightarrow> (\<And>r. OnDisconnect r \<notin> set es) \<Longrightarrow> keeps c c' \<Longrightarrow> (live c \<Longrightarrow> live c') \<Longrightarrow> outcome c c' es"
proof -
  assume a: "RemoveConnection \<notin> set es" "\<And>r. OnDisconnect r \<notin> set es" "keeps c c'" "live c \<Longrightarrow> live c'"
  then have "filter (\<lambda>e. e = RemoveConnection) es = []" "filter (\<lambda>e. \<exists>r. e = OnDisconnect r) es = []"
    by (auto simp: filter_empty_conv)
  with a show ?thesis by (simp add: outcome_def)
qed

lemma keeps_closed: "keeps a b \<Longrightarrow> keeps (closed a) (closed b)"
  by (simp add: keeps_def closed_def)

lemma closed_closed [simp]: "closed (closed c) = closed c"
  by (simp add: closed_def)

lemma outcome_append:
  assumes "outcome a b es" "outcome b c es'"
  shows "outcome a c (es @ es')"
proof -
  have "keeps (if RemoveConnection \<in> set (es @ es') then closed a else a) c"
  proof (cases "RemoveConnection \<in> set es'")
    case True
    have "keeps (closed a) (closed b)" using assms(1) keeps_closed by (fastforce simp: outcome_def split: if_splits)
    with True assms(2) show ?thesis using keeps_trans by (auto simp: outcome_def)
  next
    case False
    with assms show ?thesis using keeps_trans by (auto simp: outcome_def split: if_splits)
  qed
  with assms show ?thesis by (auto simp: outcome_def)
qed

lemma outcome_keeps: "keeps a b \<Longrightarrow> (live a \<Longrightarrow> live b) \<Longrightarrow> outcome b c es \<Longrightarrow> outcome a c es"
  using outcome_append [of a b "[]" c es] outcome_refl [of "[]" a b] by simp

text \<open>Replacing a channel by one of the same mode.\<close>

lemma setChannel_keeps:
  assumes "ch_mode ch = ch_mode (c_channels c ! i)" "open_channel (c_channels c ! i) \<Longrightarrow> open_channel ch"
  shows "keeps c (setChannel i ch c)" "live c \<Longrightarrow> live (setChannel i ch c)"
proof -
  show "keeps c (setChannel i ch c)"
  proof (cases "i < length (c_channels c)")
    case True
    then show ?thesis using assms(1) by (simp add: keeps_def setChannel_def map_update list_update_same_conv)
  qed (simp add: keeps_def setChannel_def list_update_beyond)
  show "live (setChannel i ch c)" if "live c"
    using that assms(2) set_update_subset_insert [of "c_channels c" i ch]
    by (cases "i < length (c_channels c)") (auto simp: live_def setChannel_def list_update_beyond)
qed

section \<open>Receiving\<close>

lemma applyAcks_frame:
  "\<exists>ps n r cc l. applyAcks now i ack field c =
     c\<lparr>c_channels := (c_channels c)[unat i := (c_channels c ! unat i)\<lparr>ch_pendingSend := ps, ch_pending := n\<rparr>],
       c_rtt := r, c_cc := cc, c_loss := l\<rparr>"
proof -
  obtain ps n r' acked where "processAcks now ack field (Some (c_rtt c)) (c_channels c ! unat i) =
      ((c_channels c ! unat i)\<lparr>ch_pendingSend := ps, ch_pending := n\<rparr>, r', acked)"
    using processAcks_frame by blast
  then show ?thesis
    by (intro exI [of _ ps] exI [of _ n] exI [of _ "case r' of None \<Rightarrow> c_rtt c | Some r \<Rightarrow> r"]
          exI [of _ "if 0 < length acked then OnAck (int (length acked)) (c_cc c) else c_cc c"]
          exI [of _ "if 0 < length acked then fold RecordAck acked (c_loss c) else c_loss c"])
      (auto simp: applyAcks_def setChannel_def)
qed

lemma applyAcks_keeps: "keeps c (applyAcks now i ack field c)" "live c \<Longrightarrow> live (applyAcks now i ack field c)"
proof -
  obtain ps n r cc l where a: "applyAcks now i ack field c =
      (setChannel (unat i) ((c_channels c ! unat i)\<lparr>ch_pendingSend := ps, ch_pending := n\<rparr>) c)\<lparr>c_rtt := r, c_cc := cc, c_loss := l\<rparr>"
    using applyAcks_frame [of now i ack field c] by (auto simp: setChannel_def)
  have "keeps c (setChannel (unat i) ((c_channels c ! unat i)\<lparr>ch_pendingSend := ps, ch_pending := n\<rparr>) c)"
    "live c \<Longrightarrow> live (setChannel (unat i) ((c_channels c ! unat i)\<lparr>ch_pendingSend := ps, ch_pending := n\<rparr>) c)"
    by (rule setChannel_keeps; simp add: open_channel_def)+
  then show "keeps c (applyAcks now i ack field c)" "live c \<Longrightarrow> live (applyAcks now i ack field c)"
    unfolding a by (simp_all add: keeps_def live_def)
qed

lemma applyMultiAcks_keeps:
  "keeps c (fold (applyMultiAck now) es c)" "live c \<Longrightarrow> live (fold (applyMultiAck now) es c)"
proof -
  have step: "keeps c (applyMultiAck now e c)" "live c \<Longrightarrow> live (applyMultiAck now e c)" for e c
    by (simp_all add: applyMultiAck_def applyAcks_keeps)
  show "keeps c (fold (applyMultiAck now) es c)"
    using step by (induction es arbitrary: c) (auto intro: keeps_trans)
  show "live c \<Longrightarrow> live (fold (applyMultiAck now) es c)"
    using step by (induction es arbitrary: c) auto
qed

lemma teardown_keeps: "keeps (closed c) (teardown c)"
  by (simp add: keeps_def closed_def teardown_def conn_releasePendingBuffers_def releasePendingBuffers_def)

lemma handleControl_outcome: "handleControl now body c = (c', es) \<Longrightarrow> outcome c c' es"
  by (auto simp: handleControl_def outcome_def applyMultiAcks_keeps teardown_keeps split: if_splits sum.splits)

lemma deliverTo_outcome:
  assumes "deliverTo i seq p c = Inr (c', msgs)"
  shows "keeps c c'" "live c \<Longrightarrow> live c'"
proof -
  obtain ch where d: "deliver seq p (c_channels c ! unat i) = Inr (ch, msgs)" "c' = setChannel (unat i) ch c"
    using assms by (auto simp: deliverTo_def split: sum.splits)
  have o: "open_channel ch" if "open_channel (c_channels c ! unat i)"
    by (rule deliver_open [OF that, of seq p]) (use d(1) in auto)
  show "live c'" if "live c"
    using that o deliver_mode [OF d(1)] unfolding d(2) by (auto intro!: setChannel_keeps)
  show "keeps c c'" using o deliver_mode [OF d(1)] unfolding d(2) by (auto intro!: setChannel_keeps)
qed

lemma deliverTo_live:
  assumes "live c" "unat i < length (c_channels c)"
  obtains c' msgs where "deliverTo i seq p c = Inr (c', msgs)"
proof -
  have "open_channel (c_channels c ! unat i)" using assms by (simp add: live_def)
  from deliver_open [OF this] show thesis using that by (metis (no_types, lifting) deliverTo_def old.prod.case old.sum.simps(6))
qed

lemma messages_no_removal [simp]:
  "RemoveConnection \<notin> set (messages i msgs)" "OnDisconnect r \<notin> set (messages i msgs)"
  by (auto simp: messages_def split: option.splits)

lemma deliverMessages_outcome:
  "deliverMessages i seq p c = Inr (c', es) \<Longrightarrow> outcome c c' es"
  using deliverTo_outcome by (auto simp: deliverMessages_def intro!: outcome_refl split: sum.splits)

lemma keeps_length: "keeps c c' \<Longrightarrow> length (c_channels c') = length (c_channels c)"
  by (auto simp: keeps_def dest: map_eq_imp_length_eq)

lemma handleFragment_cases:
  assumes "handleFragment lib now hdr p c = Inr (c', es)"
  obtains s e where "c' = c\<lparr>c_reassembly := s\<rparr>" "es = [OnError e]"
  | s msgs where "deliverTo (Channel hdr) (Sequence hdr) None (c\<lparr>c_reassembly := s\<rparr>) = Inr (c', msgs)" "es = []"
  | s m where "deliverMessages (Channel hdr) (Sequence hdr) m (c\<lparr>c_reassembly := s\<rparr>) = Inr (c', es)"
proof (cases "UnmarshalFragmentHeader p")
  case (Inl e)
  then show thesis using assms that(1) [of "c_reassembly c" e] by (simp add: handleFragment_def)
next
  case (Inr fh)
  let ?a = "addFragment now (c_reassembly c) (fst fh) (drop (snd fh) p)"
  have h: "handleFragment lib now hdr p c =
     (let c = c\<lparr>c_reassembly := fst ?a\<rparr>
      in case snd ?a of
           Inl e \<Rightarrow> Inr (c, [OnError e])
         | Inr None \<Rightarrow>
             (case deliverTo (Channel hdr) (Sequence hdr) None c of Inl e \<Rightarrow> Inl e | Inr (c, msgs) \<Rightarrow> Inr (c, []))
         | Inr (Some assembled) \<Rightarrow>
             (case decompressOn lib (c_compress c) assembled (FragmentFlags (fst fh)) of
                Inl e \<Rightarrow> Inl e
              | Inr (Inl e) \<Rightarrow> Inr (c, [OnError e])
              | Inr (Inr d) \<Rightarrow> deliverMessages (Channel hdr) (Sequence hdr) d c))"
    using Inr by (cases fh; cases ?a) (simp add: handleFragment_def Let_def split: sum.split option.split)
  show thesis
  proof (cases "snd ?a")
    case (Inl e)
    then show thesis using that(1) [of "fst ?a" e] assms unfolding h by (simp add: Let_def)
  next
    case Inr2: (Inr r)
    show thesis
    proof (cases r)
      case None
      then show thesis using that(2) [of "fst ?a"] assms Inr2 unfolding h by (auto simp: Let_def split: sum.splits)
    next
      case (Some a)
      then show thesis using that(1) [of "fst ?a"] that(3) [where s = "fst ?a"] assms Inr2 unfolding h
        by (auto simp: Let_def split: sum.splits)
    qed
  qed
qed

lemma store_keeps: "keeps c (c\<lparr>c_reassembly := s\<rparr>)" "live (c\<lparr>c_reassembly := s\<rparr>) = live c"
  by (simp_all add: keeps_def live_def)

lemma handleFragment_outcome:
  assumes "handleFragment lib now hdr p c = Inr (c', es)"
  shows "outcome c c' es"
  using assms
proof (cases rule: handleFragment_cases)
  case (2 s msgs)
  then show ?thesis
    using deliverTo_outcome [OF 2(1)] keeps_trans [OF store_keeps(1)] by (intro outcome_refl) (auto simp: store_keeps)
next
  case (3 s m)
  show ?thesis
    by (rule outcome_keeps [OF store_keeps(1) _ deliverMessages_outcome [OF 3]]) (simp add: store_keeps)
qed (auto simp: store_keeps intro!: outcome_refl)

lemma handleDecrypted_eq:
  assumes "UnmarshalHeader dec = Inr (hdr, n)"
  shows "handleDecrypted lib now dec c =
     (let c1 = c\<lparr>c_lastRecv := now\<rparr>; c' = applyAcks now (Channel hdr) (Ack hdr) (AckField hdr) c1;
          r = recordReceive (Sequence hdr) (c_channels c' ! unat (Channel hdr));
          c2 = setChannel (unat (Channel hdr)) (fst r) c'
      in if conn_channel c1 (Channel hdr) = None then Inr (c1, [])
         else if Flags hdr AND FlagControl \<noteq> 0 then Inr (handleControl now (drop n dec) c')
         else if \<not> snd r then Inr (c2, [])
         else if Flags hdr AND FlagFragment \<noteq> 0 then handleFragment lib now hdr (drop n dec) c2
         else deliverMessages (Channel hdr) (Sequence hdr) (Some (drop n dec)) c2)"
  unfolding handleDecrypted_def assms sum.case prod.case Let_def split_beta fst_conv snd_conv ..

lemma handleDecrypted_outcome:
  assumes "handleDecrypted lib now dec c = Inr (c', es)"
  shows "outcome c c' es"
proof (cases "UnmarshalHeader dec")
  case (Inl e)
  then show ?thesis using assms by (auto simp: handleDecrypted_def intro!: outcome_refl)
next
  case (Inr hn)
  obtain hdr n where hn: "hn = (hdr, n)" by (cases hn)
  define c0 where "c0 = c\<lparr>c_lastRecv := now\<rparr>"
  define c1 where "c1 = applyAcks now (Channel hdr) (Ack hdr) (AckField hdr) c0"
  define r where "r = recordReceive (Sequence hdr) (c_channels c1 ! unat (Channel hdr))"
  define c2 where "c2 = setChannel (unat (Channel hdr)) (fst r) c1"
  have k0: "keeps c c0" "live c \<Longrightarrow> live c0" by (simp_all add: keeps_def live_def c0_def)
  have k1: "keeps c c1" "live c \<Longrightarrow> live c1"
    unfolding c1_def by (rule keeps_trans [OF k0(1) applyAcks_keeps(1)]) (rule applyAcks_keeps(2), rule k0(2))
  have "keeps c1 c2" "live c1 \<Longrightarrow> live c2" unfolding c2_def by (rule setChannel_keeps; simp add: r_def)+
  then have k2: "keeps c c2" "live c \<Longrightarrow> live c2" using keeps_trans [OF k1(1)] k1(2) by blast+
  have "handleDecrypted lib now dec c =
     (if conn_channel c0 (Channel hdr) = None then Inr (c0, [])
      else if Flags hdr AND FlagControl \<noteq> 0 then Inr (handleControl now (drop n dec) c1)
      else if \<not> snd r then Inr (c2, [])
      else if Flags hdr AND FlagFragment \<noteq> 0 then handleFragment lib now hdr (drop n dec) c2
      else deliverMessages (Channel hdr) (Sequence hdr) (Some (drop n dec)) c2)"
    unfolding handleDecrypted_eq [OF Inr [unfolded hn]] Let_def c2_def r_def c1_def c0_def ..
  then consider "c' = c0" "es = []" | "handleControl now (drop n dec) c1 = (c', es)"
    | "c' = c2" "es = []" | "handleFragment lib now hdr (drop n dec) c2 = Inr (c', es)"
    | "deliverMessages (Channel hdr) (Sequence hdr) (Some (drop n dec)) c2 = Inr (c', es)"
    using assms by (metis (no_types, lifting) prod.inject sum.inject(2))
  then show ?thesis
  proof cases
    case 1 then show ?thesis using k0 by (auto intro!: outcome_refl)
  next
    case 2 then show ?thesis using outcome_keeps [OF k1 handleControl_outcome] by simp
  next
    case 3 then show ?thesis using k2 by (auto intro!: outcome_refl)
  next
    case 4 then show ?thesis using outcome_keeps [OF k2 handleFragment_outcome] by simp
  next
    case 5 then show ?thesis using outcome_keeps [OF k2 deliverMessages_outcome] by simp
  qed
qed

lemma processPacket_outcome:
  assumes "processPacket lib now data c = Inr (c', es)"
  shows "outcome c c' es"
proof -
  let ?d = "Decrypt (c_recvCipher c) data getDecryptBuffer" and ?c = "\<lambda>k. c\<lparr>c_recvCipher := k\<rparr>"
  have k: "keeps c (?c k)" "live c \<Longrightarrow> live (?c k)" for k by (simp_all add: keeps_def live_def)
  consider e where "c' = ?c (fst ?d)" "es = [OnError e]" | p where "handleDecrypted lib now p (?c (fst ?d)) = Inr (c', es)"
    using assms by (auto simp: processPacket_def Let_def split: sum.splits prod.splits)
  then show ?thesis
  proof cases
    case 1 then show ?thesis using k by (auto intro!: outcome_refl)
  next
    case 2 then show ?thesis using outcome_keeps [OF k handleDecrypted_outcome] by blast
  qed
qed

lemma processPackets_outcome: "processPackets lib now ps c = Inr (c', es) \<Longrightarrow> outcome c c' es"
proof (induction ps arbitrary: c es)
  case (Cons p ps)
  then obtain c1 es1 es2 where "processPacket lib now p c = Inr (c1, es1)" "processPackets lib now ps c1 = Inr (c', es2)"
    "es = es1 @ es2" by (auto split: sum.splits)
  then show ?case using outcome_append [OF processPacket_outcome Cons.IH] by simp
qed (simp add: outcome_refl)

lemma countReceived_keeps: "keeps c (countReceived n c)" "live c \<Longrightarrow> live (countReceived n c)"
  by (simp_all add: countReceived_def keeps_def live_def)

lemma processConnData_outcome:
  assumes "processConnData lib now data c = Inr (c', es)"
  shows "outcome c c' es"
proof -
  let ?c = "countReceived (length data) c"
  consider e where "c' = ?c" "es = [OnError e]" | ps where "processPackets lib now ps ?c = Inr (c', es)"
    | "processPacket lib now data ?c = Inr (c', es)"
    using assms by (auto simp: processConnData_def Let_def split: if_splits sum.splits)
  then show ?thesis
  proof cases
    case 1 then show ?thesis by (auto intro!: outcome_refl countReceived_keeps)
  next
    case 2 then show ?thesis using outcome_keeps [OF countReceived_keeps processPackets_outcome] by blast
  next
    case 3 then show ?thesis using outcome_keeps [OF countReceived_keeps processPacket_outcome] by blast
  qed
qed

subsection \<open>No panics\<close>

lemma deliverMessages_total:
  assumes "live c" "unat i < length (c_channels c)"
  shows "\<exists>c' es. deliverMessages i seq p c = Inr (c', es)"
  by (rule deliverTo_live [OF assms, of seq p]) (simp add: deliverMessages_def)

lemma handleFragment_total:
  assumes "live c" "unat (Channel hdr) < length (c_channels c)"
  shows "\<exists>c' es. handleFragment lib now hdr p c = Inr (c', es)"
proof -
  obtain pool where pool: "c_compress c = Some pool" using assms(1) by (auto simp: live_def)
  have l: "live (c\<lparr>c_reassembly := s\<rparr>)" "unat (Channel hdr) < length (c_channels (c\<lparr>c_reassembly := s\<rparr>))" for s
    using assms by (simp_all add: store_keeps)
  have d: "deliverTo (Channel hdr) (Sequence hdr) m (c\<lparr>c_reassembly := s\<rparr>) \<noteq> Inl e" for m s e
    by (rule deliverTo_live [OF l [of s], of "Sequence hdr" m]) simp
  have m: "\<exists>c' es. deliverMessages (Channel hdr) (Sequence hdr) m (c\<lparr>c_reassembly := s\<rparr>) = Inr (c', es)" for m s
    by (rule deliverMessages_total [OF l])
  show ?thesis
    using d m by (auto simp: handleFragment_def pool decompressOn_def Let_def split: sum.split prod.split option.split)
qed

lemma handleDecrypted_total:
  assumes "live c"
  shows "\<exists>c' es. handleDecrypted lib now dec c = Inr (c', es)"
proof (cases "UnmarshalHeader dec")
  case (Inl e)
  then show ?thesis by (simp add: handleDecrypted_def)
next
  case (Inr hn)
  obtain hdr n where hn: "hn = (hdr, n)" by (cases hn)
  define c0 where "c0 = c\<lparr>c_lastRecv := now\<rparr>"
  define c1 where "c1 = applyAcks now (Channel hdr) (Ack hdr) (AckField hdr) c0"
  define r where "r = recordReceive (Sequence hdr) (c_channels c1 ! unat (Channel hdr))"
  define c2 where "c2 = setChannel (unat (Channel hdr)) (fst r) c1"
  have "live c1" unfolding c1_def by (rule applyAcks_keeps) (use assms in \<open>simp add: c0_def live_def\<close>)
  then have l: "live c2" unfolding c2_def by (intro setChannel_keeps(2)) (simp_all add: r_def)
  have len: "length (c_channels c2) = length (c_channels c0)"
    using keeps_length [OF applyAcks_keeps(1)] by (simp add: c2_def setChannel_def c1_def)
  have "handleDecrypted lib now dec c =
     (if conn_channel c0 (Channel hdr) = None then Inr (c0, [])
      else if Flags hdr AND FlagControl \<noteq> 0 then Inr (handleControl now (drop n dec) c1)
      else if \<not> snd r then Inr (c2, [])
      else if Flags hdr AND FlagFragment \<noteq> 0 then handleFragment lib now hdr (drop n dec) c2
      else deliverMessages (Channel hdr) (Sequence hdr) (Some (drop n dec)) c2)"
    unfolding handleDecrypted_eq [OF Inr [unfolded hn]] Let_def c2_def r_def c1_def c0_def ..
  moreover have "unat (Channel hdr) < length (c_channels c2)" if "conn_channel c0 (Channel hdr) \<noteq> None"
    using that len by (simp add: conn_channel_def split: if_splits)
  ultimately show ?thesis
    using handleFragment_total [OF l, of hdr] deliverMessages_total [OF l, of "Channel hdr"]
    by (metis surj_pair)
qed

lemma processPacket_total: "live c \<Longrightarrow> \<exists>c' es. processPacket lib now data c = Inr (c', es)"
proof -
  assume "live c"
  then have "live (c\<lparr>c_recvCipher := k\<rparr>)" for k by (simp add: live_def)
  from handleDecrypted_total [OF this] show ?thesis
    by (auto simp: processPacket_def Let_def split: sum.split prod.split)
qed

text \<open>A batch is handled without a panic at least up to the packet that ends the connection.\<close>

lemma processPackets_total:
  assumes "live c" "processPackets lib now ps c = Inl e"
  obtains ps1 ps2 c' es where "ps = ps1 @ ps2" "processPackets lib now ps1 c = Inr (c', es)"
    "RemoveConnection \<in> set es" "c_state c' = StateDisconnected"
  using assms
proof (induction ps arbitrary: c thesis)
  case (Cons p ps)
  obtain c1 es1 where p: "processPacket lib now p c = Inr (c1, es1)" using processPacket_total Cons.prems(2) by blast
  note o = processPacket_outcome [OF p]
  show ?case
  proof (cases "RemoveConnection \<in> set es1")
    case True
    then show thesis
      using Cons.prems(1) [of "[p]" ps c1 es1] p o by (auto simp: outcome_def keeps_def closed_def)
  next
    case False
    have "live c1" "processPackets lib now ps c1 = Inl e"
      using o False Cons.prems(2,3) p by (auto simp: outcome_def split: sum.splits)
    from Cons.IH [OF _ this] obtain ps1 ps2 c' es where "ps = ps1 @ ps2" "processPackets lib now ps1 c1 = Inr (c', es)"
      "RemoveConnection \<in> set es" "c_state c' = StateDisconnected" by blast
    then show thesis using Cons.prems(1) [of "p # ps1" ps2 c' "es1 @ es"] p by simp
  qed
qed simp

section \<open>Sending\<close>

text \<open>What sending leaves alone, beyond the identity of the connection.\<close>

definition sends :: "connection \<Rightarrow> connection \<Rightarrow> bool" where
  "sends c c' \<longleftrightarrow> keeps c c' \<and> (live c \<longrightarrow> live c') \<and> c_lastRecv c' = c_lastRecv c \<and>
     c_recvCipher c' = c_recvCipher c \<and> c_rtt c' = c_rtt c \<and> c_sendQueue c' = c_sendQueue c \<and>
     c_skipBatch c' = c_skipBatch c \<and> c_reassembly c' = c_reassembly c \<and>
     c_disconnectPacket c' = c_disconnectPacket c \<and> c_disconnectRetries c' = c_disconnectRetries c \<and>
     c_nextDisconnectRetry c' = c_nextDisconnectRetry c"

lemma sends_refl [simp]: "sends c c"
  by (simp add: sends_def)

lemma sends_trans: "sends a b \<Longrightarrow> sends b c \<Longrightarrow> sends a c"
  by (auto simp: sends_def intro: keeps_trans)

lemma sends_fields:
  "sends c (c\<lparr>c_sendCipher := k\<rparr>)" "sends c (c\<lparr>c_lastSend := t\<rparr>)" "sends c (c\<lparr>c_bytesSent := n, c_sendBW := b\<rparr>)"
  "sends c (c\<lparr>c_batchBuf := bs\<rparr>)" "sends c (c\<lparr>c_loss := l\<rparr>)" "sends c (c\<lparr>c_fragmentID := f\<rparr>)"
  "sends c (c\<lparr>c_cc := cc\<rparr>)"
  by (simp_all add: sends_def keeps_def live_def)

lemma sends_setChannel:
  assumes "ch_mode ch = ch_mode (c_channels c ! i)" "ch_recvBuffer ch = ch_recvBuffer (c_channels c ! i)"
  shows "sends c (setChannel i ch c)"
  using setChannel_keeps [of ch c i] assms by (simp add: sends_def open_channel_def) (simp add: setChannel_def)

lemma trackSent_sends: "sends c (trackSent i seq p now c)"
proof -
  have "sends c (setChannel (unat i) (addPending q (c_channels c ! unat i)) c)" for q
    by (rule sends_setChannel) (simp_all add: addPending_def)
  from sends_trans [OF this sends_fields(5)] show ?thesis by (simp add: trackSent_def Let_def)
qed

lemma Encrypt_total: "\<exists>k w. Encrypt st p dst = (k, Inr w)"
  by (auto simp: Encrypt_def Let_def split: option.split)

locale counting =
  fixes sf :: "'u st sendFunc"
  assumes sf_counts: "\<exists>n b u' err. sf (c, u) d = ((c\<lparr>c_bytesSent := n, c_sendBW := b\<rparr>, u'), err)"
    and sf_no_panic: "snd (sf (c, u) d) = Some e \<Longrightarrow> \<not> is_panic e"
begin

lemma sf_sends: "sends c (fst (fst (sf (c, u) d)))"
  using sf_counts [of c u d] sends_fields(3) by auto

lemma sendFramed_sends: "sends c (fst (fst (sendFramed sf w (c, u))))"
  by (simp add: sendFramed_def sf_sends)

lemma writeEncrypted_sends: "sends c (fst (fst (writeEncrypted sf w (c, u))))"
  by (simp add: writeEncrypted_def sendFramed_sends sends_fields)

lemma sendPacket_sends: "sends c (fst (fst (sendPacket sf flags i p now (c, u))))"
proof -
  let ?c = "setChannel (unat i) (fst (nextSequence (c_channels c ! unat i))) c"
  have k1: "sends c ?c" by (rule sends_setChannel) (simp_all add: nextSequence_def Let_def)
  have k2: "sends c (?c\<lparr>c_sendCipher := k\<rparr>)" for k by (rule sends_trans [OF k1 sends_fields(1)])
  have k3: "sends c (fst (fst (writeEncrypted sf w (?c\<lparr>c_sendCipher := k\<rparr>, u))))" for w k
    by (rule sends_trans [OF k2 writeEncrypted_sends])
  have k4: "sends c (trackSent i seq q now (fst (fst (writeEncrypted sf w (?c\<lparr>c_sendCipher := k\<rparr>, u)))))" for w k seq q
    by (rule sends_trans [OF k3 trackSent_sends])
  show ?thesis
    using k1 k2 k3 k4 by (auto simp: sendPacket_def Let_def split_beta split: sum.split option.split prod.split)
qed

lemma sendFragments_sends: "sends c (fst (fst (sendFragments sf i fs now (c, u))))"
proof (induction fs arbitrary: c u)
  case (Cons f fs)
  obtain c' u' e where p: "sendPacket sf FlagFragment i f now (c, u) = ((c', u'), e)" by (metis surj_pair)
  have "sends c c'" using sendPacket_sends [of c FlagFragment i f now u] p by simp
  then show ?case using Cons.IH [of c' u'] p by (cases e) (auto intro: sends_trans)
qed simp

lemma sendMessage_sends: "sends c (fst (fst (sendMessage lib sf d i now (c, u))))"
proof -
  have single: "sends c (fst (fst (sendSinglePacket sf i p now (c, u))))" for p
    using sendPacket_sends [of c 0 i p now u] sends_trans [OF _ sends_fields(2)]
    by (auto simp: sendSinglePacket_def split: prod.split option.split)
  have fid: "sends c (fst (nextFragmentID c))" by (simp add: nextFragmentID_def Let_def sends_fields)
  have "sends c (fst (fst (sendFragments sf i fs now (fst (nextFragmentID c), u))))" for fs
    by (rule sends_trans [OF fid sendFragments_sends])
  then have frag: "sends c (fst (fst (sendFragmented sf i p f now (c, u))))" for p f
    using fid sends_trans [OF _ sends_fields(2)]
    by (auto simp: sendFragmented_def split_beta split: sum.split option.split)
  show ?thesis using single frag by (auto simp: sendMessage_def split: option.split sum.split)
qed

subsection \<open>Errors that are not panics\<close>

lemma writeEncrypted_no_panic: "snd (writeEncrypted sf w (c, u)) = Some e \<Longrightarrow> \<not> is_panic e"
  using sf_no_panic by (auto simp: writeEncrypted_def sendFramed_def split: if_splits)

lemma sendPacket_no_panic:
  assumes "snd (sendPacket sf flags i p now (c, u)) = Some e"
  shows "\<not> is_panic e"
proof -
  let ?ch = "c_channels c ! unat i"
  let ?hdr = "\<lparr>Flags = flags, Channel = i, Sequence = ch_sendSeq ?ch + 1, Ack = ch_recvAck ?ch, AckField = ch_recvAckField ?ch\<rparr>"
  have m: "MarshalHeader (getSendBuffer (MaxHeaderSize + length p)) ?hdr =
      (go_copy (getSendBuffer (MaxHeaderSize + length p)) 0 (header_enc ?hdr), Inr (length (header_enc ?hdr)))"
    using header_room_bounds(2) [of ?hdr] by (intro MarshalHeader_ok) (simp add: getSendBuffer_def MaxHeaderSize_def)
  let ?b = "go_copy (getSendBuffer (MaxHeaderSize + length p)) 0 (header_enc ?hdr)" and ?n = "length (header_enc ?hdr)"
  let ?p = "take (?n + length p) (go_copy ?b ?n p)"
  obtain k w where e: "Encrypt (c_sendCipher c) ?p (getSendBuffer (NonceSize + length ?p + TagSize)) = (k, Inr w)"
    using Encrypt_total by blast
  let ?c = "(setChannel (unat i) (?ch\<lparr>ch_sendSeq := ch_sendSeq ?ch + 1\<rparr>) c)\<lparr>c_sendCipher := k\<rparr>"
  have "snd (writeEncrypted sf w (?c, u)) = Some e"
    using assms m e unfolding sendPacket_def nextSequence_def ackState_def Let_def
    by (simp add: setChannel_def split: prod.splits option.splits)
  then show ?thesis by (rule writeEncrypted_no_panic)
qed

lemma sendFragments_no_panic: "snd (sendFragments sf i fs now (c, u)) = Some e \<Longrightarrow> \<not> is_panic e"
proof (induction fs arbitrary: c u)
  case (Cons f fs)
  obtain c' u' e' where p: "sendPacket sf FlagFragment i f now (c, u) = ((c', u'), e')" by (metis surj_pair)
  then show ?case
    using Cons.IH [of c' u'] Cons.prems sendPacket_no_panic [of FlagFragment i f now c u] by (cases e') auto
qed simp

lemma sendMessage_no_panic:
  assumes "live c" "snd (sendMessage lib sf d i now (c, u)) = Some e"
  shows "\<not> is_panic e"
proof -
  obtain pool where pool: "c_compress c = Some pool" using assms(1) by (auto simp: live_def)
  have split: "splitMessage p f fl = Inl e \<Longrightarrow> \<not> is_panic e" for p f fl
    by (auto simp: splitMessage_eq is_panic_def split: if_splits)
  have comp: "compressPayload lib pool d = Inl e \<Longrightarrow> \<not> is_panic e"
    by (cases "the (cp_compressor pool)")
      (auto simp: compressPayload_def lz4_Compress_def zstd_Compress_def is_panic_def Let_def
        split: option.splits if_splits sum.splits)
  have single: "snd (sendSinglePacket sf i p now (c, u)) = Some e \<Longrightarrow> \<not> is_panic e" for p
    using sendPacket_no_panic [of 0 i p now c u] by (auto simp: sendSinglePacket_def split: prod.splits option.splits)
  have frag: "snd (sendFragmented sf i p fl now (c, u)) = Some e \<Longrightarrow> \<not> is_panic e" for p fl
    using split sendFragments_no_panic [of i _ now "fst (nextFragmentID c)" u]
    by (fastforce simp: sendFragmented_def split_beta split: sum.splits option.splits)
  show ?thesis
    using assms(2) comp single frag
    by (auto simp: sendMessage_def pool is_panic_def split: if_splits sum.splits)
qed

subsection \<open>The parts of a tick\<close>

lemma retransmitPackets_sends: "sends c (fst (retransmitPackets sf now ps (c, u)))"
proof (induction ps arbitrary: c u)
  case (Cons p ps)
  obtain k w where e: "Encrypt (c_sendCipher c) (pp_raw p) (getSendBuffer (NonceSize + length (pp_raw p) + TagSize)) = (k, w)"
    by fastforce
  have k1: "sends c (c\<lparr>c_sendCipher := k\<rparr>)" by (rule sends_fields)
  show ?case
  proof (cases w)
    case (Inl err)
    then show ?thesis using e sends_trans [OF k1 Cons.IH] by simp
  next
    case (Inr enc)
    obtain c' u' err where f: "sendFramed sf enc (c\<lparr>c_sendCipher := k\<rparr>, u) = ((c', u'), err)" by (metis surj_pair)
    have "sends c c'" using sends_trans [OF k1 sendFramed_sends, of enc u] f by simp
    then have "sends c (c'\<lparr>c_lastSend := now, c_cc := OnLoss (c_cc c')\<rparr>)"
      using sends_trans sends_fields(2,7) by blast
    then show ?thesis using e Inr f sends_trans [OF _ Cons.IH] by simp
  qed
qed simp

lemma checkRetransmissions_frame: "\<exists>ps. fst (checkRetransmissions now rto n ch) = ch\<lparr>ch_pendingSend := ps\<rparr>"
  by (auto simp: checkRetransmissions_def Let_def split: prod.split)

lemma retransmitChannels_sends: "sends c (fst (fst (retransmitChannels sf now rto n is (c, u))))"
proof (induction "is" arbitrary: c u)
  case (Cons i "is")
  obtain ch rs kill where r: "checkRetransmissions now rto n (c_channels c ! i) = (ch, rs, kill)" by (metis surj_pair)
  have k1: "sends c (setChannel i ch c)"
    by (rule sends_setChannel) (use r checkRetransmissions_frame [of now rto n "c_channels c ! i"] in auto)
  obtain c' u' where p: "retransmitPackets sf now rs (setChannel i ch c, u) = (c', u')" by fastforce
  have "sends c c'" using sends_trans [OF k1 retransmitPackets_sends, of now rs u] p by simp
  then show ?case using r p k1 sends_trans [OF _ Cons.IH] by (simp add: Let_def)
qed simp

lemma batchFlush_sends:
  "sends c (fst (fst (batchFlush sf (c, u) dg)))"
  "\<lbrakk>snd (snd (batchFlush sf (c, u) dg)) = Some e; snd dg \<noteq> 0 \<Longrightarrow> fst dg \<noteq> None\<rbrakk> \<Longrightarrow> \<not> is_panic e"
proof -
  show "sends c (fst (fst (batchFlush sf (c, u) dg)))"
    by (simp add: batchFlush_def sf_sends split_beta split: option.split)
  show "\<not> is_panic e" if "snd (snd (batchFlush sf (c, u) dg)) = Some e" "snd dg \<noteq> 0 \<Longrightarrow> fst dg \<noteq> None"
    using that sf_no_panic by (auto simp: batchFlush_def split_beta split: option.splits if_splits)
qed

lemma flushLoop_sends:
  assumes "snd dg \<noteq> 0 \<longrightarrow> fst dg \<noteq> None"
  shows "sends c (fst (fst (flushLoop mtu sf ps (c, u) dg))) \<and>
    (\<forall>e. snd (flushLoop mtu sf ps (c, u) dg) = Some e \<longrightarrow> \<not> is_panic e)"
  using assms
proof (induction ps arbitrary: c u dg)
  case Nil
  then show ?case using batchFlush_sends [of c u dg] by (auto simp: split_beta)
next
  case (Cons p ps)
  let ?n = "BatchLenSize + length p" and ?buf = "case fst dg of None \<Rightarrow> [0] | Some b \<Rightarrow> b"
  consider "mtu < int (BatchHeaderSize + ?n)"
    | "\<not> mtu < int (BatchHeaderSize + ?n)" "mtu < int (length ?buf + ?n) \<or> 255 \<le> snd dg"
    | "\<not> mtu < int (BatchHeaderSize + ?n)" "\<not> (mtu < int (length ?buf + ?n) \<or> 255 \<le> snd dg)" by blast
  then show ?case
  proof cases
    case 1
    obtain c1 u1 dg1 e1 where b: "batchFlush sf (c, u) dg = ((c1, u1), dg1, e1)" by (metis surj_pair)
    have k1: "sends c c1" "\<And>e. e1 = Some e \<Longrightarrow> \<not> is_panic e" using batchFlush_sends [of c u dg] b Cons.prems by auto
    have dg1: "snd dg1 \<noteq> 0 \<longrightarrow> fst dg1 \<noteq> None"
      using b Cons.prems by (auto simp: batchFlush_def split_beta split: if_splits option.splits)
    obtain c2 u2 e2 where w: "sf (c1, u1) (1 # len16 p @ p) = ((c2, u2), e2)" by (metis surj_pair)
    have k2: "sends c c2" "\<And>e. e2 = Some e \<Longrightarrow> \<not> is_panic e"
      using sends_trans [OF k1(1)] sf_sends [of c1 u1 "1 # len16 p @ p"] sf_no_panic [of c1 u1 "1 # len16 p @ p"] w by auto
    show ?thesis
      using 1 b w k1 k2 Cons.IH [OF dg1, of c2 u2] sends_trans [OF k2(1)] by (auto simp: Let_def)
  next
    case 2
    obtain c1 u1 dg1 e1 where b: "batchFlush sf (c, u) (Some ?buf, snd dg) = ((c1, u1), dg1, e1)" by (metis surj_pair)
    have k1: "sends c c1" "\<And>e. e1 = Some e \<Longrightarrow> \<not> is_panic e" using batchFlush_sends [of c u "(Some ?buf, snd dg)"] b by auto
    show ?thesis
      using 2 b k1 Cons.IH [of "(Some ([0] @ len16 p @ p), snd dg1 + 1)" c1 u1] sends_trans [OF k1(1)] by (auto simp: Let_def)
  next
    case 3
    then show ?thesis using Cons.IH [of "(Some (?buf @ len16 p @ p), snd dg + 1)" c u] by (simp add: Let_def)
  qed
qed

lemma conn_flushBatch_sends:
  "sends c (fst (fst (conn_flushBatch mtu sf (c, u))))"
  "snd (conn_flushBatch mtu sf (c, u)) = Some e \<Longrightarrow> \<not> is_panic e"
  using flushLoop_sends [of "(None, 0)" "c\<lparr>c_batchBuf := []\<rparr>" mtu "c_batchBuf c" u] sends_trans [OF sends_fields(4)]
  by (auto simp: conn_flushBatch_def flushBatch_def sends_fields split: if_splits)

lemma takeAckChannels_sends: "sends c (fst (takeAckChannels c))"
proof -
  have "map ch_mode (map (fst \<circ> clearNeedsAck) (c_channels c)) = map ch_mode (c_channels c)"
    by (simp add: clearNeedsAck_def)
  moreover have "open_channel (fst (clearNeedsAck ch)) = open_channel ch" for ch
    by (simp add: clearNeedsAck_def open_channel_def)
  ultimately show ?thesis by (simp add: takeAckChannels_def sends_def keeps_def live_def)
qed

lemma heartbeat_sends:
  "sends c (fst (fst (sendMultiChannelHeartbeat sf is now (c, u))))" "sends c (fst (fst (sendHeartbeat sf now (c, u))))"
proof -
  have f: "sends c (fst (fst (sendFramed sf w (c\<lparr>c_sendCipher := k\<rparr>, u))))" for w k
    by (rule sends_trans [OF sends_fields(1) sendFramed_sends])
  have g: "sends c ((fst (fst (sendFramed sf w (c\<lparr>c_sendCipher := k\<rparr>, u))))\<lparr>c_lastSend := now\<rparr>)" for w k
    by (rule sends_trans [OF f sends_fields(2)])
  show *: "sends c (fst (fst (sendMultiChannelHeartbeat sf is now (c, u))))" for "is"
    using f g sends_fields(1) [of c]
    by (auto simp: sendMultiChannelHeartbeat_def Let_def split_beta split: sum.split option.split)
  show "sends c (fst (fst (sendHeartbeat sf now (c, u))))" unfolding sendHeartbeat_def by (rule *)
qed

subsection \<open>A tick\<close>

lemma sends_outcome: "sends c c' \<Longrightarrow> RemoveConnection \<notin> set es \<Longrightarrow> (\<And>r. OnDisconnect r \<notin> set es) \<Longrightarrow> outcome c c' es"
  by (intro outcome_refl) (auto simp: sends_def)

lemma report_errors:
  "report err = Inr es \<Longrightarrow> RemoveConnection \<notin> set es" "report err = Inr es \<Longrightarrow> OnDisconnect r \<notin> set es"
  "(\<And>e. err = Some e \<Longrightarrow> \<not> is_panic e) \<Longrightarrow> \<exists>es. report err = Inr es"
  by (auto simp: report_def split: option.splits if_splits)

text \<open>The queued messages go out in order, up to the first one the congestion window holds back;
  that one and all behind it are put back in front of the queue.\<close>

lemma sendQueued_fifo:
  assumes "live c"
  shows "\<exists>c' u' es k. sendQueued lib sf now ms (c, u) = Inr ((c', u'), es) \<and> outcome c c' es \<and>
     RemoveConnection \<notin> set es \<and> k \<le> length ms \<and> c_sendQueue c' = drop k ms @ c_sendQueue c \<and>
     (k < length ms \<longrightarrow> \<not> CanSend (c_cc c') (InFlightCount c'))"
  using assms
proof (induction ms arbitrary: c u)
  case (Cons m ms)
  show ?case
  proof (cases "CanSend (c_cc c) (InFlightCount c)")
    case False
    moreover have "outcome c (requeue (m # ms) c) []"
      using Cons.prems by (intro outcome_refl) (simp_all add: requeue_def keeps_def live_def)
    ultimately show ?thesis
      by (intro exI [of _ "requeue (m # ms) c"] exI [of _ u] exI [of _ "[]"] exI [of _ 0])
        (auto simp: requeue_def InFlightCount_def)
  next
    case True
    obtain c1 u1 err where s: "sendMessage lib sf (om_data m) (om_channel m) now (c, u) = ((c1, u1), err)" by (metis surj_pair)
    have k1: "sends c c1" using sendMessage_sends [of c lib "om_data m" "om_channel m" now u] s by simp
    obtain es where r: "report err = Inr es"
      using report_errors(3) [of err] sendMessage_no_panic [OF Cons.prems, of lib "om_data m" "om_channel m" now u] s by auto
    have "live c1" using k1 Cons.prems by (simp add: sends_def)
    from Cons.IH [OF this, of u1] obtain c' u' es' k where ih: "sendQueued lib sf now ms (c1, u1) = Inr ((c', u'), es')"
      "outcome c1 c' es'" "RemoveConnection \<notin> set es'" "k \<le> length ms" "c_sendQueue c' = drop k ms @ c_sendQueue c1"
      "k < length ms \<longrightarrow> \<not> CanSend (c_cc c') (InFlightCount c')" by blast
    have "outcome c c' (es @ es')"
      by (rule outcome_append [OF sends_outcome [OF k1 report_errors(1,2) [OF r]] ih(2)])
    then show ?thesis
      using True s r ih k1 report_errors(1) [OF r]
      by (intro exI [of _ c'] exI [of _ u'] exI [of _ "es @ es'"] exI [of _ "Suc k"]) (auto simp: sends_def)
  qed
qed (auto intro!: outcome_refl)

lemma keeps_fields:
  "keeps c (c\<lparr>c_sendQueue := q\<rparr>)" "keeps c (c\<lparr>c_reassembly := s\<rparr>)" "keeps c (tickBandwidth now c)"
  "live (c\<lparr>c_sendQueue := q\<rparr>) = live c" "live (tickBandwidth now c) = live c"
  by (simp_all add: keeps_def live_def tickBandwidth_def)

lemma tickSend_outcome:
  assumes "live c"
  shows "\<exists>c' u' es. tickSend lib p sf now (c, u) = Inr ((c', u'), es) \<and> outcome c c' es \<and> RemoveConnection \<notin> set es"
proof -
  let ?c0 = "fst (drainSendQueue c)" and ?ms = "snd (drainSendQueue c)"
  have k0: "keeps c ?c0" "live ?c0" using assms by (simp_all add: drainSendQueue_def keeps_fields)
  obtain c1 u1 es1 where q: "sendQueued lib sf now ?ms (?c0, u) = Inr ((c1, u1), es1)" "outcome ?c0 c1 es1" "RemoveConnection \<notin> set es1"
    using sendQueued_fifo [OF k0(2)] by metis
  define f where "f = (if c_batchEnabled c1 then conn_flushBatch (tp_MTU p) sf (c1, u1) else ((c1, u1), None))"
  obtain c2 u2 err where f': "f = ((c2, u2), err)" by (metis surj_pair)
  have k2: "sends c1 c2" "\<And>e. err = Some e \<Longrightarrow> \<not> is_panic e"
    using f' conn_flushBatch_sends [where mtu = "tp_MTU p" and c = c1 and u = u1] by (auto simp: f_def split: if_splits)
  obtain es2 where r: "report err = Inr es2" using report_errors(3) [OF k2(2)] by auto
  obtain c3 acks where t: "takeAckChannels c2 = (c3, acks)" by fastforce
  have k3: "sends c1 c3" using sends_trans [OF k2(1) takeAckChannels_sends] t by (metis fst_conv)
  define h where "h = (if 0 < length acks then fst (sendMultiChannelHeartbeat sf acks now (c3, u2)) else (c3, u2))"
  have k4: "sends c1 (fst h)" using sends_trans [OF k3 heartbeat_sends(1)] k3 by (simp add: h_def)
  define g where "g = (if needsHeartbeatAt now (tp_HeartbeatInterval p) (fst h) then fst (sendHeartbeat sf now h) else h)"
  have k5: "sends c1 (fst g)" using sends_trans [OF k4 heartbeat_sends(2), of now "snd h"] k4 by (simp add: g_def)
  let ?c' = "tickBandwidth now ((fst g)\<lparr>c_reassembly := fst (reassembly_cleanup now (tp_FragmentTimeout p) (c_reassembly (fst g)))\<rparr>)"
  have res: "tickSend lib p sf now (c, u) = Inr ((?c', snd g), es1 @ es2)"
    using q(1) r t f' by (cases "c_batchEnabled c1") (simp_all add: tickSend_def f_def h_def g_def split_beta Let_def del: if_split)
  have "outcome c1 (fst g) es2" by (rule sends_outcome [OF k5 report_errors(1,2) [OF r]])
  moreover have "outcome (fst g) ?c' []"
    by (rule outcome_refl) (auto simp: keeps_fields store_keeps intro: keeps_trans [OF keeps_fields(2) keeps_fields(3)])
  ultimately have "outcome c1 ?c' es2" using outcome_append by fastforce
  then have "outcome c ?c' (es1 @ es2)" using outcome_keeps [OF k0(1) _ outcome_append [OF q(2)]] k0(2) by blast
  then show ?thesis using res q(3) report_errors(1) [OF r] by auto
qed

lemma tickDisconnecting_outcome:
  assumes "tickDisconnecting sf now (c, u) = ((c', u'), es)"
  shows "outcome c c' es"
proof -
  have s: "sends c (fst (fst (sf (c, u) d)))" for d by (rule sf_sends)
  have "keeps c ((fst (fst (sf (c, u) d)))\<lparr>c_disconnectRetries := n, c_nextDisconnectRetry := t\<rparr>) \<and>
      (live c \<longrightarrow> live ((fst (fst (sf (c, u) d)))\<lparr>c_disconnectRetries := n, c_nextDisconnectRetry := t\<rparr>))" for d n t
    using s [of d] by (simp add: sends_def keeps_def live_def)
  then have "outcome c ((fst (fst (sf (c, u) d)))\<lparr>c_disconnectRetries := n, c_nextDisconnectRetry := t\<rparr>) []" for d n t
    by (intro outcome_refl) auto
  then show ?thesis
    using assms teardown_keeps [of c]
    by (auto simp: tickDisconnecting_def split_beta outcome_refl split: if_splits option.splits)
      (auto simp: outcome_def)
qed

lemma tickConnection_outcome:
  assumes "live c"
  shows "\<exists>c' u' es. tickConnection lib p sf now (c, u) = Inr ((c', u'), es) \<and> outcome c c' es"
proof -
  have removed: "outcome c (teardown d) [RemoveConnection, OnDisconnect r]"
    "outcome c (teardown d) [RemoveConnection, OnError e, OnDisconnect r]" if "keeps c d" for d r e
    using keeps_trans [OF keeps_closed [OF that] teardown_keeps] by (simp_all add: outcome_def)
  consider "c_state c = StateDisconnecting" | "c_state c \<noteq> StateDisconnecting" "c_state c \<noteq> StateConnected"
    | "c_state c = StateConnected" "isTimedOutAt now (tp_ConnTimeout p) c"
    | "c_state c = StateConnected" "\<not> isTimedOutAt now (tp_ConnTimeout p) c" by blast
  then show ?thesis
  proof cases
    case 1
    then show ?thesis
      using tickDisconnecting_outcome [of now c u] by (cases "tickDisconnecting sf now (c, u)") (auto simp: tickConnection_def)
  next
    case 2
    then show ?thesis by (auto simp: tickConnection_def intro!: outcome_refl)
  next
    case 3
    then show ?thesis using removed(1) [OF keeps_refl] by (auto simp: tickConnection_def)
  next
    case 4
    obtain c1 u1 kill where r: "retransmitChannels sf now (currentRTO c) (tp_MaxRetransmits p) [0..<length (c_channels c)] (c, u) =
        ((c1, u1), kill)" by (metis surj_pair)
    have k: "sends c c1" using retransmitChannels_sends r by (metis fst_conv)
    have l: "keeps c c1" "live c1" using k assms by (simp_all add: sends_def)
    obtain c' u' es where t: "tickSend lib p sf now (c1, u1) = Inr ((c', u'), es)" "outcome c1 c' es"
      using tickSend_outcome [OF l(2)] by metis
    show ?thesis
    proof (cases kill)
      case True
      then show ?thesis using 4 r removed(2) [OF l(1)] by (auto simp: tickConnection_def)
    next
      case False
      then show ?thesis using 4 r t outcome_keeps [OF l(1) _ t(2)] l(2) by (auto simp: tickConnection_def)
    qed
  qed
qed

end

section \<open>Closing\<close>

text \<open>A run of ticks at the given times, with what each one reports.\<close>

fun runTicks ::
  "comp_lib \<Rightarrow> tickParams \<Rightarrow> 'u st sendFunc \<Rightarrow> time list \<Rightarrow> 'u st \<Rightarrow> ('u st \<times> effect list list) res" where
  "runTicks lib p sf [] s = Inr (s, [])"
| "runTicks lib p sf (t # ts) s =
     (case tickConnection lib p sf t s of
        Inl e \<Rightarrow> Inl e
      | Inr (s, es) \<Rightarrow>
          (case runTicks lib p sf ts s of
             Inl e \<Rightarrow> Inl e
           | Inr (s, ess) \<Rightarrow> Inr (s, es # ess)))"

text \<open>Times that leave more than \<open>d\<close> between them, from \<open>t0\<close> on.\<close>

fun spaced :: "duration \<Rightarrow> time \<Rightarrow> time list \<Rightarrow> bool" where
  "spaced d t0 [] = True"
| "spaced d t0 (t # ts) = (t0 + d < t \<and> spaced d t ts)"

lemma buildControlPacket_ok:
  assumes "12 \<le> length buf" "8 + length p \<le> length buf"
  obtains b n where "buildControlPacket buf controlHeader p = (b, Inr n)" "take n b = header_enc controlHeader @ p"
proof -
  let ?h = "controlHeader\<lparr>Flags := Flags controlHeader OR FlagControl\<rparr>"
  have h: "?h = controlHeader" by (simp add: controlHeader_def FlagControl_def)
  have l: "length (header_enc controlHeader) = 8" "header_room controlHeader \<le> length buf"
    using assms(1) by (simp_all add: header_enc_def header_room_def controlHeader_def leb.simps)
  have "buildControlPacket buf controlHeader p =
      (go_copy (go_copy buf 0 (header_enc controlHeader)) 8 p, Inr (8 + length p))"
    using assms l by (simp add: buildControlPacket_def h MarshalHeader_ok Let_def)
  moreover have "take (8 + length p) (go_copy (go_copy buf 0 (header_enc controlHeader)) 8 p) = header_enc controlHeader @ p"
    using assms l by (simp add: go_copy_def)
  ultimately show thesis using that by blast
qed

lemma marshalDisconnect_ok: "marshalDisconnect [0] = ([ControlDisconnect], Inr 1)"
  by (simp add: marshalDisconnect_def ctrl_size_defs)

text \<open>The packet that \<open>Close\<close> builds.\<close>

definition disconnect_enc :: bytes where
  "disconnect_enc = header_enc controlHeader @ [ControlDisconnect]"

lemma Close_eq:
  assumes "c_state c = StateConnected" "Encrypt (c_sendCipher c) disconnect_enc [] = (k, Inr w)"
  shows "Close (Some sf) now (c, u) =
    (let pkt = (if c_batchEnabled c then singleFrame w else w)
     in (fst (sf (c\<lparr>c_state := StateDisconnecting, c_sendCipher := k, c_disconnectPacket := Some pkt,
          c_disconnectRetries := 0, c_nextDisconnectRetry := now + RTO (c_rtt c)\<rparr>, u) pkt), None))"
proof -
  obtain b n where b: "buildControlPacket (getSendBuffer 64) controlHeader [ControlDisconnect] = (b, Inr n)"
    "take n b = header_enc controlHeader @ [ControlDisconnect]"
    by (rule buildControlPacket_ok [of "getSendBuffer 64" "[ControlDisconnect]"]) (simp_all add: getSendBuffer_def)
  show ?thesis
    unfolding Close_def using assms b by (simp add: marshalDisconnect_ok disconnect_enc_def Let_def)
qed

context counting
begin

lemma Close_disconnecting:
  assumes "c_state c = StateConnected"
  obtains c1 u1 pkt where "Close (Some sf) now (c, u) = ((c1, u1), None)" "c_state c1 = StateDisconnecting"
    "c_disconnectPacket c1 = Some pkt" "c_disconnectRetries c1 = 0" "c_rtt c1 = c_rtt c"
    "c_nextDisconnectRetry c1 = now + RTO (c_rtt c)"
proof -
  obtain k w where e: "Encrypt (c_sendCipher c) disconnect_enc [] = (k, Inr w)"
    using Encrypt_total by blast
  define pkt where "pkt = (if c_batchEnabled c then singleFrame w else w)"
  let ?c = "c\<lparr>c_state := StateDisconnecting, c_sendCipher := k, c_disconnectPacket := Some pkt,
      c_disconnectRetries := 0, c_nextDisconnectRetry := now + RTO (c_rtt c)\<rparr>"
  obtain n b u' err where "sf (?c, u) pkt = ((?c\<lparr>c_bytesSent := n, c_sendBW := b\<rparr>, u'), err)" using sf_counts by blast
  then show thesis
    using that [of "?c\<lparr>c_bytesSent := n, c_sendBW := b\<rparr>" u' pkt] Close_eq [OF assms e, of sf now u]
    by (simp add: pkt_def [symmetric])
qed

lemma disconnect_ticks:
  assumes "c_state c = StateDisconnecting" "c_disconnectPacket c = Some pkt"
    and "c_disconnectRetries c + int k = maxDisconnectRetries" "c_nextDisconnectRetry c = t0 + RTO (c_rtt c)"
    and "spaced (RTO (c_rtt c)) t0 ts" "length ts = Suc k"
  shows "\<exists>c' u'. runTicks lib p sf ts (c, u) =
      Inr ((c', u'), replicate k [] @ [[RemoveConnection, OnDisconnect DisconnectGraceful]]) \<and>
      c_state c' = StateDisconnected"
  using assms
proof (induction k arbitrary: c u t0 ts)
  case 0
  then obtain t where "ts = [t]" by (auto simp: length_Suc_conv)
  with 0 show ?case by (simp add: tickConnection_def tickDisconnecting_def teardown_def)
next
  case (Suc k)
  obtain t ts' where ts: "ts = t # ts'" using Suc.prems(6) by (cases ts) auto
  obtain n b u' err where sf: "sf (c, u) pkt = ((c\<lparr>c_bytesSent := n, c_sendBW := b\<rparr>, u'), err)" using sf_counts by blast
  let ?c = "c\<lparr>c_bytesSent := n, c_sendBW := b, c_disconnectRetries := c_disconnectRetries c + 1,
      c_nextDisconnectRetry := t + RTO (c_rtt c)\<rparr>"
  have "tickConnection lib p sf t (c, u) = Inr ((?c, u'), [])"
    using Suc.prems ts sf by (simp add: tickConnection_def tickDisconnecting_def)
  moreover have "\<exists>c' u''. runTicks lib p sf ts' (?c, u') =
      Inr ((c', u''), replicate k [] @ [[RemoveConnection, OnDisconnect DisconnectGraceful]]) \<and> c_state c' = StateDisconnected"
    by (rule Suc.IH [of _ t]) (use Suc.prems ts in simp_all)
  ultimately show ?case using ts by auto
qed

lemma close_ends:
  assumes "c_state c = StateConnected" "spaced (RTO (c_rtt c)) now ts" "length ts = 4"
  shows "\<exists>c1 u1 c' u'. Close (Some sf) now (c, u) = ((c1, u1), None) \<and> c_state c1 = StateDisconnecting \<and>
    runTicks lib p sf ts (c1, u1) =
      Inr ((c', u'), [[], [], [], [RemoveConnection, OnDisconnect DisconnectGraceful]]) \<and>
    c_state c' = StateDisconnected"
proof -
  obtain c1 u1 pkt where c: "Close (Some sf) now (c, u) = ((c1, u1), None)" "c_state c1 = StateDisconnecting"
    "c_disconnectPacket c1 = Some pkt" "c_disconnectRetries c1 = 0" "c_rtt c1 = c_rtt c"
    "c_nextDisconnectRetry c1 = now + RTO (c_rtt c)"
    by (rule Close_disconnecting [OF assms(1), of now u])
  have "\<exists>c' u'. runTicks lib p sf ts (c1, u1) =
      Inr ((c', u'), replicate 3 [] @ [[RemoveConnection, OnDisconnect DisconnectGraceful]]) \<and> c_state c' = StateDisconnected"
    by (rule disconnect_ticks [OF c(2,3), of 3 now]) (use c assms in \<open>simp_all add: maxDisconnectRetries_def\<close>)
  then show ?thesis using c by (auto simp: numeral_3_eq_3)
qed

end

section \<open>The state machine\<close>

text \<open>What a connection does with a datagram, in a tick, and in the calls of the application. The effects
  are what the step reports. Its server also moves it to another address, and ends it in \<open>Stop\<close>: those
  steps are in \<open>ServerLife\<close>.\<close>

inductive conn_step ::
  "comp_lib \<Rightarrow> tickParams \<Rightarrow> 'u st sendFunc \<Rightarrow> 'u st \<Rightarrow> effect list \<Rightarrow> 'u st \<Rightarrow> bool" for lib p sf where
  received: "processConnData lib now data c = Inr (c', es) \<Longrightarrow> conn_step lib p sf (c, u) es (c', u)"
| ticked: "tickConnection lib p sf now s = Inr (s', es) \<Longrightarrow> conn_step lib p sf s es s'"
| queued: "enqueueSend data ch c = (c', err) \<Longrightarrow> conn_step lib p sf (c, u) [] (c', u)"
| sent: "SendImmediate lib (Some sf) data ch now s = (s', err) \<Longrightarrow> conn_step lib p sf s [] s'"
| closing: "Close (Some sf) now s = (s', err) \<Longrightarrow> conn_step lib p sf s [] s'"

text \<open>The only moves between states.\<close>

fun state_move :: "ConnState \<Rightarrow> ConnState \<Rightarrow> bool" where
  "state_move StateConnected t = (t \<noteq> StateConnecting)"
| "state_move StateDisconnecting t = (t = StateDisconnecting \<or> t = StateDisconnected)"
| "state_move s t = (t = s)"

text \<open>The identity of a connection, whatever its state.\<close>

definition same_identity :: "connection \<Rightarrow> connection \<Rightarrow> bool" where
  "same_identity c c' \<longleftrightarrow> keeps (closed c) (closed c')"

definition moved :: "connection \<Rightarrow> connection \<Rightarrow> effect list \<Rightarrow> bool" where
  "moved c c' es \<longleftrightarrow> same_identity c c' \<and> state_move (c_state c) (c_state c') \<and>
     (RemoveConnection \<in> set es \<longleftrightarrow> (\<exists>r. OnDisconnect r \<in> set es)) \<and>
     (RemoveConnection \<in> set es \<longrightarrow> c_state c' = StateDisconnected) \<and>
     (c_state c' = StateDisconnected \<longrightarrow> c_state c \<noteq> StateDisconnected \<longrightarrow> RemoveConnection \<in> set es) \<and>
     (live c \<longrightarrow> c_state c' \<noteq> StateDisconnected \<longrightarrow> live c')"

lemma state_move_trans: "state_move a b \<Longrightarrow> state_move b c \<Longrightarrow> state_move a c"
  by (cases a; cases b) auto

lemma state_move_refl [simp]: "state_move a a"
  by (cases a) auto

lemma outcome_moved:
  assumes "outcome c c' es" "c_state c \<noteq> StateConnecting"
  shows "moved c c' es"
proof -
  have "RemoveConnection \<in> set es \<longleftrightarrow> (\<exists>r. OnDisconnect r \<in> set es)"
  proof -
    have "filter (\<lambda>e. e = RemoveConnection) es = [] \<longleftrightarrow> filter (\<lambda>e. \<exists>r. e = OnDisconnect r) es = []"
      using assms(1) unfolding outcome_def length_0_conv [symmetric] by simp
    then show ?thesis by (auto simp: filter_empty_conv)
  qed
  moreover have "state_move (c_state c) (c_state c')" "same_identity c c'"
    using assms by (cases "c_state c"; auto simp: outcome_def keeps_def closed_def same_identity_def split: if_splits)+
  ultimately show ?thesis
    using assms(1) by (auto simp: moved_def outcome_def keeps_def closed_def split: if_splits)
qed

context counting
begin

lemma conn_step_moved:
  assumes "conn_step lib p sf (c, u) es (c', u')" "live c \<or> c_state c = StateDisconnected" "c_state c \<noteq> StateConnecting"
  shows "moved c c' es"
  using assms(1)
proof cases
  case received
  then show ?thesis by (intro outcome_moved [OF processConnData_outcome assms(3)]) simp
next
  case (ticked now)
  show ?thesis
  proof (cases "live c")
    case True
    then show ?thesis using ticked tickConnection_outcome [OF True, of lib p now u] outcome_moved [OF _ assms(3)] by auto
  next
    case False
    then show ?thesis using ticked assms(2) by (simp add: tickConnection_def moved_def same_identity_def)
  qed
next
  case queued
  then show ?thesis
    by (auto simp: enqueueSend_def moved_def same_identity_def keeps_def closed_def live_def split: if_splits)
next
  case (sent data ch now err)
  have "sends (c\<lparr>c_skipBatch := True\<rparr>) (fst (fst (sendMessage lib sf data ch now (c\<lparr>c_skipBatch := True\<rparr>, u))))"
    by (rule sendMessage_sends)
  then show ?thesis
    using sent by (auto simp: SendImmediate_def sends_def keeps_def moved_def same_identity_def closed_def live_def split_beta
        split: if_splits prod.splits)
next
  case (closing now err)
  show ?thesis
  proof (cases "c_state c = StateConnected")
    case True
    obtain k w where e: "Encrypt (c_sendCipher c) disconnect_enc [] = (k, Inr w)" using Encrypt_total by blast
    define pkt where "pkt = (if c_batchEnabled c then singleFrame w else w)"
    let ?c = "c\<lparr>c_state := StateDisconnecting, c_sendCipher := k, c_disconnectPacket := Some pkt,
        c_disconnectRetries := 0, c_nextDisconnectRetry := now + RTO (c_rtt c)\<rparr>"
    have "c' = fst (fst (sf (?c, u) pkt))" "es = []"
      using closing Close_eq [OF True e, of sf now u] by (simp_all add: pkt_def [symmetric] Let_def)
    with sf_sends [of ?c u pkt] True show ?thesis
      by (simp add: sends_def keeps_def moved_def same_identity_def closed_def live_def)
  next
    case False
    then show ?thesis using closing by (simp add: Close_def moved_def same_identity_def)
  qed
qed

end

end
