(* ===== verification/Reassembly.thy ===== *)
theory Reassembly
  imports Fragment
begin

text \<open>
  Fragmentation and reassembly together: the fragments that \<open>splitMessage\<close> produces, arriving
  in any order and with any duplicates, complete exactly when the last missing one arrives, and
  then yield the original payload. The properties of \<open>fragment.go\<close> are stated at the end.
\<close>

section \<open>The receiving side of one fragment packet\<close>

text \<open>The fragment branch of the receive pipeline (\<open>handleDecrypted\<close>, \<open>processPacket\<close>): parse
  the fragment header, hand the rest to the store.\<close>

definition receiveFragment :: "time \<Rightarrow> reassemblyStore \<Rightarrow> bytes \<Rightarrow> reassemblyStore \<times> bytes option res" where
  "receiveFragment now s payload =
     (case UnmarshalFragmentHeader payload of
        Inl e \<Rightarrow> (s, Inl e)
      | Inr (fh, fn) \<Rightarrow> addFragment now s fh (drop fn payload))"

fun receiveAll :: "reassemblyStore \<Rightarrow> (time \<times> bytes) list \<Rightarrow> reassemblyStore \<times> bytes option res list" where
  "receiveAll s [] = (s, [])"
| "receiveAll s ((now, p) # ps) =
     (let (s, r) = receiveFragment now s p; (s, rs) = receiveAll s ps in (s, r # rs))"

section \<open>A partially received message\<close>

definition pfrags :: "bytes \<Rightarrow> nat set \<Rightarrow> bytes option list" where
  "pfrags payload S = map (\<lambda>i. if i \<in> S then Some (chunk payload i) else None) [0..<fragmentCount payload]"

lemma length_pfrags [simp]: "length (pfrags payload S) = fragmentCount payload"
  by (simp add: pfrags_def)

lemma pfrags_nth: "i < fragmentCount payload \<Longrightarrow>
    pfrags payload S ! i = (if i \<in> S then Some (chunk payload i) else None)"
  by (simp add: pfrags_def)

lemma pfrags_update: "i < fragmentCount payload \<Longrightarrow>
    (pfrags payload S)[i := Some (chunk payload i)] = pfrags payload (insert i S)"
  by (rule nth_equalityI) (auto simp: pfrags_nth nth_list_update)

lemma pfrags_empty: "pfrags payload {} = replicate (fragmentCount payload) None"
  by (rule nth_equalityI) (auto simp: pfrags_nth)

lemma receivedCount_pfrags:
  assumes "S \<subseteq> {..<fragmentCount payload}"
  shows "receivedCount (pfrags payload S) = card S"
proof -
  have "receivedCount (pfrags payload S) = length (filter (\<lambda>i. i \<in> S) [0..<fragmentCount payload])"
    by (simp add: receivedCount_def pfrags_def filter_map comp_def)
  also have "\<dots> = card (set (filter (\<lambda>i. i \<in> S) [0..<fragmentCount payload]))"
    by (rule distinct_card [symmetric]) simp
  also have "set (filter (\<lambda>i. i \<in> S) [0..<fragmentCount payload]) = S"
    using assms by auto
  finally show ?thesis .
qed

lemma concat_pfrags: "concat (map (case_option [] id) (pfrags payload {..<fragmentCount payload})) = payload"
proof -
  have "map (case_option [] id) (pfrags payload {..<fragmentCount payload})
      = map (chunk payload) [0..<fragmentCount payload]"
    by (simp add: pfrags_def)
  then show ?thesis
    using concat_chunks [of payload "fragmentCount payload"] fragmentCount_covers [of payload] by simp
qed

lemma fragLen_sum: "sum_list (map fragLen fs) = length (concat (map (case_option [] id) fs))"
proof (induction fs)
  case (Cons f fs)
  then show ?case by (cases f) simp_all
qed simp

lemma pfrags_mono:
  "S \<subseteq> T \<Longrightarrow> sum_list (map fragLen (pfrags payload S)) \<le> sum_list (map fragLen (pfrags payload T))"
  unfolding pfrags_def map_map by (rule sum_list_mono) auto

lemma pfrags_total:
  "sum_list (map fragLen (pfrags payload (insert i S))) \<le> length payload"
  if "insert i S \<subseteq> {..<fragmentCount payload}"
  using pfrags_mono [OF that, of payload] by (simp add: fragLen_sum concat_pfrags)

text \<open>The store \<open>s0\<close> with the fragments \<open>S\<close> of the message received since time \<open>t0\<close>.\<close>

definition pbuf :: "bytes \<Rightarrow> byte \<Rightarrow> time \<Rightarrow> nat set \<Rightarrow> reassemblyBuffer" where
  "pbuf payload flags t0 S =
     \<lparr>rb_fragments = pfrags payload S, rb_received = card S, rb_count = fragmentCount payload,
      rb_flags = flags, rb_totalBytes = sum_list (map fragLen (pfrags payload S)), rb_createdAt = t0\<rparr>"

definition pstore :: "reassemblyStore \<Rightarrow> u16 \<Rightarrow> reassemblyBuffer \<Rightarrow> reassemblyStore" where
  "pstore s0 k b = s0\<lparr>rs_buffers := rs_buffers s0 @ [(k, b)],
                      rs_totalBytes := rs_totalBytes s0 + int (rb_totalBytes b)\<rparr>"

lemma pbuf_sel [simp]:
  "rb_fragments (pbuf payload flags t0 S) = pfrags payload S" "rb_count (pbuf payload flags t0 S) = fragmentCount payload"
  "rb_flags (pbuf payload flags t0 S) = flags" "rb_createdAt (pbuf payload flags t0 S) = t0"
  "rb_totalBytes (pbuf payload flags t0 S) = sum_list (map fragLen (pfrags payload S))"
  by (simp_all add: pbuf_def)

lemma pstore_sel [simp]:
  "rs_maxBytes (pstore s0 k b) = rs_maxBytes s0" "rs_fragmentTimeout (pstore s0 k b) = rs_fragmentTimeout s0"
  "rs_totalBytes (pstore s0 k b) = rs_totalBytes s0 + int (rb_totalBytes b)"
  by (simp_all add: pstore_def)

lemma alist_append_end:
  assumes "map_of m k = None"
  shows "map_of (m @ [(k, b)]) k = Some b" "AList.update k b' (m @ [(k, b)]) = m @ [(k, b')]"
    "AList.delete k (m @ [(k, b)]) = m"
  using assms by (induction m) (auto split: if_splits)

lemma unat_of_nat_byte: "i < 256 \<Longrightarrow> unat (of_nat i :: byte) = i"
  by (simp add: unat_of_nat)

text \<open>Storing one more fragment into a partially received message.\<close>

lemma storeFragment_partial:
  assumes S: "S \<subseteq> {..<fragmentCount payload}" and i: "i < fragmentCount payload" "i \<notin> S"
    and n: "fragmentCount payload \<le> 255" and k: "map_of (rs_buffers s0) k = None"
    and s: "AList.update k (pbuf payload flags t0 (insert i S)) (rs_buffers s)
              = rs_buffers s0 @ [(k, pbuf payload flags t0 (insert i S))]"
      "rs_totalBytes s = rs_totalBytes s0 + int (rb_totalBytes (pbuf payload flags t0 S))"
      "rs_limits s = rs_limits s0"
  shows "storeFragment s (pbuf payload flags t0 S) (frag_hdr k flags (fragmentCount payload) i) (chunk payload i)
      = (if insert i S = {..<fragmentCount payload} then (s0, Some payload)
         else (pstore s0 k (pbuf payload flags t0 (insert i S)), None))"
proof -
  let ?n = "fragmentCount payload"
  have fin: "finite S" using S finite_subset by blast
  have b': "(pbuf payload flags t0 S)\<lparr>rb_fragments := (rb_fragments (pbuf payload flags t0 S))[i := Some (chunk payload i)],
      rb_received := rb_received (pbuf payload flags t0 S) + 1,
      rb_totalBytes := rb_totalBytes (pbuf payload flags t0 S) + length (chunk payload i)\<rparr>
      = pbuf payload flags t0 (insert i S)"
    using i fin sum_update_received [of i "pfrags payload S" "chunk payload i"]
    by (simp add: pbuf_def pfrags_update pfrags_nth)
  have s': "s\<lparr>rs_buffers := AList.update k (pbuf payload flags t0 (insert i S)) (rs_buffers s),
      rs_totalBytes := rs_totalBytes s + int (length (chunk payload i))\<rparr>
      = pstore s0 k (pbuf payload flags t0 (insert i S))"
    using s i sum_update_received [of i "pfrags payload S" "chunk payload i"]
    by (cases s, cases s0) (simp add: pstore_def rs_limits_def pbuf_def pfrags_update pfrags_nth)
  have iS: "insert i S \<subseteq> {..<?n}" using S i by auto
  have full: "card (insert i S) < ?n \<longleftrightarrow> insert i S \<noteq> {..<?n}"
  proof
    assume "card (insert i S) < ?n"
    then show "insert i S \<noteq> {..<?n}" using card_lessThan [of ?n] by (metis less_irrefl)
  next
    assume "insert i S \<noteq> {..<?n}"
    with iS have "insert i S \<subset> {..<?n}" by blast
    then show "card (insert i S) < ?n" by (metis card_lessThan finite_lessThan psubset_card_mono)
  qed
  have drop: "dropBuffer (pstore s0 k b) k b = s0" for b
    using k by (cases s0) (simp add: dropBuffer_def pstore_def alist_append_end)
  have assembled: "go_copy (replicate (rb_totalBytes (pbuf payload flags t0 {..<?n})) 0) 0
      (concat (map (case_option [] id) (rb_fragments (pbuf payload flags t0 {..<?n})))) = payload"
    by (simp add: pbuf_def fragLen_sum concat_pfrags go_copy_def)
  have idx: "unat (FragmentIndex (frag_hdr k flags ?n i)) = i" "FragmentID (frag_hdr k flags ?n i) = k"
    using i n by (simp_all add: frag_hdr_def unat_of_nat_byte)
  have rc: "rb_received (pbuf payload flags t0 (insert i S)) < rb_count (pbuf payload flags t0 (insert i S))
      \<longleftrightarrow> insert i S \<noteq> {..<?n}"
    using full by (simp add: pbuf_def)
  show ?thesis
  proof (cases "insert i S = {..<?n}")
    case True
    then show ?thesis
      unfolding storeFragment_def Let_def idx b' s' rc using assembled by (simp add: drop)
  next
    case False
    then show ?thesis
      unfolding storeFragment_def Let_def idx b' s' rc by simp
  qed
qed

definition pstate :: "reassemblyStore \<Rightarrow> u16 \<Rightarrow> bytes \<Rightarrow> byte \<Rightarrow> time \<Rightarrow> nat set \<Rightarrow> reassemblyStore" where
  "pstate s0 k payload flags t0 S =
     (if S = {} then s0 else pstore s0 k (pbuf payload flags t0 S))"

text \<open>The store has room for the message and no buffer under its fragment id.\<close>

definition fits :: "reassemblyStore \<Rightarrow> u16 \<Rightarrow> bytes \<Rightarrow> bool" where
  "fits s0 k payload \<longleftrightarrow>
     map_of (rs_buffers s0) k = None \<and> length payload \<le> 255 * 1155 \<and>
     (0 < rs_maxBuffers s0 \<longrightarrow> int (length (rs_buffers s0)) < rs_maxBuffers s0) \<and>
     (0 < rs_maxBytes s0 \<longrightarrow> rs_totalBytes s0 + int (length payload) \<le> rs_maxBytes s0)"

lemma fits_count: "fits s0 k payload \<Longrightarrow> fragmentCount payload \<le> 255"
  using fragmentCount_le [of payload] by (simp add: fits_def MaxFragments_def)

lemma frag_hdr_valid:
  assumes "i < n" "n \<le> 255"
  shows "FragmentCount (frag_hdr k flags n i) \<noteq> 0"
    "\<not> FragmentCount (frag_hdr k flags n i) \<le> FragmentIndex (frag_hdr k flags n i)"
    "unat (FragmentIndex (frag_hdr k flags n i)) = i" "unat (FragmentCount (frag_hdr k flags n i)) = n"
  using assms by (auto simp: frag_hdr_def word_le_nat_alt unat_of_nat_byte word_of_nat_eq_0_iff
      dest: dvd_imp_le)

lemma byte_cap:
  assumes "fits s0 k payload" "insert i S \<subseteq> {..<fragmentCount payload}" "i \<notin> S"
  shows "0 < rs_maxBytes s0 \<Longrightarrow>
    rs_totalBytes s0 + int (sum_list (map fragLen (pfrags payload S))) + int (length (chunk payload i))
      \<le> rs_maxBytes s0"
  using assms pfrags_total [OF assms(2)] sum_update_received [of i "pfrags payload S" "chunk payload i"]
  by (auto simp: fits_def pfrags_update pfrags_nth)

lemma addFragment_partial:
  assumes fit: "fits s0 k payload" and S: "S \<subseteq> {..<fragmentCount payload}" and i: "i < fragmentCount payload"
    and time: "S \<noteq> {} \<Longrightarrow> 0 < rs_fragmentTimeout s0 \<Longrightarrow> t - t0 < rs_fragmentTimeout s0"
  shows "addFragment t (pstate s0 k payload flags t0 S) (frag_hdr k flags (fragmentCount payload) i) (chunk payload i)
     = (if i \<in> S then (pstate s0 k payload flags t0 S, Inr None)
        else if insert i S = {..<fragmentCount payload} then (s0, Inr (Some payload))
        else (pstate s0 k payload flags (if S = {} then t else t0) (insert i S), Inr None))"
proof -
  let ?n = "fragmentCount payload" and ?h = "frag_hdr k flags (fragmentCount payload) i"
  note v = frag_hdr_valid [OF i fits_count [OF fit], of k flags]
  have k: "map_of (rs_buffers s0) k = None" and hk: "FragmentID ?h = k" "FragmentFlags ?h = flags"
    using fit by (simp_all add: fits_def frag_hdr_def)
  have cap: "\<not> (0 < rs_maxBytes s0 \<and> rs_maxBytes s0 < rs_totalBytes s0 +
      int (sum_list (map fragLen (pfrags payload S))) + int (length (chunk payload i)))" if "i \<notin> S"
    using byte_cap [OF fit _ that] S i by auto
  show ?thesis
  proof (cases "S = {}")
    case True
    have nb: "newBuffer t ?h = pbuf payload flags t {}"
      using v by (simp add: newBuffer_def pbuf_def pfrags_empty hk sum_list_replicate)
    have "lookupFresh t s0 k = (s0, None)"
      using k by (simp add: lookupFresh_def)
    moreover have "\<not> (0 < rs_maxBuffers s0 \<and> rs_maxBuffers s0 \<le> int (length (rs_buffers s0)))"
      using fit by (auto simp: fits_def)
    moreover have "storeFragment s0 (pbuf payload flags t {}) ?h (chunk payload i)
      = (if {i} = {..<?n} then (s0, Some payload) else (pstore s0 k (pbuf payload flags t {i}), None))"
      using storeFragment_partial [of "{}" payload i s0 k flags t s0] i k fits_count [OF fit]
      by (simp add: update_new pbuf_def pfrags_empty sum_list_replicate)
    ultimately show ?thesis
      using v cap True by (auto simp: addFragment_def hk nb pstate_def pfrags_empty sum_list_replicate)
  next
    case False
    let ?b = "pbuf payload flags t0 S"
    have "map_of (rs_buffers (pstore s0 k ?b)) k = Some ?b"
      using k by (simp add: pstore_def map_add_def)
    then have "lookupFresh t (pstore s0 k ?b) k = (pstore s0 k ?b, Some ?b)"
      using time False by (auto simp: lookupFresh_def)
    moreover have "storeFragment (pstore s0 k ?b) ?b ?h (chunk payload i)
      = (if insert i S = {..<?n} then (s0, Some payload)
         else (pstore s0 k (pbuf payload flags t0 (insert i S)), None))" if "i \<notin> S"
      using storeFragment_partial [OF S i that fits_count [OF fit] k, of flags t0 "pstore s0 k ?b"] k
      by (simp add: pstore_def alist_append_end rs_limits_def)
    ultimately show ?thesis
      using v cap False i by (auto simp: addFragment_def hk pstate_def pfrags_nth)
  qed
qed

section \<open>Arrival in any order\<close>

definition wire_fragment :: "u16 \<Rightarrow> byte \<Rightarrow> bytes \<Rightarrow> nat \<Rightarrow> bytes" where
  "wire_fragment k flags payload i =
     frag_header_enc (frag_hdr k flags (fragmentCount payload) i) @ chunk payload i"

lemma receiveFragment_wire:
  "receiveFragment t s (wire_fragment k flags payload i)
     = addFragment t s (frag_hdr k flags (fragmentCount payload) i) (chunk payload i)"
  by (simp add: receiveFragment_def wire_fragment_def codec_simps)

text \<open>All arrivals fall into a window shorter than the fragment timeout.\<close>

definition timely :: "reassemblyStore \<Rightarrow> time set \<Rightarrow> bool" where
  "timely s T \<longleftrightarrow> (\<forall>t \<in> T. \<forall>u \<in> T. 0 < rs_fragmentTimeout s \<longrightarrow> t - u < rs_fragmentTimeout s)"

lemma receiveAll_partial:
  assumes fit: "fits s0 k payload" and T: "timely s0 T"
    and S: "S \<subseteq> {..<fragmentCount payload}" "S \<noteq> {} \<Longrightarrow> t0 \<in> T"
    and arr: "\<forall>(t, i) \<in> set arr. t \<in> T \<and> i < fragmentCount payload"
    and incomplete: "S \<union> snd ` set arr \<noteq> {..<fragmentCount payload}"
  shows "\<exists>t1. (S \<union> snd ` set arr \<noteq> {} \<longrightarrow> t1 \<in> T) \<and>
    receiveAll (pstate s0 k payload flags t0 S) (map (\<lambda>(t, i). (t, wire_fragment k flags payload i)) arr)
      = (pstate s0 k payload flags t1 (S \<union> snd ` set arr), replicate (length arr) (Inr None))"
  using S arr incomplete
proof (induction arr arbitrary: S t0)
  case Nil
  then show ?case by auto
next
  case (Cons a arr)
  obtain t i where a: "a = (t, i)" by (cases a)
  have ti: "t \<in> T" "i < fragmentCount payload" using Cons.prems(3) a by auto
  define t' where "t' = (if S = {} then t else t0)"
  have ne: "insert i S \<noteq> {..<fragmentCount payload}"
    using Cons.prems(1,3,4) a by (auto simp: image_subset_iff)
  have step: "receiveFragment t (pstate s0 k payload flags t0 S) (wire_fragment k flags payload i)
      = (pstate s0 k payload flags t' (insert i S), Inr None)"
    unfolding receiveFragment_wire t'_def
    by (subst addFragment_partial [OF fit Cons.prems(1) ti(2)])
      (use T Cons.prems(2) ti ne in \<open>auto simp: timely_def insert_absorb\<close>)
  have "t' \<in> T" using ti Cons.prems(2) by (auto simp: t'_def)
  with Cons.IH [of "insert i S" t'] Cons.prems a ti obtain t1 where
    "S \<union> snd ` set (a # arr) \<noteq> {} \<longrightarrow> t1 \<in> T"
    "receiveAll (pstate s0 k payload flags t' (insert i S))
       (map (\<lambda>(t, i). (t, wire_fragment k flags payload i)) arr)
      = (pstate s0 k payload flags t1 (S \<union> snd ` set (a # arr)), replicate (length arr) (Inr None))"
    by auto
  with step show ?case by (intro exI [of _ t1]) (simp add: a)
qed

lemma receiveAll_append:
  "receiveAll s (xs @ ys) = (let (s, rs) = receiveAll s xs; (s, rs') = receiveAll s ys in (s, rs @ rs'))"
  by (induction s xs rule: receiveAll.induct) (auto simp: Let_def split: prod.splits)

lemma receiveAll_complete:
  assumes fit: "fits s0 k payload" and T: "timely s0 (insert t (fst ` set arr))"
    and arr: "snd ` set arr \<subseteq> {..<fragmentCount payload}" "snd ` set arr \<noteq> {..<fragmentCount payload}"
    and i: "insert i (snd ` set arr) = {..<fragmentCount payload}"
  shows "receiveAll s0 (map (\<lambda>(t, i). (t, wire_fragment k flags payload i)) (arr @ [(t, i)]))
    = (s0, replicate (length arr) (Inr None) @ [Inr (Some payload)])"
proof -
  let ?S = "snd ` set arr"
  have *: "\<forall>(u, j) \<in> set arr. u \<in> insert t (fst ` set arr) \<and> j < fragmentCount payload"
    using arr by force
  obtain t1 where t1: "?S \<noteq> {} \<longrightarrow> t1 \<in> insert t (fst ` set arr)"
    and r: "receiveAll s0 (map (\<lambda>(t, i). (t, wire_fragment k flags payload i)) arr)
      = (pstate s0 k payload flags t1 ?S, replicate (length arr) (Inr None))"
    using receiveAll_partial [OF fit T, of "{}" 0 arr flags] * arr(2) by (auto simp: pstate_def)
  have "i \<notin> ?S" using i arr(2) by (auto simp: insert_absorb)
  moreover have "i < fragmentCount payload" using i by blast
  ultimately have "receiveFragment t (pstate s0 k payload flags t1 ?S) (wire_fragment k flags payload i)
      = (s0, Inr (Some payload))"
    unfolding receiveFragment_wire
    by (subst addFragment_partial [OF fit arr(1)]) (use T t1 i in \<open>auto simp: timely_def\<close>)
  with r show ?thesis by (simp add: receiveAll_append)
qed

section \<open>Properties\<close>

text \<open>Splitting: a message of more than \<open>255 * 1155\<close> bytes is refused with
  \<open>ErrMessageTooLarge\<close>; any other is cut into at most 255 fragments of at most 1160 bytes, as few
  as possible, which carry the indices \<open>0..n-1\<close>, the common id, count and flags, and whose
  chunks concatenate to the message.\<close>

theorem split_message_spec:
  "if 255 * 1155 < length payload then splitMessage payload k flags = Inl ErrMessageTooLarge
   else \<exists>frags. splitMessage payload k flags = Inr frags \<and>
     1 \<le> length frags \<and> length frags \<le> 255 \<and> (1 < length frags \<longrightarrow> (length frags - 1) * 1155 < length payload) \<and>
     (\<forall>i < length frags. length (frags ! i) \<le> 1160 \<and>
        UnmarshalFragmentHeader (frags ! i) =
          Inr (\<lparr>FragmentID = k, FragmentIndex = of_nat i, FragmentCount = of_nat (length frags),
               FragmentFlags = flags\<rparr>, 5)) \<and>
     concat (map (drop 5) frags) = payload"
proof (cases "255 * 1155 < length payload")
  case False
  let ?n = "fragmentCount payload"
  define frags where "frags = map (\<lambda>i. frag_header_enc (frag_hdr k flags ?n i) @ chunk payload i) [0..<?n]"
  have len: "length frags = ?n" and n: "1 \<le> ?n" "?n \<le> 255"
    using fragmentCount_ge1 [of payload] fragmentCount_le [of payload] False
    by (simp_all add: frags_def MaxFragments_def)
  have "concat (map (drop 5) frags) = payload"
    using concat_chunks [of payload ?n] fragmentCount_covers [of payload]
    by (simp add: frags_def comp_def)
  moreover have "length (chunk payload i) \<le> 1155" for i
    by (simp add: chunk_def MaxFragmentPayload_val)
  then have "\<forall>i < length frags. length (frags ! i) \<le> 1160 \<and> UnmarshalFragmentHeader (frags ! i) =
      Inr (\<lparr>FragmentID = k, FragmentIndex = of_nat i, FragmentCount = of_nat (length frags),
           FragmentFlags = flags\<rparr>, 5)"
    using len by (simp add: frags_def codec_simps) (simp add: frag_hdr_def)
  moreover have "splitMessage payload k flags = Inr frags"
    using False by (simp add: splitMessage_eq frags_def)
  ultimately show ?thesis
    using False n len fragmentCount_minimal [of payload] by auto
qed (simp add: splitMessage_eq)

theorem split_message_spec_witness:
  "\<exists>frags. splitMessage (replicate 1156 7) 9 0 = Inr frags \<and> 1 < length frags \<and>
     length (frags ! 0) \<le> 1160 \<and> concat (map (drop 5) frags) = replicate 1156 7"
proof -
  obtain frags where "splitMessage (replicate 1156 7) 9 0 = Inr frags"
    "\<forall>i < length frags. length (frags ! i) \<le> 1160" "concat (map (drop 5) frags) = replicate 1156 7"
    "1 \<le> length frags"
    using split_message_spec [of "replicate 1156 7" 9 0] by auto
  moreover from this have "length frags = 2"
    by (auto simp: splitMessage_eq fragmentCount_def MaxFragmentPayload_val)
  ultimately show ?thesis by auto
qed

text \<open>C27. Reassembly in any order: feed the fragments of a message to a store that has room for
  it, in any order, with any duplicates, within the fragment timeout. Nothing is delivered until
  the last missing index arrives; that arrival delivers exactly the original payload and leaves
  the store as it was before the first fragment.\<close>

theorem reassembly_any_order:
  assumes "splitMessage payload k flags = Inr frags" and "fits s k payload"
    and "timely s (insert t (fst ` set arrivals))"
    and "\<forall>(u, j) \<in> set arrivals. j < length frags"
    and "snd ` set arrivals \<noteq> {..<length frags}" and "insert i (snd ` set arrivals) = {..<length frags}"
  shows "receiveAll s (map (\<lambda>(u, j). (u, frags ! j)) (arrivals @ [(t, i)]))
    = (s, replicate (length arrivals) (Inr None) @ [Inr (Some payload)])"
proof -
  have fr: "frags = map (wire_fragment k flags payload) [0..<fragmentCount payload]"
    using assms(1) by (auto simp: splitMessage_eq wire_fragment_def split: if_splits)
  have n: "length frags = fragmentCount payload" by (simp add: fr)
  have i: "i < fragmentCount payload" using assms(6) n by (metis insertI1 lessThan_iff)
  have "map (\<lambda>(u, j). (u, frags ! j)) (arrivals @ [(t, i)])
      = map (\<lambda>(u, j). (u, wire_fragment k flags payload j)) (arrivals @ [(t, i)])"
    using assms(4) i n by (auto simp: fr)
  moreover have "snd ` set arrivals \<subseteq> {..<fragmentCount payload}"
    using assms(4) n by auto
  ultimately show ?thesis
    using receiveAll_complete [OF assms(2,3) _ assms(5,6) [unfolded n], of flags] by (simp only:)
qed

theorem reassembly_any_order_witness:
  "\<exists>frags. splitMessage (replicate 1156 7) 9 0 = Inr frags \<and>
     receiveAll (newReassemblyStore 5 64 4096) [(0, frags ! 1), (1, frags ! 1), (2, frags ! 0)]
       = (newReassemblyStore 5 64 4096, [Inr None, Inr None, Inr (Some (replicate 1156 7))])"
proof -
  obtain frags where fr: "splitMessage (replicate 1156 7) 9 0 = Inr frags" and n: "length frags = 2"
    by (auto simp: splitMessage_eq fragmentCount_def MaxFragmentPayload_val)
  have "fits (newReassemblyStore 5 64 4096) 9 (replicate 1156 7)"
    "timely (newReassemblyStore 5 64 4096) {2, 0, 1}"
    by (simp_all add: fits_def timely_def newReassemblyStore_def)
  moreover have "{..<2 :: nat} = {0, 1}" by auto
  ultimately show ?thesis
    using reassembly_any_order [OF fr, of "newReassemblyStore 5 64 4096" 2 "[(0, 1), (1, 1)]" 0] fr n
    by (simp add: insert_commute)
qed

text \<open>Memory caps: starting from an empty store, after any sequence of arriving fragments
  (valid or not), cleanups and resets, the number of open buffers and the number of buffered
  bytes are within the configured caps, the byte counter is exactly what the buffers hold, and
  every open buffer still misses a fragment.\<close>

theorem reassembly_caps:
  assumes "s = fold store_step events (newReassemblyStore timeout maxBuffers maxBytes)"
  shows "(0 < maxBuffers \<longrightarrow> int (reassembly_pending s) \<le> maxBuffers) \<and>
    (0 < maxBytes \<longrightarrow> reassembly_bytes s \<le> maxBytes) \<and>
    reassembly_bytes s = (\<Sum>(k, b)\<leftarrow>rs_buffers s. int (sum_list (map fragLen (rb_fragments b)))) \<and>
    (\<forall>(k, b) \<in> set (rs_buffers s). None \<in> set (rb_fragments b))"
proof -
  have wf: "wf_store s"
    unfolding assms by (rule store.run_inv [OF newReassemblyStore_wf])
  have "rs_limits s = (timeout, maxBuffers, maxBytes)"
    unfolding assms by (rule store_limits.run_inv) (simp add: rs_limits_def newReassemblyStore_def)
  moreover have "int (rb_totalBytes b) = int (sum_list (map fragLen (rb_fragments b))) \<and>
      None \<in> set (rb_fragments b)" if "(k, b) \<in> set (rs_buffers s)" for k b
  proof -
    have "wf_buffer b" using wf that by (auto simp: wf_store_def)
    moreover have "filter (\<lambda>f. f \<noteq> None) (rb_fragments b) = rb_fragments b" if "None \<notin> set (rb_fragments b)"
      using that by (metis (mono_tags, lifting) filter_True)
    ultimately have "None \<in> set (rb_fragments b)"
      by (metis less_irrefl receivedCount_def rb_consistent_def wf_buffer_def)
    with \<open>wf_buffer b\<close> show ?thesis by (auto simp: wf_buffer_def rb_consistent_def)
  qed
  then have "(\<Sum>(k, b)\<leftarrow>rs_buffers s. int (rb_totalBytes b))
      = (\<Sum>(k, b)\<leftarrow>rs_buffers s. int (sum_list (map fragLen (rb_fragments b)))) \<and>
      (\<forall>(k, b) \<in> set (rs_buffers s). None \<in> set (rb_fragments b))"
    by (auto intro!: arg_cong [where f = sum_list] map_cong)
  ultimately show ?thesis
    using wf by (auto simp: wf_store_def rs_limits_def reassembly_pending_def reassembly_bytes_def)
qed

theorem reassembly_caps_witness:
  "int (reassembly_pending (fold store_step
      [FragmentArrives 0 (frag_hdr 1 0 2 0) [1], FragmentArrives 0 (frag_hdr 2 0 2 0) [1]]
      (newReassemblyStore 5 1 4096))) \<le> 1"
  using reassembly_caps [OF refl, where timeout = 5 and maxBuffers = 1 and maxBytes = 4096 and
    events = "[FragmentArrives 0 (frag_hdr 1 0 2 0) [1], FragmentArrives 0 (frag_hdr 2 0 2 0) [1]]"]
  using zero_less_one [where 'a = int] by blast

text \<open>\<open>cleanup\<close> removes exactly the buffers that are at least \<open>timeout\<close> old, reports how many
  they were, and keeps the store's invariant.\<close>

lemma reassembly_cleanup_exact:
  assumes "wf_store s" and "reassembly_cleanup now timeout s = (s', removed)"
  shows "rs_buffers s' = filter (\<lambda>(k, b). \<not> timeout \<le> now - rb_createdAt b) (rs_buffers s) \<and>
    removed + length (rs_buffers s') = length (rs_buffers s) \<and> wf_store s'"
proof -
  have "removed + length (rs_buffers s') = length (rs_buffers s)"
    using cleanup_effect(1,2) [OF assms(1), of now timeout] assms(2)
      sum_length_filter_compl [of "\<lambda>(k, b). expired now timeout b" "rs_buffers s"]
    by (simp add: case_prod_unfold)
  then show ?thesis
    using cleanup_effect [OF assms(1), of now timeout] assms(2) by (simp add: expired_def)
qed

end
