(* ===== verification/EndToEnd.thy ===== *)
theory EndToEnd
  imports Lifecycle Reassembly
begin

text \<open>
  Both ends of a connection together: what the send pipeline of one connection puts on a
  network that neither loses nor reorders, the receive pipeline of its peer turns back into the
  messages, in order. The transport under a connection is the interface \<open>transport\<close>: an injected
  \<open>sendFunc\<close> that only counts bytes on the connection and appends one datagram to the wire,
  possibly with a prefix (the migration token). Server and client provide it.
\<close>

section \<open>Receiving a list of datagrams\<close>

fun receiveDatagrams :: "comp_lib \<Rightarrow> time \<Rightarrow> bytes list \<Rightarrow> connection \<Rightarrow> (connection \<times> effect list) res" where
  "receiveDatagrams lib now [] c = Inr (c, [])"
| "receiveDatagrams lib now (d # ds) c =
     (case processConnData lib now d c of
        Inl e \<Rightarrow> Inl e
      | Inr (c, es) \<Rightarrow>
          (case receiveDatagrams lib now ds c of
             Inl e \<Rightarrow> Inl e
           | Inr (c, es') \<Rightarrow> Inr (c, es @ es')))"

lemma receiveDatagrams_append:
  "receiveDatagrams lib now ds c = Inr (c', es) \<Longrightarrow> receiveDatagrams lib now ds' c' = Inr (c'', es') \<Longrightarrow>
     receiveDatagrams lib now (ds @ ds') c = Inr (c'', es @ es')"
  by (induction ds arbitrary: c es) (auto split: sum.splits prod.splits)

section \<open>The sender\<close>

definition packetHeader :: "byte \<Rightarrow> byte \<Rightarrow> connection \<Rightarrow> PacketHeader" where
  "packetHeader flags i c =
     (let ch = c_channels c ! unat i
      in \<lparr>Flags = flags, Channel = i, Sequence = ch_sendSeq ch + 1, Ack = ch_recvAck ch, AckField = ch_recvAckField ch\<rparr>)"

definition framed :: "connection \<Rightarrow> bytes \<Rightarrow> bytes" where
  "framed c w = (if c_batchEnabled c then frame [w] else w)"

text \<open>Packets are written at once: batching is off, or bypassed.\<close>

definition direct :: "connection \<Rightarrow> bool" where
  "direct c \<longleftrightarrow> \<not> c_batchEnabled c \<or> c_skipBatch c"

lemma singleFrame_eq: "singleFrame w = frame [w]"
proof -
  have b: "len16 w = [of_nat (length w), of_nat (drop_bit 8 (length w))]"
    by (auto simp: len16_def numeral_2_eq_2 intro!: bit_eqI simp: bit_simps possible_bit_def)
  show ?thesis
    by (simp add: singleFrame_def Let_def getSendBuffer_def go_copy_def frame_def entries_def b
        batch_size_defs numeral_3_eq_3 numeral_2_eq_2)
qed

text \<open>What sending leaves alone.\<close>

definition same_sender :: "connection \<Rightarrow> connection \<Rightarrow> bool" where
  "same_sender c c' \<longleftrightarrow> c_batchEnabled c' = c_batchEnabled c \<and> c_skipBatch c' = c_skipBatch c \<and>
     c_features c' = c_features c \<and> c_migrationToken c' = c_migrationToken c \<and> c_compress c' = c_compress c \<and>
     map ch_mode (c_channels c') = map ch_mode (c_channels c)"

lemma same_sender_refl [simp]: "same_sender c c"
  by (simp add: same_sender_def)

lemma same_sender_trans: "same_sender a b \<Longrightarrow> same_sender b c \<Longrightarrow> same_sender a c"
  by (simp add: same_sender_def)

lemma same_sender_mode:
  assumes "same_sender c c'" "i < length (c_channels c)"
  shows "ch_mode (c_channels c' ! i) = ch_mode (c_channels c ! i)" "length (c_channels c') = length (c_channels c)"
proof -
  have m: "map ch_mode (c_channels c') = map ch_mode (c_channels c)" using assms(1) by (simp add: same_sender_def)
  show l: "length (c_channels c') = length (c_channels c)" by (rule map_eq_imp_length_eq [OF m])
  show "ch_mode (c_channels c' ! i) = ch_mode (c_channels c ! i)"
    using arg_cong [OF m, of "\<lambda>xs. xs ! i"] l assms(2) by simp
qed

lemma same_sender_direct: "same_sender c c' \<Longrightarrow> direct c' = direct c \<and> framed c' = framed c"
  by (auto simp: same_sender_def direct_def framed_def fun_eq_iff)

text \<open>A network that delivers: every write succeeds.\<close>

locale transport =
  fixes sf :: "'u st sendFunc" and wire :: "'u \<Rightarrow> bytes list" and prefix :: "connection \<Rightarrow> bytes"
  assumes sf_sends: "\<exists>n b u'. sf (c, u) d = ((c\<lparr>c_bytesSent := n, c_sendBW := b\<rparr>, u'), None) \<and>
      wire u' = wire u @ [prefix c @ d]"
    and prefix_stable: "c_features c' = c_features c \<Longrightarrow> c_migrationToken c' = c_migrationToken c \<Longrightarrow> prefix c' = prefix c"
begin

lemma writeEncrypted_direct:
  assumes "direct c"
  shows "\<exists>n b u'. writeEncrypted sf w (c, u) = ((c\<lparr>c_bytesSent := n, c_sendBW := b\<rparr>, u'), None) \<and>
     wire u' = wire u @ [prefix c @ framed c w]"
proof -
  have "writeEncrypted sf w (c, u) = sf (c, u) (framed c w)"
    using assms by (auto simp: writeEncrypted_def sendFramed_def direct_def framed_def singleFrame_eq)
  then show ?thesis using sf_sends [of c u "framed c w"] by simp
qed

lemma sendPacket_direct:
  assumes "direct c" "unat i < length (c_channels c)"
    and enc: "\<And>dst. Encrypt (c_sendCipher c) (header_enc (packetHeader flags i c) @ payload) dst = (s', Inr w)"
  shows "\<exists>c' u'. sendPacket sf flags i payload now (c, u) = ((c', u'), None) \<and>
     wire u' = wire u @ [prefix c @ framed c w] \<and> c_sendCipher c' = s' \<and> same_sender c c' \<and>
     map ch_sendSeq (c_channels c') = (map ch_sendSeq (c_channels c))[unat i := ch_sendSeq (c_channels c ! unat i) + 1]"
proof -
  let ?h = "packetHeader flags i c" and ?ch = "c_channels c ! unat i"
  define ch where "ch = ?ch\<lparr>ch_sendSeq := ch_sendSeq ?ch + 1\<rparr>"
  define c1 where "c1 = (setChannel (unat i) ch c)\<lparr>c_sendCipher := s'\<rparr>"
  have c1: "direct c1" "prefix c1 = prefix c" "framed c1 = framed c"
    using assms(1) prefix_stable [of c1 c] by (simp_all add: c1_def setChannel_def direct_def framed_def fun_eq_iff)
  have m: "MarshalHeader (getSendBuffer (MaxHeaderSize + length payload)) ?h =
      (go_copy (getSendBuffer (MaxHeaderSize + length payload)) 0 (header_enc ?h), Inr (length (header_enc ?h)))"
    using header_room_bounds(2) [of ?h] by (intro MarshalHeader_ok) (simp add: getSendBuffer_def MaxHeaderSize_def)
  have p: "take (length (header_enc ?h) + length payload)
      (go_copy (go_copy (getSendBuffer (MaxHeaderSize + length payload)) 0 (header_enc ?h)) (length (header_enc ?h)) payload)
      = header_enc ?h @ payload"
    using length_header_enc(2) [of ?h] by (simp add: go_copy_def getSendBuffer_def MaxHeaderSize_def)
  obtain n b u' where w: "writeEncrypted sf w (c1, u) = ((c1\<lparr>c_bytesSent := n, c_sendBW := b\<rparr>, u'), None)"
    "wire u' = wire u @ [prefix c @ framed c w]"
    using writeEncrypted_direct [OF c1(1), of w u] c1 by metis
  let ?c' = "trackSent i (ch_sendSeq ?ch + 1) (header_enc ?h @ payload) now (c1\<lparr>c_bytesSent := n, c_sendBW := b\<rparr>)"
  have "sendPacket sf flags i payload now (c, u) = ((?c', u'), None)"
    using w(1) enc m p
    by (simp add: sendPacket_def nextSequence_def ackState_def Let_def packetHeader_def ch_def c1_def setChannel_def)
  moreover have "c_sendCipher ?c' = s'" "same_sender c ?c'"
    "map ch_sendSeq (c_channels ?c') = (map ch_sendSeq (c_channels c))[unat i := ch_sendSeq ?ch + 1]"
    using assms(2) by (simp_all add: trackSent_def Let_def c1_def setChannel_def same_sender_def addPending_def ch_def
        map_update list_update_same_conv)
  ultimately show ?thesis using w(2) by blast
qed

end

section \<open>The receiver\<close>

text \<open>A receiving channel that has everything up to number \<open>q\<close>, the last one sent.\<close>

definition expects :: "u32 \<Rightarrow> channel \<Rightarrow> bool" where
  "expects q r \<longleftrightarrow> ch_recvAck r \<le> q \<and> ch_lastRecvSeq r \<le> q \<and>
     (ch_mode r = ReliableOrdered \<longrightarrow> ch_recvBuffer r = Some [] \<and> ch_recvNextDeliver r = q + 1)"

definition known_mode :: "DeliveryMode \<Rightarrow> bool" where
  "known_mode m \<longleftrightarrow> m = ReliableOrdered \<or> m = ReliableUnordered \<or> m = Unreliable \<or> m = UnreliableSequenced"

lemma word_next: "unat (q :: u32) < 2 ^ 32 - 1 \<Longrightarrow> q < q + 1 \<and> q + 1 \<noteq> 0 \<and> unat (q + 1) = unat q + 1"
proof -
  assume "unat q < 2 ^ 32 - 1"
  then have "unat (q + 1) = unat q + 1" by (simp add: unat_plus_if_size word_size)
  moreover from this have "q + 1 \<noteq> 0" by (metis add_is_0 one_neq_zero unat_0)
  ultimately show ?thesis by (simp add: word_less_nat_alt)
qed

lemma recordReceive_next:
  assumes "expects q r" "unat q < 2 ^ 32 - 1"
  obtains f where "recordReceive (q + 1) r = (r\<lparr>ch_recvAck := q + 1, ch_recvAckField := f, ch_needsAck := True\<rparr>, True)"
proof -
  note n = word_next [OF assms(2)]
  have w: "in_window r (q + 1)"
    using assms(1) by (auto simp: in_window_def expects_def word_neq_0_conv [symmetric])
  have lt: "ch_recvAck r < q + 1" using assms(1) n by (auto simp: expects_def)
  show thesis
  proof (cases "ch_recvAck r = 0")
    case True
    then show thesis using that recordReceive_first [OF _ w] n by auto
  next
    case False
    have "q + 1 \<noteq> 0" using n by blast
    from recordReceive_newer [OF this w False lt] show thesis
      by (intro that [of "ch_recvAckField (fst (recordReceive (q + 1) r))"]) simp
  qed
qed

lemma deliver_next:
  assumes "expects q r" "unat q < 2 ^ 32 - 1" "known_mode (ch_mode r)"
    and r1: "r1 = r\<lparr>ch_recvAck := q + 1, ch_recvAckField := f, ch_needsAck := b\<rparr>"
  obtains r2 where "deliver (q + 1) p r1 = Inr (r2, [p])" "expects (q + 1) r2" "ch_mode r2 = ch_mode r"
proof (cases "ch_mode r = ReliableOrdered")
  case True
  then have "drain [(q + 1, p)] (q + 1) = ([], q + 1 + 1, [p])"
    by (simp add: drain.simps)
  then show thesis
    using that [of "r1\<lparr>ch_recvBuffer := Some [], ch_recvNextDeliver := q + 1 + 1\<rparr>"] True assms word_next [OF assms(2)]
    by (auto simp: deliver_def deliverReliableOrdered_def expects_def)
next
  case False
  note n = word_next [OF assms(2)]
  have l: "ch_lastRecvSeq r < q + 1" using assms(1) n by (auto simp: expects_def)
  show thesis
  proof (cases "ch_mode r = UnreliableSequenced")
    case True
    then show thesis
      using that [of "r1\<lparr>ch_lastRecvSeq := q + 1\<rparr>"] assms(1) l False r1
      by (auto simp: deliver_def deliverUnreliableSequenced_def expects_def ReliableUnordered_def Unreliable_def UnreliableSequenced_def)
  next
    case seq: False
    then have "deliver (q + 1) p r1 = Inr (r1, [p])"
      using False assms(3) r1 by (auto simp: deliver_def known_mode_def deliverReliableUnordered_def deliverUnreliable_def)
    then show thesis using that [of r1] assms(1) l False r1 by (auto simp: expects_def)
  qed
qed

text \<open>A data packet with the next number, up to the delivery.\<close>

definition same_receiver :: "connection \<Rightarrow> connection \<Rightarrow> bool" where
  "same_receiver c c' \<longleftrightarrow> c_recvCipher c' = c_recvCipher c \<and> c_batchEnabled c' = c_batchEnabled c \<and>
     c_compress c' = c_compress c \<and> c_reassembly c' = c_reassembly c \<and>
     map ch_mode (c_channels c') = map ch_mode (c_channels c)"

lemma expects_pending [simp]:
  "expects q (r\<lparr>ch_pendingSend := ps, ch_pending := n\<rparr>) = expects q r"
  by (simp add: expects_def)

lemma handleDecrypted_data:
  assumes hdr: "Flags hdr AND FlagControl = 0" "unat (Channel hdr) < length (c_channels c)" "Sequence hdr = q + 1"
    and q: "expects q (c_channels c ! unat (Channel hdr))" "unat q < 2 ^ 32 - 1"
  obtains c1 r f where
    "handleDecrypted lib now (header_enc hdr @ body) c =
       (if Flags hdr AND FlagFragment \<noteq> 0 then handleFragment lib now hdr body c1
        else deliverMessages (Channel hdr) (q + 1) (Some body) c1)"
    "same_receiver c c1" "expects q r" "ch_mode r = ch_mode (c_channels c ! unat (Channel hdr))"
    "c_channels c1 = (c_channels c)[unat (Channel hdr) :=
       r\<lparr>ch_recvAck := q + 1, ch_recvAckField := f, ch_needsAck := True\<rparr>]"
proof -
  let ?i = "unat (Channel hdr)"
  obtain ps n rt cc l where a: "applyAcks now (Channel hdr) (Ack hdr) (AckField hdr) (c\<lparr>c_lastRecv := now\<rparr>) =
      c\<lparr>c_lastRecv := now, c_channels := (c_channels c)[?i := (c_channels c ! ?i)\<lparr>ch_pendingSend := ps, ch_pending := n\<rparr>],
        c_rtt := rt, c_cc := cc, c_loss := l\<rparr>"
    using applyAcks_frame [of now "Channel hdr" "Ack hdr" "AckField hdr" "c\<lparr>c_lastRecv := now\<rparr>"] by auto
  let ?r = "(c_channels c ! ?i)\<lparr>ch_pendingSend := ps, ch_pending := n\<rparr>"
  have "expects q ?r" using q(1) by simp
  then obtain f where rr: "recordReceive (q + 1) ?r = (?r\<lparr>ch_recvAck := q + 1, ch_recvAckField := f, ch_needsAck := True\<rparr>, True)"
    using recordReceive_next q(2) by blast
  let ?c1 = "c\<lparr>c_lastRecv := now, c_rtt := rt, c_cc := cc, c_loss := l,
        c_channels := (c_channels c)[?i := ?r\<lparr>ch_recvAck := q + 1, ch_recvAckField := f, ch_needsAck := True\<rparr>]\<rparr>"
  show thesis
  proof (rule that [of ?c1 ?r f])
    show "handleDecrypted lib now (header_enc hdr @ body) c =
       (if Flags hdr AND FlagFragment \<noteq> 0 then handleFragment lib now hdr body ?c1
        else deliverMessages (Channel hdr) (q + 1) (Some body) ?c1)"
      using hdr a rr by (simp add: handleDecrypted_def codec_simps conn_channel_def setChannel_def Let_def)
  qed (use q(1) hdr(2) in \<open>simp_all add: same_receiver_def map_update list_update_same_conv\<close>)
qed

lemma deliverTo_next:
  assumes "expects q r" "unat q < 2 ^ 32 - 1" "known_mode (ch_mode r)" "unat i < length (c_channels c)"
    and "c_channels c ! unat i = r\<lparr>ch_recvAck := q + 1, ch_recvAckField := f, ch_needsAck := b\<rparr>"
  obtains r2 where "deliverTo i (q + 1) p c = Inr (c\<lparr>c_channels := (c_channels c)[unat i := r2]\<rparr>, [p])"
    "expects (q + 1) r2" "ch_mode r2 = ch_mode r"
proof -
  obtain r2 where "deliver (q + 1) p (c_channels c ! unat i) = Inr (r2, [p])" "expects (q + 1) r2" "ch_mode r2 = ch_mode r"
    by (rule deliver_next [OF assms(1-3,5)])
  then show thesis using that by (simp add: deliverTo_def setChannel_def)
qed

section \<open>Peers\<close>

text \<open>
  The receiving connection \<open>c2\<close> is in step with the sending connection \<open>c1\<close>: it follows the
  cipher, every channel has received what was sent, nothing is half reassembled, and both ends
  compress alike.
\<close>

definition peers :: "connection \<Rightarrow> connection \<Rightarrow> bool" where
  "peers c1 c2 \<longleftrightarrow> in_sync (c_sendCipher c1) (c_recvCipher c2) \<and> c_batchEnabled c1 = c_batchEnabled c2 \<and>
     map ch_mode (c_channels c1) = map ch_mode (c_channels c2) \<and>
     list_all2 expects (map ch_sendSeq (c_channels c1)) (c_channels c2) \<and>
     c_compress c1 = c_compress c2"

text \<open>The sender can still number \<open>k\<close> packets.\<close>

definition room_for :: "nat \<Rightarrow> connection \<Rightarrow> bool" where
  "room_for k c \<longleftrightarrow> nonces_left (c_sendCipher c) k \<and> (\<forall>ch \<in> set (c_channels c). unat (ch_sendSeq ch) + k < 2 ^ 32)"

lemma list_all2_expects_update:
  assumes "list_all2 expects qs rs" "i < length rs" "expects q r"
  shows "list_all2 expects (qs[i := q]) (rs[i := r])"
  using assms by (auto simp: list_all2_conv_all_nth nth_list_update)

lemma room_for_step:
  assumes "room_for (Suc k) c" "nonces_left (c_sendCipher c') k"
    and "map ch_sendSeq (c_channels c') = (map ch_sendSeq (c_channels c))[i := ch_sendSeq (c_channels c ! i) + 1]"
    and "i < length (c_channels c)"
  shows "room_for k c'"
proof -
  have bound: "unat q + Suc k < 2 ^ 32" if "q \<in> set (map ch_sendSeq (c_channels c))" for q
    using assms(1) that by (auto simp: room_for_def)
  have "unat q + k < 2 ^ 32" if "q \<in> set (map ch_sendSeq (c_channels c'))" for q
  proof -
    have "q = ch_sendSeq (c_channels c ! i) + 1 \<or> q \<in> set (map ch_sendSeq (c_channels c))"
      using that assms(3) set_update_subset_insert by fastforce
    then show ?thesis
    proof
      assume q: "q = ch_sendSeq (c_channels c ! i) + 1"
      have "unat (x + 1) \<le> unat x + 1" for x :: u32
        using mod_less_eq_dividend [of "unat x + 1" "2 ^ 32"] by (simp add: unat_word_ariths)
      note this [of "ch_sendSeq (c_channels c ! i)"]
      moreover have "unat (ch_sendSeq (c_channels c ! i)) + Suc k < 2 ^ 32" using assms(4) by (intro bound) simp
      ultimately show ?thesis unfolding q by linarith
    qed (use bound in fastforce)
  qed
  then show ?thesis using assms(2) by (auto simp: room_for_def)
qed

lemma processConnData_framed:
  assumes "Decrypt (c_recvCipher c) w getDecryptBuffer = (r, Inr p)" "c_batchEnabled c0 = c_batchEnabled c" "length w < 2 ^ 16"
  shows "processConnData lib now (framed c0 w) c =
    handleDecrypted lib now p ((countReceived (length (framed c0 w)) c)\<lparr>c_recvCipher := r\<rparr>)"
proof (cases "c_batchEnabled c")
  case True
  have "UnmarshalBatch (frame [w]) = Inr [w]"
    using UnmarshalBatch_frame [of "[w]" "[]"] assms(3) by (simp add: framable_def)
  then show ?thesis
    using True assms by (auto simp: processConnData_def framed_def countReceived_def processPacket_def split: sum.splits)
next
  case False
  then show ?thesis using assms by (simp add: processConnData_def framed_def countReceived_def processPacket_def)
qed

lemma countReceived_simps [simp]:
  "c_recvCipher (countReceived n c) = c_recvCipher c" "c_channels (countReceived n c) = c_channels c"
  "c_batchEnabled (countReceived n c) = c_batchEnabled c" "c_compress (countReceived n c) = c_compress c"
  "c_reassembly (countReceived n c) = c_reassembly c"
  by (simp_all add: countReceived_def)

lemma peers_channel:
  assumes "peers c1 c2" "unat i < length (c_channels c1)"
  shows "unat i < length (c_channels c2)" "ch_mode (c_channels c2 ! unat i) = ch_mode (c_channels c1 ! unat i)"
    "expects (ch_sendSeq (c_channels c1 ! unat i)) (c_channels c2 ! unat i)"
proof -
  have m: "map ch_mode (c_channels c1) = map ch_mode (c_channels c2)"
    and e: "list_all2 expects (map ch_sendSeq (c_channels c1)) (c_channels c2)"
    using assms(1) by (simp_all add: peers_def)
  show l: "unat i < length (c_channels c2)" using e assms(2) by (auto dest: list_all2_lengthD)
  show "ch_mode (c_channels c2 ! unat i) = ch_mode (c_channels c1 ! unat i)"
    using arg_cong [OF m, of "\<lambda>xs. xs ! unat i"] l assms(2) by simp
  show "expects (ch_sendSeq (c_channels c1 ! unat i)) (c_channels c2 ! unat i)"
    using list_all2_nthD [OF e, of "unat i"] assms(2) by simp
qed

context transport
begin

text \<open>One packet: the sender writes it, the receiver accepts it, and whatever the receiver
  then delivers leaves the two ends in step again.\<close>

lemma packet_step:
  assumes peers: "peers c1 c2" and d: "direct c1" "room_for (Suc k) c1" "length payload \<le> 1160"
    and i: "unat i < length (c_channels c1)" "known_mode (ch_mode (c_channels c1 ! unat i))"
    and flags: "flags AND FlagControl = 0"
  defines "hdr \<equiv> packetHeader flags i c1"
  obtains c1' u' d c2' where
    "sendPacket sf flags i payload now (c1, u) = ((c1', u'), None)" "wire u' = wire u @ [prefix c1 @ d]"
    "same_sender c1 c1'" "room_for k c1'" "length (c_channels c1') = length (c_channels c1)"
    "processConnData lib now' d c2 =
       (if flags AND FlagFragment \<noteq> 0 then handleFragment lib now' hdr payload c2'
        else deliverMessages i (Sequence hdr) (Some payload) c2')"
    "c_reassembly c2' = c_reassembly c2" "c_compress c2' = c_compress c2"
    "\<And>s p. \<exists>c3. deliverTo i (Sequence hdr) p (c2'\<lparr>c_reassembly := s\<rparr>) = Inr (c3, [p]) \<and> peers c1' c3 \<and> c_reassembly c3 = s"
proof -
  let ?q = "ch_sendSeq (c_channels c1 ! unat i)" and ?p = "header_enc hdr @ payload"
  have sync: "in_sync (c_sendCipher c1) (c_recvCipher c2)" and left: "nonces_left (c_sendCipher c1) (Suc k)"
    using peers d(2) by (simp_all add: peers_def room_for_def)
  obtain s' w r' where e: "\<And>dst. Encrypt (c_sendCipher c1) ?p dst = (s', Inr w)"
    "\<And>dst. Decrypt (c_recvCipher c2) w dst = (r', Inr ?p)" "in_sync s' r'" "nonces_left s' k"
    and lw: "length w \<le> length ?p + WireOverhead"
    by (rule in_sync_step [OF sync left, of ?p]) blast
  obtain c1' u' where s: "sendPacket sf flags i payload now (c1, u) = ((c1', u'), None)"
    "wire u' = wire u @ [prefix c1 @ framed c1 w]" "c_sendCipher c1' = s'" "same_sender c1 c1'"
    "map ch_sendSeq (c_channels c1') = (map ch_sendSeq (c_channels c1))[unat i := ?q + 1]"
    using sendPacket_direct [OF d(1) i(1) e(1) [unfolded hdr_def]] by blast
  have len: "length (c_channels c1') = length (c_channels c1)"
    using arg_cong [OF s(5), of length] by simp
  have room: "room_for k c1'" by (rule room_for_step [OF d(2) _ s(5) i(1)]) (simp add: s(3) e(4))
  note pc = peers_channel [OF peers i(1)]
  have "unat ?q + Suc k < 2 ^ 32" using d(2) i(1) by (simp add: room_for_def)
  then have q: "unat ?q < 2 ^ 32 - 1" by simp
  have lw': "length w < 2 ^ 16"
    using lw d(3) length_header_enc(2) [of hdr] by (simp add: size_defs)
  let ?c = "(countReceived (length (framed c1 w)) c2)\<lparr>c_recvCipher := r'\<rparr>"
  have pd: "processConnData lib now' (framed c1 w) c2 = handleDecrypted lib now' ?p ?c"
    using processConnData_framed [OF e(2) _ lw', of c1] peers by (simp add: peers_def)
  have h: "Flags hdr = flags" "Channel hdr = i" "Sequence hdr = ?q + 1" by (simp_all add: hdr_def packetHeader_def Let_def)
  obtain c2' r f where c2': "handleDecrypted lib now' ?p ?c =
       (if flags AND FlagFragment \<noteq> 0 then handleFragment lib now' hdr payload c2' else deliverMessages i (?q + 1) (Some payload) c2')"
    "same_receiver ?c c2'" "expects ?q r" "ch_mode r = ch_mode (c_channels c2 ! unat i)"
    "c_channels c2' = (c_channels c2)[unat i := r\<lparr>ch_recvAck := ?q + 1, ch_recvAckField := f, ch_needsAck := True\<rparr>]"
    using handleDecrypted_data [of hdr ?c ?q lib now' payload] flags pc q h by auto
  have deliver: "\<exists>c3. deliverTo i (Sequence hdr) p (c2'\<lparr>c_reassembly := s\<rparr>) = Inr (c3, [p]) \<and> peers c1' c3 \<and> c_reassembly c3 = s" for s p
  proof -
    let ?c2s = "c2'\<lparr>c_reassembly := s\<rparr>"
    obtain r2 where r2: "deliverTo i (?q + 1) p ?c2s = Inr (?c2s\<lparr>c_channels := (c_channels ?c2s)[unat i := r2]\<rparr>, [p])"
      "expects (?q + 1) r2" "ch_mode r2 = ch_mode r"
      by (rule deliverTo_next [OF c2'(3) q, where i = i and c = ?c2s and f = f and b = True and p = p]) (use i pc c2'(4,5) in auto)
    have "map ch_mode ((c_channels c2)[unat i := r2]) = map ch_mode (c_channels c2)"
      using r2(3) c2'(4) pc by (simp add: map_update list_update_same_conv)
    then have "map ch_mode (c_channels c1') = map ch_mode ((c_channels c2)[unat i := r2])"
      using s(4) peers by (simp add: same_sender_def peers_def)
    moreover have "list_all2 expects (map ch_sendSeq (c_channels c1')) ((c_channels c2)[unat i := r2])"
      unfolding s(5) using peers pc(1) r2(2) by (intro list_all2_expects_update) (simp_all add: peers_def)
    ultimately have "peers c1' (?c2s\<lparr>c_channels := (c_channels ?c2s)[unat i := r2]\<rparr>)"
      using peers s(3,4) e(3) c2'(2,5) by (simp add: peers_def same_sender_def same_receiver_def)
    moreover have "c_reassembly (?c2s\<lparr>c_channels := (c_channels ?c2s)[unat i := r2]\<rparr>) = s" by simp
    ultimately show ?thesis using r2(1) unfolding h(3) by blast
  qed
  show thesis
    by (rule that [OF s(1,2,4) room len, of c2']) (use pd c2'(1,2) h(3) deliver in \<open>simp_all add: same_receiver_def\<close>)
qed

end

lemma wire_fragment_simps:
  "UnmarshalFragmentHeader (wire_fragment k flags payload j) = Inr (frag_hdr k flags (fragmentCount payload) j, 5)"
  "drop 5 (wire_fragment k flags payload j) = chunk payload j"
  "length (wire_fragment k flags payload j) \<le> 1160"
  "FragmentFlags (frag_hdr k flags n j) = flags"
  by (simp_all add: wire_fragment_def codec_simps frag_hdr_def chunk_def MaxFragmentPayload_val)

lemma split_fragments:
  "length payload \<le> 255 * 1155 \<Longrightarrow>
     splitMessage payload k flags = Inr (map (wire_fragment k flags payload) [0..<fragmentCount payload])"
  by (simp add: splitMessage_eq wire_fragment_def)

lemma reassembly_id: "c\<lparr>c_reassembly := c_reassembly c\<rparr> = c"
  by simp

lemma handleFragment_wire:
  assumes "fits s0 k payload" "c_reassembly c = pstate s0 k payload flags now {..<j}" "j < fragmentCount payload"
  shows "handleFragment lib now hdr (wire_fragment k flags payload j) c =
    (if Suc j = fragmentCount payload
     then case decompressOn lib (c_compress c) payload flags of
            Inl e \<Rightarrow> Inl e
          | Inr (Inl e) \<Rightarrow> Inr (c\<lparr>c_reassembly := s0\<rparr>, [OnError e])
          | Inr (Inr m) \<Rightarrow> deliverMessages (Channel hdr) (Sequence hdr) m (c\<lparr>c_reassembly := s0\<rparr>)
     else case deliverTo (Channel hdr) (Sequence hdr) None (c\<lparr>c_reassembly := pstate s0 k payload flags now {..<Suc j}\<rparr>) of
            Inl e \<Rightarrow> Inl e
          | Inr (c, msgs) \<Rightarrow> Inr (c, []))"
proof -
  have "insert j {..<j} = {..<Suc j}" by auto
  then have "addFragment now (c_reassembly c) (frag_hdr k flags (fragmentCount payload) j) (chunk payload j) =
      (if Suc j = fragmentCount payload then (s0, Inr (Some payload))
       else (pstate s0 k payload flags now {..<Suc j}, Inr None))"
    using addFragment_partial [OF assms(1), of "{..<j}" j now now flags] assms(2,3) by auto
  then show ?thesis by (simp add: handleFragment_def wire_fragment_simps Let_def)
qed

context transport
begin

lemma single_arrives:
  assumes "peers c1 c2" "direct c1" "room_for (Suc k) c1" "length payload \<le> 1160"
    and "unat i < length (c_channels c1)" "known_mode (ch_mode (c_channels c1 ! unat i))"
  shows "\<exists>c1' u' d c2'. sendSinglePacket sf i payload now (c1, u) = ((c1', u'), None) \<and>
    wire u' = wire u @ [prefix c1 @ d] \<and> same_sender c1 c1' \<and> room_for k c1' \<and>
    receiveDatagrams lib now' [d] c2 = Inr (c2', [OnMessage payload i]) \<and> peers c1' c2' \<and>
    c_reassembly c2' = c_reassembly c2"
proof -
  have f: "(0 :: byte) AND FlagControl = 0" by simp
  obtain c1' u' d c2' where p: "sendPacket sf 0 i payload now (c1, u) = ((c1', u'), None)" "wire u' = wire u @ [prefix c1 @ d]"
    "same_sender c1 c1'" "room_for k c1'"
    "processConnData lib now' d c2 = deliverMessages i (Sequence (packetHeader 0 i c1)) (Some payload) c2'"
    "c_reassembly c2' = c_reassembly c2"
    "\<And>s p. \<exists>c3. deliverTo i (Sequence (packetHeader 0 i c1)) p (c2'\<lparr>c_reassembly := s\<rparr>) = Inr (c3, [p]) \<and> peers c1' c3 \<and> c_reassembly c3 = s"
    by (rule packet_step [OF assms f, of now u lib now']) auto
  obtain c3 where c3: "deliverTo i (Sequence (packetHeader 0 i c1)) (Some payload) c2' = Inr (c3, [Some payload])"
    "peers c1' c3" "c_reassembly c3 = c_reassembly c2"
    using p(7) [of "Some payload" "c_reassembly c2'"] p(6) unfolding reassembly_id by metis
  have "peers (c1'\<lparr>c_lastSend := now\<rparr>) c3" "same_sender c1 (c1'\<lparr>c_lastSend := now\<rparr>)" "room_for k (c1'\<lparr>c_lastSend := now\<rparr>)"
    using c3(2) p(3,4) by (simp_all add: peers_def same_sender_def room_for_def)
  then show ?thesis
    using p(1,2,5) c3 by (intro exI [of _ "c1'\<lparr>c_lastSend := now\<rparr>"] exI [of _ u'] exI [of _ d] exI [of _ c3])
      (simp add: sendSinglePacket_def deliverMessages_def messages_def)
qed

lemma fragment_step:
  assumes fit: "fits s0 k payload" and msg: "decompressOn lib (c_compress c1) payload flags = Inr (Inr (Some msg))"
    and peers: "peers c1 c2" and d: "direct c1" "room_for (Suc m) c1"
    and st: "c_reassembly c2 = pstate s0 k payload flags now' {..<j}" "j < fragmentCount payload"
    and i: "unat i < length (c_channels c1)" "known_mode (ch_mode (c_channels c1 ! unat i))"
  defines "fin \<equiv> Suc j = fragmentCount payload"
  obtains c1' u' d c3 where
    "sendPacket sf FlagFragment i (wire_fragment k flags payload j) now (c1, u) = ((c1', u'), None)"
    "wire u' = wire u @ [prefix c1 @ d]" "same_sender c1 c1'" "room_for m c1'"
    "processConnData lib now' d c2 = Inr (c3, if fin then [OnMessage msg i] else [])" "peers c1' c3"
    "c_reassembly c3 = (if fin then s0 else pstate s0 k payload flags now' {..<Suc j})"
proof -
  let ?h = "packetHeader FlagFragment i c1" and ?w = "wire_fragment k flags payload j"
  have f: "FlagFragment AND FlagControl = 0" "FlagFragment AND FlagFragment \<noteq> 0" by (simp_all add: FlagFragment_def FlagControl_def)
  have h: "Channel ?h = i" by (simp add: packetHeader_def Let_def)
  obtain c1' u' d c2' where p: "sendPacket sf FlagFragment i ?w now (c1, u) = ((c1', u'), None)"
    "wire u' = wire u @ [prefix c1 @ d]" "same_sender c1 c1'" "room_for m c1'"
    and rcv: "processConnData lib now' d c2 = (if FlagFragment AND FlagFragment \<noteq> 0
      then handleFragment lib now' ?h ?w c2' else deliverMessages i (Sequence ?h) (Some ?w) c2')"
    and c2': "c_reassembly c2' = c_reassembly c2" "c_compress c2' = c_compress c2"
    and del: "\<And>s p. \<exists>c3. deliverTo i (Sequence ?h) p (c2'\<lparr>c_reassembly := s\<rparr>) = Inr (c3, [p]) \<and> peers c1' c3 \<and> c_reassembly c3 = s"
    by (rule packet_step [OF peers d wire_fragment_simps(3) i f(1)]) blast
  have r: "processConnData lib now' d c2 = handleFragment lib now' ?h ?w c2'" using rcv f(2) by simp
  have cm: "c_compress c2' = c_compress c1" using c2'(2) peers by (simp add: peers_def)
  have st': "c_reassembly c2' = pstate s0 k payload flags now' {..<j}" using c2'(1) st(1) by simp
  note hf = handleFragment_wire [OF fit st' st(2), of lib ?h, unfolded h cm msg]
  show thesis
  proof (cases fin)
    case True
    obtain c3 where c3: "deliverTo i (Sequence ?h) (Some msg) (c2'\<lparr>c_reassembly := s0\<rparr>) = Inr (c3, [Some msg])"
      "peers c1' c3" "c_reassembly c3 = s0" using del by blast
    have "processConnData lib now' d c2 = Inr (c3, [OnMessage msg i])"
      unfolding r hf using True c3(1) by (simp add: deliverMessages_def messages_def fin_def)
    then show thesis using that [OF p _ c3(2)] c3(3) True by simp
  next
    case False
    let ?s = "pstate s0 k payload flags now' {..<Suc j}"
    obtain c3 where c3: "deliverTo i (Sequence ?h) None (c2'\<lparr>c_reassembly := ?s\<rparr>) = Inr (c3, [None])"
      "peers c1' c3" "c_reassembly c3 = ?s" using del by blast
    have "processConnData lib now' d c2 = Inr (c3, [])"
      unfolding r hf using False c3(1) by (simp add: fin_def)
    then show thesis using that [OF p _ c3(2)] c3(3) False by simp
  qed
qed

lemma fragments_arrive:
  assumes "fits s0 k payload" "decompressOn lib (c_compress c1) payload flags = Inr (Inr (Some msg))"
    and "peers c1 c2" "direct c1" "room_for (x + Suc m) c1"
    and "c_reassembly c2 = pstate s0 k payload flags now' {..<j}" "fragmentCount payload = j + Suc x"
    and "unat i < length (c_channels c1)" "known_mode (ch_mode (c_channels c1 ! unat i))"
  shows "\<exists>c1' u' ds c2'. sendFragments sf i (map (wire_fragment k flags payload) [j..<fragmentCount payload]) now (c1, u) =
      ((c1', u'), None) \<and>
    wire u' = wire u @ map ((@) (prefix c1)) ds \<and> same_sender c1 c1' \<and> room_for m c1' \<and>
    receiveDatagrams lib now' ds c2 = Inr (c2', [OnMessage msg i]) \<and> peers c1' c2' \<and> c_reassembly c2' = s0"
  using assms(2-)
proof (induction x arbitrary: j c1 c2 u)
  case 0
  have j: "j < fragmentCount payload" and last: "Suc j = fragmentCount payload" and room: "room_for (Suc m) c1"
    using 0 by simp_all
  obtain c1' u' d c3 where p: "sendPacket sf FlagFragment i (wire_fragment k flags payload j) now (c1, u) = ((c1', u'), None)"
    "wire u' = wire u @ [prefix c1 @ d]" "same_sender c1 c1'" "room_for m c1'"
    "processConnData lib now' d c2 = Inr (c3, if Suc j = fragmentCount payload then [OnMessage msg i] else [])" "peers c1' c3"
    "c_reassembly c3 = (if Suc j = fragmentCount payload then s0 else pstate s0 k payload flags now' {..<Suc j})"
    by (rule fragment_step [OF assms(1) 0(1-3) room 0(5) j 0(7,8)])
  have "receiveDatagrams lib now' [d] c2 = Inr (c3, [OnMessage msg i])" "c_reassembly c3 = s0"
    using p(5,7) last by simp_all
  moreover have "sendFragments sf i (map (wire_fragment k flags payload) [j..<fragmentCount payload]) now (c1, u) = ((c1', u'), None)"
    using p(1) last by (simp add: upt_conv_Cons)
  moreover have "wire u' = wire u @ map ((@) (prefix c1)) [d]" using p(2) by simp
  ultimately show ?case using p(3,4,6) by blast
next
  case (Suc x)
  have j: "j < fragmentCount payload" and nl: "Suc j \<noteq> fragmentCount payload" and x: "fragmentCount payload = Suc j + Suc x"
    and room: "room_for (Suc (x + Suc m)) c1"
    using Suc.prems(4,6) by simp_all
  obtain c1' u' d c3 where p: "sendPacket sf FlagFragment i (wire_fragment k flags payload j) now (c1, u) = ((c1', u'), None)"
    "wire u' = wire u @ [prefix c1 @ d]" "same_sender c1 c1'" "room_for (x + Suc m) c1'"
    "processConnData lib now' d c2 = Inr (c3, if Suc j = fragmentCount payload then [OnMessage msg i] else [])" "peers c1' c3"
    "c_reassembly c3 = (if Suc j = fragmentCount payload then s0 else pstate s0 k payload flags now' {..<Suc j})"
    by (rule fragment_step [OF assms(1) Suc.prems(1-3) room Suc.prems(5) j Suc.prems(7,8)])
  have c3: "c_reassembly c3 = pstate s0 k payload flags now' {..<Suc j}" "processConnData lib now' d c2 = Inr (c3, [])"
    using p(5,7) nl by simp_all
  have c1': "decompressOn lib (c_compress c1') payload flags = Inr (Inr (Some msg))" "direct c1'" "unat i < length (c_channels c1')"
    "known_mode (ch_mode (c_channels c1' ! unat i))" and pre: "prefix c1' = prefix c1"
    using p(3) Suc.prems(1,3,7,8) same_sender_direct [OF p(3)] prefix_stable [of c1' c1] same_sender_mode [OF p(3) Suc.prems(7)]
    by (simp_all add: same_sender_def)
  obtain c1'' u'' ds c2'' where r: "sendFragments sf i (map (wire_fragment k flags payload) [Suc j..<fragmentCount payload]) now (c1', u') =
      ((c1'', u''), None)" "wire u'' = wire u' @ map ((@) (prefix c1)) ds" "same_sender c1' c1''" "room_for m c1''"
    "receiveDatagrams lib now' ds c3 = Inr (c2'', [OnMessage msg i])" "peers c1'' c2''" "c_reassembly c2'' = s0"
    using Suc.IH [OF c1'(1) p(6) c1'(2) p(4) c3(1) x c1'(3,4), of u'] unfolding pre by blast
  have "sendFragments sf i (map (wire_fragment k flags payload) [j..<fragmentCount payload]) now (c1, u) = ((c1'', u''), None)"
    using j p(1) r(1) by (simp add: upt_conv_Cons)
  moreover have "wire u'' = wire u @ map ((@) (prefix c1)) (d # ds)" using p(2) r(2) by simp
  moreover have "receiveDatagrams lib now' (d # ds) c2 = Inr (c2'', [OnMessage msg i])" using c3(2) r(5) by simp
  ultimately show ?case using r(4,6,7) same_sender_trans [OF p(3) r(3)] by blast
qed

end

section \<open>Messages\<close>

text \<open>A store in which nothing is half reassembled, and any message fits.\<close>

definition idle_store :: "reassemblyStore \<Rightarrow> bool" where
  "idle_store s \<longleftrightarrow> rs_buffers s = [] \<and> rs_totalBytes s = 0 \<and> (0 < rs_maxBytes s \<longrightarrow> 255 * 1155 \<le> rs_maxBytes s)"

lemma idle_store_fits: "idle_store s \<Longrightarrow> length payload \<le> 255 * 1155 \<Longrightarrow> fits s k payload"
  by (auto simp: idle_store_def fits_def)

text \<open>Messages sent one after the other with \<open>SendImmediate\<close>, and the errors it returned.\<close>

fun sendMessages ::
  "comp_lib \<Rightarrow> 'u st sendFunc \<Rightarrow> (bytes \<times> byte) list \<Rightarrow> time \<Rightarrow> 'u st \<Rightarrow> 'u st \<times> fw_error option list" where
  "sendMessages lib sf [] now s = (s, [])"
| "sendMessages lib sf (m # ms) now s =
     (let (s, e) = SendImmediate lib (Some sf) (fst m) (snd m) now s; (s, es) = sendMessages lib sf ms now s in (s, e # es))"

text \<open>The messages that can be sent: on a channel of a known mode, small enough for 255
  fragments, and not an input the compressor fails on.\<close>

definition sendable :: "comp_lib \<Rightarrow> compressorPool \<Rightarrow> connection \<Rightarrow> bytes \<times> byte \<Rightarrow> bool" where
  "sendable lib pool c m \<longleftrightarrow> unat (snd m) < length (c_channels c) \<and> known_mode (ch_mode (c_channels c ! unat (snd m))) \<and>
     length (fst m) \<le> 255 * 1155 \<and> (\<exists>r. compressPayload lib pool (fst m) = Inr r)"

lemma room_for_mono: "room_for k c \<Longrightarrow> j \<le> k \<Longrightarrow> room_for j c"
  by (force simp: room_for_def nonces_left_def)

lemma decompressOn_sent:
  assumes "comp_lib_ok lib" "newCompressorPool lib cfg = Inr pool" "length data \<le> 255 * 1155"
    and "compressPayload lib pool data = Inr (payload, flags)"
  shows "decompressOn lib (Some pool) payload flags = Inr (Inr (Some data))" "length payload \<le> 255 * 1155"
  using compress_decompress [OF assms(1,2) _ assms(4)] compress_not_nil [OF _ assms(4)] assms(3)
  by (auto simp: decompressOn_def MaxDecompressedSize_def)

lemma compressPayload_plain:
  assumes "compressPayload lib pool data = Inr (payload, 0)"
  shows "payload = data"
proof -
  have "FragFlagCompressed OR FragFlagZstd \<noteq> 0" by (simp add: FragFlagCompressed_def FragFlagZstd_def)
  then show ?thesis
    using assms by (auto simp: compressPayload_def Let_def split: option.splits sum.splits if_splits)
qed

text \<open>A transport is in particular a \<open>sendFunc\<close> that only counts.\<close>

sublocale transport \<subseteq> net: counting sf
proof
  show "\<exists>n b u' err. sf (c, u) d = ((c\<lparr>c_bytesSent := n, c_sendBW := b\<rparr>, u'), err)" for c u d
    using sf_sends [of c u d] by blast
  show "snd (sf (c, u) d) = Some e \<Longrightarrow> \<not> is_panic e" for c u d e
    using sf_sends [of c u d] by auto
qed

context transport
begin

lemma fragmented_arrives:
  assumes "peers c1 c2" "direct c1" "room_for (255 + m) c1" "idle_store (c_reassembly c2)" "length payload \<le> 255 * 1155"
    and "decompressOn lib (c_compress c1) payload flags = Inr (Inr (Some msg))"
    and "unat i < length (c_channels c1)" "known_mode (ch_mode (c_channels c1 ! unat i))"
  shows "\<exists>c1' u' ds c2'. sendFragmented sf i payload flags now (c1, u) = ((c1', u'), None) \<and>
    wire u' = wire u @ map ((@) (prefix c1)) ds \<and> same_sender c1 c1' \<and> room_for m c1' \<and>
    receiveDatagrams lib now' ds c2 = Inr (c2', [OnMessage msg i]) \<and> peers c1' c2' \<and> c_reassembly c2' = c_reassembly c2"
proof -
  let ?c = "fst (nextFragmentID c1)" and ?k = "snd (nextFragmentID c1)" and ?s0 = "c_reassembly c2"
  obtain x where x: "fragmentCount payload = Suc x" "Suc x \<le> 255"
    using fragmentCount_ge1 [of payload] fragmentCount_le [of payload] assms(5)
    by (cases "fragmentCount payload") (auto simp: MaxFragments_def)
  have c: "peers ?c c2" "direct ?c" "same_sender c1 ?c" "room_for (x + Suc m) ?c" "prefix ?c = prefix c1"
    "unat i < length (c_channels ?c)" "known_mode (ch_mode (c_channels ?c ! unat i))"
    "decompressOn lib (c_compress ?c) payload flags = Inr (Inr (Some msg))"
    using assms prefix_stable [of ?c c1] room_for_mono [OF assms(3), of "x + Suc m"] x(2)
    by (simp_all add: nextFragmentID_def Let_def peers_def direct_def same_sender_def room_for_def)
  have st: "c_reassembly c2 = pstate ?s0 ?k payload flags now' {..<0}" by (simp add: pstate_def)
  obtain c1' u' ds c2' where r: "sendFragments sf i (map (wire_fragment ?k flags payload) [0..<fragmentCount payload]) now (?c, u) =
      ((c1', u'), None)" "wire u' = wire u @ map ((@) (prefix c1)) ds" "same_sender ?c c1'" "room_for m c1'"
    "receiveDatagrams lib now' ds c2 = Inr (c2', [OnMessage msg i])" "peers c1' c2'" "c_reassembly c2' = ?s0"
    using fragments_arrive [OF idle_store_fits [OF assms(4,5)] c(8,1,2,4) st _ c(6,7), of now u] x(1) c(5) by auto
  have "sendFragmented sf i payload flags now (c1, u) = ((c1'\<lparr>c_lastSend := now\<rparr>, u'), None)"
    using r(1) by (simp add: sendFragmented_def split_fragments [OF assms(5)] split_beta)
  moreover have "same_sender c1 (c1'\<lparr>c_lastSend := now\<rparr>)" "room_for m (c1'\<lparr>c_lastSend := now\<rparr>)" "peers (c1'\<lparr>c_lastSend := now\<rparr>) c2'"
    using same_sender_trans [OF c(3) r(3)] r(4,6) by (simp_all add: same_sender_def room_for_def peers_def)
  ultimately show ?thesis using r(2,5,7) by blast
qed

lemma message_arrives:
  assumes "comp_lib_ok lib" "newCompressorPool lib cfg = Inr pool" "c_compress c1 = Some pool"
    and "peers c1 c2" "direct c1" "room_for (255 + m) c1" "idle_store (c_reassembly c2)" "sendable lib pool c1 (data, i)"
  shows "\<exists>c1' u' ds c2'. sendMessage lib sf data i now (c1, u) = ((c1', u'), None) \<and>
    wire u' = wire u @ map ((@) (prefix c1)) ds \<and> same_sender c1 c1' \<and> room_for m c1' \<and>
    receiveDatagrams lib now' ds c2 = Inr (c2', [OnMessage data i]) \<and> peers c1' c2' \<and> c_reassembly c2' = c_reassembly c2"
proof -
  obtain payload flags where z: "compressPayload lib pool data = Inr (payload, flags)"
    and len: "length data \<le> 255 * 1155" and i: "unat i < length (c_channels c1)" "known_mode (ch_mode (c_channels c1 ! unat i))"
    using assms(8) by (auto simp: sendable_def)
  note dz = decompressOn_sent [OF assms(1,2) len z]
  have sm: "sendMessage lib sf data i now (c1, u) =
      (if MaxFragmentPayload < length payload \<or> flags \<noteq> 0 then sendFragmented sf i payload flags now (c1, u)
       else sendSinglePacket sf i payload now (c1, u))"
    using assms(3) z i(1) by (simp add: sendMessage_def conn_channel_def)
  show ?thesis
  proof (cases "MaxFragmentPayload < length payload \<or> flags \<noteq> 0")
    case True
    show ?thesis
      using fragmented_arrives [OF assms(4-7) dz(2) _ i, where lib = lib and flags = flags and msg = data and now = now and u = u and now' = now'] dz(1)
      unfolding sm using True assms(3) by simp
  next
    case False
    then have "payload = data" using compressPayload_plain z by simp
    with False have p: "payload = data" "length data \<le> 1160" by (auto simp: MaxFragmentPayload_val)
    have "room_for (Suc m) c1" by (rule room_for_mono [OF assms(6)]) simp
    from single_arrives [OF assms(4,5) this p(2) i, where now = now and u = u and lib = lib and now' = now']
    obtain c1' u' d c2' where "sendSinglePacket sf i data now (c1, u) = ((c1', u'), None)" "wire u' = wire u @ map ((@) (prefix c1)) [d]"
      "same_sender c1 c1'" "room_for m c1'" "receiveDatagrams lib now' [d] c2 = Inr (c2', [OnMessage data i])" "peers c1' c2'"
      "c_reassembly c2' = c_reassembly c2" by auto
    moreover have "sendMessage lib sf data i now (c1, u) = sendSinglePacket sf i data now (c1, u)"
      using sm False p(1) by simp
    ultimately show ?thesis by (metis (no_types, lifting))
  qed
qed

lemma immediate_arrives:
  assumes "comp_lib_ok lib" "newCompressorPool lib cfg = Inr pool" "c_compress c1 = Some pool"
    and "peers c1 c2" "c_state c1 = StateConnected" "\<not> c_skipBatch c1" "room_for (255 + m) c1" "idle_store (c_reassembly c2)"
    and "sendable lib pool c1 (data, i)"
  shows "\<exists>c1' u' ds c2'. SendImmediate lib (Some sf) data i now (c1, u) = ((c1', u'), None) \<and>
    wire u' = wire u @ map ((@) (prefix c1)) ds \<and> same_sender c1 c1' \<and> c_state c1' = StateConnected \<and> room_for m c1' \<and>
    receiveDatagrams lib now' ds c2 = Inr (c2', [OnMessage data i]) \<and> peers c1' c2' \<and> c_reassembly c2' = c_reassembly c2"
proof -
  let ?c = "c1\<lparr>c_skipBatch := True\<rparr>"
  have c: "c_compress ?c = Some pool" "peers ?c c2" "direct ?c" "room_for (255 + m) ?c" "sendable lib pool ?c (data, i)"
    using assms by (simp_all add: peers_def direct_def room_for_def sendable_def)
  have pre: "prefix ?c = prefix c1" by (rule prefix_stable) simp_all
  obtain c' u' ds c2' where s: "sendMessage lib sf data i now (?c, u) = ((c', u'), None)"
    "wire u' = wire u @ map ((@) (prefix c1)) ds" "same_sender ?c c'" "room_for m c'"
    "receiveDatagrams lib now' ds c2 = Inr (c2', [OnMessage data i])" "peers c' c2'" "c_reassembly c2' = c_reassembly c2"
    using message_arrives [OF assms(1,2) c(1-4) assms(8) c(5), of now u now'] unfolding pre by blast
  have "c_state c' = StateConnected"
    using net.sendMessage_sends [of ?c lib data i now u] s(1) assms(5) by (simp add: sends_def keeps_def)
  moreover have "SendImmediate lib (Some sf) data i now (c1, u) = ((c'\<lparr>c_skipBatch := False\<rparr>, u'), None)"
    using s(1) assms(5,9) by (simp add: SendImmediate_def sendable_def)
  moreover have "same_sender c1 (c'\<lparr>c_skipBatch := False\<rparr>)" "room_for m (c'\<lparr>c_skipBatch := False\<rparr>)" "peers (c'\<lparr>c_skipBatch := False\<rparr>) c2'"
    using s(3,4,6) assms(6) by (simp_all add: same_sender_def room_for_def peers_def)
  ultimately show ?thesis
    using s(2,5,7) by (intro exI [of _ "c'\<lparr>c_skipBatch := False\<rparr>"] exI [of _ u'] exI [of _ ds] exI [of _ c2']) simp
qed

lemma messages_arrive:
  assumes "comp_lib_ok lib" "newCompressorPool lib cfg = Inr pool"
    and "c_compress c1 = Some pool" "peers c1 c2" "c_state c1 = StateConnected" "\<not> c_skipBatch c1"
    and "room_for (255 * length ms + k) c1" "idle_store (c_reassembly c2)" "\<forall>m \<in> set ms. sendable lib pool c1 m"
  shows "\<exists>c1' u' ds c2'. sendMessages lib sf ms now (c1, u) = ((c1', u'), replicate (length ms) None) \<and>
    wire u' = wire u @ map ((@) (prefix c1)) ds \<and>
    receiveDatagrams lib now' ds c2 = Inr (c2', map (\<lambda>(data, i). OnMessage data i) ms) \<and> peers c1' c2' \<and>
    same_sender c1 c1' \<and> c_state c1' = StateConnected \<and> room_for k c1' \<and> c_reassembly c2' = c_reassembly c2"
  using assms(3-)
proof (induction ms arbitrary: c1 c2 u)
  case (Cons m ms)
  obtain data i where m: "m = (data, i)" by (cases m)
  have room: "room_for (255 + (255 * length ms + k)) c1" using Cons.prems(5) by (simp add: add.assoc)
  obtain c1' u' ds c2' where s: "SendImmediate lib (Some sf) data i now (c1, u) = ((c1', u'), None)"
    "wire u' = wire u @ map ((@) (prefix c1)) ds" "same_sender c1 c1'" "c_state c1' = StateConnected" "room_for (255 * length ms + k) c1'"
    "receiveDatagrams lib now' ds c2 = Inr (c2', [OnMessage data i])" "peers c1' c2'" "c_reassembly c2' = c_reassembly c2"
    using immediate_arrives [OF assms(1,2) Cons.prems(1-4) room Cons.prems(6), of data i now u now'] Cons.prems(7) m by auto
  have sendable: "\<forall>m \<in> set ms. sendable lib pool c1' m"
    using Cons.prems(7) same_sender_mode [OF s(3)] by (auto simp: sendable_def)
  have c1': "c_compress c1' = Some pool" "\<not> c_skipBatch c1'" "prefix c1' = prefix c1" "idle_store (c_reassembly c2')"
    using s(3,8) Cons.prems(1,4,6) prefix_stable [of c1' c1] by (simp_all add: same_sender_def)
  obtain c1'' u'' ds' c2'' where r: "sendMessages lib sf ms now (c1', u') = ((c1'', u''), replicate (length ms) None)"
    "wire u'' = wire u' @ map ((@) (prefix c1)) ds'"
    "receiveDatagrams lib now' ds' c2' = Inr (c2'', map (\<lambda>(data, i). OnMessage data i) ms)" "peers c1'' c2''"
    "same_sender c1' c1''" "c_state c1'' = StateConnected" "room_for k c1''" "c_reassembly c2'' = c_reassembly c2'"
    using Cons.IH [OF c1'(1) s(7,4) c1'(2) s(5) c1'(4) sendable, of u'] unfolding c1'(3) by blast
  have "receiveDatagrams lib now' (ds @ ds') c2 = Inr (c2'', map (\<lambda>(data, i). OnMessage data i) (m # ms))"
    using receiveDatagrams_append [OF s(6) r(3)] m by simp
  moreover have "wire u'' = wire u @ map ((@) (prefix c1)) (ds @ ds')" using s(2) r(2) by simp
  moreover have "sendMessages lib sf (m # ms) now (c1, u) = ((c1'', u''), replicate (length (m # ms)) None)"
    using s(1) r(1) by (simp add: m)
  moreover have "same_sender c1 c1''" "c_reassembly c2'' = c_reassembly c2"
    using same_sender_trans [OF s(3) r(5)] s(8) r(8) by simp_all
  ultimately show ?case using r(4,6,7) by blast
qed auto

end

section \<open>Closing\<close>

lemma handleDecrypted_disconnect:
  assumes "c_channels c \<noteq> []"
  shows "handleDecrypted lib now disconnect_enc c =
    Inr (teardown (applyAcks now 0 0 0 (c\<lparr>c_lastRecv := now\<rparr>)), [RemoveConnection, OnDisconnect DisconnectGraceful])"
  using assms
  by (simp add: handleDecrypted_def disconnect_enc_def codec_simps controlHeader_def conn_channel_def Let_def
      handleControl_def control_type_defs FlagControl_def)

context transport
begin

text \<open>The packet of \<open>Close\<close> ends the connection at the other end, too.\<close>

lemma close_reaches_peer:
  assumes "peers c1 c2" "room_for 1 c1" "c_state c1 = StateConnected" "c_channels c1 \<noteq> []"
  shows "\<exists>c1' u' d c2'. Close (Some sf) now (c1, u) = ((c1', u'), None) \<and> c_state c1' = StateDisconnecting \<and>
    wire u' = wire u @ [prefix c1 @ d] \<and>
    processConnData lib now' d c2 = Inr (c2', [RemoveConnection, OnDisconnect DisconnectGraceful]) \<and>
    c_state c2' = StateDisconnected"
proof -
  have sync: "in_sync (c_sendCipher c1) (c_recvCipher c2)" "nonces_left (c_sendCipher c1) (Suc 0)"
    using assms(1,2) by (simp_all add: peers_def room_for_def)
  obtain k w r where e: "\<And>dst. Encrypt (c_sendCipher c1) disconnect_enc dst = (k, Inr w)"
    "\<And>dst. Decrypt (c_recvCipher c2) w dst = (r, Inr disconnect_enc)" and lw: "length w \<le> length disconnect_enc + WireOverhead"
    by (rule in_sync_step [OF sync, of disconnect_enc]) blast
  define pkt where "pkt = framed c1 w"
  let ?c = "c1\<lparr>c_state := StateDisconnecting, c_sendCipher := k, c_disconnectPacket := Some pkt,
      c_disconnectRetries := 0, c_nextDisconnectRetry := now + RTO (c_rtt c1)\<rparr>"
  obtain n b u' where s: "sf (?c, u) pkt = ((?c\<lparr>c_bytesSent := n, c_sendBW := b\<rparr>, u'), None)"
    "wire u' = wire u @ [prefix ?c @ pkt]" using sf_sends by blast
  have pre: "prefix ?c = prefix c1" by (rule prefix_stable) simp_all
  have close: "Close (Some sf) now (c1, u) = ((?c\<lparr>c_bytesSent := n, c_sendBW := b\<rparr>, u'), None)"
    unfolding Close_eq [OF assms(3) e(1), of sf now u] singleFrame_eq framed_def [symmetric] pkt_def [symmetric] Let_def
    by (simp add: s(1))
  have "length w < 2 ^ 16"
    using lw length_header_enc(2) [of controlHeader] by (simp add: disconnect_enc_def size_defs)
  from processConnData_framed [OF e(2) _ this, of c1]
  have recv: "processConnData lib now' pkt c2 =
      handleDecrypted lib now' disconnect_enc ((countReceived (length pkt) c2)\<lparr>c_recvCipher := r\<rparr>)"
    using assms(1) by (simp add: pkt_def peers_def)
  have "c_channels c2 \<noteq> []" using peers_channel(1) [OF assms(1), of 0] assms(4) by auto
  then have "\<exists>c. handleDecrypted lib now' disconnect_enc ((countReceived (length pkt) c2)\<lparr>c_recvCipher := r\<rparr>) =
      Inr (teardown c, [RemoveConnection, OnDisconnect DisconnectGraceful])"
    by (auto simp: handleDecrypted_disconnect countReceived_def)
  then obtain c where "processConnData lib now' pkt c2 = Inr (teardown c, [RemoveConnection, OnDisconnect DisconnectGraceful])"
    unfolding recv by blast
  then show ?thesis
    using close s(2) pre
    by (intro exI [of _ "?c\<lparr>c_bytesSent := n, c_sendBW := b\<rparr>"] exI [of _ u'] exI [of _ pkt] exI [of _ "teardown c"])
      (simp add: teardown_def)
qed

end

end
