(* ===== verification/Handshake.thy ===== *)
theory Handshake
  imports Connection
begin

text \<open>
  The three-way handshake (second half of \<open>handshake.go\<close>, and the parts of \<open>Client.Connect\<close> and
  \<open>Client.handleChallenge\<close> in \<open>client.go\<close> that build its messages and the client's connection):
  CONNECT, CHALLENGE, RESPONSE. What \<open>crypto/rand\<close> yields is an argument, and so is the variable
  \<open>ApplicationVersion\<close>. \<open>NewPublicKey\<close> of X25519 accepts exactly the 32-byte strings.
\<close>

section \<open>Definitions\<close>

definition ProtocolVersion :: byte where "ProtocolVersion = 1"

record pendingHandshake =
  ph_challengeToken :: bytes
  ph_c2sKey :: bytes
  ph_s2cKey :: bytes
  ph_suite :: CipherSuite
  ph_compression :: byte
  ph_compressionConfig :: CompressionConfig
  ph_layout :: ChannelLayout
  ph_congestionMode :: CongestionMode
  ph_initialCwnd :: int
  ph_settings :: connSettings
  ph_features :: byte
  ph_migrationToken :: MigrationToken
  ph_createdAt :: time

definition isExpired :: "time \<Rightarrow> duration \<Rightarrow> pendingHandshake \<Rightarrow> bool" where
  "isExpired now timeout ph \<longleftrightarrow> timeout \<le> now - ph_createdAt ph"

record serverProcessConnectInput =
  spi_data :: bytes
  spi_serverCompression :: CompressionConfig
  spi_layout :: ChannelLayout
  spi_congestionMode :: CongestionMode
  spi_initialCwnd :: int
  spi_settings :: connSettings
  spi_serverFeatures :: byte

text \<open>The random values of one handshake: a private key, a challenge token, a migration token.\<close>

record randomness =
  rnd_private :: "bytes res"
  rnd_challenge :: "bytes res"
  rnd_migration :: "bytes res"

definition NewPublicKey :: "bytes \<Rightarrow> bytes option" where
  "NewPublicKey key = (if length key = 32 then Some key else None)"

text \<open>Compression: the acknowledgement sent to the client, and the configuration kept.\<close>

definition negotiateCompression ::
  "crypto_lib \<Rightarrow> CompressionConfig \<Rightarrow> connectPacket \<Rightarrow> byte \<times> CompressionConfig" where
  "negotiateCompression lib server connect =
     (if con_Compression connect \<noteq> CompressionNone \<and> cfg_Algorithm server \<noteq> con_Compression connect
      then (compressionDictMismatch, emptyCompression)
      else if con_Compression connect \<noteq> CompressionNone \<and> cfg_Algorithm server = con_Compression connect
      then if con_Compression connect = CompressionZstd \<and> con_DictHash connect \<noteq> None \<and>
              con_DictHash connect \<noteq> Some (DictionaryHash lib (case cfg_Dictionary server of None \<Rightarrow> [] | Some d \<Rightarrow> d))
           then (compressionDictMismatch, emptyCompression)
           else (compressionOK, server)
      else (compressionOK, emptyCompression))"

text \<open>The result is the pending handshake or an error, and the packet to send, if any.\<close>

definition serverProcessConnect ::
  "crypto_lib \<Rightarrow> u16 \<Rightarrow> randomness \<Rightarrow> time \<Rightarrow> serverProcessConnectInput \<Rightarrow> pendingHandshake res \<times> bytes option" where
  "serverProcessConnect lib appVersion rnd now inp =
     (case parseControlPacket (spi_data inp) of
        Inl e \<Rightarrow> (Inl e, None)
      | Inr (h, ct, ctrlPayload) \<Rightarrow>
          if ct \<noteq> ControlConnect then (Inl ErrInvalidHandshake, None)
          else case unmarshalConnect ctrlPayload of
            Inl e \<Rightarrow> (Inl e, None)
          | Inr connect \<Rightarrow>
              if con_ProtocolVersion connect \<noteq> ProtocolVersion
              then case buildVersionMismatchPacket (replicate 64 0) (ProtocolVersion, appVersion) of
                     (buf, Inl e) \<Rightarrow> (Inl e, None)
                   | (buf, Inr n) \<Rightarrow> (Inl ErrVersionMismatch, Some (take n buf))
              else
                let selectedCipher = con_CipherPref connect;
                    (compAck, negotiated) = negotiateCompression lib (spi_serverCompression inp) connect
                in case GenerateKeyPair lib (rnd_private rnd) of
                     Inl e \<Rightarrow> (Inl e, None)
                   | Inr serverKP \<Rightarrow>
                (case rnd_challenge rnd of
                   Inl e \<Rightarrow> (Inl e, None)
                 | Inr challengeToken \<Rightarrow>
                (case NewPublicKey (con_PublicKey connect) of
                   None \<Rightarrow> (Inl ErrInvalidHandshake, None)
                 | Some clientPub \<Rightarrow>
                (case DeriveKeys lib (Private serverKP) clientPub challengeToken selectedCipher of
                   Inl e \<Rightarrow> (Inl e, None)
                 | Inr (c2sKey, s2cKey) \<Rightarrow>
                     let features = con_Features connect AND spi_serverFeatures inp
                     in case (if features AND FeatureConnectionMigration \<noteq> 0 then rnd_migration rnd
                              else Inr (replicate MigrationTokenSize 0)) of
                          Inl e \<Rightarrow> (Inl e, None)
                        | Inr migrationToken \<Rightarrow>
                (case buildChallengePacket (replicate 128 0)
                        \<lparr>cha_ProtocolVersion = ProtocolVersion, cha_AppVersion = appVersion,
                         cha_PublicKey = Public serverKP, cha_ChallengeToken = challengeToken,
                         cha_SelectedCipher = selectedCipher, cha_CompressionAck = compAck,
                         cha_Features = features, cha_MigrationToken = migrationToken\<rparr> of
                   (buf, Inl e) \<Rightarrow> (Inl e, None)
                 | (buf, Inr n) \<Rightarrow>
                     (Inr \<lparr>ph_challengeToken = challengeToken, ph_c2sKey = c2sKey, ph_s2cKey = s2cKey,
                           ph_suite = selectedCipher, ph_compression = compAck,
                           ph_compressionConfig = negotiated, ph_layout = spi_layout inp,
                           ph_congestionMode = spi_congestionMode inp,
                           ph_initialCwnd = spi_initialCwnd inp, ph_settings = spi_settings inp,
                           ph_features = features, ph_migrationToken = migrationToken,
                           ph_createdAt = now\<rparr>, Some (take n buf)))))))"

text \<open>The send and receive ciphers, the suite and the encrypted RESPONSE.\<close>

definition clientProcessChallenge ::
  "crypto_lib \<Rightarrow> bytes \<Rightarrow> KeyPair \<Rightarrow> (CipherState \<times> CipherState \<times> CipherSuite \<times> bytes) res" where
  "clientProcessChallenge lib data clientKP =
     (case parseControlPacket data of
        Inl e \<Rightarrow> Inl e
      | Inr (h, ct, ctrlPayload) \<Rightarrow>
          if ct \<noteq> ControlChallenge then Inl ErrInvalidHandshake
          else case unmarshalChallenge ctrlPayload of
            Inl e \<Rightarrow> Inl e
          | Inr challenge \<Rightarrow>
              if cha_ProtocolVersion challenge \<noteq> ProtocolVersion then Inl ErrVersionMismatch
              else case NewPublicKey (cha_PublicKey challenge) of
                None \<Rightarrow> Inl ErrInvalidHandshake
              | Some serverPub \<Rightarrow>
              (case DeriveKeys lib (Private clientKP) serverPub (cha_ChallengeToken challenge) (cha_SelectedCipher challenge) of
                 Inl e \<Rightarrow> Inl e
               | Inr (c2sKey, s2cKey) \<Rightarrow>
              (case NewCipherState lib c2sKey (cha_SelectedCipher challenge) of
                 Inl e \<Rightarrow> Inl e
               | Inr sendCipher \<Rightarrow>
              (case NewCipherState lib s2cKey (cha_SelectedCipher challenge) of
                 Inl e \<Rightarrow> Inl e
               | Inr recvCipher \<Rightarrow>
              (case buildResponsePacket (replicate 64 0) (cha_ChallengeToken challenge) of
                 (respBuf, Inl e) \<Rightarrow> Inl e
               | (respBuf, Inr rn) \<Rightarrow>
              (case Encrypt sendCipher (take rn respBuf) [] of
                 (sendCipher, Inl e) \<Rightarrow> Inl e
               | (sendCipher, Inr encrypted) \<Rightarrow>
                   Inr (sendCipher, recvCipher, cha_SelectedCipher challenge, encrypted)))))))"

definition serverProcessResponse ::
  "crypto_lib \<Rightarrow> comp_lib \<Rightarrow> time \<Rightarrow> bytes \<Rightarrow> pendingHandshake \<Rightarrow> AddrPort \<Rightarrow> connection res" where
  "serverProcessResponse lib clib now encryptedData ph addr =
     (case NewCipherState lib (ph_c2sKey ph) (ph_suite ph) of
        Inl e \<Rightarrow> Inl e
      | Inr recvCipher \<Rightarrow>
      (case Decrypt recvCipher encryptedData [] of
         (recvCipher, Inl e) \<Rightarrow> Inl ErrDecryptionFailed
       | (recvCipher, Inr decrypted) \<Rightarrow>
      (case parseControlPacket decrypted of
         Inl e \<Rightarrow> Inl ErrInvalidHandshake
       | Inr (h, ct, ctrlPayload) \<Rightarrow>
           if ct \<noteq> ControlResponse then Inl ErrInvalidHandshake
           else case unmarshalResponse ctrlPayload of
             Inl e \<Rightarrow> Inl e
           | Inr token \<Rightarrow>
               if token \<noteq> ph_challengeToken ph then Inl ErrInvalidHandshake
               else case NewCipherState lib (ph_s2cKey ph) (ph_suite ph) of
                 Inl e \<Rightarrow> Inl e
               | Inr sendCipher \<Rightarrow>
                   Inr (newConnection clib now
                     \<lparr>in_addr = addr, in_sendCipher = sendCipher, in_recvCipher = recvCipher,
                      in_suite = ph_suite ph, in_layout = ph_layout ph,
                      in_compression = ph_compressionConfig ph,
                      in_congestionMode = ph_congestionMode ph, in_initialCwnd = ph_initialCwnd ph,
                      in_features = ph_features ph, in_token = ph_migrationToken ph,
                      in_settings = ph_settings ph\<rparr>))))"

subsection \<open>The client's messages\<close>

text \<open>The CONNECT message of \<open>Client.Connect\<close>, and its packet.\<close>

definition connectMessage :: "crypto_lib \<Rightarrow> u16 \<Rightarrow> ClientConfig \<Rightarrow> KeyPair \<Rightarrow> connectPacket" where
  "connectMessage lib appVersion config kp =
     \<lparr>con_ProtocolVersion = ProtocolVersion, con_AppVersion = appVersion, con_PublicKey = Public kp,
      con_CipherPref = cc_CipherPreference config, con_Compression = cfg_Algorithm (cc_Compression config),
      con_DictHash = (if cfg_Algorithm (cc_Compression config) = CompressionZstd
                      then map_option (DictionaryHash lib) (cfg_Dictionary (cc_Compression config)) else None),
      con_Features = featuresFromConfig (cc_SendBatching config) (cc_ConnectionMigration config)\<rparr>"

definition connectRequest :: "crypto_lib \<Rightarrow> u16 \<Rightarrow> ClientConfig \<Rightarrow> KeyPair \<Rightarrow> bytes res" where
  "connectRequest lib appVersion config kp =
     (case buildConnectPacket (replicate 128 0) (connectMessage lib appVersion config kp) of
        (buf, Inl e) \<Rightarrow> Inl e
      | (buf, Inr n) \<Rightarrow> Inr (take n buf))"

definition clientSettings :: "ClientConfig \<Rightarrow> connSettings" where
  "clientSettings config =
     \<lparr>set_maxReorderWindow = cc_MaxReorderWindow config,
      set_maxReassemblyBuffers = cc_MaxReassemblyBuffers config,
      set_maxReassemblyBytes = cc_MaxReassemblyBytes config,
      set_fragmentTimeout = cc_FragmentTimeout config\<rparr>"

text \<open>\<open>handleChallenge\<close> up to the new connection: the connection and the RESPONSE to write.
  The second parse of the challenge ignores its errors and then sees zero values.\<close>

definition acceptChallenge ::
  "crypto_lib \<Rightarrow> comp_lib \<Rightarrow> ClientConfig \<Rightarrow> time \<Rightarrow> bytes \<Rightarrow> KeyPair \<Rightarrow> AddrPort \<Rightarrow> (connection \<times> bytes) res" where
  "acceptChallenge lib clib config now data kp serverAddr =
     (case clientProcessChallenge lib data kp of
        Inl e \<Rightarrow> Inl e
      | Inr (sendCipher, recvCipher, suite, encryptedResp) \<Rightarrow>
          let ctrlPayload = (case parseControlPacket data of Inl e \<Rightarrow> [] | Inr (h, ct, p) \<Rightarrow> p);
              (features, token) = (case unmarshalChallenge ctrlPayload of
                  Inl e \<Rightarrow> (0, replicate MigrationTokenSize 0)
                | Inr ch \<Rightarrow> (cha_Features ch, cha_MigrationToken ch))
          in Inr (newConnection clib now
               \<lparr>in_addr = serverAddr, in_sendCipher = sendCipher, in_recvCipher = recvCipher,
                in_suite = suite, in_layout = cc_ChannelLayout config,
                in_compression = cc_Compression config,
                in_congestionMode = cc_Congestion config, in_initialCwnd = cc_InitialCwnd config,
                in_features = features, in_token = token, in_settings = clientSettings config\<rparr>,
              encryptedResp))"

section \<open>Each step on good input\<close>

text \<open>The AEAD of every suite the library constructs works as documented.\<close>

definition aeads_ok :: "crypto_lib \<Rightarrow> bool" where
  "aeads_ok lib \<longleftrightarrow> (\<forall>key suite st a. NewCipherState lib key suite = Inr st \<and> cs_aead st = Some a \<longrightarrow> aead_ok a)"

lemma NewCipherState_sync:
  assumes "NewCipherState lib key suite = Inr st" "aeads_ok lib"
  shows "in_sync st st" "cs_nonce st = 0"
  using NewCipherState_fresh [OF assms(1)] represents_new assms
  by (auto simp: in_sync_def aeads_ok_def)

lemma connectRequest_ok:
  assumes "wf_connect (connectMessage lib v config kp)"
  obtains req where "connectRequest lib v config kp = Inr req"
    "parseControlPacket req = Inr (controlHeader, ControlConnect, connect_enc (connectMessage lib v config kp))"
    "take 8 req = header_enc controlHeader"
proof -
  let ?m = "connectMessage lib v config kp"
  have "8 + length (connect_enc ?m) \<le> length (replicate 128 (0::byte))"
    using assms by (simp add: length_connect_enc)
  from connect.build_parse [OF assms this] obtain buf n where
    "buildPacket marshalConnect (replicate 128 0) ?m = (buf, Inr n)"
    "parseControlPacket (take n buf) = Inr (controlHeader, ControlConnect, connect_enc ?m)"
    "take 8 (take n buf) = header_enc controlHeader" by auto
  then show thesis using that [of "take n buf"] by (simp add: connectRequest_def buildConnectPacket_def)
qed

lemma buildChallenge_ok:
  assumes "wf_challenge m"
  obtains buf n where "buildChallengePacket (replicate 128 0) m = (buf, Inr n)"
    "parseControlPacket (take n buf) = Inr (controlHeader, ControlChallenge, challenge_enc m)"
proof -
  have "8 + length (challenge_enc m) \<le> length (replicate 128 (0::byte))"
    using assms by (simp add: length_challenge_enc)
  from challenge.build_parse [OF assms this] show thesis
    using that by (auto simp: buildChallengePacket_def)
qed

lemma buildResponse_ok:
  assumes "length token = 32"
  obtains buf n where "buildResponsePacket (replicate 64 0) token = (buf, Inr n)"
    "parseControlPacket (take n buf) = Inr (controlHeader, ControlResponse, response_enc token)"
    "unmarshalResponse (response_enc token) = Inr token"
proof -
  from response.build_parse [of token "replicate 64 0"] assms show thesis
    using that by (auto simp: buildResponsePacket_def with_length_def map_sum_case split: sum.splits)
qed

lemma unmarshal_encs:
  "wf_connect cp \<Longrightarrow> unmarshalConnect (connect_enc cp) = Inr cp"
  "wf_challenge ch \<Longrightarrow> unmarshalChallenge (challenge_enc ch) = Inr ch"
  using unmarshalConnect_enc [of cp "[]"] unmarshalChallenge_enc [of ch "[]"] by simp_all

text \<open>The challenge the server sends for the CONNECT message \<open>m\<close>.\<close>

definition challengeFor ::
  "crypto_lib \<Rightarrow> u16 \<Rightarrow> bytes \<Rightarrow> bytes \<Rightarrow> bytes \<Rightarrow> serverProcessConnectInput \<Rightarrow> connectPacket \<Rightarrow> challengePacket" where
  "challengeFor lib v private token mig inp m =
     (let features = con_Features m AND spi_serverFeatures inp
      in \<lparr>cha_ProtocolVersion = ProtocolVersion, cha_AppVersion = v,
          cha_PublicKey = x25519_PublicKey lib private, cha_ChallengeToken = token,
          cha_SelectedCipher = con_CipherPref m,
          cha_CompressionAck = fst (negotiateCompression lib (spi_serverCompression inp) m),
          cha_Features = features,
          cha_MigrationToken = (if features AND FeatureConnectionMigration \<noteq> 0 then mig
                                else replicate MigrationTokenSize 0)\<rparr>)"

lemma wf_challengeFor:
  assumes "length (x25519_PublicKey lib y) = 32" "length token = 32" "length mig = 8"
  shows "wf_challenge (challengeFor lib v y token mig inp m)"
  using assms by (auto simp: wf_challenge_def challengeFor_def Let_def MigrationTokenSize_def)

lemma serverProcessConnect_ok:
  assumes req: "parseControlPacket (spi_data inp) = Inr (controlHeader, ControlConnect, connect_enc m)"
    and m: "wf_connect m" "con_ProtocolVersion m = ProtocolVersion"
    and len: "length (x25519_PublicKey lib y) = 32" "length token = 32" "length mig = 8"
    and keys: "DeriveKeys lib y (con_PublicKey m) token (con_CipherPref m) = Inr (k1, k2)"
  obtains ph chal where
    "serverProcessConnect lib v \<lparr>rnd_private = Inr y, rnd_challenge = Inr token, rnd_migration = Inr mig\<rparr> now inp =
       (Inr ph, Some chal)"
    "parseControlPacket chal = Inr (controlHeader, ControlChallenge, challenge_enc (challengeFor lib v y token mig inp m))"
    "ph_challengeToken ph = token" "ph_c2sKey ph = k1" "ph_s2cKey ph = k2" "ph_suite ph = con_CipherPref m"
    "ph_features ph = cha_Features (challengeFor lib v y token mig inp m)"
    "ph_migrationToken ph = cha_MigrationToken (challengeFor lib v y token mig inp m)"
    "ph_layout ph = spi_layout inp" "ph_settings ph = spi_settings inp"
    "ph_compressionConfig ph = snd (negotiateCompression lib (spi_serverCompression inp) m)"
proof -
  let ?ch = "challengeFor lib v y token mig inp m"
  obtain buf n where b: "buildChallengePacket (replicate 128 0) ?ch = (buf, Inr n)"
    "parseControlPacket (take n buf) = Inr (controlHeader, ControlChallenge, challenge_enc ?ch)"
    by (rule buildChallenge_ok [OF wf_challengeFor [OF len]])
  have pk: "NewPublicKey (con_PublicKey m) = Some (con_PublicKey m)"
    using m(1) by (simp add: NewPublicKey_def wf_connect_def)
  show thesis
    using b(1) that [OF _ b(2)] req m keys pk
    by (cases "negotiateCompression lib (spi_serverCompression inp) m")
      (auto simp: serverProcessConnect_def GenerateKeyPair_def unmarshal_encs challengeFor_def Let_def
        split: if_splits)
qed

lemma clientProcessChallenge_ok:
  assumes data: "parseControlPacket data = Inr (controlHeader, ControlChallenge, challenge_enc ch)"
    and ch: "wf_challenge ch" "cha_ProtocolVersion ch = ProtocolVersion"
    and keys: "DeriveKeys lib (Private kp) (cha_PublicKey ch) (cha_ChallengeToken ch) (cha_SelectedCipher ch) = Inr (k1, k2)"
    and st: "NewCipherState lib k1 (cha_SelectedCipher ch) = Inr st1" "NewCipherState lib k2 (cha_SelectedCipher ch) = Inr st2"
    and ok: "aeads_ok lib"
  obtains s resp r dec where "clientProcessChallenge lib data kp = Inr (s, st2, cha_SelectedCipher ch, resp)"
    "nonces_left s (2 ^ 64 - 2)" "Decrypt st1 resp [] = (r, Inr dec)" "in_sync s r"
    "parseControlPacket dec = Inr (controlHeader, ControlResponse, response_enc (cha_ChallengeToken ch))"
proof -
  have tok: "length (cha_ChallengeToken ch) = 32" and pk: "NewPublicKey (cha_PublicKey ch) = Some (cha_PublicKey ch)"
    using ch(1) by (simp_all add: wf_challenge_def NewPublicKey_def)
  obtain buf n where b: "buildResponsePacket (replicate 64 0) (cha_ChallengeToken ch) = (buf, Inr n)"
    "parseControlPacket (take n buf) = Inr (controlHeader, ControlResponse, response_enc (cha_ChallengeToken ch))"
    by (rule buildResponse_ok [OF tok])
  have "nonces_left st1 (Suc (2 ^ 64 - 2))" using NewCipherState_sync(2) [OF st(1) ok] by (simp add: nonces_left_def)
  from in_sync_step [OF NewCipherState_sync(1) [OF st(1) ok] this, of "take n buf"]
  obtain s w r where e: "\<And>dst. Encrypt st1 (take n buf) dst = (s, Inr w)"
    "\<And>dst. Decrypt st1 w dst = (r, Inr (take n buf))" "in_sync s r" "nonces_left s (2 ^ 64 - 2)" by metis
  show thesis
    using that [of s w r "take n buf"] e b data ch keys st pk
    by (simp add: clientProcessChallenge_def unmarshal_encs)
qed

lemma newConnection_simps [simp]:
  "c_state (newConnection lib now inp) = StateConnected"
  "c_sendCipher (newConnection lib now inp) = in_sendCipher inp"
  "c_recvCipher (newConnection lib now inp) = in_recvCipher inp"
  "c_suite (newConnection lib now inp) = in_suite inp"
  "c_remoteAddr (newConnection lib now inp) = in_addr inp"
  "c_features (newConnection lib now inp) = in_features inp"
  "c_migrationToken (newConnection lib now inp) = in_token inp"
  "c_batchEnabled (newConnection lib now inp) = (in_features inp AND FeatureSendBatching \<noteq> 0)"
  "length (c_channels (newConnection lib now inp)) = length (in_layout inp)"
  by (simp_all add: newConnection_def Let_def newChannels_def)

lemma wf_connectMessage:
  assumes "length (Public kp) = 32" "\<forall>d. length (sha256_Sum256 lib d) = 32"
  shows "wf_connect (connectMessage lib v config kp)"
  using assms by (auto simp: wf_connect_def connectMessage_def DictionaryHash_def)

text \<open>A whole handshake, with the connections it creates.\<close>

definition clientInput ::
  "ClientConfig \<Rightarrow> AddrPort \<Rightarrow> CipherState \<Rightarrow> CipherState \<Rightarrow> CipherSuite \<Rightarrow> byte \<Rightarrow> MigrationToken \<Rightarrow> connectionInput" where
  "clientInput config addr send recv suite features token =
     \<lparr>in_addr = addr, in_sendCipher = send, in_recvCipher = recv, in_suite = suite,
      in_layout = cc_ChannelLayout config, in_compression = cc_Compression config,
      in_congestionMode = cc_Congestion config, in_initialCwnd = cc_InitialCwnd config,
      in_features = features, in_token = token, in_settings = clientSettings config\<rparr>"

lemma handshake_runs:
  assumes lib: "ecdh_agrees lib" "aeads_ok lib" "\<forall>d. length (sha256_Sum256 lib d) = 32"
    and kp: "GenerateKeyPair lib (Inr x) = Inr kp"
    and len: "length (x25519_PublicKey lib x) = 32" "length (x25519_PublicKey lib y) = 32"
      "length token = 32" "length mig = 8"
    and keys: "DeriveKeys lib x (x25519_PublicKey lib y) token (cc_CipherPreference config) = Inr (k1, k2)"
      "NewCipherState lib k1 (cc_CipherPreference config) = Inr st1"
      "NewCipherState lib k2 (cc_CipherPreference config) = Inr st2"
  obtains req ph chal resp s1 r tok sin where
    "connectRequest lib v config kp = Inr req"
    "serverProcessConnect lib v' \<lparr>rnd_private = Inr y, rnd_challenge = Inr token, rnd_migration = Inr mig\<rparr> t1
      (inp\<lparr>spi_data := req\<rparr>) = (Inr ph, Some chal)"
    "acceptChallenge lib clib config t2 chal kp srv =
       Inr (newConnection clib t2 (clientInput config srv s1 st2 (cc_CipherPreference config)
         (featuresFromConfig (cc_SendBatching config) (cc_ConnectionMigration config) AND spi_serverFeatures inp) tok), resp)"
    "serverProcessResponse lib slib t3 resp ph addr = Inr (newConnection slib t3 sin)"
    "in_addr sin = addr" "in_sendCipher sin = st2" "in_recvCipher sin = r" "in_suite sin = cc_CipherPreference config"
    "in_layout sin = spi_layout inp" "in_settings sin = spi_settings inp" "in_token sin = tok" "length tok = MigrationTokenSize"
    "in_compression sin = snd (negotiateCompression lib (spi_serverCompression inp) (connectMessage lib v config kp))"
    "in_features sin = featuresFromConfig (cc_SendBatching config) (cc_ConnectionMigration config) AND spi_serverFeatures inp"
    "in_sync s1 r" "in_sync st2 st2" "nonces_left s1 (2 ^ 64 - 2)" "cs_nonce st2 = 0"
    "\<exists>h p. parseControlPacket req = Inr (h, ControlConnect, p)" "take 8 req = header_enc controlHeader" "\<exists>h p. parseControlPacket chal = Inr (h, ControlChallenge, p)"
proof -
  let ?m = "connectMessage lib v config kp"
  have kp': "kp = \<lparr>Private = x, Public = x25519_PublicKey lib x\<rparr>" using kp by (simp add: GenerateKeyPair_def)
  have m: "wf_connect ?m" using wf_connectMessage len(1) lib(3) kp' by simp
  obtain req where req: "connectRequest lib v config kp = Inr req"
    "parseControlPacket req = Inr (controlHeader, ControlConnect, connect_enc ?m)" "take 8 req = header_enc controlHeader"
    by (rule connectRequest_ok [OF m])
  have pr: "Private kp = x" by (simp add: kp')
  have ms: "con_CipherPref ?m = cc_CipherPreference config" "con_PublicKey ?m = x25519_PublicKey lib x"
    "con_Features ?m = featuresFromConfig (cc_SendBatching config) (cc_ConnectionMigration config)"
    "con_ProtocolVersion ?m = ProtocolVersion"
    by (simp_all add: connectMessage_def kp')
  let ?inp = "inp\<lparr>spi_data := req\<rparr>"
  let ?ch = "challengeFor lib v' y token mig ?inp ?m"
  have rq: "parseControlPacket (spi_data ?inp) = Inr (controlHeader, ControlConnect, connect_enc ?m)"
    using req(2) by simp
  have dk: "DeriveKeys lib y (con_PublicKey ?m) token (con_CipherPref ?m) = Inr (k1, k2)"
    using keys(1) DeriveKeys_agree [OF lib(1), of x y] by (simp add: ms)
  obtain ph chal where
    s: "serverProcessConnect lib v' \<lparr>rnd_private = Inr y, rnd_challenge = Inr token, rnd_migration = Inr mig\<rparr> t1 ?inp =
         (Inr ph, Some chal)"
      "parseControlPacket chal = Inr (controlHeader, ControlChallenge, challenge_enc ?ch)"
    and ph: "ph_challengeToken ph = token" "ph_c2sKey ph = k1" "ph_s2cKey ph = k2" "ph_suite ph = con_CipherPref ?m"
      "ph_features ph = cha_Features ?ch" "ph_migrationToken ph = cha_MigrationToken ?ch"
      "ph_layout ph = spi_layout inp" "ph_settings ph = spi_settings inp"
      "ph_compressionConfig ph = snd (negotiateCompression lib (spi_serverCompression inp) ?m)"
    by (rule serverProcessConnect_ok [OF rq m ms(4) len(2-4) dk, of v' t1]) simp
  have chs: "cha_SelectedCipher ?ch = cc_CipherPreference config" "cha_PublicKey ?ch = x25519_PublicKey lib y"
    "cha_ChallengeToken ?ch = token" "cha_ProtocolVersion ?ch = ProtocolVersion"
    "cha_Features ?ch = featuresFromConfig (cc_SendBatching config) (cc_ConnectionMigration config) AND spi_serverFeatures inp"
    by (simp_all add: challengeFor_def Let_def ms)
  have wf: "wf_challenge ?ch" by (rule wf_challengeFor [OF len(2-4)])
  have dk2: "DeriveKeys lib (Private kp) (cha_PublicKey ?ch) (cha_ChallengeToken ?ch) (cha_SelectedCipher ?ch) = Inr (k1, k2)"
    and st: "NewCipherState lib k1 (cha_SelectedCipher ?ch) = Inr st1" "NewCipherState lib k2 (cha_SelectedCipher ?ch) = Inr st2"
    using keys by (simp_all only: chs pr)
  obtain s1 resp r dec where c: "clientProcessChallenge lib chal kp = Inr (s1, st2, cha_SelectedCipher ?ch, resp)"
    and nonce: "nonces_left s1 (2 ^ 64 - 2)"
    and d: "Decrypt st1 resp [] = (r, Inr dec)" "in_sync s1 r"
      "parseControlPacket dec = Inr (controlHeader, ControlResponse, response_enc token)"
    by (rule clientProcessChallenge_ok [OF s(2) wf chs(4) dk2 st lib(2), unfolded chs(3)])
  have tok: "unmarshalResponse (response_enc token) = Inr token"
    by (rule buildResponse_ok [OF len(3)])
  have tl: "length (cha_MigrationToken ?ch) = MigrationTokenSize"
    using len(4) by (simp add: challengeFor_def Let_def MigrationTokenSize_def)
  let ?sin = "\<lparr>in_addr = addr, in_sendCipher = st2, in_recvCipher = r, in_suite = ph_suite ph, in_layout = ph_layout ph,
      in_compression = ph_compressionConfig ph, in_congestionMode = ph_congestionMode ph, in_initialCwnd = ph_initialCwnd ph,
      in_features = ph_features ph, in_token = ph_migrationToken ph, in_settings = ph_settings ph\<rparr>"
  show thesis
  proof (rule that [OF req(1) s(1), of s1 "cha_MigrationToken ?ch" resp ?sin r])
    show "acceptChallenge lib clib config t2 chal kp srv =
       Inr (newConnection clib t2 (clientInput config srv s1 st2 (cc_CipherPreference config)
         (featuresFromConfig (cc_SendBatching config) (cc_ConnectionMigration config) AND spi_serverFeatures inp)
         (cha_MigrationToken ?ch)), resp)"
      using c s(2) by (simp add: acceptChallenge_def unmarshal_encs(2) [OF wf] chs clientInput_def)
    show "serverProcessResponse lib slib t3 resp ph addr = Inr (newConnection slib t3 ?sin)"
      using d(1,3) keys(2,3) ph tok by (simp add: serverProcessResponse_def ms(1))
  qed (use ph chs ms d(2) tl req(2,3) s(2) nonce NewCipherState_sync [OF keys(3) lib(2)] in simp_all)
qed

section \<open>Properties\<close>

text \<open>C10. The handshake establishes a connection on both sides, and the two ends agree. Run the
  code of both ends with any configuration, any random values and a suite the library
  supports: the client's CONNECT is answered with a CHALLENGE, the client turns that into a
  connection and a RESPONSE, and the server turns the RESPONSE into a connection. Each end's
  receiving cipher then follows the other end's sending cipher, and both have the same suite,
  the same features (those both asked for), the same migration token and the same batching mode.\<close>

theorem handshake_agrees:
  assumes lib: "ecdh_agrees lib" "aeads_ok lib" "\<forall>d. length (sha256_Sum256 lib d) = 32"
    and kp: "GenerateKeyPair lib (Inr x) = Inr kp"
    and len: "length (x25519_PublicKey lib x) = 32" "length (x25519_PublicKey lib y) = 32"
      "length token = 32" "length mig = 8"
    and keys: "DeriveKeys lib x (x25519_PublicKey lib y) token (cc_CipherPreference config) = Inr (k1, k2)"
      "NewCipherState lib k1 (cc_CipherPreference config) = Inr st1"
      "NewCipherState lib k2 (cc_CipherPreference config) = Inr st2"
  shows "\<exists>req ph chal cc resp sc.
    connectRequest lib v config kp = Inr req \<and>
    serverProcessConnect lib v' \<lparr>rnd_private = Inr y, rnd_challenge = Inr token, rnd_migration = Inr mig\<rparr> t1
      (inp\<lparr>spi_data := req\<rparr>) = (Inr ph, Some chal) \<and>
    acceptChallenge lib clib config t2 chal kp srv = Inr (cc, resp) \<and>
    serverProcessResponse lib slib t3 resp ph addr = Inr sc \<and>
    in_sync (c_sendCipher cc) (c_recvCipher sc) \<and> in_sync (c_sendCipher sc) (c_recvCipher cc) \<and>
    c_state cc = StateConnected \<and> c_state sc = StateConnected \<and> c_remoteAddr sc = addr \<and>
    c_suite cc = cc_CipherPreference config \<and> c_suite sc = cc_CipherPreference config \<and>
    c_features cc = c_features sc \<and>
    c_features sc = featuresFromConfig (cc_SendBatching config) (cc_ConnectionMigration config) AND spi_serverFeatures inp \<and>
    c_migrationToken cc = c_migrationToken sc \<and> c_batchEnabled cc = c_batchEnabled sc"
proof -
  let ?f = "featuresFromConfig (cc_SendBatching config) (cc_ConnectionMigration config) AND spi_serverFeatures inp"
  obtain req ph chal resp s1 r tok sin where h: "connectRequest lib v config kp = Inr req"
    "serverProcessConnect lib v' \<lparr>rnd_private = Inr y, rnd_challenge = Inr token, rnd_migration = Inr mig\<rparr> t1
      (inp\<lparr>spi_data := req\<rparr>) = (Inr ph, Some chal)"
    "acceptChallenge lib clib config t2 chal kp srv =
       Inr (newConnection clib t2 (clientInput config srv s1 st2 (cc_CipherPreference config) ?f tok), resp)"
    "serverProcessResponse lib slib t3 resp ph addr = Inr (newConnection slib t3 sin)"
    "in_addr sin = addr" "in_sendCipher sin = st2" "in_recvCipher sin = r" "in_suite sin = cc_CipherPreference config"
    "in_token sin = tok" "in_features sin = ?f" "in_sync s1 r" "in_sync st2 st2"
    by (rule handshake_runs [OF lib kp len keys, of v v' t1 inp clib t2 srv slib t3 addr])
  let ?cc = "newConnection clib t2 (clientInput config srv s1 st2 (cc_CipherPreference config) ?f tok)"
  show ?thesis
    by (rule exI [of _ req], rule exI [of _ ph], rule exI [of _ chal], rule exI [of _ ?cc], rule exI [of _ resp],
        rule exI [of _ "newConnection slib t3 sin"]) (use h in \<open>simp add: clientInput_def\<close>)
qed

text \<open>C11. The server creates a connection only for a peer that proves it received the challenge:
  the datagram decrypts under the key of the pending handshake, and carries its token. The
  nonce is then used up, so that the same datagram, replayed to the new connection of an
  encrypted suite, is rejected.\<close>

theorem response_proves_challenge:
  assumes "serverProcessResponse lib clib now data ph addr = Inr conn"
  shows "\<exists>st r dec h p. NewCipherState lib (ph_c2sKey ph) (ph_suite ph) = Inr st \<and>
      Decrypt st data [] = (r, Inr dec) \<and> parseControlPacket dec = Inr (h, ControlResponse, p) \<and>
      unmarshalResponse p = Inr (ph_challengeToken ph) \<and> c_recvCipher conn = r \<and>
      (ph_suite ph \<noteq> CipherNone \<longrightarrow> Decrypt r data dst = (r, Inl ErrReplayedPacket)) \<and>
      c_features conn = ph_features ph \<and> c_migrationToken conn = ph_migrationToken ph"
proof -
  obtain st r dec h p where s: "NewCipherState lib (ph_c2sKey ph) (ph_suite ph) = Inr st"
    "Decrypt st data [] = (r, Inr dec)" "parseControlPacket dec = Inr (h, ControlResponse, p)"
    "unmarshalResponse p = Inr (ph_challengeToken ph)" "c_recvCipher conn = r"
    "c_features conn = ph_features ph" "c_migrationToken conn = ph_migrationToken ph"
    using assms by (auto simp: serverProcessResponse_def split: sum.splits prod.splits if_splits)
  have "Decrypt r data dst = (r, Inl ErrReplayedPacket)" if enc: "ph_suite ph \<noteq> CipherNone"
    using Decrypt_replayed [OF s(1,2) enc] .
  then show ?thesis using s by blast
qed

section \<open>Witnesses\<close>

definition toy_kp :: KeyPair where "toy_kp = \<lparr>Private = replicate 32 5, Public = replicate 32 5\<rparr>"

lemma toy_aeads: "aeads_ok toy_lib"
  by (auto simp: aeads_ok_def NewCipherState_def newAEAD_def toy_lib_def toy_aead_ok
      split: if_splits sum.splits)

lemma toy_len: "length (sha256_Sum256 toy_lib d) = 32" "x25519_PublicKey toy_lib x = x"
  by (simp_all add: toy_lib_def)

definition toy_keys :: "bytes \<times> bytes" where
  "toy_keys = projr (DeriveKeys toy_lib (replicate 32 5) (replicate 32 6) (replicate 32 7) CipherAES128GCM)"

lemma toy_DeriveKeys:
  "DeriveKeys toy_lib (replicate 32 5) (replicate 32 6) (replicate 32 7) CipherAES128GCM = Inr (fst toy_keys, snd toy_keys)"
  by (simp add: toy_keys_def DeriveKeys_def toy_lib_def Let_def)

definition toy_input :: serverProcessConnectInput where
  "toy_input = \<lparr>spi_data = [], spi_serverCompression = emptyCompression, spi_layout = DefaultChannelLayout,
     spi_congestionMode = Conservative, spi_initialCwnd = 4,
     spi_settings = clientSettings DefaultClientConfig, spi_serverFeatures = 3\<rparr>"

definition toy_addr :: AddrPort where
  "toy_addr = \<lparr>ap_addr = \<lparr>as16 = replicate 16 0, is4 = True, zone = []\<rparr>, ap_port = 7777\<rparr>"

theorem handshake_agrees_witness:
  "\<exists>req ph chal cc resp sc.
    connectRequest toy_lib 0 DefaultClientConfig toy_kp = Inr req \<and>
    serverProcessConnect toy_lib 0 \<lparr>rnd_private = Inr (replicate 32 6), rnd_challenge = Inr (replicate 32 7),
      rnd_migration = Inr (replicate 8 9)\<rparr> 0 (toy_input\<lparr>spi_data := req\<rparr>) = (Inr ph, Some chal) \<and>
    acceptChallenge toy_lib toy_comp DefaultClientConfig 0 chal toy_kp toy_addr = Inr (cc, resp) \<and>
    serverProcessResponse toy_lib toy_comp 0 resp ph toy_addr = Inr sc \<and>
    in_sync (c_sendCipher cc) (c_recvCipher sc) \<and> in_sync (c_sendCipher sc) (c_recvCipher cc)"
proof -
  have kp: "GenerateKeyPair toy_lib (Inr (replicate 32 5)) = Inr toy_kp"
    by (simp add: GenerateKeyPair_def toy_kp_def toy_len)
  have suite: "cc_CipherPreference DefaultClientConfig = CipherAES128GCM" by (simp add: DefaultClientConfig_def)
  have st: "NewCipherState toy_lib k CipherAES128GCM = Inr toy_state" for k
    using toy_NewCipherState by (simp add: suite_defs)
  have k: "DeriveKeys toy_lib (replicate 32 5) (x25519_PublicKey toy_lib (replicate 32 6)) (replicate 32 7)
      (cc_CipherPreference DefaultClientConfig) = Inr (fst toy_keys, snd toy_keys)"
    by (simp only: suite toy_len toy_DeriveKeys)
  from handshake_agrees [OF toy_ecdh toy_aeads _ kp _ _ _ _ k, of "replicate 8 9" toy_state toy_state 0 0 0 toy_input toy_comp 0 toy_addr toy_comp 0 toy_addr]
  show ?thesis using st by (auto simp: toy_len suite)
qed

definition toy_ph :: pendingHandshake where
  "toy_ph = \<lparr>ph_challengeToken = replicate 32 7, ph_c2sKey = [], ph_s2cKey = [], ph_suite = CipherAES128GCM,
     ph_compression = 0, ph_compressionConfig = emptyCompression, ph_layout = DefaultChannelLayout,
     ph_congestionMode = Conservative, ph_initialCwnd = 4, ph_settings = clientSettings DefaultClientConfig,
     ph_features = 0, ph_migrationToken = replicate 8 0, ph_createdAt = 0\<rparr>"

lemma toy_response:
  obtains resp conn where "serverProcessResponse toy_lib toy_comp 0 resp toy_ph toy_addr = Inr conn"
proof -
  obtain buf n where b: "parseControlPacket (take n buf) = Inr (controlHeader, ControlResponse, response_enc (replicate 32 7))"
    "unmarshalResponse (response_enc (replicate 32 7)) = Inr (replicate 32 7)"
    by (rule buildResponse_ok [of "replicate 32 7"]) auto
  have sync: "in_sync toy_state toy_state" "nonces_left toy_state (Suc 0)"
    using represents_new by (auto simp: in_sync_def toy_state_def toy_aead_ok nonces_left_def)
  obtain w r where w: "\<And>dst. Decrypt toy_state w dst = (r, Inr (take n buf))"
    by (rule in_sync_step [OF sync, of "take n buf"]) blast
  have "NewCipherState toy_lib [] CipherAES128GCM = Inr toy_state"
    using toy_NewCipherState by (simp add: suite_defs)
  then show thesis using that [of w] w b by (simp add: serverProcessResponse_def toy_ph_def)
qed

theorem response_proves_challenge_witness:
  "\<exists>resp conn r p. serverProcessResponse toy_lib toy_comp 0 resp toy_ph toy_addr = Inr conn \<and>
     unmarshalResponse p = Inr (ph_challengeToken toy_ph) \<and> c_recvCipher conn = r \<and>
     Decrypt r resp [] = (r, Inl ErrReplayedPacket)"
proof -
  obtain resp conn where conn: "serverProcessResponse toy_lib toy_comp 0 resp toy_ph toy_addr = Inr conn" by (rule toy_response)
  have "ph_suite toy_ph \<noteq> CipherNone" by (simp add: suite_defs toy_ph_def)
  with conn response_proves_challenge [OF conn, of "[]"] show ?thesis by blast
qed

end
