(* ===== verification/Limiter.thy ===== *)
theory Limiter
  imports Tables Config Rtt
begin

text \<open>
  The per-address rate limiter for new handshakes (\<open>handshakeLimiter\<close> in \<open>server.go\<close>): a token
  bucket per IP, in an LRU list of at most 8192 entries. The list holds the buckets, most
  recently used first; the map \<open>entries\<close> from addresses to list elements is represented by its
  keys, the element of a key being the one with that address. Tokens are real numbers.
\<close>

section \<open>Definitions\<close>

record handshakeEntry =
  he_addr :: Addr
  he_tokens :: real
  he_last :: time

record handshakeLimiter =
  hl_entries :: "Addr list"
  hl_order :: "handshakeEntry list"
  hl_rate :: real
  hl_burst :: real

definition newHandshakeLimiter :: "real \<Rightarrow> real \<Rightarrow> handshakeLimiter" where
  "newHandshakeLimiter rate burst = \<lparr>hl_entries = [], hl_order = [], hl_rate = rate, hl_burst = burst\<rparr>"

definition refill :: "handshakeLimiter \<Rightarrow> time \<Rightarrow> handshakeEntry \<Rightarrow> handshakeEntry" where
  "refill l now e =
     (let elapsed = Seconds (now - he_last e)
      in if 0 < elapsed
         then e\<lparr>he_tokens := min (hl_burst l) (he_tokens e + elapsed * hl_rate l), he_last := now\<rparr>
         else e)"

text \<open>The bucket of \<open>addr\<close>, moved or pushed to the front of the list.\<close>

definition touchBucket :: "Addr \<Rightarrow> time \<Rightarrow> handshakeLimiter \<Rightarrow> handshakeLimiter \<times> handshakeEntry" where
  "touchBucket addr now l =
     (case (if addr \<in> set (hl_entries l) then find (\<lambda>e. he_addr e = addr) (hl_order l) else None) of
        Some e \<Rightarrow>
          (l\<lparr>hl_order := refill l now e # filter (\<lambda>e. he_addr e \<noteq> addr) (hl_order l)\<rparr>, refill l now e)
      | None \<Rightarrow>
          let l = (if handshakeLimiterMaxEntries \<le> length (hl_order l)
                   then l\<lparr>hl_entries := removeAll (he_addr (last (hl_order l))) (hl_entries l),
                          hl_order := butlast (hl_order l)\<rparr>
                   else l);
              e = \<lparr>he_addr = addr, he_tokens = hl_burst l, he_last = now\<rparr>
          in (l\<lparr>hl_entries := addr # hl_entries l, hl_order := e # hl_order l\<rparr>, e))"

definition allow :: "Addr \<Rightarrow> time \<Rightarrow> handshakeLimiter \<Rightarrow> handshakeLimiter \<times> bool" where
  "allow addr now l =
     (let (l, e) = touchBucket addr now l
      in if he_tokens e < 1 then (l, False)
         else (l\<lparr>hl_order := (hd (hl_order l))\<lparr>he_tokens := he_tokens e - 1\<rparr> # tl (hl_order l)\<rparr>, True))"

definition limiter_size :: "handshakeLimiter \<Rightarrow> nat" where
  "limiter_size l = length (hl_order l)"

text \<open>The loop of \<open>cleanup\<close>, on the list from its back.\<close>

fun cleanupLoop :: "real \<Rightarrow> time \<Rightarrow> duration \<Rightarrow> handshakeEntry list \<Rightarrow> Addr list \<Rightarrow> handshakeEntry list \<times> Addr list" where
  "cleanupLoop burst now age [] keys = ([], keys)"
| "cleanupLoop burst now age (e # es) keys =
     (if he_tokens e < burst \<or> now - he_last e < age then (e # es, keys)
      else cleanupLoop burst now age es (removeAll (he_addr e) keys))"

definition limiter_cleanup :: "time \<Rightarrow> duration \<Rightarrow> handshakeLimiter \<Rightarrow> handshakeLimiter" where
  "limiter_cleanup now age l =
     (let (es, keys) = cleanupLoop (hl_burst l) now age (rev (hl_order l)) (hl_entries l)
      in l\<lparr>hl_order := rev es, hl_entries := keys\<rparr>)"

section \<open>The invariant\<close>

definition wf_limiter :: "handshakeLimiter \<Rightarrow> bool" where
  "wf_limiter l \<longleftrightarrow> distinct (map he_addr (hl_order l)) \<and> set (hl_entries l) = he_addr ` set (hl_order l) \<and>
     length (hl_order l) \<le> 8192 \<and> (\<forall>e \<in> set (hl_order l). he_tokens e < hl_burst l)"

lemma wf_newLimiter: "wf_limiter (newHandshakeLimiter r b)"
  by (simp add: wf_limiter_def newHandshakeLimiter_def)

lemma find_entry:
  assumes "distinct (map he_addr es)" "e \<in> set es"
  shows "find (\<lambda>x. he_addr x = he_addr e) es = Some e"
  using assms by (induction es) auto

lemma touchBucket_known:
  assumes "wf_limiter l" "e \<in> set (hl_order l)"
  shows "touchBucket (he_addr e) now l =
    (l\<lparr>hl_order := refill l now e # filter (\<lambda>x. he_addr x \<noteq> he_addr e) (hl_order l)\<rparr>, refill l now e)"
  using assms find_entry [of "hl_order l" e] by (auto simp: wf_limiter_def touchBucket_def)

lemma touchBucket_new:
  assumes "wf_limiter l" "addr \<notin> he_addr ` set (hl_order l)" "length (hl_order l) < 8192"
  shows "touchBucket addr now l =
    (l\<lparr>hl_entries := addr # hl_entries l, hl_order := \<lparr>he_addr = addr, he_tokens = hl_burst l, he_last = now\<rparr> # hl_order l\<rparr>,
     \<lparr>he_addr = addr, he_tokens = hl_burst l, he_last = now\<rparr>)"
  using assms by (auto simp: wf_limiter_def touchBucket_def handshakeLimiterMaxEntries_def Let_def)

lemma touchBucket_full:
  assumes "wf_limiter l" "addr \<notin> he_addr ` set (hl_order l)" "\<not> length (hl_order l) < 8192"
  shows "touchBucket addr now l =
    (l\<lparr>hl_entries := addr # removeAll (he_addr (last (hl_order l))) (hl_entries l),
       hl_order := \<lparr>he_addr = addr, he_tokens = hl_burst l, he_last = now\<rparr> # butlast (hl_order l)\<rparr>,
     \<lparr>he_addr = addr, he_tokens = hl_burst l, he_last = now\<rparr>)"
  using assms by (auto simp: wf_limiter_def touchBucket_def handshakeLimiterMaxEntries_def Let_def)

text \<open>What \<open>allow\<close> does to the list: the bucket goes to the front, the others stay, except that
  the last one is evicted when a new address meets a full list.\<close>

lemma touchBucket_shape:
  assumes "wf_limiter l"
  obtains e rest keys where
    "touchBucket addr now l = (l\<lparr>hl_entries := keys, hl_order := e # rest\<rparr>, e)" "he_addr e = addr"
    "set rest \<subseteq> set (hl_order l)" "addr \<notin> he_addr ` set rest" "distinct (map he_addr rest)"
    "set keys = insert addr (he_addr ` set rest)" "length rest < 8192"
    "(\<exists>e' \<in> set (hl_order l). he_addr e' = addr \<and> e = refill l now e') \<or>
     addr \<notin> he_addr ` set (hl_order l) \<and> e = \<lparr>he_addr = addr, he_tokens = hl_burst l, he_last = now\<rparr>"
    "set (hl_order l) \<subseteq> set rest \<union> {x. he_addr x = addr} \<or> 8192 \<le> length (hl_order l) \<and> addr \<notin> he_addr ` set (hl_order l)"
proof -
  have wf: "distinct (map he_addr (hl_order l))" "set (hl_entries l) = he_addr ` set (hl_order l)"
    "length (hl_order l) \<le> 8192" using assms by (simp_all add: wf_limiter_def)
  consider e where "e \<in> set (hl_order l)" "he_addr e = addr"
    | "addr \<notin> he_addr ` set (hl_order l)" "length (hl_order l) < 8192"
    | "addr \<notin> he_addr ` set (hl_order l)" "\<not> length (hl_order l) < 8192" by blast
  then show thesis
  proof cases
    case 1
    let ?rest = "filter (\<lambda>x. he_addr x \<noteq> he_addr e) (hl_order l)"
    have "length ?rest < length (hl_order l)" using 1(1) by (intro length_filter_less) auto
    moreover have "distinct (map he_addr ?rest)" using wf(1) by (simp add: distinct_map_filter)
    moreover have "he_addr (refill l now e) = addr" using 1(2) by (simp add: refill_def Let_def)
    moreover have "set (hl_entries l) = insert addr (he_addr ` set ?rest)" using wf(2) 1 by auto
    moreover have "set (hl_order l) \<subseteq> set ?rest \<union> {x. he_addr x = addr}" "addr \<notin> he_addr ` set ?rest"
      using 1(2) by auto
    moreover have "\<exists>e' \<in> set (hl_order l). he_addr e' = addr \<and> refill l now e = refill l now e'"
      using 1 by blast
    moreover have "touchBucket addr now l = (l\<lparr>hl_entries := hl_entries l, hl_order := refill l now e # ?rest\<rparr>, refill l now e)"
      using touchBucket_known [OF assms 1(1), of now] 1(2) by simp
    ultimately show thesis
      using wf(3) by (intro that [of "refill l now e" ?rest "hl_entries l"]) auto
  next
    case 2
    then show thesis using that [OF touchBucket_new [OF assms 2, of now]] wf by auto
  next
    case 3
    let ?o = "hl_order l"
    obtain xs x where o: "?o = xs @ [x]" using 3(2) by (cases ?o rule: rev_cases) auto
    then have d: "distinct (map he_addr (butlast ?o))" "he_addr (last ?o) \<notin> he_addr ` set (butlast ?o)"
      "set ?o = insert (last ?o) (set (butlast ?o))" and ne: "?o \<noteq> []"
      using wf(1) by auto
    then have "set (removeAll (he_addr (last ?o)) (hl_entries l)) = he_addr ` set (butlast ?o)"
      using wf(2) by auto
    then show thesis
      using that [OF touchBucket_full [OF assms 3, of now]] wf 3 d ne by (auto simp: in_set_butlastD)
  qed
qed

lemma refill_tokens: "he_tokens e < hl_burst l \<Longrightarrow> he_tokens (refill l now e) \<le> hl_burst l"
  by (simp add: refill_def Let_def)

lemma allow_wf:
  assumes "wf_limiter l" "1 \<le> hl_burst l"
  shows "wf_limiter (fst (allow addr now l)) \<and> hl_burst (fst (allow addr now l)) = hl_burst l \<and>
    hl_rate (fst (allow addr now l)) = hl_rate l"
proof (rule touchBucket_shape [OF assms(1), of addr now])
  fix e rest keys
  assume t: "touchBucket addr now l = (l\<lparr>hl_entries := keys, hl_order := e # rest\<rparr>, e)" "he_addr e = addr"
    and rest: "set rest \<subseteq> set (hl_order l)" "addr \<notin> he_addr ` set rest" "distinct (map he_addr rest)"
    and keys: "set keys = insert addr (he_addr ` set rest)" and len: "length rest < 8192"
    and e: "(\<exists>e' \<in> set (hl_order l). he_addr e' = addr \<and> e = refill l now e') \<or>
      addr \<notin> he_addr ` set (hl_order l) \<and> e = \<lparr>he_addr = addr, he_tokens = hl_burst l, he_last = now\<rparr>"
  have tok: "he_tokens e \<le> hl_burst l" "\<forall>x \<in> set rest. he_tokens x < hl_burst l"
    using e rest(1) assms(1) refill_tokens by (auto simp: wf_limiter_def)
  then show ?thesis
    using t(2) rest keys len assms(2) by (auto simp: allow_def t(1) wf_limiter_def)
qed

lemma cleanup_noop: "wf_limiter l \<Longrightarrow> limiter_cleanup now age l = l"
  by (cases "hl_order l" rule: rev_cases) (auto simp: limiter_cleanup_def wf_limiter_def)

datatype limiter_event = HAllow Addr time | HCleanup time duration

fun limiter_step :: "limiter_event \<Rightarrow> handshakeLimiter \<Rightarrow> handshakeLimiter" where
  "limiter_step (HAllow a t) l = fst (allow a t l)"
| "limiter_step (HCleanup t age) l = limiter_cleanup t age l"

interpretation limiter: invariant_machine limiter_step "\<lambda>l. wf_limiter l \<and> hl_burst l = b \<and> 1 \<le> b" for b
proof
  fix l e assume "wf_limiter l \<and> hl_burst l = b \<and> 1 \<le> b"
  then show "wf_limiter (limiter_step e l) \<and> hl_burst (limiter_step e l) = b \<and> 1 \<le> b"
    using allow_wf [of l] by (cases e) (auto simp: cleanup_noop)
qed

section \<open>The rate\<close>

text \<open>The addresses admitted in the course of a sequence of attempts and cleanups, and how often the
  bucket of \<open>a\<close> is evicted in it.\<close>

fun admissions :: "limiter_event list \<Rightarrow> handshakeLimiter \<Rightarrow> Addr list" where
  "admissions [] l = []"
| "admissions (HAllow a t # evs) l = (let (l, ok) = allow a t l in (if ok then [a] else []) @ admissions evs l)"
| "admissions (HCleanup t age # evs) l = admissions evs (limiter_cleanup t age l)"

definition bucket_of :: "Addr \<Rightarrow> handshakeLimiter \<Rightarrow> bool" where
  "bucket_of a l \<longleftrightarrow> a \<in> he_addr ` set (hl_order l)"

fun evictions :: "Addr \<Rightarrow> limiter_event list \<Rightarrow> handshakeLimiter \<Rightarrow> nat" where
  "evictions a [] l = 0"
| "evictions a (HAllow b t # evs) l =
     (if bucket_of a l \<and> \<not> bucket_of a (fst (allow b t l)) then 1 else 0) + evictions a evs (fst (allow b t l))"
| "evictions a (HCleanup t age # evs) l = evictions a evs (limiter_cleanup t age l)"

text \<open>The attempts of a sequence: their times, and who makes them.\<close>

fun attempt_times :: "limiter_event list \<Rightarrow> time list" where
  "attempt_times [] = []"
| "attempt_times (HAllow a t # evs) = t # attempt_times evs"
| "attempt_times (HCleanup t age # evs) = attempt_times evs"

fun attempt_addrs :: "limiter_event list \<Rightarrow> Addr list" where
  "attempt_addrs [] = []"
| "attempt_addrs (HAllow a t # evs) = a # attempt_addrs evs"
| "attempt_addrs (HCleanup t age # evs) = attempt_addrs evs"

text \<open>What the bucket of \<open>a\<close> still has, plus what it has given, is covered by one burst for each bucket
  that \<open>a\<close> has had, and the refill since \<open>t0\<close>. \<open>n\<close> counts the buckets that were evicted.\<close>

definition bucket_inv :: "Addr \<Rightarrow> time \<Rightarrow> time \<Rightarrow> nat \<Rightarrow> nat \<Rightarrow> handshakeLimiter \<Rightarrow> bool" where
  "bucket_inv a t0 t n c l \<longleftrightarrow>
     (\<not> bucket_of a l \<longrightarrow> real c \<le> real n * hl_burst l + hl_rate l * Seconds (t - t0)) \<and>
     (\<forall>e \<in> set (hl_order l). he_addr e = a \<longrightarrow> 0 \<le> he_tokens e \<and> he_last e \<le> t \<and>
        real c + he_tokens e \<le> (1 + real n) * hl_burst l + hl_rate l * Seconds (he_last e - t0))"

lemma Seconds_diff: "Seconds (x - y) + Seconds (y - z) = Seconds (x - z)"
  by (simp add: Seconds_def add_divide_distrib [symmetric])

lemma Seconds_mono: "x \<le> y \<Longrightarrow> Seconds x \<le> Seconds y"
  by (simp add: Seconds_def divide_right_mono)

lemma rate_mono: "0 \<le> r \<Longrightarrow> x \<le> y \<Longrightarrow> r * Seconds (x - z) \<le> r * Seconds (y - z)"
  by (intro mult_left_mono Seconds_mono) simp_all

lemma refill_inv:
  assumes "real c + he_tokens e \<le> B + hl_rate l * Seconds (he_last e - t0)" "0 \<le> he_tokens e"
    "0 \<le> hl_rate l" "0 \<le> hl_burst l" "he_last e \<le> t"
  shows "real c + he_tokens (refill l t e) \<le> B + hl_rate l * Seconds (he_last (refill l t e) - t0) \<and>
    0 \<le> he_tokens (refill l t e) \<and> he_last (refill l t e) \<le> t"
proof (cases "0 < Seconds (t - he_last e)")
  case True
  have "hl_rate l * Seconds (t - t0) = hl_rate l * Seconds (t - he_last e) + hl_rate l * Seconds (he_last e - t0)"
    using Seconds_diff [of t "he_last e" t0] by (simp add: distrib_left [symmetric])
  moreover have "0 \<le> Seconds (t - he_last e) * hl_rate l" using True assms(3) by simp
  ultimately show ?thesis using True assms by (auto simp: refill_def Let_def mult.commute)
qed (use assms in \<open>simp add: refill_def Let_def\<close>)

lemma allow_shape:
  assumes "wf_limiter l"
  obtains e e2 rest keys where
    "fst (allow b t l) = l\<lparr>hl_entries := keys, hl_order := e2 # rest\<rparr>" "snd (allow b t l) \<longleftrightarrow> \<not> he_tokens e < 1"
    "e2 = (if he_tokens e < 1 then e else e\<lparr>he_tokens := he_tokens e - 1\<rparr>)" "he_addr e = b"
    "set rest \<subseteq> set (hl_order l)" "b \<notin> he_addr ` set rest"
    "(\<exists>e' \<in> set (hl_order l). he_addr e' = b \<and> e = refill l t e') \<or>
     \<not> bucket_of b l \<and> e = \<lparr>he_addr = b, he_tokens = hl_burst l, he_last = t\<rparr>"
proof (rule touchBucket_shape [OF assms, of b t])
  fix e rest keys
  assume tb: "touchBucket b t l = (l\<lparr>hl_entries := keys, hl_order := e # rest\<rparr>, e)" "he_addr e = b"
    and rest: "set rest \<subseteq> set (hl_order l)" "b \<notin> he_addr ` set rest"
    and e: "(\<exists>e' \<in> set (hl_order l). he_addr e' = b \<and> e = refill l t e') \<or>
      b \<notin> he_addr ` set (hl_order l) \<and> e = \<lparr>he_addr = b, he_tokens = hl_burst l, he_last = t\<rparr>"
  show thesis
    by (rule that [OF _ _ refl tb(2) rest]) (use e in \<open>auto simp: allow_def tb(1) bucket_of_def\<close>)
qed

lemma allow_bucket_inv:
  assumes wf: "wf_limiter l" "1 \<le> hl_burst l" "0 \<le> hl_rate l" and inv: "bucket_inv a t0 t n c l" and t: "t \<le> t'"
  shows "bucket_inv a t0 t' (n + (if bucket_of a l \<and> \<not> bucket_of a (fst (allow b t' l)) then 1 else 0))
    (c + (if b = a \<and> snd (allow b t' l) then 1 else 0)) (fst (allow b t' l))"
proof (rule allow_shape [OF wf(1), of b t'])
  fix e e2 rest keys
  assume al: "fst (allow b t' l) = l\<lparr>hl_entries := keys, hl_order := e2 # rest\<rparr>" "snd (allow b t' l) \<longleftrightarrow> \<not> he_tokens e < 1"
    and e2: "e2 = (if he_tokens e < 1 then e else e\<lparr>he_tokens := he_tokens e - 1\<rparr>)" and b: "he_addr e = b"
    and rest: "set rest \<subseteq> set (hl_order l)" "b \<notin> he_addr ` set rest"
    and e: "(\<exists>e' \<in> set (hl_order l). he_addr e' = b \<and> e = refill l t' e') \<or>
      \<not> bucket_of b l \<and> e = \<lparr>he_addr = b, he_tokens = hl_burst l, he_last = t'\<rparr>"
  have gone: "real c \<le> real n * hl_burst l + hl_rate l * Seconds (t' - t0)" if "\<not> bucket_of a l"
    using that inv rate_mono [OF wf(3) t, of t0] by (auto simp: bucket_inv_def)
  have kept: "0 \<le> he_tokens x" "he_last x \<le> t'"
    "real c + he_tokens x \<le> (1 + real n) * hl_burst l + hl_rate l * Seconds (he_last x - t0)"
    if "x \<in> set (hl_order l)" "he_addr x = a" for x
    using that inv t by (auto simp: bucket_inv_def)
  show ?thesis
  proof (cases "b = a")
    case True
    have "real c + he_tokens e \<le> (1 + real n) * hl_burst l + hl_rate l * Seconds (he_last e - t0) \<and> 0 \<le> he_tokens e \<and> he_last e \<le> t'"
      using e
    proof
      assume "\<exists>e' \<in> set (hl_order l). he_addr e' = b \<and> e = refill l t' e'"
      then obtain e' where "e' \<in> set (hl_order l)" "he_addr e' = a" "e = refill l t' e'" using True by blast
      then show ?thesis using refill_inv [OF kept(3,1) wf(3) _ kept(2)] wf(2) by simp
    next
      assume "\<not> bucket_of b l \<and> e = \<lparr>he_addr = b, he_tokens = hl_burst l, he_last = t'\<rparr>"
      then show ?thesis using gone True wf(2) by (simp add: distrib_right)
    qed
    moreover have "x \<in> set rest \<Longrightarrow> he_addr x \<noteq> a" for x using rest(2) True by blast
    ultimately show ?thesis unfolding al using True b by (auto simp: bucket_inv_def bucket_of_def e2)
  next
    case False
    have ev: "real c \<le> (1 + real n) * hl_burst l + hl_rate l * Seconds (t' - t0)" if "bucket_of a l"
      using that kept rate_mono [OF wf(3), of _ t' t0] by (fastforce simp: bucket_of_def)
    show ?thesis
      unfolding al using False b rest(1) gone ev kept by (auto simp: bucket_inv_def bucket_of_def e2 add.commute) (metis image_eqI)
  qed
qed

lemma admissions_evictions:
  assumes "wf_limiter l" "1 \<le> hl_burst l" "0 \<le> hl_rate l" "bucket_inv a t0 t n c l" "t \<le> t1"
    and "sorted (t # attempt_times evs)" "\<forall>t \<in> set (attempt_times evs). t \<le> t1"
  shows "real (c + count_list (admissions evs l) a) \<le> (1 + real (n + evictions a evs l)) * hl_burst l + hl_rate l * Seconds (t1 - t0)"
  using assms
proof (induction evs arbitrary: l n c t rule: attempt_times.induct)
  case 1
  show ?case
  proof (cases "bucket_of a l")
    case True
    then obtain e where "e \<in> set (hl_order l)" "he_addr e = a" by (auto simp: bucket_of_def)
    then have "0 \<le> he_tokens e" "he_last e \<le> t1"
      "real c + he_tokens e \<le> (1 + real n) * hl_burst l + hl_rate l * Seconds (he_last e - t0)"
      using 1(4,5) by (auto simp: bucket_inv_def)
    then show ?thesis using rate_mono [OF 1(3), of "he_last e" t1 t0] by simp
  next
    case False
    then show ?thesis using 1(2,4) rate_mono [OF 1(3,5), of t0] by (auto simp: bucket_inv_def distrib_right)
  qed
next
  case (2 b u evs)
  let ?l = "fst (allow b u l)"
  have u: "t \<le> u" "u \<le> t1" "sorted (u # attempt_times evs)" using 2(7,8) by auto
  note wf = allow_wf [OF 2(2,3), of b u]
  from 2(1) [of ?l u, OF _ _ _ allow_bucket_inv [OF 2(2-5) u(1)]] wf 2(3,4,8) u
  show ?case by (cases "b = a") (auto simp: split_beta add_ac split: if_splits)
next
  case (3 u age evs)
  then show ?case by (simp add: cleanup_noop)
qed

subsection \<open>How often a bucket is evicted\<close>

text \<open>The addresses in the order of use.\<close>

lemma allow_addrs:
  assumes "wf_limiter l"
  shows "map he_addr (hl_order (fst (allow b t l))) = b #
    (let as = map he_addr (hl_order l) in if b \<in> set as then filter (\<lambda>x. x \<noteq> b) as else if length as < 8192 then as else butlast as)"
proof -
  consider e where "e \<in> set (hl_order l)" "he_addr e = b"
    | "b \<notin> he_addr ` set (hl_order l)" "length (hl_order l) < 8192"
    | "b \<notin> he_addr ` set (hl_order l)" "\<not> length (hl_order l) < 8192" by blast
  then show ?thesis
  proof cases
    case 1
    then show ?thesis using touchBucket_known [OF assms 1(1), of t]
      by (auto simp: allow_def Let_def refill_def filter_map o_def)
  next
    case 2
    then show ?thesis using touchBucket_new [OF assms 2, of t] by (simp add: allow_def)
  next
    case 3
    then show ?thesis using touchBucket_full [OF assms 3, of t] by (simp add: allow_def map_butlast)
  qed
qed

definition place :: "Addr \<Rightarrow> handshakeLimiter \<Rightarrow> nat" where
  "place a l = length (takeWhile (\<lambda>x. x \<noteq> a) (map he_addr (hl_order l)))"

lemma takeWhile_filter_le: "a \<noteq> b \<Longrightarrow> length (takeWhile (\<lambda>x. x \<noteq> a) (filter (\<lambda>x. x \<noteq> b) xs)) \<le> length (takeWhile (\<lambda>x. x \<noteq> a) xs)"
  by (induction xs) auto

lemma takeWhile_butlast:
  "a \<in> set xs \<Longrightarrow> if a \<in> set (butlast xs) then takeWhile (\<lambda>x. x \<noteq> a) (butlast xs) = takeWhile (\<lambda>x. x \<noteq> a) xs
     else length (takeWhile (\<lambda>x. x \<noteq> a) xs) = length xs - 1"
  by (induction xs rule: rev_induct) (auto simp: takeWhile_append)

lemma bucket_of_map: "bucket_of a l \<longleftrightarrow> a \<in> set (map he_addr (hl_order l))"
  by (simp add: bucket_of_def)

lemma place_step:
  assumes "wf_limiter l" "a \<noteq> b"
  shows "bucket_of a (fst (allow b t l)) \<Longrightarrow> bucket_of a l \<and> place a (fst (allow b t l)) \<le> Suc (place a l)"
    "bucket_of a l \<Longrightarrow> \<not> bucket_of a (fst (allow b t l)) \<Longrightarrow> Suc (place a l) = 8192"
  using assms takeWhile_filter_le [OF assms(2), of "map he_addr (hl_order l)"] takeWhile_butlast [of a "map he_addr (hl_order l)"]
  by (auto simp: bucket_of_map place_def allow_addrs Let_def wf_limiter_def simp del: set_map split: if_splits dest: in_set_butlastD)

lemma evictions_bound:
  assumes "wf_limiter l" "1 \<le> hl_burst l"
    and "bucket_of a l \<Longrightarrow> 8192 * n + place a l \<le> k" "8192 * n \<le> k"
  shows "8192 * (n + evictions a evs l) \<le> k + length (filter (\<lambda>b. b \<noteq> a) (attempt_addrs evs))"
  using assms
proof (induction evs arbitrary: l n k rule: attempt_addrs.induct)
  case (2 b t evs)
  let ?l = "fst (allow b t l)"
  note wf = allow_wf [OF 2(2,3), of b t]
  show ?case
  proof (cases "b = a")
    case True
    have "bucket_of a ?l" "place a ?l = 0" by (simp_all add: bucket_of_map place_def allow_addrs [OF 2(2)] True del: set_map)
    then show ?thesis using 2(1) [of ?l n k] 2(3,5) wf True by simp
  next
    case False
    then have ne: "a \<noteq> b" by simp
    show ?thesis
    proof (cases "bucket_of a l \<and> \<not> bucket_of a ?l")
      case True
      then have "8192 * Suc n \<le> Suc k" using place_step(2) [OF 2(2) ne, of t] 2(4) by simp
      then show ?thesis using 2(1) [of ?l "Suc n" "Suc k"] 2(3) wf True False by simp
    next
      case kept: False
      then have "bucket_of a ?l \<Longrightarrow> 8192 * n + place a ?l \<le> Suc k" using place_step(1) [OF 2(2) ne, of t] 2(4) by simp
      then show ?thesis using 2(1) [of ?l n "Suc k"] 2(3,5) wf kept False by auto
    qed
  qed
qed (simp_all add: cleanup_noop)

lemma no_evictions:
  assumes "wf_limiter l" "1 \<le> hl_burst l" "set (attempt_addrs evs) \<union> set (map he_addr (hl_order l)) \<subseteq> S" "finite S" "card S \<le> 8192"
  shows "evictions a evs l = 0"
  using assms
proof (induction evs arbitrary: l rule: attempt_addrs.induct)
  case (2 b t evs)
  let ?as = "map he_addr (hl_order l)" and ?l = "fst (allow b t l)"
  have "length ?as < 8192" if "b \<notin> set ?as"
  proof -
    have "card (set (b # ?as)) = Suc (length ?as)" using that 2(2) distinct_card [of "b # ?as"] by (simp add: wf_limiter_def)
    moreover have "card (set (b # ?as)) \<le> 8192" using card_mono [OF 2(5), of "set (b # ?as)"] 2(4,6) by simp
    ultimately show ?thesis by simp
  qed
  then have as: "set (map he_addr (hl_order ?l)) = insert b (set ?as)"
    unfolding allow_addrs [OF 2(2)] Let_def by auto
  have "evictions a evs ?l = 0"
    by (rule 2(1)) (use allow_wf [OF 2(2,3), of b t] 2(3-6) as in auto)
  then show ?case using as by (simp add: bucket_of_map del: set_map)
qed (simp_all add: cleanup_noop)

subsection \<open>A burst of less than a token\<close>

lemma touchBucket_le:
  assumes "\<forall>e \<in> set (hl_order l). he_tokens e \<le> hl_burst l" "touchBucket b t l = (l', e)"
  shows "hl_burst l' = hl_burst l \<and> he_tokens e \<le> hl_burst l \<and> (\<forall>e \<in> set (hl_order l'). he_tokens e \<le> hl_burst l)"
  using assms by (auto simp: touchBucket_def refill_def Let_def find_Some_iff split: if_splits option.splits) (meson in_set_butlastD)+

lemma cleanupLoop_subset: "set (fst (cleanupLoop burst now age es keys)) \<subseteq> set es"
  by (induction es arbitrary: keys) auto

lemma no_admissions:
  assumes "\<forall>e \<in> set (hl_order l). he_tokens e \<le> hl_burst l" "hl_burst l < 1"
  shows "admissions evs l = []"
  using assms
proof (induction evs arbitrary: l rule: attempt_addrs.induct)
  case (2 b t evs)
  obtain l' e where tb: "touchBucket b t l = (l', e)" by (metis surj_pair)
  note le = touchBucket_le [OF 2(2) tb]
  then have "allow b t l = (l', False)" using 2(3) by (simp add: allow_def tb)
  then show ?case using 2(1) [of l'] le 2(3) by simp
next
  case (3 t age evs)
  have "set (hl_order (limiter_cleanup t age l)) \<subseteq> set (hl_order l)" "hl_burst (limiter_cleanup t age l) = hl_burst l"
    using cleanupLoop_subset [of "hl_burst l" t age "rev (hl_order l)" "hl_entries l"] by (simp_all add: limiter_cleanup_def split_beta)
  then show ?case using 3(1) [of "limiter_cleanup t age l"] 3(2,3) by auto
qed simp

section \<open>Properties\<close>

text \<open>C38. What the limiter admits. Take any sequence of handshake attempts, in the order of their
  times between \<open>t0\<close> and \<open>t1\<close>, with any cleanups in between. The number admitted from the address \<open>a\<close> is
  at most the rate times the elapsed seconds plus one burst, and a further burst for every 8192
  attempts from other addresses: so many are needed to push the bucket of \<open>a\<close> out of the list, after
  which \<open>a\<close> gets a full one. If the attempts come from at most 8192 addresses, the bucket is never
  pushed out, and it is the rate times the elapsed seconds plus one burst.\<close>

theorem handshake_rate_enforced:
  assumes "0 \<le> burst" "0 \<le> rate" "t0 \<le> t1" "sorted (attempt_times evs)" "\<forall>t \<in> set (attempt_times evs). t0 \<le> t \<and> t \<le> t1"
  shows "real (count_list (admissions evs (newHandshakeLimiter rate burst)) a) \<le>
      (1 + real (length (filter (\<lambda>b. b \<noteq> a) (attempt_addrs evs)) div 8192)) * burst + rate * Seconds (t1 - t0) \<and>
    (card (set (attempt_addrs evs)) \<le> 8192 \<longrightarrow>
      real (count_list (admissions evs (newHandshakeLimiter rate burst)) a) \<le> burst + rate * Seconds (t1 - t0))"
proof (cases "1 \<le> burst")
  case True
  let ?l = "newHandshakeLimiter rate burst" and ?o = "length (filter (\<lambda>b. b \<noteq> a) (attempt_addrs evs))"
  have l: "wf_limiter ?l" "1 \<le> hl_burst ?l" "0 \<le> hl_rate ?l" "\<not> bucket_of a ?l" "bucket_inv a t0 t0 0 0 ?l" "hl_order ?l = []"
    using True assms(2) wf_newLimiter by (simp_all add: newHandshakeLimiter_def bucket_of_def bucket_inv_def Seconds_def)
  have "sorted (t0 # attempt_times evs)" using assms(4,5) by simp
  from admissions_evictions [OF l(1-3,5) assms(3) this] assms(5)
  have c: "real (count_list (admissions evs ?l) a) \<le> (1 + real (evictions a evs ?l)) * burst + rate * Seconds (t1 - t0)"
    by (simp add: newHandshakeLimiter_def)
  have "8192 * evictions a evs ?l \<le> ?o" using evictions_bound [OF l(1,2), of a 0 0 evs] l(4) by simp
  then have "evictions a evs ?l \<le> ?o div 8192" by simp
  then have "(1 + real (evictions a evs ?l)) * burst \<le> (1 + real (?o div 8192)) * burst"
    using assms(1) by (intro mult_right_mono) simp_all
  moreover have "evictions a evs ?l = 0" if "card (set (attempt_addrs evs)) \<le> 8192"
    by (rule no_evictions [OF l(1,2), of _ "set (attempt_addrs evs)"]) (use l(6) that in simp_all)
  ultimately show ?thesis using c by auto
next
  case False
  have "admissions evs (newHandshakeLimiter rate burst) = []"
    by (rule no_admissions) (use False in \<open>simp_all add: newHandshakeLimiter_def\<close>)
  then show ?thesis using assms(1-3) by (simp add: Seconds_def)
qed

text \<open>Six attempts of one address, four of them admitted: a burst of three and a token per second.\<close>

definition demo_attempts :: "limiter_event list" where
  "demo_attempts = (let a = \<lparr>as16 = [1], is4 = True, zone = []\<rparr>
     in [HAllow a 0, HAllow a 0, HAllow a 0, HAllow a 0, HCleanup 0 second, HAllow a second, HAllow a second])"

theorem handshake_rate_enforced_witness:
  "real (count_list (admissions demo_attempts (newHandshakeLimiter 1 3)) \<lparr>as16 = [1], is4 = True, zone = []\<rparr>) \<le> 4 \<and>
    count_list (attempt_addrs demo_attempts) \<lparr>as16 = [1], is4 = True, zone = []\<rparr> = 6 \<and>
    count_list (admissions demo_attempts (newHandshakeLimiter 1 3)) \<lparr>as16 = [1], is4 = True, zone = []\<rparr> = 4"
proof (intro conjI)
  have "sorted (attempt_times demo_attempts)" "\<forall>t \<in> set (attempt_times demo_attempts). 0 \<le> t \<and> t \<le> second"
    "card (set (attempt_addrs demo_attempts)) \<le> 8192"
    by (simp_all add: demo_attempts_def second_def Let_def)
  then show "real (count_list (admissions demo_attempts (newHandshakeLimiter 1 3)) \<lparr>as16 = [1], is4 = True, zone = []\<rparr>) \<le> 4"
    using handshake_rate_enforced [of 3 1 0 second demo_attempts "\<lparr>as16 = [1], is4 = True, zone = []\<rparr>"]
    by (simp add: Seconds_def second_def)
qed (simp_all add: demo_attempts_def allow_def touchBucket_def newHandshakeLimiter_def refill_def Let_def Seconds_def second_def
    limiter_cleanup_def handshakeLimiterMaxEntries_def)

text \<open>The limiter's memory is bounded by 8192 entries with consistent bookkeeping, in every
  reachable state with a burst of at least one token. And \<open>cleanup\<close> never removes anything: right
  after each attempt the bucket is below its capacity, refilling happens only in \<open>allow\<close>, so the
  condition for dropping an idle bucket (a full one) is never met.\<close>

theorem limiter_bounded_cleanup_inert:
  assumes "1 \<le> burst"
  shows "limiter_size (fold limiter_step es (newHandshakeLimiter rate burst)) \<le> 8192 \<and>
    distinct (map he_addr (hl_order (fold limiter_step es (newHandshakeLimiter rate burst)))) \<and>
    limiter_cleanup now age (fold limiter_step es (newHandshakeLimiter rate burst)) =
      fold limiter_step es (newHandshakeLimiter rate burst)"
proof -
  have "wf_limiter (fold limiter_step es (newHandshakeLimiter rate burst))"
    using limiter.run_inv [of "newHandshakeLimiter rate burst" burst es] wf_newLimiter assms
    by (simp add: newHandshakeLimiter_def)
  then show ?thesis by (simp add: cleanup_noop) (simp add: wf_limiter_def limiter_size_def)
qed

theorem limiter_bounded_cleanup_inert_witness:
  "limiter_cleanup 999999999999 0 (fold limiter_step [HAllow \<lparr>as16 = [1], is4 = True, zone = []\<rparr> 0] (newHandshakeLimiter 10 20)) =
     fold limiter_step [HAllow \<lparr>as16 = [1], is4 = True, zone = []\<rparr> 0] (newHandshakeLimiter 10 20)"
  by (rule conjunct2 [OF conjunct2 [OF limiter_bounded_cleanup_inert]]) simp

end
