(* ===== verification/Server.thy ===== *)
theory Server
  imports EndToEnd Handshake Limiter
begin

text \<open>
  The server (\<open>server.go\<close>): its tables, the dispatch of incoming datagrams, connection migration,
  new handshakes and the tick.

  The code's connections are shared pointers: the address table and the token table point to
  the same object. The model has a heap, and the tables hold indices into it. The handler's
  callbacks are recorded with the connection they are about. Sockets and the coalescing write
  channel are parameters; datagrams reach \<open>tick\<close> as the list the read loop has queued, each with
  the random values its handshake would draw. One point in time stands for the \<open>time.Now()\<close> calls
  of a tick.
\<close>

section \<open>Definitions\<close>

text \<open>The two ways to write: \<open>WriteToUDPAddrPort\<close>, and the channel to the write loop, whose send
  fails only when the server closes. The flag says whether the write succeeded; the error of a
  failed socket write, which the code passes on unread, is \<open>ErrOther\<close>.\<close>

record 'u server_net =
  udp_WriteTo :: "'u \<Rightarrow> bytes \<Rightarrow> AddrPort \<Rightarrow> 'u \<times> bool"
  writeCh_send :: "'u \<Rightarrow> bytes \<Rightarrow> AddrPort \<Rightarrow> 'u \<times> bool"

record 'u server_env =
  env_crypto :: crypto_lib
  env_comp :: comp_lib
  env_appVersion :: u16
  env_net :: "'u server_net"

record 'u server =
  s_config :: ServerConfig
  s_conns :: "nat connectionTable"
  s_pending :: "pendingHandshake pendingTable"
  s_tokens :: "nat tokenTable"
  s_limiter :: handshakeLimiter
  s_heap :: "connection list"
  s_features :: byte
  s_started :: bool
  s_net :: 'u
  s_events :: "(nat \<times> effect) list"

text \<open>\<open>NewServer\<close>, once the socket is bound.\<close>

definition NewServer :: "int \<Rightarrow> ServerConfig \<Rightarrow> 'u \<Rightarrow> 'u server" where
  "NewServer numCPU config u =
     (let config = serverDefaults numCPU config
      in \<lparr>s_config = config, s_conns = newConnectionTable,
          s_pending = newPendingTable (sc_MaxPendingHandshakes config), s_tokens = newTokenTable,
          s_limiter = newHandshakeLimiter (sc_HandshakeRateLimit config) (sc_HandshakeBurst config),
          s_heap = [], s_features = featuresFromConfig (sc_SendBatching config) (sc_ConnectionMigration config),
          s_started = False, s_net = u, s_events = []\<rparr>)"

definition countSent :: "nat \<Rightarrow> connection \<Rightarrow> connection" where
  "countSent n c = c\<lparr>c_bytesSent := c_bytesSent c + of_nat n, c_sendBW := bw_Record (of_nat n) (c_sendBW c)\<rparr>"

text \<open>The \<open>sendFunc\<close> that \<open>setupSendFunc\<close> installs, with and without write coalescing. It always
  writes to the connection's current address.\<close>

definition server_sendFunc :: "'u server_net \<Rightarrow> bool \<Rightarrow> 'u st sendFunc" where
  "server_sendFunc net coalesce s data =
     (case s of (c, u) \<Rightarrow>
        if coalesce
        then let (u, ok) = writeCh_send net u data (c_remoteAddr c)
             in ((countSent (length data) c, u), if ok then None else Some ErrServerClosed)
        else let (u, ok) = udp_WriteTo net u data (c_remoteAddr c)
             in if ok then ((countSent (length data) c, u), None) else ((c, u), Some ErrOther))"

definition migrates :: "connection \<Rightarrow> bool" where
  "migrates c \<longleftrightarrow> c_features c AND FeatureConnectionMigration \<noteq> 0"

definition removeConnection :: "nat \<Rightarrow> 'u server \<Rightarrow> 'u server" where
  "removeConnection i s =
     (let c = s_heap s ! i;
          s = s\<lparr>s_conns := conns_remove (c_remoteAddr c) (s_conns s)\<rparr>
      in if migrates c then s\<lparr>s_tokens := tokens_remove (c_migrationToken c) (s_tokens s)\<rparr> else s)"

fun applyEffect :: "nat \<Rightarrow> effect \<Rightarrow> 'u server \<Rightarrow> 'u server" where
  "applyEffect i RemoveConnection s = removeConnection i s"
| "applyEffect i e s = s\<lparr>s_events := s_events s @ [(i, e)]\<rparr>"

definition commit :: "nat \<Rightarrow> connection \<times> effect list \<Rightarrow> 'u server \<Rightarrow> 'u server" where
  "commit i r s = fold (applyEffect i) (snd r) (s\<lparr>s_heap := (s_heap s)[i := fst r]\<rparr>)"

subsection \<open>Incoming datagrams\<close>

definition server_processConnData :: "'u server_env \<Rightarrow> time \<Rightarrow> nat \<Rightarrow> bytes \<Rightarrow> 'u server \<Rightarrow> 'u server res" where
  "server_processConnData env now i data s =
     (let c = s_heap s ! i
      in if migrates c \<and> length data < MigrationTokenSize then Inr s
         else
           let data = (if migrates c then drop MigrationTokenSize data else data)
           in case processConnData (env_comp env) now data c of
                Inl e \<Rightarrow> Inl e
              | Inr r \<Rightarrow> Inr (commit i r s))"

text \<open>The address swap of \<open>tryMigration\<close>.\<close>

definition moveConnection :: "nat \<Rightarrow> AddrPort \<Rightarrow> 'u server \<Rightarrow> 'u server" where
  "moveConnection i newAddr s =
     (let c = s_heap s ! i
      in if c_remoteAddr c = newAddr then s
         else s\<lparr>s_conns := conns_put newAddr i (conns_remove (c_remoteAddr c) (s_conns s)),
                s_heap := (s_heap s)[i := c\<lparr>c_remoteAddr := newAddr\<rparr>]\<rparr>)"

definition tryMigration :: "'u server_env \<Rightarrow> time \<Rightarrow> nat \<Rightarrow> AddrPort \<Rightarrow> bytes \<Rightarrow> 'u server \<Rightarrow> 'u server res" where
  "tryMigration env now i newAddr data s =
     (let c = s_heap s ! i;
          stripped = drop MigrationTokenSize data
      in case (if c_batchEnabled c then UnmarshalBatch stripped else Inr [stripped]) of
           Inl e \<Rightarrow> Inr s
         | Inr [] \<Rightarrow> Inr s
         | Inr (pkt # pkts) \<Rightarrow>
             (case Decrypt (c_recvCipher c) pkt getDecryptBuffer of
                (cipher, Inl e) \<Rightarrow> Inr (s\<lparr>s_heap := (s_heap s)[i := c\<lparr>c_recvCipher := cipher\<rparr>]\<rparr>)
              | (cipher, Inr decrypted) \<Rightarrow>
                  let s = moveConnection i newAddr (s\<lparr>s_heap := (s_heap s)[i := c\<lparr>c_recvCipher := cipher\<rparr>]\<rparr>);
                      c = countReceived (length stripped) (s_heap s ! i)
                  in case handleDecrypted (env_comp env) now decrypted c of
                       Inl e \<Rightarrow> Inl e
                     | Inr (c, es) \<Rightarrow>
                         (case processPackets (env_comp env) now pkts c of
                            Inl e \<Rightarrow> Inl e
                          | Inr (c, es') \<Rightarrow> Inr (commit i (c, es @ es') s))))"

definition serverSettings :: "ServerConfig \<Rightarrow> connSettings" where
  "serverSettings config =
     \<lparr>set_maxReorderWindow = sc_MaxReorderWindow config,
      set_maxReassemblyBuffers = sc_MaxReassemblyBuffers config,
      set_maxReassemblyBytes = sc_MaxReassemblyBytes config,
      set_fragmentTimeout = sc_FragmentTimeout config\<rparr>"

definition writeTo :: "'u server_env \<Rightarrow> bytes \<Rightarrow> AddrPort \<Rightarrow> 'u server \<Rightarrow> 'u server" where
  "writeTo env data addr s = s\<lparr>s_net := fst (udp_WriteTo (env_net env) (s_net s) data addr)\<rparr>"

definition connectInput :: "bytes \<Rightarrow> 'u server \<Rightarrow> serverProcessConnectInput" where
  "connectInput data s =
     (let config = s_config s
      in \<lparr>spi_data = data, spi_serverCompression = sc_Compression config, spi_layout = sc_ChannelLayout config,
          spi_congestionMode = sc_Congestion config, spi_initialCwnd = sc_InitialCwnd config,
          spi_settings = serverSettings config, spi_serverFeatures = s_features s\<rparr>)"

definition handleHandshake ::
  "'u server_env \<Rightarrow> time \<Rightarrow> AddrPort \<Rightarrow> bytes \<Rightarrow> randomness \<Rightarrow> 'u server \<Rightarrow> 'u server" where
  "handleHandshake env now addr data rnd s =
     (case parseControlPacket data of
        Inl e \<Rightarrow> s
      | Inr (h, ct, p) \<Rightarrow>
          if ct \<noteq> ControlConnect then s
          else
            let (limiter, ok) = allow (ap_addr addr) now (s_limiter s);
                s = s\<lparr>s_limiter := limiter\<rparr>
            in if \<not> ok then s
               else if sc_MaxConnections (s_config s) \<le> int (conns_count (s_conns s))
               then case buildRejectPacket (replicate 64 0) RejectServerFull of
                      (buf, Inl e) \<Rightarrow> s
                    | (buf, Inr n) \<Rightarrow> writeTo env (take n buf) addr s
               else
                 case serverProcessConnect (env_crypto env) (env_appVersion env) rnd now (connectInput data s) of
                   (Inl e, None) \<Rightarrow> s
                 | (Inl e, Some reply) \<Rightarrow> writeTo env reply addr s
                 | (Inr ph, reply) \<Rightarrow>
                     let (pt, stored) = pending_put addr ph (s_pending s)
                     in if \<not> stored then s
                        else writeTo env (case reply of None \<Rightarrow> [] | Some d \<Rightarrow> d) addr (s\<lparr>s_pending := pt\<rparr>))"

text \<open>The second case of \<open>processIncoming\<close>: a RESPONSE turns a pending handshake into a connection.\<close>

definition acceptResponse ::
  "'u server_env \<Rightarrow> time \<Rightarrow> AddrPort \<Rightarrow> bytes \<Rightarrow> pendingHandshake \<Rightarrow> 'u server \<Rightarrow> 'u server" where
  "acceptResponse env now addr data ph s =
     (case serverProcessResponse (env_crypto env) (env_comp env) now data ph addr of
        Inl e \<Rightarrow> s
      | Inr c \<Rightarrow>
          let i = length (s_heap s)
          in s\<lparr>s_heap := s_heap s @ [c], s_pending := pending_remove addr (s_pending s),
               s_conns := conns_put addr i (s_conns s),
               s_tokens := (if migrates c then tokens_put (c_migrationToken c) i (s_tokens s) else s_tokens s),
               s_events := s_events s @ [(i, OnConnect)]\<rparr>)"

record incomingPacket =
  ip_addr :: AddrPort
  ip_data :: bytes
  ip_random :: randomness

definition processIncoming :: "'u server_env \<Rightarrow> time \<Rightarrow> incomingPacket \<Rightarrow> 'u server \<Rightarrow> 'u server res" where
  "processIncoming env now pkt s =
     (case conns_get (s_conns s) (ip_addr pkt) of
        Some i \<Rightarrow> server_processConnData env now i (ip_data pkt) s
      | None \<Rightarrow>
          (case pending_get (s_pending s) (ip_addr pkt) of
             Some ph \<Rightarrow> Inr (acceptResponse env now (ip_addr pkt) (ip_data pkt) ph s)
           | None \<Rightarrow>
               (case (if sc_ConnectionMigration (s_config s) \<and> MigrationTokenSize \<le> length (ip_data pkt)
                      then tokens_get (s_tokens s) (take MigrationTokenSize (ip_data pkt)) else None) of
                  Some i \<Rightarrow> tryMigration env now i (ip_addr pkt) (ip_data pkt) s
                | None \<Rightarrow> Inr (handleHandshake env now (ip_addr pkt) (ip_data pkt) (ip_random pkt) s))))"

subsection \<open>The tick\<close>

definition serverParams :: "ServerConfig \<Rightarrow> tickParams" where
  "serverParams config =
     \<lparr>tp_ConnTimeout = sc_ConnTimeout config, tp_MaxRetransmits = sc_MaxRetransmits config,
      tp_MTU = sc_MTU config, tp_HeartbeatInterval = sc_HeartbeatInterval config,
      tp_FragmentTimeout = sc_FragmentTimeout config\<rparr>"

definition server_tickConnection :: "'u server_env \<Rightarrow> time \<Rightarrow> nat \<Rightarrow> 'u server \<Rightarrow> 'u server res" where
  "server_tickConnection env now i s =
     (case tickConnection (env_comp env) (serverParams (s_config s))
             (server_sendFunc (env_net env) (sc_CoalesceIO (s_config s))) now (s_heap s ! i, s_net s) of
        Inl e \<Rightarrow> Inl e
      | Inr ((c, u), es) \<Rightarrow> Inr (commit i (c, es) (s\<lparr>s_net := u\<rparr>)))"

text \<open>Running a list of steps, up to the first panic.\<close>

fun steps :: "('a \<Rightarrow> 's \<Rightarrow> 's res) \<Rightarrow> 'a list \<Rightarrow> 's \<Rightarrow> 's res" where
  "steps f [] s = Inr s"
| "steps f (x # xs) s = (case f x s of Inl e \<Rightarrow> Inl e | Inr s \<Rightarrow> steps f xs s)"

definition tick :: "'u server_env \<Rightarrow> time \<Rightarrow> incomingPacket list \<Rightarrow> 'u server \<Rightarrow> 'u server res" where
  "tick env now incoming s =
     (case steps (processIncoming env now) incoming s of
        Inl e \<Rightarrow> Inl e
      | Inr s \<Rightarrow>
          let tickConns = conns_forEach (\<lambda>i is. is @ [i]) (s_conns s) []
          in case steps (server_tickConnection env now) tickConns s of
               Inl e \<Rightarrow> Inl e
             | Inr s \<Rightarrow>
                 Inr (s\<lparr>s_pending := pending_cleanup (isExpired now (sc_HandshakeTimeout (s_config s))) (s_pending s),
                        s_limiter := limiter_cleanup now (sc_HandshakeTimeout (s_config s)) (s_limiter s)\<rparr>))"

subsection \<open>Public methods\<close>

definition Start :: "'u server \<Rightarrow> 'u server \<times> fw_error option" where
  "Start s = (if s_started s then (s, Some ErrAlreadyStarted) else (s\<lparr>s_started := True\<rparr>, None))"

definition Tick :: "'u server_env \<Rightarrow> time \<Rightarrow> incomingPacket list \<Rightarrow> 'u server \<Rightarrow> ('u server \<times> fw_error option) res" where
  "Tick env now incoming s =
     (if \<not> s_started s then Inr (s, Some ErrServerNotStarted)
      else if sc_TickMode (s_config s) = TickAuto then Inr (s, Some ErrTickAutoMode)
      else case tick env now incoming s of Inl e \<Rightarrow> Inl e | Inr s \<Rightarrow> Inr (s, None))"

definition stopConnection :: "nat \<Rightarrow> 'u server \<Rightarrow> 'u server" where
  "stopConnection i s = commit i (teardown (s_heap s ! i), [OnDisconnect DisconnectGraceful]) s"

definition Stop :: "'u server \<Rightarrow> 'u server \<times> fw_error option" where
  "Stop s =
     (if \<not> s_started s then (s, Some ErrServerNotStarted)
      else (conns_forEach stopConnection (s_conns s) s, None))"

definition ConnectionCount :: "'u server \<Rightarrow> nat" where
  "ConnectionCount s = conns_count (s_conns s)"

section \<open>The transport of the server\<close>

lemma uncounted: "\<exists>n b. c = c\<lparr>c_bytesSent := n, c_sendBW := b\<rparr>"
  by (intro exI [of _ "c_bytesSent c"] exI [of _ "c_sendBW c"]) simp

interpretation server_send: counting "server_sendFunc net coalesce" for net coalesce
  by unfold_locales (auto simp: server_sendFunc_def countSent_def is_panic_def split_beta uncounted split: if_splits)

text \<open>A network that delivers: it records what is written, with the address.\<close>

definition record_net :: "(AddrPort \<times> bytes) list server_net" where
  "record_net = \<lparr>udp_WriteTo = (\<lambda>u d a. (u @ [(a, d)], True)), writeCh_send = (\<lambda>u d a. (u @ [(a, d)], True))\<rparr>"

interpretation server_wire: transport "server_sendFunc record_net coalesce" "map snd" "\<lambda>_. []" for coalesce
  by unfold_locales (auto simp: server_sendFunc_def record_net_def countSent_def)

end
