(* ===== verification/Client.thy ===== *)
theory Client
  imports Server
begin

text \<open>
  The client (\<open>client.go\<close>): connecting, the handshake packets, the tick and closing.

  \<open>Connect\<close> blocks while the read loop processes handshake packets; the model has its three parts
  as separate steps: \<open>connectStart\<close> (up to the CONNECT packet), \<open>processHandshakePacket\<close> for what
  arrives, and \<open>connectFinish\<close> (after \<open>connectDone\<close> was closed or the timer fired). The socket is a
  parameter; the error of a failed write, which the code passes on unread, is \<open>ErrOther\<close>. There is one
  connection, so the \<open>server\<close> pointer is an optional connection; \<open>cl_sendFunc\<close> says whether its
  \<open>sendFunc\<close> has been installed, which \<open>Connect\<close> does after the handshake.
\<close>

section \<open>Definitions\<close>

record 'u client_env =
  cenv_crypto :: crypto_lib
  cenv_comp :: comp_lib
  cenv_appVersion :: u16
  cenv_Write :: "'u \<Rightarrow> bytes \<Rightarrow> 'u \<times> bool"
  cenv_remote :: AddrPort

record 'u client =
  cl_config :: ClientConfig
  cl_server :: "connection option"
  cl_clientKP :: KeyPair
  cl_connected :: bool
  cl_connectAborted :: bool
  cl_connectDone :: bool
  cl_connectErr :: "fw_error option"
  cl_sendFunc :: bool
  cl_closed :: bool
  cl_net :: 'u
  cl_events :: "effect list"

definition NewClient :: "ClientConfig \<Rightarrow> 'u \<Rightarrow> 'u client" where
  "NewClient config u =
     \<lparr>cl_config = clientDefaults config, cl_server = None, cl_clientKP = \<lparr>Private = [], Public = []\<rparr>,
      cl_connected = False, cl_connectAborted = False, cl_connectDone = False, cl_connectErr = None,
      cl_sendFunc = False, cl_closed = False, cl_net = u, cl_events = []\<rparr>"

definition tokenPrefix :: "connection \<Rightarrow> bytes" where
  "tokenPrefix c = (if migrates c then go_copy (replicate MigrationTokenSize 0) 0 (c_migrationToken c) else [])"

definition client_sendFunc :: "('u \<Rightarrow> bytes \<Rightarrow> 'u \<times> bool) \<Rightarrow> 'u st sendFunc" where
  "client_sendFunc Write s data =
     (case s of (c, u) \<Rightarrow>
        let out = tokenPrefix c @ data;
            (u, ok) = Write u out
        in if ok then ((countSent (length out) c, u), None) else ((c, u), Some ErrOther))"

subsection \<open>Connecting\<close>

definition connectStart :: "'u client_env \<Rightarrow> bytes res \<Rightarrow> 'u client \<Rightarrow> 'u client \<times> fw_error option" where
  "connectStart env private cl =
     (if cl_connected cl then (cl, Some ErrAlreadyConnected)
      else case GenerateKeyPair (cenv_crypto env) private of
             Inl e \<Rightarrow> (cl, Some e)
           | Inr kp \<Rightarrow>
               let cl = cl\<lparr>cl_clientKP := kp\<rparr>
               in case connectRequest (cenv_crypto env) (cenv_appVersion env) (cl_config cl) kp of
                    Inl e \<Rightarrow> (cl, Some e)
                  | Inr req \<Rightarrow>
                      (case cenv_Write env (cl_net cl) req of
                         (u, False) \<Rightarrow> (cl\<lparr>cl_net := u\<rparr>, Some ErrOther)
                       | (u, True) \<Rightarrow>
                           (cl\<lparr>cl_net := u, cl_connectDone := False, cl_connectErr := None, cl_connectAborted := False\<rparr>, None)))"

definition connectFailed :: "fw_error \<Rightarrow> 'u client \<Rightarrow> 'u client" where
  "connectFailed e cl = cl\<lparr>cl_connectErr := Some e, cl_connectDone := True\<rparr>"

definition handleChallenge :: "'u client_env \<Rightarrow> time \<Rightarrow> bytes \<Rightarrow> 'u client \<Rightarrow> 'u client" where
  "handleChallenge env now data cl =
     (case acceptChallenge (cenv_crypto env) (cenv_comp env) (cl_config cl) now data (cl_clientKP cl) (cenv_remote env) of
        Inl e \<Rightarrow> connectFailed e cl
      | Inr (conn, encryptedResp) \<Rightarrow>
          (case cenv_Write env (cl_net cl) encryptedResp of
             (u, False) \<Rightarrow> connectFailed ErrOther (cl\<lparr>cl_net := u\<rparr>)
           | (u, True) \<Rightarrow>
               let cl = cl\<lparr>cl_net := u\<rparr>
               in if cl_connectAborted cl then cl
                  else cl\<lparr>cl_server := Some conn, cl_sendFunc := False, cl_connectDone := True\<rparr>))"

definition processHandshakePacket :: "'u client_env \<Rightarrow> time \<Rightarrow> bytes \<Rightarrow> 'u client \<Rightarrow> 'u client" where
  "processHandshakePacket env now data cl =
     (case parseControlPacket data of
        Inl e \<Rightarrow> cl
      | Inr (h, ct, p) \<Rightarrow>
          if ct = ControlChallenge then handleChallenge env now data cl
          else if ct = ControlVersionMismatch then connectFailed ErrVersionMismatch cl
          else if ct = ControlReject then connectFailed ErrConnectionClosed cl
          else cl)"

text \<open>After the wait: \<open>timeout\<close> says whether the timer fired first.\<close>

definition connectFinish :: "bool \<Rightarrow> 'u client \<Rightarrow> 'u client \<times> fw_error option" where
  "connectFinish timeout cl =
     (if timeout
      then (cl\<lparr>cl_connectAborted := True, cl_closed := True\<rparr>, Some ErrHandshakeTimeout)
      else case cl_connectErr cl of
             Some e \<Rightarrow> (cl\<lparr>cl_closed := True\<rparr>, Some e)
           | None \<Rightarrow> (cl\<lparr>cl_sendFunc := True, cl_connected := True, cl_events := cl_events cl @ [OnConnect]\<rparr>, None))"

subsection \<open>Running\<close>

fun client_applyEffect :: "effect \<Rightarrow> 'u client \<Rightarrow> 'u client" where
  "client_applyEffect RemoveConnection cl = cl\<lparr>cl_connected := False, cl_server := None\<rparr>"
| "client_applyEffect e cl = cl\<lparr>cl_events := cl_events cl @ [e]\<rparr>"

definition client_commit :: "connection \<times> effect list \<Rightarrow> 'u client \<Rightarrow> 'u client" where
  "client_commit r cl = fold client_applyEffect (snd r) (cl\<lparr>cl_server := Some (fst r)\<rparr>)"

definition client_processIncoming :: "'u client_env \<Rightarrow> time \<Rightarrow> bytes \<Rightarrow> 'u client \<Rightarrow> 'u client res" where
  "client_processIncoming env now data cl =
     (case cl_server cl of
        None \<Rightarrow> Inr cl
      | Some c \<Rightarrow>
          (case processConnData (cenv_comp env) now data c of
             Inl e \<Rightarrow> Inl e
           | Inr r \<Rightarrow> Inr (client_commit r cl)))"

definition clientParams :: "ClientConfig \<Rightarrow> tickParams" where
  "clientParams config =
     \<lparr>tp_ConnTimeout = cc_ConnTimeout config, tp_MaxRetransmits = cc_MaxRetransmits config,
      tp_MTU = cc_MTU config, tp_HeartbeatInterval = cc_HeartbeatInterval config,
      tp_FragmentTimeout = cc_FragmentTimeout config\<rparr>"

text \<open>\<open>tickConnection\<close>, with the connection's \<open>sendFunc\<close> if \<open>Connect\<close> has installed it. Calling a nil
  \<open>sendFunc\<close> panics, wherever it happens: \<open>nil_sendFunc\<close> notes the call, and a tick in which it was
  called is a panic.\<close>

definition nil_sendFunc :: "bool st sendFunc" where
  "nil_sendFunc s data = ((fst s, True), Some PanicNilPointer)"

definition client_tickConnection :: "'u client_env \<Rightarrow> time \<Rightarrow> connection \<Rightarrow> 'u client \<Rightarrow> 'u client res" where
  "client_tickConnection env now c cl =
     (let p = clientParams (cl_config cl)
      in if cl_sendFunc cl
         then case tickConnection (cenv_comp env) p (client_sendFunc (cenv_Write env)) now (c, cl_net cl) of
                Inl e \<Rightarrow> Inl e
              | Inr ((c, u), es) \<Rightarrow> Inr (client_commit (c, es) (cl\<lparr>cl_net := u\<rparr>))
         else case tickConnection (cenv_comp env) p nil_sendFunc now (c, False) of
                Inl e \<Rightarrow> Inl e
              | Inr ((c, called), es) \<Rightarrow> if called then Inl PanicNilPointer else Inr (client_commit (c, es) cl))"

definition client_tick :: "'u client_env \<Rightarrow> time \<Rightarrow> bytes list \<Rightarrow> 'u client \<Rightarrow> 'u client res" where
  "client_tick env now incoming cl =
     (case steps (client_processIncoming env now) incoming cl of
        Inl e \<Rightarrow> Inl e
      | Inr cl \<Rightarrow>
          (case cl_server cl of
             None \<Rightarrow> Inr cl
           | Some c \<Rightarrow> client_tickConnection env now c cl))"

definition client_Tick :: "'u client_env \<Rightarrow> time \<Rightarrow> bytes list \<Rightarrow> 'u client \<Rightarrow> ('u client \<times> fw_error option) res" where
  "client_Tick env now incoming cl =
     (if cc_TickMode (cl_config cl) = TickAuto then Inr (cl, Some ErrTickAutoMode)
      else case client_tick env now incoming cl of Inl e \<Rightarrow> Inl e | Inr cl \<Rightarrow> Inr (cl, None))"

definition client_Close :: "'u client_env \<Rightarrow> time \<Rightarrow> 'u client \<Rightarrow> 'u client" where
  "client_Close env now cl =
     (let cl = (case cl_server cl of
                  None \<Rightarrow> cl
                | Some c \<Rightarrow>
                    let sf = (if cl_sendFunc cl then Some (client_sendFunc (cenv_Write env)) else None);
                        ((c, u), err) = Close sf now (c, cl_net cl)
                    in client_commit (teardown c, [RemoveConnection, OnDisconnect DisconnectGraceful]) (cl\<lparr>cl_net := u\<rparr>))
      in cl\<lparr>cl_closed := True\<rparr>)"

section \<open>The transport of the client\<close>

interpretation client_send: counting "client_sendFunc Write" for Write
  by unfold_locales (auto simp: client_sendFunc_def countSent_def is_panic_def split_beta Let_def uncounted split: if_splits)

text \<open>A network that delivers: it records what is written.\<close>

definition record_write :: "bytes list \<Rightarrow> bytes \<Rightarrow> bytes list \<times> bool" where
  "record_write u d = (u @ [d], True)"

interpretation client_wire: transport "client_sendFunc record_write" "\<lambda>u. u" tokenPrefix
  by unfold_locales (auto simp: client_sendFunc_def record_write_def countSent_def tokenPrefix_def migrates_def)

end
