(* ===== verification/ServerSafety.thy ===== *)
theory ServerSafety
  imports Server
begin

text \<open>
  Safety of the server: the address table, the token table, the pending handshakes and the
  connections they point to stay consistent, whatever datagrams arrive in whatever order; and
  the server does not panic as long as send batching is off.
\<close>

section \<open>The invariant\<close>

definition pool_ok :: "comp_lib \<Rightarrow> CompressionConfig \<Rightarrow> bool" where
  "pool_ok lib cfg \<longleftrightarrow> (\<exists>p. newCompressorPool lib cfg = Inr p)"

definition batching :: "byte \<Rightarrow> bool" where
  "batching features \<longleftrightarrow> features AND FeatureSendBatching \<noteq> 0"

text \<open>Connection \<open>i\<close> of the heap is in the address table, under its own address.\<close>

definition in_table :: "'u server \<Rightarrow> nat \<Rightarrow> bool" where
  "in_table s i \<longleftrightarrow> i < length (s_heap s) \<and> conns_get (s_conns s) (c_remoteAddr (s_heap s ! i)) = Some i"

definition good_conn :: "byte \<Rightarrow> connection \<Rightarrow> bool" where
  "good_conn features c \<longleftrightarrow> live c \<and> c_state c \<in> {StateConnected, StateDisconnecting} \<and>
     (c_batchEnabled c \<longrightarrow> batching features)"

definition good_pending :: "comp_lib \<Rightarrow> byte \<Rightarrow> pendingHandshake \<Rightarrow> bool" where
  "good_pending lib features ph \<longleftrightarrow> pool_ok lib (ph_compressionConfig ph) \<and> (batching (ph_features ph) \<longrightarrow> batching features)"

definition wf_server :: "comp_lib \<Rightarrow> 'u server \<Rightarrow> bool" where
  "wf_server lib s \<longleftrightarrow> wf_conns (s_conns s) \<and> wf_map (s_tokens s) \<and> wf_map (pt_pending (s_pending s)) \<and>
     pool_ok lib (sc_Compression (s_config s)) \<and>
     (\<forall>a i. conns_get (s_conns s) a = Some i \<longrightarrow>
        i < length (s_heap s) \<and> c_remoteAddr (s_heap s ! i) = a \<and> good_conn (s_features s) (s_heap s ! i)) \<and>
     (\<forall>t i. tokens_get (s_tokens s) t = Some i \<longrightarrow>
        in_table s i \<and> migrates (s_heap s ! i) \<and> c_migrationToken (s_heap s ! i) = t) \<and>
     (\<forall>a ph. pending_get (s_pending s) a = Some ph \<longrightarrow>
        conns_get (s_conns s) a = None \<and> good_pending lib (s_features s) ph)"

lemma wf_serverD:
  assumes "wf_server lib s"
  shows "wf_conns (s_conns s)" "wf_map (s_tokens s)" "wf_map (pt_pending (s_pending s))"
    "pool_ok lib (sc_Compression (s_config s))"
    "conns_get (s_conns s) a = Some i \<Longrightarrow> i < length (s_heap s)"
    "conns_get (s_conns s) a = Some i \<Longrightarrow> c_remoteAddr (s_heap s ! i) = a"
    "conns_get (s_conns s) a = Some i \<Longrightarrow> good_conn (s_features s) (s_heap s ! i)"
    "tokens_get (s_tokens s) t = Some i \<Longrightarrow> in_table s i"
    "tokens_get (s_tokens s) t = Some i \<Longrightarrow> migrates (s_heap s ! i)"
    "tokens_get (s_tokens s) t = Some i \<Longrightarrow> c_migrationToken (s_heap s ! i) = t"
    "pending_get (s_pending s) a = Some ph \<Longrightarrow> conns_get (s_conns s) a = None"
    "pending_get (s_pending s) a = Some ph \<Longrightarrow> good_pending lib (s_features s) ph"
  using assms by (auto simp: wf_server_def)

lemma in_tableD:
  assumes "wf_server lib s" "in_table s i"
  shows "i < length (s_heap s)" "live (s_heap s ! i)" "c_state (s_heap s ! i) \<in> {StateConnected, StateDisconnecting}"
    "c_batchEnabled (s_heap s ! i) \<Longrightarrow> batching (s_features s)"
  using wf_serverD(7) [OF assms(1), of _ i] assms(2) by (auto simp: in_table_def good_conn_def)

lemma get_in_table: "wf_server lib s \<Longrightarrow> conns_get (s_conns s) a = Some i \<Longrightarrow> in_table s i"
  by (auto simp: in_table_def dest: wf_serverD(5,6))

section \<open>Committing the outcome of a step\<close>

lemma conns_remove_idem: "conns_remove a (conns_remove a ct) = conns_remove a ct"
proof (cases "shardFor a < length ct")
  case True
  then show ?thesis by (simp add: conns_remove_def AList.delete_idem)
qed (simp add: conns_remove_def list_update_beyond)

lemma removeConnection_idem: "removeConnection i (removeConnection i s) = removeConnection i s"
  by (simp add: removeConnection_def Let_def conns_remove_idem tokens_remove_def AList.delete_idem)

lemma removeConnection_events: "removeConnection i (s\<lparr>s_events := e\<rparr>) = (removeConnection i s)\<lparr>s_events := e\<rparr>"
  by (simp add: removeConnection_def Let_def)

lemma s_events_removeConnection [simp]: "s_events (removeConnection i s) = s_events s"
  by (simp add: removeConnection_def Let_def)

lemma fold_applyEffect:
  "fold (applyEffect i) es s =
     (if RemoveConnection \<in> set es then removeConnection i s else s)
       \<lparr>s_events := s_events s @ map (Pair i) (filter (\<lambda>e. e \<noteq> RemoveConnection) es)\<rparr>"
proof (induction es arbitrary: s)
  case (Cons e es)
  then show ?case
    by (cases e) (auto simp: removeConnection_idem removeConnection_events)
qed simp

lemma commit_eq:
  "commit i (c, es) s =
     (let s = s\<lparr>s_heap := (s_heap s)[i := c], s_events := s_events s @ map (Pair i) (filter (\<lambda>e. e \<noteq> RemoveConnection) es)\<rparr>
      in if RemoveConnection \<in> set es then removeConnection i s else s)"
  by (auto simp: commit_def fold_applyEffect removeConnection_events Let_def)

lemma wf_server_events [simp]: "wf_server lib (s\<lparr>s_events := e\<rparr>) = wf_server lib s" "in_table (s\<lparr>s_events := e\<rparr>) i = in_table s i"
  by (simp_all add: wf_server_def in_table_def)

lemma wf_server_net [simp]: "wf_server lib (s\<lparr>s_net := u\<rparr>) = wf_server lib s" "in_table (s\<lparr>s_net := u\<rparr>) i = in_table s i"
  by (simp_all add: wf_server_def in_table_def)

lemma wf_server_limiter [simp]: "wf_server lib (s\<lparr>s_limiter := l\<rparr>) = wf_server lib s" "in_table (s\<lparr>s_limiter := l\<rparr>) i = in_table s i"
  by (simp_all add: wf_server_def in_table_def)

text \<open>Replacing a connection by one with the same identity.\<close>

lemma heap_update_wf:
  assumes "wf_server lib s" "keeps (s_heap s ! i) c" "live (s_heap s ! i) \<longrightarrow> live c"
  shows "wf_server lib (s\<lparr>s_heap := (s_heap s)[i := c]\<rparr>)"
proof -
  have k: "c_remoteAddr ((s_heap s)[i := c] ! j) = c_remoteAddr (s_heap s ! j)"
    "migrates ((s_heap s)[i := c] ! j) = migrates (s_heap s ! j)"
    "c_migrationToken ((s_heap s)[i := c] ! j) = c_migrationToken (s_heap s ! j)"
    "good_conn f (s_heap s ! j) \<Longrightarrow> good_conn f ((s_heap s)[i := c] ! j)"
    if "j < length (s_heap s)" for j f
    using assms(2,3) that by (cases "j = i"; simp add: keeps_def migrates_def good_conn_def)+
  show ?thesis
    using assms(1) k unfolding wf_server_def in_table_def by (auto 4 3)
qed

lemma removeConnection_simps [simp]:
  "s_heap (removeConnection i s) = s_heap s" "s_config (removeConnection i s) = s_config s"
  "s_features (removeConnection i s) = s_features s" "s_pending (removeConnection i s) = s_pending s"
  "s_conns (removeConnection i s) = conns_remove (c_remoteAddr (s_heap s ! i)) (s_conns s)"
  "s_tokens (removeConnection i s) =
     (if migrates (s_heap s ! i) then tokens_remove (c_migrationToken (s_heap s ! i)) (s_tokens s) else s_tokens s)"
  by (simp_all add: removeConnection_def Let_def)

text \<open>Removing a connection from the tables: nothing points to it any more, so that its state
  does not matter.\<close>

lemma removed_wf:
  assumes wf: "wf_server lib s" and i: "in_table s i"
    and c: "c_remoteAddr c = c_remoteAddr (s_heap s ! i)" "c_migrationToken c = c_migrationToken (s_heap s ! i)"
      "c_features c = c_features (s_heap s ! i)"
  shows "wf_server lib (removeConnection i (s\<lparr>s_heap := (s_heap s)[i := c]\<rparr>))"
proof -
  let ?h = "(s_heap s)[i := c]" and ?a = "c_remoteAddr (s_heap s ! i)" and ?t = "c_migrationToken (s_heap s ! i)"
  let ?s = "removeConnection i (s\<lparr>s_heap := ?h\<rparr>)"
  note D = wf_serverD [OF wf]
  have il: "i < length (s_heap s)" and ci: "?h ! i = c" and mc: "migrates c = migrates (s_heap s ! i)"
    using i c(3) by (simp_all add: in_table_def migrates_def)
  have get: "conns_get (s_conns ?s) a = (if a = ?a then None else conns_get (s_conns s) a)" for a
    using conns.get_remove [OF D(1)] by (simp add: ci c(1))
  have other: "j \<noteq> i \<and> conns_get (s_conns s) a = Some j" if "conns_get (s_conns ?s) a = Some j" for a j
    using that D(6) [of a j] unfolding get by (auto split: if_splits)
  have tok: "j \<noteq> i \<and> tokens_get (s_tokens s) t = Some j" if "tokens_get (s_tokens ?s) t = Some j" for t j
    using that D(9,10) [of t j] tokens.get_remove [OF D(2)] mc by (auto simp: ci c(2) split: if_splits)
  have stays: "in_table ?s j" if "in_table s j" "j \<noteq> i" for j
    using that i unfolding in_table_def get by auto
  show ?thesis
    unfolding wf_server_def
  proof (intro conjI allI impI)
    show "wf_conns (s_conns ?s)" using D(1) by (simp add: conns.wf_remove)
    show "wf_map (s_tokens ?s)" using D(2) by (simp add: tokens.wf_remove)
    fix a j assume "conns_get (s_conns ?s) a = Some j"
    note o = other [OF this]
    show "j < length (s_heap ?s)" "c_remoteAddr (s_heap ?s ! j) = a" "good_conn (s_features ?s) (s_heap ?s ! j)"
      using o D(5-7) [of a j] by simp_all
  next
    fix t j assume "tokens_get (s_tokens ?s) t = Some j"
    note o = tok [OF this]
    show "in_table ?s j" "migrates (s_heap ?s ! j)" "c_migrationToken (s_heap ?s ! j) = t"
      using o stays D(8-10) [of t j] by simp_all
  next
    fix a ph assume "pending_get (s_pending ?s) a = Some ph"
    then show "conns_get (s_conns ?s) a = None" "good_pending lib (s_features ?s) ph"
      using D(11,12) [of a ph] unfolding get by simp_all
  qed (use D(3,4) in simp_all)
qed

lemma commit_wf:
  assumes "wf_server lib s" "in_table s i" "outcome (s_heap s ! i) c es"
  shows "wf_server lib (commit i (c, es) s)"
proof (cases "RemoveConnection \<in> set es")
  case True
  then have k: "keeps (closed (s_heap s ! i)) c" using assms(3) by (simp add: outcome_def)
  have "wf_server lib (removeConnection i (s\<lparr>s_heap := (s_heap s)[i := c]\<rparr>))"
    by (rule removed_wf) (use assms k in \<open>simp_all add: keeps_def closed_def\<close>)
  with True show ?thesis
    using removeConnection_events [where i = i and s = "s\<lparr>s_heap := (s_heap s)[i := c]\<rparr>"] by (simp add: commit_eq Let_def)
next
  case False
  then have "keeps (s_heap s ! i) c" "live (s_heap s ! i) \<longrightarrow> live c" using assms(3) by (simp_all add: outcome_def)
  from heap_update_wf [OF assms(1) this] False show ?thesis
    using wf_server_events(1) [where s = "s\<lparr>s_heap := (s_heap s)[i := c]\<rparr>"] by (simp add: commit_eq Let_def)
qed

lemma commit_simps [simp]:
  "length (s_heap (commit i r s)) = length (s_heap s)" "s_config (commit i r s) = s_config s"
  "s_features (commit i r s) = s_features s" "s_pending (commit i r s) = s_pending s"
  by (cases r; simp add: commit_eq Let_def)+

lemma commit_other:
  assumes "wf_server lib s" "in_table s j" "in_table s i" "j \<noteq> i" "outcome (s_heap s ! i) c es"
  shows "in_table (commit i (c, es) s) j" "s_heap (commit i (c, es) s) ! j = s_heap s ! j"
proof -
  have k: "c_remoteAddr c = c_remoteAddr (s_heap s ! i)"
    using assms(5) by (auto simp: outcome_def keeps_def closed_def split: if_splits)
  have ij: "c_remoteAddr (s_heap s ! j) \<noteq> c_remoteAddr (s_heap s ! i)" using assms(2-4) by (auto simp: in_table_def)
  then show "in_table (commit i (c, es) s) j" "s_heap (commit i (c, es) s) ! j = s_heap s ! j"
    using assms(2-4) k conns.get_remove [OF wf_serverD(1) [OF assms(1)]]
    by (auto simp: commit_eq Let_def in_table_def)
qed

text \<open>The loop of \<open>tick\<close> works on the connections it found in the table; one of them may have been
  removed in the meantime, and is then disconnected.\<close>

definition handles :: "'u server \<Rightarrow> nat \<Rightarrow> bool" where
  "handles s i \<longleftrightarrow> i < length (s_heap s) \<and> (in_table s i \<or> c_state (s_heap s ! i) = StateDisconnected)"

lemma commit_handles:
  assumes "wf_server lib s" "in_table s i" "outcome (s_heap s ! i) c es" "handles s j"
  shows "handles (commit i (c, es) s) j"
proof (cases "j = i")
  case same: True
  have il: "i < length (s_heap s)" using assms(2) by (simp add: in_table_def)
  show ?thesis
  proof (cases "RemoveConnection \<in> set es")
    case True
    then have "c_state c = StateDisconnected" using assms(3) by (simp add: outcome_def keeps_def closed_def)
    with True same il show ?thesis by (simp add: handles_def commit_eq Let_def)
  next
    case False
    then have "c_remoteAddr c = c_remoteAddr (s_heap s ! i)" using assms(3) by (simp add: outcome_def keeps_def)
    with False same il assms(2) show ?thesis by (simp add: handles_def in_table_def commit_eq Let_def)
  qed
next
  case False
  show ?thesis
  proof (cases "in_table s j")
    case True
    then show ?thesis using commit_other(1) [OF assms(1) _ assms(2) False assms(3)] assms(4) by (simp add: handles_def)
  next
    case nt: False
    then show ?thesis using assms(4) False by (simp add: handles_def commit_eq Let_def)
  qed
qed

section \<open>Datagrams of known connections\<close>

lemma server_processConnData_wf:
  assumes "wf_server lib s" "in_table s i" "server_processConnData env now i data s = Inr s'"
  shows "wf_server lib s'"
  using assms
  by (auto simp: server_processConnData_def Let_def split: if_splits sum.splits intro!: commit_wf dest: processConnData_outcome)

lemma processConnData_total:
  assumes "live c" "\<not> c_batchEnabled c"
  shows "\<exists>c' es. processConnData lib now data c = Inr (c', es)"
proof -
  have "live (countReceived (length data) c)" using countReceived_keeps(2) [OF assms(1)] .
  from processPacket_total [OF this] assms(2) show ?thesis
    by (simp add: processConnData_def Let_def countReceived_def)
qed

lemma server_processConnData_total:
  assumes "wf_server lib s" "in_table s i" "\<not> batching (s_features s)"
  shows "\<exists>s'. server_processConnData env now i data s = Inr s'"
proof -
  have "live (s_heap s ! i)" "\<not> c_batchEnabled (s_heap s ! i)" using in_tableD [OF assms(1,2)] assms(3) by blast+
  from processConnData_total [OF this] show ?thesis
    by (simp add: server_processConnData_def Let_def) (metis sum.simps(6))
qed

section \<open>Migration\<close>

lemma moveConnection_wf:
  assumes wf: "wf_server lib s" and i: "in_table s i" and new: "conns_get (s_conns s) a = None" "pending_get (s_pending s) a = None"
  shows "wf_server lib (moveConnection i a s)" "in_table (moveConnection i a s) i"
proof -
  let ?c = "s_heap s ! i" and ?s = "moveConnection i a s"
  let ?h = "(s_heap s)[i := ?c\<lparr>c_remoteAddr := a\<rparr>]"
  note D = wf_serverD [OF wf]
  have il: "i < length (s_heap s)" using i by (simp add: in_table_def)
  have ne: "c_remoteAddr ?c \<noteq> a" using i new(1) by (auto simp: in_table_def)
  have s: "s_heap ?s = ?h" "s_pending ?s = s_pending s" "s_tokens ?s = s_tokens s" "s_config ?s = s_config s"
    "s_features ?s = s_features s" and sc: "s_conns ?s = conns_put a i (conns_remove (c_remoteAddr ?c) (s_conns s))"
    using ne by (simp_all add: moveConnection_def Let_def)
  have get: "conns_get (s_conns ?s) b =
      (if b = a then Some i else if b = c_remoteAddr ?c then None else conns_get (s_conns s) b)" for b
    unfolding sc using conns.get_put [OF conns.wf_remove [OF D(1)]] conns.get_remove [OF D(1)] by simp
  show i': "in_table ?s i" using il unfolding in_table_def get s by simp
  have other: "j \<noteq> i \<and> conns_get (s_conns s) b = Some j" if "conns_get (s_conns ?s) b = Some j" "b \<noteq> a" for b j
    using that D(6) [of b j] unfolding get by (auto split: if_splits)
  have stays: "in_table ?s j" if "in_table s j" for j
  proof (cases "j = i")
    case False
    with that i new(1) show ?thesis unfolding in_table_def get s by auto
  qed (use i' in simp)
  have same: "migrates (?h ! j) = migrates (s_heap s ! j)" "c_migrationToken (?h ! j) = c_migrationToken (s_heap s ! j)"
    "good_conn f (?h ! j) = good_conn f (s_heap s ! j)" for j f
    using il by (cases "j = i"; simp add: migrates_def good_conn_def live_def)+
  show "wf_server lib ?s"
    unfolding wf_server_def
  proof (intro conjI allI impI)
    show "wf_conns (s_conns ?s)" unfolding sc using D(1) by (simp add: conns.wf_remove conns.wf_put)
    fix b j assume b: "conns_get (s_conns ?s) b = Some j"
    show "j < length (s_heap ?s)" "c_remoteAddr (s_heap ?s ! j) = b" "good_conn (s_features ?s) (s_heap ?s ! j)"
    proof (atomize (full), cases "b = a")
      case True
      then have "j = i" using b unfolding get by simp
      then show "j < length (s_heap ?s) \<and> c_remoteAddr (s_heap ?s ! j) = b \<and> good_conn (s_features ?s) (s_heap ?s ! j)"
        using il True D(7) i same(3) [of _ i] by (simp add: s in_table_def)
    next
      case False
      then show "j < length (s_heap ?s) \<and> c_remoteAddr (s_heap ?s ! j) = b \<and> good_conn (s_features ?s) (s_heap ?s ! j)"
        using other [OF b False] D(5-7) [of b j] by (simp add: s)
    qed
  next
    fix t j assume "tokens_get (s_tokens ?s) t = Some j"
    then show "in_table ?s j" "migrates (s_heap ?s ! j)" "c_migrationToken (s_heap ?s ! j) = t"
      using stays D(8-10) [of t j] by (simp_all add: s same)
  next
    fix b ph assume "pending_get (s_pending ?s) b = Some ph"
    then show "conns_get (s_conns ?s) b = None" "good_pending lib (s_features ?s) ph"
      using D(11,12) [of b ph] new(2) unfolding get s by auto
  qed (use D(2-4) in \<open>simp_all add: s\<close>)
qed

lemma tryMigration_wf:
  assumes wf: "wf_server lib s" and i: "in_table s i" and new: "conns_get (s_conns s) a = None" "pending_get (s_pending s) a = None"
  shows "tryMigration env now i a data s = Inr s' \<Longrightarrow> wf_server lib s'"
    "\<not> batching (s_features s) \<Longrightarrow> \<exists>s'. tryMigration env now i a data s = Inr s'"
proof -
  let ?c = "s_heap s ! i" and ?d = "drop MigrationTokenSize data"
  define s1 where "s1 = (\<lambda>k. s\<lparr>s_heap := (s_heap s)[i := ?c\<lparr>c_recvCipher := k\<rparr>]\<rparr>)"
  have kc: "keeps ?c (?c\<lparr>c_recvCipher := k\<rparr>)" "live ?c \<longrightarrow> live (?c\<lparr>c_recvCipher := k\<rparr>)" for k
    by (simp_all add: keeps_def live_def)
  have wf1: "wf_server lib (s1 k)" for k unfolding s1_def by (rule heap_update_wf [OF wf kc])
  have il: "i < length (s_heap s)" using i by (simp add: in_table_def)
  have i1: "in_table (s1 k) i" for k using i by (simp add: s1_def in_table_def)
  have n1: "conns_get (s_conns (s1 k)) a = None" "pending_get (s_pending (s1 k)) a = None" for k
    using new by (simp_all add: s1_def)
  define s2 where "s2 = (\<lambda>k. moveConnection i a (s1 k))"
  have wf2: "wf_server lib (s2 k)" "in_table (s2 k) i" for k
    unfolding s2_def by (rule moveConnection_wf [OF wf1 i1 n1])+
  define c2 where "c2 = (\<lambda>k. countReceived (length ?d) (s_heap (s2 k) ! i))"
  have r: "tryMigration env now i a data s =
     (case (if c_batchEnabled ?c then UnmarshalBatch ?d else Inr [?d]) of
        Inl e \<Rightarrow> Inr s
      | Inr [] \<Rightarrow> Inr s
      | Inr (pkt # pkts) \<Rightarrow>
          (case Decrypt (c_recvCipher ?c) pkt getDecryptBuffer of
             (k, Inl e) \<Rightarrow> Inr (s1 k)
           | (k, Inr p) \<Rightarrow>
               (case handleDecrypted (env_comp env) now p (c2 k) of
                  Inl e \<Rightarrow> Inl e
                | Inr (c, es) \<Rightarrow>
                    (case processPackets (env_comp env) now pkts c of
                       Inl e \<Rightarrow> Inl e
                     | Inr (c, es') \<Rightarrow> Inr (commit i (c, es @ es') (s2 k))))))"
    unfolding tryMigration_def Let_def s2_def c2_def s1_def ..
  have com: "wf_server lib (commit i (c', es @ es') (s2 k))"
    if "handleDecrypted lib' now p (c2 k) = Inr (c, es)" "processPackets lib' now pkts c = Inr (c', es')" for lib' p k c es pkts c' es'
  proof -
    have "outcome (s_heap (s2 k) ! i) c' (es @ es')"
      using outcome_keeps [OF countReceived_keeps outcome_append [OF handleDecrypted_outcome [OF that(1) [unfolded c2_def]]
            processPackets_outcome [OF that(2)]]] by blast
    then show ?thesis by (rule commit_wf [OF wf2])
  qed
  show "wf_server lib s'" if "tryMigration env now i a data s = Inr s'"
    using that wf wf1 com unfolding r by (auto split: sum.splits list.splits prod.splits)
  show "\<exists>s'. tryMigration env now i a data s = Inr s'" if "\<not> batching (s_features s)"
  proof -
    have "\<not> c_batchEnabled ?c" using in_tableD(4) [OF wf i] that by blast
    moreover have "live (c2 k)" for k unfolding c2_def by (rule countReceived_keeps(2)) (rule in_tableD(2) [OF wf2])
    ultimately show ?thesis
      unfolding r using handleDecrypted_total by (auto split: sum.split prod.split) (metis sum.distinct(1))
  qed
qed

section \<open>Handshakes\<close>

lemma pool_ok_empty: "pool_ok lib emptyCompression"
  by (simp add: pool_ok_def newCompressorPool_def emptyCompression_def)

lemma newConnection_live: "pool_ok lib (in_compression inp) \<Longrightarrow> live (newConnection lib now inp)"
  by (auto simp: live_def newConnection_def Let_def pool_ok_def newChannels_def newChannel_def open_channel_def)

lemma serverProcessConnect_good:
  assumes "serverProcessConnect lib v rnd now inp = (Inr ph, reply)" "pool_ok clib (spi_serverCompression inp)"
  shows "good_pending clib (spi_serverFeatures inp) ph"
proof -
  obtain connect where "ph_features ph = con_Features connect AND spi_serverFeatures inp"
    "ph_compressionConfig ph = snd (negotiateCompression lib (spi_serverCompression inp) connect)"
    using assms(1) by (auto simp: serverProcessConnect_def Let_def split: sum.splits prod.splits if_splits option.splits)
  moreover have "pool_ok clib (snd (negotiateCompression lib (spi_serverCompression inp) c))" for c
    using assms(2) pool_ok_empty by (auto simp: negotiateCompression_def)
  ultimately show ?thesis by (auto simp: good_pending_def batching_def and.assoc)
qed

lemma writeTo_wf [simp]: "wf_server lib (writeTo env d a s) = wf_server lib s"
  by (simp add: writeTo_def)

lemma pending_put_wf:
  assumes "wf_server lib s" "conns_get (s_conns s) a = None" "good_pending lib (s_features s) ph"
  shows "wf_server lib (s\<lparr>s_pending := fst (pending_put a ph (s_pending s))\<rparr>)"
  using assms
  by (auto simp: wf_server_def in_table_def pending_put_def pending_get_def map_of_update_if split: if_splits)

lemma handleHandshake_wf:
  assumes "wf_server (env_comp env) s" "conns_get (s_conns s) a = None"
  shows "wf_server (env_comp env) (handleHandshake env now a data rnd s)"
proof -
  obtain l ok where l: "allow (ap_addr a) now (s_limiter s) = (l, ok)" by fastforce
  define s1 where "s1 = s\<lparr>s_limiter := l\<rparr>"
  have s1: "wf_server (env_comp env) s1" "conns_get (s_conns s1) a = None" using assms by (simp_all add: s1_def)
  obtain r reply where p: "serverProcessConnect (env_crypto env) (env_appVersion env) rnd now (connectInput data s1) = (r, reply)"
    by fastforce
  have g: "good_pending (env_comp env) (s_features s1) ph" if "r = Inr ph" for ph
    using serverProcessConnect_good [OF p [unfolded that], of "env_comp env"] wf_serverD(4) [OF s1(1)]
    by (simp add: connectInput_def Let_def)
  have w: "wf_server (env_comp env) (s1\<lparr>s_pending := pt\<rparr>)" if "r = Inr ph" "pending_put a ph (s_pending s1) = (pt, b)" for ph pt b
    using pending_put_wf [OF s1 g [OF that(1)]] that(2) by simp
  show ?thesis
    using assms(1) s1(1) w
    by (auto simp: handleHandshake_def l s1_def [symmetric] p Let_def split: sum.split prod.split option.split)
qed

lemma acceptResponse_wf:
  assumes wf: "wf_server (env_comp env) s" and a: "conns_get (s_conns s) a = None" "pending_get (s_pending s) a = Some ph"
  shows "wf_server (env_comp env) (acceptResponse env now a data ph s)"
proof (cases "serverProcessResponse (env_crypto env) (env_comp env) now data ph a")
  case (Inl e)
  then show ?thesis using wf by (simp add: acceptResponse_def)
next
  case (Inr c)
  let ?i = "length (s_heap s)" and ?s = "acceptResponse env now a data ph s"
  note D = wf_serverD [OF wf]
  have "good_pending (env_comp env) (s_features s) ph" by (rule D(12) [OF a(2)])
  moreover obtain inp where "c = newConnection (env_comp env) now inp" "in_addr inp = a" "in_features inp = ph_features ph"
    "in_compression inp = ph_compressionConfig ph"
    using Inr by (auto simp: serverProcessResponse_def split: sum.splits prod.splits if_splits)
  ultimately have c: "good_conn (s_features s) c" "c_remoteAddr c = a"
    by (auto simp: good_conn_def good_pending_def newConnection_live batching_def)
  have s: "s_heap ?s = s_heap s @ [c]" "s_config ?s = s_config s" "s_features ?s = s_features s"
    "s_pending ?s = pending_remove a (s_pending s)" "s_conns ?s = conns_put a ?i (s_conns s)"
    "s_tokens ?s = (if migrates c then tokens_put (c_migrationToken c) ?i (s_tokens s) else s_tokens s)"
    by (simp_all add: acceptResponse_def Inr Let_def)
  have get: "conns_get (s_conns ?s) b = (if b = a then Some ?i else conns_get (s_conns s) b)" for b
    unfolding s by (rule conns.get_put [OF D(1)])
  have old: "(s_heap s @ [c]) ! j = s_heap s ! j" if "conns_get (s_conns s) b = Some j" for j b
    using D(5) [OF that] by (simp add: nth_append)
  have stays: "in_table ?s j \<and> (s_heap s @ [c]) ! j = s_heap s ! j" if "in_table s j" for j
    using that a(1) by (auto simp: in_table_def get s(1) nth_append)
  have new: "in_table ?s ?i" using c(2) by (simp add: in_table_def get s(1))
  have tok: "j = ?i \<and> migrates c \<and> t = c_migrationToken c \<or> tokens_get (s_tokens s) t = Some j"
    if "tokens_get (s_tokens ?s) t = Some j" for t j
    using that tokens.get_put [OF D(2)] unfolding s by (auto split: if_splits)
  have pend: "b \<noteq> a \<and> pending_get (s_pending s) b = Some ph'" if "pending_get (s_pending ?s) b = Some ph'" for b ph'
    using that unfolding s by (auto simp: pending_get_def pending_remove_def map_of_delete_if split: if_splits)
  show ?thesis
    unfolding wf_server_def
  proof (intro conjI allI impI)
    show "wf_conns (s_conns ?s)" unfolding s by (rule conns.wf_put [OF D(1)])
    show "wf_map (s_tokens ?s)" unfolding s using tokens.wf_put [OF D(2)] D(2) by simp
    show "wf_map (pt_pending (s_pending ?s))" unfolding s using D(3) by (simp add: pending_remove_def)
    fix b j assume "conns_get (s_conns ?s) b = Some j"
    then show "j < length (s_heap ?s)" "c_remoteAddr (s_heap ?s ! j) = b" "good_conn (s_features ?s) (s_heap ?s ! j)"
      using c D(5-7) [of b j] old [of b j] by (auto simp: get s(1,3) split: if_splits)
  next
    fix t j assume "tokens_get (s_tokens ?s) t = Some j"
    from tok [OF this] show "in_table ?s j" "migrates (s_heap ?s ! j)" "c_migrationToken (s_heap ?s ! j) = t"
      using new stays D(8-10) [of t j] by (auto simp: s(1))
  next
    fix b ph' assume "pending_get (s_pending ?s) b = Some ph'"
    from pend [OF this] show "conns_get (s_conns ?s) b = None" "good_pending (env_comp env) (s_features ?s) ph'"
      using D(11,12) [of b ph'] by (auto simp: get s(3))
  qed (use D(4) s in simp)
qed

section \<open>Incoming datagrams\<close>

lemma processIncoming_wf:
  assumes "wf_server (env_comp env) s" "processIncoming env now pkt s = Inr s'"
  shows "wf_server (env_comp env) s'"
  using assms
  by (auto simp: processIncoming_def split: option.splits if_splits
      intro: server_processConnData_wf acceptResponse_wf tryMigration_wf(1) [OF assms(1)] handleHandshake_wf
        get_in_table [OF assms(1)] wf_serverD(8) [OF assms(1)])

lemma processIncoming_total:
  assumes "wf_server (env_comp env) s" "\<not> batching (s_features s)"
  shows "\<exists>s'. processIncoming env now pkt s = Inr s'"
  using server_processConnData_total [OF assms(1) _ assms(2)] tryMigration_wf(2) [OF assms(1) _ _ _ assms(2)]
    get_in_table [OF assms(1)] wf_serverD(8) [OF assms(1)]
  by (auto simp: processIncoming_def split: option.split)

lemma steps_invariant:
  assumes "\<And>x s s'. I s \<Longrightarrow> f x s = Inr s' \<Longrightarrow> I s'"
  shows "I s \<Longrightarrow> steps f xs s = Inr s' \<Longrightarrow> I s'"
  by (induction xs arbitrary: s) (auto split: sum.splits intro: assms)

lemma steps_total:
  assumes "\<And>x s. I s \<Longrightarrow> \<exists>s'. f x s = Inr s' \<and> I s'"
  shows "I s \<Longrightarrow> \<exists>s'. steps f xs s = Inr s' \<and> I s'"
proof (induction xs arbitrary: s)
  case (Cons x xs)
  obtain s1 where "f x s = Inr s1" "I s1" using assms [OF Cons.prems] by blast
  then show ?case using Cons.IH by simp
qed simp

section \<open>The tick\<close>

lemma server_tickConnection_wf:
  assumes wf: "wf_server lib s" and i: "handles s i"
  shows "\<exists>s'. server_tickConnection env now i s = Inr s' \<and> wf_server lib s' \<and> (\<forall>j. handles s j \<longrightarrow> handles s' j) \<and>
    s_features s' = s_features s \<and> s_config s' = s_config s"
proof (cases "in_table s i")
  case True
  let ?sf = "server_sendFunc (env_net env) (sc_CoalesceIO (s_config s))"
  obtain c u es where t: "tickConnection (env_comp env) (serverParams (s_config s)) ?sf now (s_heap s ! i, s_net s) =
      Inr ((c, u), es)" "outcome (s_heap s ! i) c es"
    using server_send.tickConnection_outcome [OF in_tableD(2) [OF wf True]] by metis
  let ?s = "s\<lparr>s_net := u\<rparr>"
  have s: "server_tickConnection env now i s = Inr (commit i (c, es) ?s)"
    using t(1) by (simp add: server_tickConnection_def)
  have wf': "wf_server lib ?s" "in_table ?s i" "outcome (s_heap ?s ! i) c es" using wf True t(2) by simp_all
  have "handles (commit i (c, es) ?s) j" if "handles s j" for j
    by (rule commit_handles [OF wf']) (use that in \<open>simp add: handles_def\<close>)
  then show ?thesis using s commit_wf [OF wf'] by simp
next
  case False
  then have st: "c_state (s_heap s ! i) = StateDisconnected" using i by (simp add: handles_def)
  have "commit i (s_heap s ! i, []) (s\<lparr>s_net := s_net s\<rparr>) = s" by (simp add: commit_eq)
  then have "server_tickConnection env now i s = Inr s"
    using st by (simp add: server_tickConnection_def tickConnection_def)
  then show ?thesis using wf by simp
qed

lemma server_ticks_wf:
  assumes "wf_server lib s" "\<forall>i \<in> set is. handles s i"
  shows "\<exists>s'. steps (server_tickConnection env now) is s = Inr s' \<and> wf_server lib s' \<and> s_features s' = s_features s"
  using assms
proof (induction "is" arbitrary: s)
  case (Cons i "is")
  obtain s1 where "server_tickConnection env now i s = Inr s1" "wf_server lib s1" "\<forall>j. handles s j \<longrightarrow> handles s1 j"
    "s_features s1 = s_features s" using server_tickConnection_wf [OF Cons.prems(1)] Cons.prems(2) by fastforce
  then show ?case using Cons.IH [of s1] Cons.prems(2) by simp
qed simp

lemma tickConns: "conns_forEach (\<lambda>i is. is @ [i]) ct acc = acc @ concat (map (map snd) ct)"
proof -
  have sh: "fold (\<lambda>(a, i) is. is @ [i]) sh acc = acc @ map snd sh" for sh :: "(AddrPort, 'a) gomap" and acc
    by (induction sh arbitrary: acc) auto
  show ?thesis
    unfolding conns_forEach_def by (induction ct arbitrary: acc) (simp_all add: sh)
qed

lemma tickConns_handles:
  assumes "wf_server lib s" "i \<in> set (concat (map (map snd) (s_conns s)))"
  shows "handles s i"
proof -
  obtain n a where n: "n < length (s_conns s)" "(a, i) \<in> set (s_conns s ! n)"
    using assms(2) by (auto simp: in_set_conv_nth [of _ "s_conns s"])
  have wf: "wf_map (s_conns s ! n)" "\<And>a v. map_of (s_conns s ! n) a = Some v \<Longrightarrow> shardFor a = n"
    using wf_serverD(1) [OF assms(1)] n(1) by (auto simp: wf_conns_def)
  have "map_of (s_conns s ! n) a = Some i" using wf(1) n(2) by (simp add: wf_map_def)
  then have "conns_get (s_conns s) a = Some i" using wf(2) by (simp add: conns_get_def)
  from get_in_table [OF assms(1) this] show ?thesis by (simp add: handles_def in_table_def)
qed

lemma pending_cleanup_wf:
  assumes "wf_server lib s"
  shows "wf_server lib (s\<lparr>s_pending := pending_cleanup f (s_pending s)\<rparr>)"
proof -
  have "pending_get (s_pending s) a = Some ph" if "pending_get (pending_cleanup f (s_pending s)) a = Some ph" for a ph
    using that pending_cleanup_eq [OF wf_serverD(3) [OF assms], of f] wf_serverD(3) [OF assms]
    by (auto simp: pending_get_def wf_map_def dest!: map_of_SomeD intro!: map_of_is_SomeI)
  moreover have "wf_map (pt_pending (pending_cleanup f (s_pending s)))"
    using wf_serverD(3) [OF assms] pending_cleanup_eq [OF wf_serverD(3) [OF assms], of f] by simp
  ultimately show ?thesis using assms unfolding wf_server_def in_table_def by simp blast
qed

lemma processIncoming_features:
  assumes "processIncoming env now pkt s = Inr s'"
  shows "s_features s' = s_features s"
proof -
  have "s_features (acceptResponse env now a d ph s) = s_features s" for a d ph
    by (simp add: acceptResponse_def Let_def split: sum.split)
  moreover have "s_features (moveConnection i a s) = s_features s" for i a and s :: "'a server"
    by (simp add: moveConnection_def Let_def)
  moreover have "s_features (handleHandshake env now a d r s) = s_features s" for a d r
    by (simp add: handleHandshake_def writeTo_def Let_def split: sum.split prod.split option.split)
  ultimately show ?thesis
    using assms
    by (auto simp: processIncoming_def server_processConnData_def tryMigration_def Let_def
        split: option.splits if_splits sum.splits prod.splits list.splits)
qed

lemma tick_wf:
  fixes env :: "'u server_env"
  assumes "wf_server (env_comp env) s"
  shows "tick env now incoming s = Inr s' \<Longrightarrow> wf_server (env_comp env) s' \<and> s_features s' = s_features s"
    "\<not> batching (s_features s) \<Longrightarrow> \<exists>s'. tick env now incoming s = Inr s'"
proof -
  let ?I = "\<lambda>s1 :: 'u server. wf_server (env_comp env) s1 \<and> s_features s1 = s_features s"
  have rest: "\<exists>s2. steps (server_tickConnection env now) (conns_forEach (\<lambda>i is. is @ [i]) (s_conns s1) []) s1 = Inr s2 \<and> ?I s2"
    if "?I s1" for s1
    using server_ticks_wf [of "env_comp env" s1] tickConns_handles [of "env_comp env" s1] that by (simp add: tickConns)
  have fin: "?I (s2\<lparr>s_pending := pending_cleanup f (s_pending s2), s_limiter := l\<rparr>)" if "?I s2" for s2 f l
    using that pending_cleanup_wf [of "env_comp env" s2 f]
      wf_server_limiter(1) [where s = "s2\<lparr>s_pending := pending_cleanup f (s_pending s2)\<rparr>" and l = l] by simp
  show "wf_server (env_comp env) s' \<and> s_features s' = s_features s" if t: "tick env now incoming s = Inr s'"
  proof -
    obtain s1 where s1: "steps (processIncoming env now) incoming s = Inr s1"
      using t by (auto simp: tick_def split: sum.splits)
    have "?I s1"
      by (rule steps_invariant [of ?I, OF _ _ s1]) (use assms processIncoming_wf processIncoming_features in fastforce)+
    then obtain s2 where s2: "steps (server_tickConnection env now) (conns_forEach (\<lambda>i is. is @ [i]) (s_conns s1) []) s1 = Inr s2"
      "?I s2" using rest by blast
    show ?thesis using fin [OF s2(2)] t s1 s2(1) by (auto simp: tick_def Let_def simp del: wf_server_limiter)
  qed
  show "\<exists>s'. tick env now incoming s = Inr s'" if nb: "\<not> batching (s_features s)"
  proof -
    have "\<exists>s1. steps (processIncoming env now) incoming s = Inr s1 \<and> ?I s1"
    proof (rule steps_total [of ?I])
      fix x s1 assume I: "?I s1"
      then obtain s' where s': "processIncoming env now x s1 = Inr s'" using processIncoming_total [of env s1 now x] nb by auto
      show "\<exists>s'. processIncoming env now x s1 = Inr s' \<and> ?I s'"
        using s' processIncoming_wf [OF _ s'] processIncoming_features [OF s'] I by simp
    qed (use assms in simp)
    then obtain s1 where "steps (processIncoming env now) incoming s = Inr s1" "?I s1" by blast
    with rest [OF this(2)] show ?thesis by (auto simp: tick_def Let_def)
  qed
qed

lemma NewServer_wf:
  assumes "pool_ok lib (sc_Compression config)"
  shows "wf_server lib (NewServer numCPU config u)"
  using assms conns.wf_empty conns.get_empty tokens.get_empty
  by (auto simp: wf_server_def NewServer_def Let_def newTokenTable_def newPendingTable_def pending_get_def tokens_get_def
      serverDefaults_def)

section \<open>Properties\<close>

text \<open>A run of the server: ticks, each with its time and the datagrams that arrived before it.\<close>

definition server_run :: "'u server_env \<Rightarrow> (time \<times> incomingPacket list) list \<Rightarrow> 'u server \<Rightarrow> 'u server res" where
  "server_run env = steps (\<lambda>(now, incoming). tick env now incoming)"

lemma server_run_wf:
  fixes env :: "'u server_env"
  assumes "wf_server (env_comp env) s"
  shows "server_run env rounds s = Inr s' \<Longrightarrow> wf_server (env_comp env) s' \<and> s_features s' = s_features s"
    "\<not> batching (s_features s) \<Longrightarrow> \<exists>s'. server_run env rounds s = Inr s'"
proof -
  let ?I = "\<lambda>s1 :: 'u server. wf_server (env_comp env) s1 \<and> s_features s1 = s_features s"
  show "?I s'" if "server_run env rounds s = Inr s'"
    by (rule steps_invariant [of ?I, OF _ _ that [unfolded server_run_def]])
      (use assms tick_wf(1) in \<open>fastforce split: prod.splits\<close>)+
  show "\<exists>s'. server_run env rounds s = Inr s'" if "\<not> batching (s_features s)"
  proof -
    have "\<exists>s'. steps (\<lambda>(now, incoming). tick env now incoming) rounds s = Inr s' \<and> ?I s'"
    proof (rule steps_total [of ?I])
      fix x :: "time \<times> incomingPacket list" and s1 assume I: "?I s1"
      obtain now incoming where "x = (now, incoming)" by (cases x)
      then show "\<exists>s'. (case x of (now, incoming) \<Rightarrow> tick env now incoming) s1 = Inr s' \<and> ?I s'"
        using tick_wf [of env s1 now incoming] I that by auto
    qed (use assms in simp)
    then show ?thesis unfolding server_run_def by blast
  qed
qed

text \<open>C2. Whatever datagrams arrive, in whatever order and at whatever times, the tables of a
  server stay consistent: the entry of an address is a connection with that address, which is
  connected or disconnecting; the entry of a migration token is a connection with that token,
  which negotiated migration and is in the address table under its own address; and no address has a
  connection and a pending handshake.\<close>

theorem server_tables_consistent:
  assumes "pool_ok (env_comp env) (sc_Compression config)"
    and "server_run env rounds (NewServer numCPU config u) = Inr s"
  shows "(\<forall>a i. conns_get (s_conns s) a = Some i \<longrightarrow> i < length (s_heap s) \<and> c_remoteAddr (s_heap s ! i) = a \<and>
       c_state (s_heap s ! i) \<in> {StateConnected, StateDisconnecting}) \<and>
     (\<forall>t i. tokens_get (s_tokens s) t = Some i \<longrightarrow> migrates (s_heap s ! i) \<and> c_migrationToken (s_heap s ! i) = t \<and>
       conns_get (s_conns s) (c_remoteAddr (s_heap s ! i)) = Some i) \<and>
     (\<forall>a. pending_get (s_pending s) a = None \<or> conns_get (s_conns s) a = None)"
proof -
  have wf: "wf_server (env_comp env) s"
    using server_run_wf(1) [OF NewServer_wf [OF assms(1)] assms(2)] by blast
  have "pending_get (s_pending s) a = None \<or> conns_get (s_conns s) a = None" for a
    using wf_serverD(11) [OF wf, of a] by (cases "pending_get (s_pending s) a") auto
  moreover have "c_state (s_heap s ! i) \<in> {StateConnected, StateDisconnecting}" if "conns_get (s_conns s) a = Some i" for a i
    using wf_serverD(7) [OF wf that] by (simp add: good_conn_def)
  ultimately show ?thesis using wf_serverD(5,6,8-10) [OF wf] by (fastforce simp: in_table_def)
qed

text \<open>C9. A server that does not offer send batching never panics: every run of ticks, on any
  datagrams, ends normally.\<close>

theorem server_never_panics:
  assumes "pool_ok (env_comp env) (sc_Compression config)" "\<not> sc_SendBatching config"
  shows "\<exists>s. server_run env rounds (NewServer numCPU config u) = Inr s"
proof (rule server_run_wf(2) [OF NewServer_wf [OF assms(1)]])
  show "\<not> batching (s_features (NewServer numCPU config u))"
    using assms(2) by (simp add: NewServer_def Let_def serverDefaults_def featuresFromConfig_def batching_def
        FeatureSendBatching_def FeatureConnectionMigration_def)
qed

text \<open>\<open>MaxConnections\<close> is checked only when a CONNECT arrives. At the limit a CONNECT leaves no pending
  handshake, but a handshake that is already pending still becomes a connection: a valid
  RESPONSE adds one whatever the number of connections.\<close>

theorem limit_checked_only_at_connect:
  assumes "wf_conns (s_conns s)" "conns_get (s_conns s) a = None" "pending_get (s_pending s) a = Some ph"
    and "serverProcessResponse (env_crypto env) (env_comp env) now data ph a = Inr c"
  shows "(int (ConnectionCount s) < sc_MaxConnections (s_config s) \<or> s_pending (handleHandshake env now b d rnd s) = s_pending s) \<and>
    (\<exists>s'. processIncoming env now \<lparr>ip_addr = a, ip_data = data, ip_random = rnd\<rparr> s = Inr s' \<and>
      ConnectionCount s' = Suc (ConnectionCount s))"
proof
  show "int (ConnectionCount s) < sc_MaxConnections (s_config s) \<or> s_pending (handleHandshake env now b d rnd s) = s_pending s"
    by (auto simp: handleHandshake_def writeTo_def ConnectionCount_def Let_def split: sum.split prod.split)
  have "conns_count (conns_put a i (s_conns s)) = Suc (conns_count (s_conns s))" for i
  proof -
    have "dom (conns_get (conns_put a i (s_conns s))) = insert a (dom (conns_get (s_conns s)))"
      using conns.get_put [OF assms(1)] by (auto split: if_splits)
    moreover have "finite (dom (conns_get (s_conns s)))"
    proof -
      have "dom (conns_get (s_conns s)) \<subseteq> (\<Union>m \<in> set (s_conns s). dom (map_of m))"
        using assms(1) by (force simp: conns_get_def wf_conns_def)
      then show ?thesis by (rule finite_subset) (simp add: finite_dom_map_of)
    qed
    ultimately show ?thesis
      using conns_count_card [OF conns.wf_put [OF assms(1)]] conns_count_card [OF assms(1)] assms(2) by (simp add: domIff)
  qed
  then show "\<exists>s'. processIncoming env now \<lparr>ip_addr = a, ip_data = data, ip_random = rnd\<rparr> s = Inr s' \<and>
      ConnectionCount s' = Suc (ConnectionCount s)"
    using assms by (simp add: processIncoming_def acceptResponse_def ConnectionCount_def Let_def)
qed

section \<open>Witnesses\<close>

text \<open>A server with the default configuration, on a network that swallows everything.\<close>

definition mute_env :: "unit server_env" where
  "mute_env = \<lparr>env_crypto = toy_lib, env_comp = toy_comp, env_appVersion = 1,
     env_net = \<lparr>udp_WriteTo = (\<lambda>u d a. (u, True)), writeCh_send = (\<lambda>u d a. (u, True))\<rparr>\<rparr>"

definition toy_rnd :: randomness where
  "toy_rnd = \<lparr>rnd_private = Inr (replicate 32 6), rnd_challenge = Inr (replicate 32 7), rnd_migration = Inr (replicate 8 9)\<rparr>"

definition toy_datagrams :: "incomingPacket list" where
  "toy_datagrams = [\<lparr>ip_addr = toy_addr, ip_data = [], ip_random = toy_rnd\<rparr>,
     \<lparr>ip_addr = toy_addr, ip_data = header_enc controlHeader @ [ControlConnect], ip_random = toy_rnd\<rparr>]"

lemma toy_pool: "pool_ok (env_comp mute_env) (sc_Compression DefaultServerConfig)" "\<not> sc_SendBatching DefaultServerConfig"
  using pool_ok_empty by (simp_all add: DefaultServerConfig_def)

theorem server_never_panics_witness:
  "\<exists>s. server_run mute_env [(0, toy_datagrams), (7, toy_datagrams)] (NewServer 4 DefaultServerConfig ()) = Inr s"
  by (rule server_never_panics [OF toy_pool])

theorem server_tables_consistent_witness:
  "\<exists>s. server_run mute_env [(0, toy_datagrams), (7, toy_datagrams)] (NewServer 4 DefaultServerConfig ()) = Inr s \<and>
     (\<forall>a. pending_get (s_pending s) a = None \<or> conns_get (s_conns s) a = None)"
proof -
  have "\<not> batching (s_features (NewServer 4 DefaultServerConfig ()))"
    by (simp add: NewServer_def Let_def serverDefaults_def DefaultServerConfig_def featuresFromConfig_def batching_def)
  from server_run_wf(2) [OF NewServer_wf [OF toy_pool(1)] this]
  obtain s where s: "server_run mute_env [(0, toy_datagrams), (7, toy_datagrams)] (NewServer 4 DefaultServerConfig ()) = Inr s" by blast
  from server_tables_consistent [OF toy_pool(1) s] s show ?thesis by blast
qed

text \<open>A server for one connection, which has that connection and a pending handshake.\<close>

definition full_server :: "nat \<Rightarrow> unit server" where
  "full_server n = (NewServer 4 (DefaultServerConfig\<lparr>sc_MaxConnections := 1\<rparr>) ())
     \<lparr>s_conns := conns_put (toy_addr\<lparr>ap_port := 1\<rparr>) n newConnectionTable,
      s_pending := fst (pending_put toy_addr toy_ph (newPendingTable 4))\<rparr>"

lemma full_server:
  "wf_conns (s_conns (full_server n))" "conns_get (s_conns (full_server n)) toy_addr = None"
  "pending_get (s_pending (full_server n)) toy_addr = Some toy_ph" "ConnectionCount (full_server n) = 1"
proof -
  have ne: "toy_addr \<noteq> toy_addr\<lparr>ap_port := 1\<rparr>" by (simp add: toy_addr_def)
  let ?ct = "conns_put (toy_addr\<lparr>ap_port := 1\<rparr>) n newConnectionTable"
  have wf: "wf_conns ?ct" by (rule conns.wf_put [OF conns.wf_empty])
  have get: "conns_get ?ct a = (if a = toy_addr\<lparr>ap_port := 1\<rparr> then Some n else None)" for a
    using conns.get_put [OF conns.wf_empty] conns.get_empty by metis
  show "wf_conns (s_conns (full_server n))" "conns_get (s_conns (full_server n)) toy_addr = None"
    using wf get ne by (simp_all add: full_server_def)
  show "pending_get (s_pending (full_server n)) toy_addr = Some toy_ph"
    by (simp add: full_server_def pending_put_def newPendingTable_def pending_get_def)
  have "dom (conns_get ?ct) = {toy_addr\<lparr>ap_port := 1\<rparr>}" by (auto simp: get split: if_splits)
  then show "ConnectionCount (full_server n) = 1"
    using conns_count_card [OF wf] by (simp add: ConnectionCount_def full_server_def)
qed

theorem limit_checked_only_at_connect_witness:
  "\<exists>data s'. sc_MaxConnections (s_config (full_server 0)) = 1 \<and> ConnectionCount (full_server 0) = 1 \<and>
     processIncoming mute_env 0 \<lparr>ip_addr = toy_addr, ip_data = data, ip_random = toy_rnd\<rparr> (full_server 0) = Inr s' \<and>
     ConnectionCount s' = 2"
proof -
  obtain resp conn where r: "serverProcessResponse toy_lib toy_comp 0 resp toy_ph toy_addr = Inr conn" by (rule toy_response)
  have env: "env_crypto mute_env = toy_lib" "env_comp mute_env = toy_comp" by (simp_all add: mute_env_def)
  have max: "sc_MaxConnections (s_config (full_server 0)) = 1"
    by (simp add: full_server_def NewServer_def Let_def serverDefaults_def DefaultServerConfig_def)
  from limit_checked_only_at_connect [OF full_server(1-3) [of 0] r [folded env], of toy_addr "[]" toy_rnd]
  obtain s' where s': "processIncoming mute_env 0 \<lparr>ip_addr = toy_addr, ip_data = resp, ip_random = toy_rnd\<rparr> (full_server 0) = Inr s'"
    "ConnectionCount s' = Suc (ConnectionCount (full_server 0))" by blast
  have "ConnectionCount s' = 2" unfolding s'(2) full_server(4) by simp
  with max full_server(4) [of 0] s'(1) show ?thesis by blast
qed

end
