(* ===== verification/Session.thy ===== *)
theory Session
  imports Client ServerSafety
begin

text \<open>
  Whole sessions: a client and a server, each running its own code, over a network that delivers.
  The handshake through the processes' entry points leaves two connections in step, and what the
  client then sends reaches the server's handler.
\<close>

section \<open>Fresh connections\<close>

text \<open>The reassembly store of a new connection has room for the largest message.\<close>

definition roomy :: "connSettings \<Rightarrow> bool" where
  "roomy s \<longleftrightarrow> (let n = or_default (set_maxReassemblyBytes s) DefaultMaxReassemblyBytes in n \<le> 0 \<or> 255 * 1155 \<le> n)"

lemma newConnection_idle: "roomy (in_settings inp) \<Longrightarrow> idle_store (c_reassembly (newConnection lib now inp))"
  by (auto simp: idle_store_def roomy_def newConnection_def newReassemblyStore_def Let_def)

lemma newConnection_channels:
  "map ch_mode (c_channels (newConnection lib now inp)) = map Mode (in_layout inp)"
  "map ch_sendSeq (c_channels (newConnection lib now inp)) = replicate (length (in_layout inp)) 0"
  "list_all (expects 0) (c_channels (newConnection lib now inp))"
  "\<not> c_skipBatch (newConnection lib now inp)"
  by (auto simp: newConnection_def newChannels_def Let_def newChannel_def expects_def list_all_iff o_def map_replicate_const)

lemma newConnection_peers:
  assumes "in_sync (in_sendCipher a) (in_recvCipher b)" "in_features a = in_features b"
    and "map Mode (in_layout a) = map Mode (in_layout b)"
    and "newCompressorPool lib (in_compression a) = Inr pool" "newCompressorPool lib (in_compression b) = Inr pool"
  shows "peers (newConnection lib t a) (newConnection lib t' b)" "c_compress (newConnection lib t a) = Some pool"
proof -
  have l: "length (in_layout a) = length (in_layout b)" using map_eq_imp_length_eq [OF assms(3)] .
  have "list_all2 expects (replicate (length (in_layout a)) 0) (c_channels (newConnection lib t' b))"
    using newConnection_channels(3) [of lib t' b] by (simp add: list_all2_conv_all_nth list_all_length l)
  moreover have c: "c_compress (newConnection lib t a) = Some pool" "c_compress (newConnection lib t' b) = Some pool"
    using assms(4,5) by (simp_all add: newConnection_def Let_def)
  ultimately show "peers (newConnection lib t a) (newConnection lib t' b)"
    using assms by (simp add: peers_def newConnection_channels)
  show "c_compress (newConnection lib t a) = Some pool" by (rule c)
qed

lemma newConnection_room:
  assumes "nonces_left (in_sendCipher inp) k" "k < 2 ^ 32"
  shows "room_for k (newConnection lib now inp)"
  using assms by (auto simp: room_for_def newConnection_def newChannels_def Let_def newChannel_def)

section \<open>What the server makes of a list of datagrams\<close>

definition from_client :: "AddrPort \<Rightarrow> randomness \<Rightarrow> bytes \<Rightarrow> incomingPacket" where
  "from_client a rnd d = \<lparr>ip_addr = a, ip_data = d, ip_random = rnd\<rparr>"

lemma length_tokenPrefix: "migrates c \<Longrightarrow> length (c_migrationToken c) = MigrationTokenSize \<Longrightarrow> length (tokenPrefix c) = MigrationTokenSize"
  by (simp add: tokenPrefix_def go_copy_def)

lemma server_receives:
  assumes "conns_get (s_conns s) a = Some i" "i < length (s_heap s)" "s_heap s ! i = c"
    and "receiveDatagrams (env_comp env) now ds c = Inr (c', es)" "RemoveConnection \<notin> set es"
    and "if migrates c then length p = MigrationTokenSize else p = []"
  shows "steps (processIncoming env now) (map (\<lambda>d. from_client a rnd (p @ d)) ds) s =
    Inr (s\<lparr>s_heap := (s_heap s)[i := c'], s_events := s_events s @ map (Pair i) es\<rparr>)"
  using assms
proof (induction ds arbitrary: s c es)
  case (Cons d ds)
  obtain c1 es1 es2 where r: "processConnData (env_comp env) now d c = Inr (c1, es1)"
    "receiveDatagrams (env_comp env) now ds c1 = Inr (c', es2)" "es = es1 @ es2"
    using Cons.prems(4) by (auto split: sum.splits prod.splits)
  have no: "RemoveConnection \<notin> set es1" "RemoveConnection \<notin> set es2" using Cons.prems(5) r(3) by auto
  let ?s = "s\<lparr>s_heap := (s_heap s)[i := c1], s_events := s_events s @ map (Pair i) es1\<rparr>"
  have f: "filter (\<lambda>e. e \<noteq> RemoveConnection) es1 = es1" using no(1) by (auto simp: filter_id_conv)
  have "processIncoming env now (from_client a rnd (p @ d)) s = Inr (commit i (c1, es1) s)"
    using Cons.prems(1,3,6) r(1) by (simp add: processIncoming_def from_client_def server_processConnData_def split: if_splits)
  also have "commit i (c1, es1) s = ?s" using no(1) by (simp add: commit_eq f Let_def)
  finally have step: "processIncoming env now (from_client a rnd (p @ d)) s = Inr ?s" .
  have "migrates c1 = migrates c"
    using processConnData_outcome [OF r(1)] no(1) by (simp add: outcome_def keeps_def migrates_def)
  then have p: "if migrates c1 then length p = MigrationTokenSize else p = []" using Cons.prems(6) by simp
  have "steps (processIncoming env now) (map (\<lambda>d. from_client a rnd (p @ d)) ds) ?s =
      Inr (?s\<lparr>s_heap := (s_heap ?s)[i := c'], s_events := s_events ?s @ map (Pair i) es2\<rparr>)"
    by (rule Cons.IH) (use Cons.prems(1,2) r(2) no(2) p in simp_all)
  then show ?case using step r(3) by simp
next
  case Nil
  then show ?case using list_update_id [of "s_heap s" i] by simp
qed

section \<open>Connecting\<close>

text \<open>The server will take a CONNECT from this address: the address is unknown, the rate limiter
  lets it through, and neither the connections nor the pending handshakes are at their limit.
  The token table must not have an entry for the eight bytes of a control header.\<close>

definition admits :: "time \<Rightarrow> AddrPort \<Rightarrow> 'u server \<Rightarrow> bool" where
  "admits now a s \<longleftrightarrow> conns_get (s_conns s) a = None \<and> pending_get (s_pending s) a = None \<and>
     tokens_get (s_tokens s) (header_enc controlHeader) = None \<and> snd (allow (ap_addr a) now (s_limiter s)) \<and>
     int (conns_count (s_conns s)) < sc_MaxConnections (s_config s) \<and>
     \<not> (0 < pt_maxSize (s_pending s) \<and> pt_maxSize (s_pending s) \<le> int (length (pt_pending (s_pending s))))"

lemma handleHandshake_accepts:
  assumes adm: "admits now a s" and net: "env_net env = record_net"
    and req: "parseControlPacket req = Inr (h, ControlConnect, p)"
    and ph: "serverProcessConnect (env_crypto env) (env_appVersion env) rnd now (connectInput req s) = (Inr ph, Some chal)"
  shows "\<exists>s1. handleHandshake env now a req rnd s = s1 \<and> s_net s1 = s_net s @ [(a, chal)] \<and>
    pending_get (s_pending s1) a = Some ph \<and> s_conns s1 = s_conns s \<and> s_heap s1 = s_heap s \<and>
    s_events s1 = s_events s \<and> s_config s1 = s_config s \<and> s_tokens s1 = s_tokens s \<and>
    (\<forall>b. b \<noteq> a \<longrightarrow> pending_get (s_pending s1) b = pending_get (s_pending s) b)"
proof -
  obtain l where l: "allow (ap_addr a) now (s_limiter s) = (l, True)"
    using adm by (cases "allow (ap_addr a) now (s_limiter s)") (simp add: admits_def)
  obtain pt where pt: "pending_put a ph (s_pending s) = (pt, True)" "pending_get pt a = Some ph"
    "\<forall>b. b \<noteq> a \<longrightarrow> pending_get pt b = pending_get (s_pending s) b"
    using adm by (auto simp: admits_def pending_put_def pending_get_def map_of_update_if)
  have "\<not> sc_MaxConnections (s_config s) \<le> int (conns_count (s_conns s))" using adm by (simp add: admits_def)
  then have "handleHandshake env now a req rnd s = writeTo env chal a (s\<lparr>s_limiter := l, s_pending := pt\<rparr>)"
    using req l ph pt(1) by (simp add: handleHandshake_def connectInput_def)
  then show ?thesis using pt(2,3) by (simp add: writeTo_def net record_net_def)
qed

text \<open>Both ends have the same channels, of the four known modes; they end up with the same
  compression, and with stores that take the largest message.\<close>

definition compatible ::
  "crypto_lib \<Rightarrow> comp_lib \<Rightarrow> compressorPool \<Rightarrow> connectPacket \<Rightarrow> ClientConfig \<Rightarrow> ServerConfig \<Rightarrow> bool" where
  "compatible lib clib pool m config sconfig \<longleftrightarrow>
     map Mode (cc_ChannelLayout config) = map Mode (sc_ChannelLayout sconfig) \<and>
     list_all (known_mode \<circ> Mode) (cc_ChannelLayout config) \<and>
     newCompressorPool clib (cc_Compression config) = Inr pool \<and>
     newCompressorPool clib (snd (negotiateCompression lib (sc_Compression sconfig) m)) = Inr pool \<and>
     roomy (clientSettings config) \<and> roomy (serverSettings sconfig)"

text \<open>The state of both processes in a session: connection \<open>i\<close> of the server belongs to the client at
  address \<open>a\<close>, each end is in step with the other, that is, has received what was sent so far, and
  each can still number \<open>k\<close> packets. After the handshake \<open>k\<close> is almost \<open>2\<^sup>3\<^sup>2\<close>.\<close>

definition established ::
  "nat \<Rightarrow> comp_lib \<Rightarrow> compressorPool \<Rightarrow> AddrPort \<Rightarrow> nat \<Rightarrow> bytes list client \<Rightarrow> (AddrPort \<times> bytes) list server \<Rightarrow> bool" where
  "established k clib pool a i cl s \<longleftrightarrow>
     (\<exists>c sc. cl_server cl = Some c \<and> i < length (s_heap s) \<and> s_heap s ! i = sc \<and> conns_get (s_conns s) a = Some i \<and>
        cl_connected cl \<and> cl_sendFunc cl \<and> c_state c = StateConnected \<and> c_state sc = StateConnected \<and> c_remoteAddr sc = a \<and>
        c_compress c = Some pool \<and> c_compress sc = Some pool \<and> \<not> c_skipBatch c \<and> \<not> c_skipBatch sc \<and>
        peers c sc \<and> peers sc c \<and> idle_store (c_reassembly c) \<and> idle_store (c_reassembly sc) \<and>
        room_for k c \<and> room_for k sc \<and> c_features c = c_features sc \<and>
        c_migrationToken c = c_migrationToken sc \<and> length (c_migrationToken c) = MigrationTokenSize \<and>
        map ch_mode (c_channels c) = map Mode (cc_ChannelLayout (cl_config cl)) \<and>
        list_all (known_mode \<circ> ch_mode) (c_channels c))"

text \<open>The server would follow connection \<open>i\<close> to address \<open>b\<close>: migration was negotiated, the
  connection's token is registered, and nobody else uses the address.\<close>

definition can_move :: "AddrPort \<Rightarrow> nat \<Rightarrow> 'u server \<Rightarrow> bool" where
  "can_move b i s \<longleftrightarrow> migrates (s_heap s ! i) \<and> sc_ConnectionMigration (s_config s) \<and>
     tokens_get (s_tokens s) (c_migrationToken (s_heap s ! i)) = Some i \<and> wf_conns (s_conns s) \<and>
     conns_get (s_conns s) b = None \<and> pending_get (s_pending s) b = None"

lemma featuresFromConfig_AND:
  assumes "mig"
  shows "(featuresFromConfig batch mig AND f) AND FeatureConnectionMigration = f AND FeatureConnectionMigration"
proof -
  have "featuresFromConfig batch mig AND FeatureConnectionMigration = FeatureConnectionMigration"
    using assms by (simp add: featuresFromConfig_def FeatureConnectionMigration_def FeatureSendBatching_def)
  then show ?thesis by (metis and.assoc and.commute)
qed

text \<open>Two connections made from matching handshake results are in step.\<close>

lemma fresh_established:
  assumes c: "cl_server cl = Some (newConnection clib t2 clin)" "cl_connected cl" "cl_sendFunc cl"
    and s: "i < length (s_heap s)" "s_heap s ! i = newConnection clib t3 svin" "conns_get (s_conns s) a = Some i" "in_addr svin = a"
    and same: "in_features clin = in_features svin" "in_token clin = in_token svin" "length (in_token svin) = MigrationTokenSize"
      "in_layout clin = cc_ChannelLayout (cl_config cl)" "map Mode (in_layout clin) = map Mode (in_layout svin)"
      "list_all (known_mode \<circ> Mode) (in_layout clin)"
    and pools: "newCompressorPool clib (in_compression clin) = Inr pool" "newCompressorPool clib (in_compression svin) = Inr pool"
    and room: "roomy (in_settings clin)" "roomy (in_settings svin)"
    and sync: "in_sync (in_sendCipher clin) (in_recvCipher svin)" "in_sync (in_sendCipher svin) (in_recvCipher clin)"
      "nonces_left (in_sendCipher clin) (2 ^ 64 - 2)" "cs_nonce (in_sendCipher svin) = 0"
  shows "established (2 ^ 32 - 1) clib pool a i cl s"
proof -
  let ?c = "newConnection clib t2 clin" and ?sc = "newConnection clib t3 svin"
  note p1 = newConnection_peers [OF sync(1) same(1,5) pools, where t = t2]
    and p2 = newConnection_peers [OF sync(2) same(1,5) [symmetric] pools(2,1), where t = t3]
  have rooms: "room_for (2 ^ 32 - 1) ?c" "room_for (2 ^ 32 - 1) ?sc"
    by (rule newConnection_room; use sync(3,4) in \<open>simp add: nonces_left_def\<close>)+
  have idle: "idle_store (c_reassembly ?c)" "idle_store (c_reassembly ?sc)"
    by (rule newConnection_idle; use room in simp)+
  have ms: "list_all (known_mode \<circ> ch_mode) (c_channels ?c)"
    using same(6) newConnection_channels(1) [of clib t2 clin] by (metis list.pred_map list_all_cong comp_apply)
  show ?thesis
    unfolding established_def
    by (intro exI [of _ ?c] exI [of _ ?sc]) (use p1 p2 rooms idle ms c s same newConnection_channels in simp)
qed

text \<open>The accepted connection can move: its token is registered.\<close>

lemma acceptResponse_can_move:
  assumes "serverProcessResponse (env_crypto env) (env_comp env) now resp ph a = Inr sc" "migrates sc"
    and "wf_conns (s_conns s)" "wf_map (s_tokens s)" "sc_ConnectionMigration (s_config s)"
    and "b \<noteq> a" "conns_get (s_conns s) b = None" "pending_get (s_pending s) b = None"
  shows "can_move b (length (s_heap s)) (acceptResponse env now a resp ph s)"
  using assms
  by (simp add: acceptResponse_def Let_def can_move_def conns.get_put conns.wf_put tokens.get_put pending_remove_def
      pending_get_def map_of_delete_if)

lemma connects:
  assumes lib: "ecdh_agrees lib" "aeads_ok lib" "\<forall>d. length (sha256_Sum256 lib d) = 32"
    and len: "length (x25519_PublicKey lib x) = 32" "length (x25519_PublicKey lib y) = 32" "length token = 32" "length mig = 8"
    and keys: "DeriveKeys lib x (x25519_PublicKey lib y) token (cc_CipherPreference (cl_config cl)) = Inr (k1, k2)"
      "NewCipherState lib k1 (cc_CipherPreference (cl_config cl)) = Inr st1"
      "NewCipherState lib k2 (cc_CipherPreference (cl_config cl)) = Inr st2"
    and cl: "\<not> cl_connected cl" "cenv_crypto env = lib" "cenv_comp env = clib" "cenv_Write env = record_write"
    and s: "admits t1 a s" "env_crypto senv = lib" "env_comp senv = clib" "env_net senv = record_net" "wf_conns (s_conns s)"
    and conf: "compatible lib clib pool (connectMessage lib (cenv_appVersion env) (cl_config cl)
      \<lparr>Private = x, Public = x25519_PublicKey lib x\<rparr>) (cl_config cl) (s_config s)"
  shows "\<exists>cl1 req s1 chal cl2 resp s2.
    connectStart env (Inr x) cl = (cl1, None) \<and> cl_net cl1 = cl_net cl @ [req] \<and>
    processIncoming senv t1 (from_client a \<lparr>rnd_private = Inr y, rnd_challenge = Inr token, rnd_migration = Inr mig\<rparr> req) s = Inr s1 \<and>
    s_net s1 = s_net s @ [(a, chal)] \<and>
    processHandshakePacket env t2 chal cl1 = cl2 \<and> cl_net cl2 = cl_net cl1 @ [resp] \<and>
    processIncoming senv t3 (from_client a rnd resp) s1 = Inr s2 \<and>
    s_events s2 = s_events s @ [(length (s_heap s), OnConnect)] \<and> snd (connectFinish False cl2) = None \<and>
    cl_config (fst (connectFinish False cl2)) = cl_config cl \<and>
    c_batchEnabled (s_heap s2 ! length (s_heap s)) =
      batching (featuresFromConfig (cc_SendBatching (cl_config cl)) (cc_ConnectionMigration (cl_config cl)) AND s_features s) \<and>
    cl_events (fst (connectFinish False cl2)) = cl_events cl @ [OnConnect] \<and>
    established (2 ^ 32 - 1) clib pool a (length (s_heap s)) (fst (connectFinish False cl2)) s2 \<and>
    (\<forall>b. b \<noteq> a \<and> conns_get (s_conns s) b = None \<and> pending_get (s_pending s) b = None \<and> wf_map (s_tokens s) \<and>
       sc_ConnectionMigration (s_config s) \<and> cc_ConnectionMigration (cl_config cl) \<and>
       s_features s AND FeatureConnectionMigration \<noteq> 0 \<longrightarrow> can_move b (length (s_heap s)) s2)"
proof -
  let ?kp = "\<lparr>Private = x, Public = x25519_PublicKey lib x\<rparr>" and ?config = "cl_config cl"
  let ?f = "featuresFromConfig (cc_SendBatching ?config) (cc_ConnectionMigration ?config) AND spi_serverFeatures (connectInput [] s)"
  have kp: "GenerateKeyPair lib (Inr x) = Inr ?kp" by (simp add: GenerateKeyPair_def)
  have inp: "(connectInput [] s)\<lparr>spi_data := req\<rparr> = connectInput req s" for req by (simp add: connectInput_def Let_def)
  obtain req ph chal resp s1 r tok sin where
    h: "connectRequest lib (cenv_appVersion env) ?config ?kp = Inr req"
      "serverProcessConnect lib (env_appVersion senv) \<lparr>rnd_private = Inr y, rnd_challenge = Inr token, rnd_migration = Inr mig\<rparr> t1
        (connectInput req s) = (Inr ph, Some chal)"
      "acceptChallenge lib clib ?config t2 chal ?kp (cenv_remote env) =
         Inr (newConnection clib t2 (clientInput ?config (cenv_remote env) s1 st2 (cc_CipherPreference ?config) ?f tok), resp)"
      "serverProcessResponse lib clib t3 resp ph a = Inr (newConnection clib t3 sin)"
    and sin: "in_addr sin = a" "in_sendCipher sin = st2" "in_recvCipher sin = r"
      "in_layout sin = spi_layout (connectInput [] s)" "in_settings sin = spi_settings (connectInput [] s)" "in_token sin = tok"
      "length tok = MigrationTokenSize"
      "in_compression sin = snd (negotiateCompression lib (spi_serverCompression (connectInput [] s))
         (connectMessage lib (cenv_appVersion env) ?config ?kp))" "in_features sin = ?f"
    and sync: "in_sync s1 r" "in_sync st2 st2" "nonces_left s1 (2 ^ 64 - 2)" "cs_nonce st2 = 0"
    and parse: "\<exists>h p. parseControlPacket req = Inr (h, ControlConnect, p)" "take 8 req = header_enc controlHeader"
      "\<exists>h p. parseControlPacket chal = Inr (h, ControlChallenge, p)"
    by (rule handshake_runs [OF lib kp len keys, of "cenv_appVersion env" "env_appVersion senv" t1 "connectInput [] s"
          clib t2 "cenv_remote env" clib t3 a, unfolded inp])
  let ?cin = "clientInput ?config (cenv_remote env) s1 st2 (cc_CipherPreference ?config) ?f tok"
  let ?c = "newConnection clib t2 ?cin"
  let ?sc = "newConnection clib t3 sin" and ?i = "length (s_heap s)"
  \<comment> \<open>the client's CONNECT\<close>
  define cl1 where "cl1 = cl\<lparr>cl_clientKP := ?kp, cl_net := cl_net cl @ [req], cl_connectDone := False,
    cl_connectErr := None, cl_connectAborted := False\<rparr>"
  have start: "connectStart env (Inr x) cl = (cl1, None)" "cl_net cl1 = cl_net cl @ [req]"
    using cl h(1) kp by (simp_all add: connectStart_def cl1_def record_write_def)
  \<comment> \<open>the server's CHALLENGE\<close>
  have tok8: "tokens_get (s_tokens s) (take MigrationTokenSize req) = None"
    using s(1) parse(2) by (simp add: admits_def MigrationTokenSize_def)
  obtain h' p' where req: "parseControlPacket req = Inr (h', ControlConnect, p')" using parse(1) by blast
  let ?rnd = "\<lparr>rnd_private = Inr y, rnd_challenge = Inr token, rnd_migration = Inr mig\<rparr>"
  obtain sv where sv: "handleHandshake senv t1 a req ?rnd s = sv" "s_net sv = s_net s @ [(a, chal)]"
    "pending_get (s_pending sv) a = Some ph" "s_conns sv = s_conns s" "s_heap sv = s_heap s" "s_events sv = s_events s"
    "s_config sv = s_config s" "s_tokens sv = s_tokens s" "\<And>b. b \<noteq> a \<Longrightarrow> pending_get (s_pending sv) b = pending_get (s_pending s) b"
    using handleHandshake_accepts [OF s(1,4) req, of ?rnd ph chal] h(2) s(2) by auto
  have "processIncoming senv t1 (from_client a ?rnd req) s = Inr sv"
    using s(1) tok8 sv(1) by (simp add: processIncoming_def from_client_def admits_def)
  note server = this sv(2)
  \<comment> \<open>the client's RESPONSE\<close>
  define cl2 where "cl2 = cl1\<lparr>cl_net := cl_net cl1 @ [resp], cl_server := Some ?c, cl_sendFunc := False, cl_connectDone := True\<rparr>"
  have conf1: "cl_config cl1 = ?config" "cl_clientKP cl1 = ?kp" "\<not> cl_connectAborted cl1" "cl_connectErr cl1 = None"
    "cl_events cl1 = cl_events cl" by (simp_all add: cl1_def)
  obtain h'' p'' where "parseControlPacket chal = Inr (h'', ControlChallenge, p'')" using parse(3) by blast
  then have resp: "processHandshakePacket env t2 chal cl1 = cl2" "cl_net cl2 = cl_net cl1 @ [resp]"
    using h(3) cl conf1 by (simp_all add: processHandshakePacket_def handleChallenge_def record_write_def cl2_def)
  \<comment> \<open>the server's connection\<close>
  define s2 where "s2 = acceptResponse senv t3 a resp ph sv"
  have s2: "s_heap s2 = s_heap s @ [?sc]" "s_events s2 = s_events s @ [(?i, OnConnect)]"
    "conns_get (s_conns s2) a = Some ?i"
    using h(4) s(2,3) sv conns.get_put [OF s(5)] by (simp_all add: s2_def acceptResponse_def Let_def)
  have "processIncoming senv t3 (from_client a rnd resp) sv = Inr s2"
    using s(1) sv by (simp add: processIncoming_def from_client_def admits_def s2_def)
  moreover have "snd (connectFinish False cl2) = None" "cl_config (fst (connectFinish False cl2)) = cl_config cl"
    "cl_events (fst (connectFinish False cl2)) = cl_events cl @ [OnConnect]"
    using conf1 by (simp_all add: connectFinish_def cl2_def)
  moreover have "established (2 ^ 32 - 1) clib pool a ?i (fst (connectFinish False cl2)) s2"
    by (rule fresh_established [where clin = ?cin and svin = sin])
      (use conf sin sync s2 conf1 in \<open>simp_all add: compatible_def connectInput_def clientInput_def Let_def connectFinish_def cl2_def\<close>)
  moreover have "c_batchEnabled (s_heap s2 ! ?i) =
      batching (featuresFromConfig (cc_SendBatching ?config) (cc_ConnectionMigration ?config) AND s_features s)"
    using sin(9) by (simp add: s2(1) batching_def connectInput_def Let_def)
  moreover have "can_move b ?i s2"
    if b: "b \<noteq> a" "conns_get (s_conns s) b = None" "pending_get (s_pending s) b = None" "wf_map (s_tokens s)"
      "sc_ConnectionMigration (s_config s)" "cc_ConnectionMigration ?config" "s_features s AND FeatureConnectionMigration \<noteq> 0" for b
  proof -
    have m: "migrates ?sc"
      using b(6,7) sin(9) by (simp add: migrates_def connectInput_def Let_def featuresFromConfig_AND)
    then show ?thesis
      using acceptResponse_can_move [of senv t3 resp ph a ?sc sv b] h(4) s(2,3,5) sv b by (simp add: s2_def)
  qed
  ultimately show ?thesis using start server resp s2(2) by blast
qed

section \<open>Messages\<close>

text \<open>What the application may send: on one of the \<open>n\<close> channels, not more than 255 fragments, and
  not an input the compressor fails on.\<close>

definition message_ok :: "comp_lib \<Rightarrow> compressorPool \<Rightarrow> nat \<Rightarrow> bytes \<times> byte \<Rightarrow> bool" where
  "message_ok clib pool n m \<longleftrightarrow> unat (snd m) < n \<and> length (fst m) \<le> 255 * 1155 \<and>
     (\<exists>r. compressPayload clib pool (fst m) = Inr r)"

lemma message_ok_sendable:
  assumes "message_ok clib pool n m" "length (c_channels c) = n" "list_all (known_mode \<circ> ch_mode) (c_channels c)"
  shows "sendable clib pool c m"
  using assms by (auto simp: message_ok_def sendable_def list_all_length)

lemma map_Pair_messages:
  "map (Pair i) (map (\<lambda>(data, ch). OnMessage data ch) ms) = map (\<lambda>(data, ch). (i, OnMessage data ch)) ms"
  "RemoveConnection \<notin> set (map (\<lambda>(data, ch). OnMessage data ch) ms)"
  by auto

lemma client_receives:
  assumes "cl_server cl = Some c" "receiveDatagrams (cenv_comp env) now ds c = Inr (c', es)" "RemoveConnection \<notin> set es"
  shows "\<exists>cl'. steps (client_processIncoming env now) ds cl = Inr cl' \<and> cl_events cl' = cl_events cl @ es \<and> cl_server cl' = Some c'"
  using assms
proof (induction ds arbitrary: cl c es)
  case (Cons d ds)
  obtain c1 es1 es2 where r: "processConnData (cenv_comp env) now d c = Inr (c1, es1)"
    "receiveDatagrams (cenv_comp env) now ds c1 = Inr (c', es2)" "es = es1 @ es2"
    using Cons.prems(2) by (auto split: sum.splits prod.splits)
  have no: "RemoveConnection \<notin> set es1" "RemoveConnection \<notin> set es2" using Cons.prems(3) r(3) by auto
  have "fold client_applyEffect es cl = cl\<lparr>cl_events := cl_events cl @ es\<rparr>" if "RemoveConnection \<notin> set es" for es and cl :: "'a client"
    using that
  proof (induction es arbitrary: cl)
    case (Cons e es)
    then show ?case by (cases e) auto
  qed simp
  from this [OF no(1), of "cl\<lparr>cl_server := Some c1\<rparr>"]
  have "client_processIncoming env now d cl = Inr (cl\<lparr>cl_server := Some c1, cl_events := cl_events cl @ es1\<rparr>)"
    using Cons.prems(1) r(1) by (simp add: client_processIncoming_def client_commit_def)
  with Cons.IH [of "cl\<lparr>cl_server := Some c1, cl_events := cl_events cl @ es1\<rparr>" c1 es2] r no(2) show ?case by auto
qed simp

text \<open>The direction from the client to the server: everything the connection \<open>c\<close> of the client has sent
  so far has been received by the connection \<open>sc\<close> of the server, nothing is half reassembled, and the
  client can still number \<open>k\<close> packets.\<close>

definition uplink :: "nat \<Rightarrow> compressorPool \<Rightarrow> connection \<Rightarrow> connection \<Rightarrow> bool" where
  "uplink k pool c sc \<longleftrightarrow> c_state c = StateConnected \<and> c_compress c = Some pool \<and> \<not> c_skipBatch c \<and>
     peers c sc \<and> idle_store (c_reassembly sc) \<and> room_for k c \<and>
     c_features c = c_features sc \<and> c_migrationToken c = c_migrationToken sc \<and> length (c_migrationToken c) = MigrationTokenSize \<and>
     list_all (known_mode \<circ> ch_mode) (c_channels c)"

definition attached :: "nat \<Rightarrow> compressorPool \<Rightarrow> AddrPort \<Rightarrow> nat \<Rightarrow> connection \<Rightarrow> 'u server \<Rightarrow> bool" where
  "attached k pool a i c s \<longleftrightarrow> i < length (s_heap s) \<and> conns_get (s_conns s) a = Some i \<and>
     c_remoteAddr (s_heap s ! i) = a \<and> uplink k pool c (s_heap s ! i)"

lemma established_attached:
  assumes "established k clib pool a i cl s"
  obtains c where "cl_server cl = Some c" "attached k pool a i c s" "length (c_channels c) = length (cc_ChannelLayout (cl_config cl))"
proof -
  obtain c sc where "cl_server cl = Some c" "i < length (s_heap s)" "s_heap s ! i = sc" "conns_get (s_conns s) a = Some i"
    "c_remoteAddr sc = a" "uplink k pool c sc" "map ch_mode (c_channels c) = map Mode (cc_ChannelLayout (cl_config cl))"
    using assms unfolding established_def uplink_def by blast
  then show thesis using that [of c] map_eq_imp_length_eq by (auto simp: attached_def)
qed

lemma established_mono: "established k clib pool a i cl s \<Longrightarrow> j \<le> k \<Longrightarrow> established j clib pool a i cl s"
  unfolding established_def using room_for_mono by blast

lemma uplink_moved: "uplink k pool c (sc\<lparr>c_remoteAddr := b\<rparr>) = uplink k pool c sc"
  by (simp add: uplink_def peers_def)

lemma receiveDatagrams_keeps:
  "receiveDatagrams lib now ds c = Inr (c', es) \<Longrightarrow> RemoveConnection \<notin> set es \<Longrightarrow> keeps c c'"
proof (induction ds arbitrary: c es)
  case (Cons d ds)
  obtain c1 es1 es2 where r: "processConnData lib now d c = Inr (c1, es1)" "receiveDatagrams lib now ds c1 = Inr (c', es2)" "es = es1 @ es2"
    using Cons.prems(1) by (auto split: sum.splits prod.splits)
  have "keeps c c1" using processConnData_outcome [OF r(1)] Cons.prems(2) r(3) by (simp add: outcome_def)
  moreover have "keeps c1 c'" by (rule Cons.IH [OF r(2)]) (use Cons.prems(2) r(3) in simp)
  ultimately show ?case by (rule keeps_trans)
qed simp

lemma uplink_messages:
  assumes up: "uplink k pool c sc" and lib: "comp_lib_ok clib" "newCompressorPool clib cfg = Inr pool"
    and ms: "\<forall>m \<in> set ms. message_ok clib pool (length (c_channels c)) m" "255 * length ms \<le> k"
  obtains c' ds sc' where
    "sendMessages clib (client_sendFunc record_write) ms t (c, u) = ((c', u @ map ((@) (tokenPrefix c)) ds), replicate (length ms) None)"
    "receiveDatagrams clib t' ds sc = Inr (sc', map (\<lambda>(data, ch). OnMessage data ch) ms)"
    "uplink (k - 255 * length ms) pool c' sc'" "keeps sc sc'" "length (c_channels c') = length (c_channels c)"
proof -
  have c: "c_state c = StateConnected" "c_compress c = Some pool" "\<not> c_skipBatch c" "peers c sc" "idle_store (c_reassembly sc)"
    "c_features c = c_features sc" "c_migrationToken c = c_migrationToken sc" "length (c_migrationToken c) = MigrationTokenSize"
    "list_all (known_mode \<circ> ch_mode) (c_channels c)" "room_for k c"
    using up unfolding uplink_def by blast+
  have "\<forall>m \<in> set ms. sendable clib pool c m" using message_ok_sendable [OF _ refl c(9)] ms(1) by blast
  moreover have "room_for (255 * length ms + (k - 255 * length ms)) c" using c(10) ms(2) by simp
  ultimately obtain c' u' ds sc' where r:
    "sendMessages clib (client_sendFunc record_write) ms t (c, u) = ((c', u'), replicate (length ms) None)"
    "u' = u @ map ((@) (tokenPrefix c)) ds"
    "receiveDatagrams clib t' ds sc = Inr (sc', map (\<lambda>(data, i). OnMessage data i) ms)" "peers c' sc'"
    "same_sender c c'" "c_state c' = StateConnected" "room_for (k - 255 * length ms) c'" "c_reassembly sc' = c_reassembly sc"
    using client_wire.messages_arrive [OF lib c(2,4,1,3) _ c(5), of ms _ t u t'] by blast
  have k: "keeps sc sc'" by (rule receiveDatagrams_keeps [OF r(3)]) auto
  have modes: "map ch_mode (c_channels c') = map ch_mode (c_channels c)" using r(5) by (simp add: same_sender_def)
  then have "list_all (known_mode \<circ> ch_mode) (c_channels c')" using c(9) by (metis list.pred_map comp_apply)
  then have "uplink (k - 255 * length ms) pool c' sc'"
    using c k r(4-8) by (simp add: uplink_def same_sender_def keeps_def)
  with that r(1,2,3) k map_eq_imp_length_eq [OF modes] show thesis by blast
qed

lemma client_sends:
  assumes at: "attached k pool a i c s" and lib: "comp_lib_ok clib" "newCompressorPool clib cfg = Inr pool"
    and env: "env_comp senv = clib"
    and ms: "\<forall>m \<in> set ms. message_ok clib pool (length (c_channels c)) m" "255 * length ms \<le> k"
  obtains c' ds sc' s' where
    "sendMessages clib (client_sendFunc record_write) ms t (c, u) = ((c', u @ ds), replicate (length ms) None)"
    "steps (processIncoming senv t') (map (from_client a rnd) ds) s = Inr s'"
    "s' = s\<lparr>s_heap := (s_heap s)[i := sc'], s_events := s_events s @ map (\<lambda>(data, ch). (i, OnMessage data ch)) ms\<rparr>"
    "attached (k - 255 * length ms) pool a i c' s'" "keeps (s_heap s ! i) sc'" "length (c_channels c') = length (c_channels c)"
proof -
  let ?sc = "s_heap s ! i"
  have c: "i < length (s_heap s)" "conns_get (s_conns s) a = Some i" "c_remoteAddr ?sc = a" "uplink k pool c ?sc"
    using at by (simp_all add: attached_def)
  obtain c' ds sc' where r:
    "sendMessages clib (client_sendFunc record_write) ms t (c, u) = ((c', u @ map ((@) (tokenPrefix c)) ds), replicate (length ms) None)"
    "receiveDatagrams clib t' ds ?sc = Inr (sc', map (\<lambda>(data, ch). OnMessage data ch) ms)"
    "uplink (k - 255 * length ms) pool c' sc'" "keeps ?sc sc'" "length (c_channels c') = length (c_channels c)"
    by (rule uplink_messages [OF c(4) lib ms])
  have p: "if migrates ?sc then length (tokenPrefix c) = MigrationTokenSize else tokenPrefix c = []"
    using length_tokenPrefix [of c] c(4) by (auto simp: migrates_def tokenPrefix_def uplink_def)
  let ?s = "s\<lparr>s_heap := (s_heap s)[i := sc'], s_events := s_events s @ map (\<lambda>(data, ch). (i, OnMessage data ch)) ms\<rparr>"
  have "steps (processIncoming senv t') (map (from_client a rnd) (map ((@) (tokenPrefix c)) ds)) s = Inr ?s"
    using server_receives [OF c(2,1) refl r(2) [folded env] map_Pair_messages(2) p, of rnd]
    unfolding map_Pair_messages(1) by (simp add: o_def)
  moreover have "attached (k - 255 * length ms) pool a i c' ?s" using c r(3,4) by (simp add: attached_def keeps_def)
  ultimately show thesis using that r(1,4,5) by blast
qed

section \<open>A connection that has been released\<close>

lemma recordReceive_buffer:
  "snd (recordReceive seq (ch\<lparr>ch_recvBuffer := b\<rparr>)) = snd (recordReceive seq ch)"
  "snd (recordReceive seq (ch\<lparr>ch_pendingSend := ps, ch_pending := n\<rparr>)) = snd (recordReceive seq ch)"
  "ch_recvBuffer (fst (recordReceive seq ch)) = ch_recvBuffer ch"
  by (simp_all add: recordReceive_def Let_def)

lemma released_channel:
  assumes "unat i < length (c_channels c)" "expects q (c_channels c ! unat i)"
  shows "\<exists>x. c_channels (teardown (applyAcks t 0 0 0 ((countReceived n c)\<lparr>c_recvCipher := r, c_lastRecv := t\<rparr>))) ! unat i =
      releasePendingBuffers x \<and> expects q x \<and> ch_mode x = ch_mode (c_channels c ! unat i) \<and>
      unat i < length (c_channels (teardown (applyAcks t 0 0 0 ((countReceived n c)\<lparr>c_recvCipher := r, c_lastRecv := t\<rparr>))))"
proof -
  obtain ps m rt cc l where f: "applyAcks t 0 0 0 ((countReceived n c)\<lparr>c_recvCipher := r, c_lastRecv := t\<rparr>) =
      (countReceived n c)\<lparr>c_recvCipher := r, c_lastRecv := t,
        c_channels := (c_channels c)[0 := (c_channels c ! 0)\<lparr>ch_pendingSend := ps, ch_pending := m\<rparr>],
        c_rtt := rt, c_cc := cc, c_loss := l\<rparr>"
    using applyAcks_frame [of t 0 0 0 "(countReceived n c)\<lparr>c_recvCipher := r, c_lastRecv := t\<rparr>"] by auto
  show ?thesis
    using assms unfolding f
    by (intro exI [of _ "(c_channels c)[0 := (c_channels c ! 0)\<lparr>ch_pendingSend := ps, ch_pending := m\<rparr>] ! unat i"])
      (cases "unat i = 0"; simp add: teardown_def conn_releasePendingBuffers_def)
qed

lemma released_panics:
  assumes "c_channels c ! unat i = releasePendingBuffers x" "expects q x" "ch_mode x = ReliableOrdered" "unat i < length (c_channels c)"
    and "unat q < 2 ^ 32 - 1"
  shows "handleDecrypted lib t (header_enc \<lparr>Flags = 0, Channel = i, Sequence = q + 1, Ack = 0, AckField = 0\<rparr> @ body)
      (c\<lparr>c_recvCipher := r\<rparr>) = Inl PanicNilMap"
proof -
  let ?h = "\<lparr>Flags = 0, Channel = i, Sequence = q + 1, Ack = 0, AckField = 0\<rparr>"
  let ?c = "c\<lparr>c_recvCipher := r, c_lastRecv := t\<rparr>"
  obtain ps m rt cc l where f: "applyAcks t i 0 0 ?c =
      ?c\<lparr>c_channels := (c_channels c)[unat i := (releasePendingBuffers x)\<lparr>ch_pendingSend := ps, ch_pending := m\<rparr>],
        c_rtt := rt, c_cc := cc, c_loss := l\<rparr>"
    using applyAcks_frame [of t i 0 0 ?c] assms(1) by auto
  let ?y = "(releasePendingBuffers x)\<lparr>ch_pendingSend := ps, ch_pending := m\<rparr>"
  have ok: "snd (recordReceive (q + 1) ?y)"
    by (rule recordReceive_next [OF assms(2,5)]) (simp add: releasePendingBuffers_def recordReceive_buffer)
  have "ch_recvBuffer (fst (recordReceive (q + 1) ?y)) = None" "ch_mode (fst (recordReceive (q + 1) ?y)) = ReliableOrdered"
    using assms(3) by (simp_all add: recordReceive_buffer(3) releasePendingBuffers_def)
  then have d: "deliver (q + 1) p (fst (recordReceive (q + 1) ?y)) = Inl PanicNilMap" for p
    by (simp add: deliver_def deliverReliableOrdered_def)
  have u: "UnmarshalHeader (header_enc ?h @ body) = Inr (?h, length (header_enc ?h))" by (simp add: codec_simps)
  show ?thesis
    unfolding handleDecrypted_eq [OF u] Let_def
    using assms(4) ok d by (simp add: f conn_channel_def deliverMessages_def deliverTo_def setChannel_def)
qed

section \<open>Migration\<close>

lemma UnmarshalBatch_nonempty: "UnmarshalBatch d \<noteq> Inr []"
proof (cases "unat (d ! 0)")
  case (Suc k)
  then show ?thesis by (auto simp: UnmarshalBatch_def Let_def split: sum.splits)
qed (simp add: UnmarshalBatch_def)

text \<open>A datagram whose packets are authentic is handled by \<open>tryMigration\<close> as \<open>processConnData\<close>
  handles it after the connection has moved.\<close>

lemma tryMigration_moves:
  assumes "i < length (s_heap s)" "s_heap s ! i = c" "c_remoteAddr c \<noteq> b" "length tok = MigrationTokenSize"
    and "processConnData (env_comp env) now d (c\<lparr>c_remoteAddr := b\<rparr>) = Inr (c', es)" "\<forall>e. OnError e \<notin> set es"
  shows "tryMigration env now i b (tok @ d) s = Inr (commit i (c', es) (moveConnection i b s))"
proof -
  let ?lib = "env_comp env" and ?n = "length d"
  obtain w ws where ps: "(if c_batchEnabled c then UnmarshalBatch d else Inr [d]) = Inr (w # ws)"
    and r: "processPackets ?lib now (w # ws) (countReceived ?n (c\<lparr>c_remoteAddr := b\<rparr>)) = Inr (c', es)"
  proof (cases "c_batchEnabled c")
    case True
    then show thesis
      using that assms(5,6) UnmarshalBatch_nonempty [of d]
      by (auto simp: processConnData_def countReceived_def Let_def neq_Nil_conv split: sum.splits)
  next
    case False
    then show thesis using that [of d "[]"] assms(5) by (simp add: processConnData_def countReceived_def)
  qed
  obtain k q where dec: "Decrypt (c_recvCipher c) w getDecryptBuffer = (k, q)" by fastforce
  obtain p where q: "q = Inr p"
    using r assms(6) dec by (cases q) (auto simp: processPacket_def countReceived_def split: sum.splits)
  define s1 where "s1 = s\<lparr>s_heap := (s_heap s)[i := c\<lparr>c_recvCipher := k\<rparr>]\<rparr>"
  have heap: "s_heap (moveConnection i b s1) ! i = c\<lparr>c_recvCipher := k, c_remoteAddr := b\<rparr>"
    using assms(1,3) by (simp add: moveConnection_def s1_def)
  have com: "commit i r (moveConnection i b s1) = commit i r (moveConnection i b s)" for r
    using assms(1-3) by (simp add: commit_def moveConnection_def s1_def Let_def)
  obtain c1 es1 es2 where h: "handleDecrypted ?lib now p ((countReceived ?n (c\<lparr>c_remoteAddr := b\<rparr>))\<lparr>c_recvCipher := k\<rparr>) = Inr (c1, es1)"
    "processPackets ?lib now ws c1 = Inr (c', es2)" "es = es1 @ es2"
    using r dec q by (auto simp: processPacket_def countReceived_def split: sum.splits prod.splits)
  have "countReceived ?n (c\<lparr>c_recvCipher := k, c_remoteAddr := b\<rparr>) = (countReceived ?n (c\<lparr>c_remoteAddr := b\<rparr>))\<lparr>c_recvCipher := k\<rparr>"
    by (simp add: countReceived_def)
  note cr = this
  have st: "drop MigrationTokenSize (tok @ d) = d" using assms(4) by simp
  show ?thesis
    unfolding tryMigration_def Let_def assms(2) st ps sum.case list.case dec q prod.case s1_def [symmetric] heap cr
    by (simp add: h com)
qed

section \<open>Messages of the server\<close>

context transport
begin

text \<open>Over any transport without a prefix, the client's handler receives what the server sends.\<close>

lemma reaches_client:
  assumes pre: "\<And>c. prefix c = []" and est: "established k clib pool a i cl s" and lib: "comp_lib_ok clib" "newCompressorPool clib cfg = Inr pool"
    and env: "cenv_comp env = clib"
    and ms: "\<forall>m \<in> set ms. message_ok clib pool (length (cc_ChannelLayout (cl_config cl))) m" "255 * length ms \<le> k"
  shows "\<exists>sc' u' ds cl'.
    sendMessages clib sf ms t (s_heap s ! i, u) = ((sc', u'), replicate (length ms) None) \<and> wire u' = wire u @ ds \<and>
    steps (client_processIncoming env t') ds cl = Inr cl' \<and>
    cl_events cl' = cl_events cl @ map (\<lambda>(data, ch). OnMessage data ch) ms"
proof -
  obtain c sc where c: "cl_server cl = Some c" "s_heap s ! i = sc"
    "c_state sc = StateConnected" "c_compress sc = Some pool" "\<not> c_skipBatch sc" "peers sc c" "idle_store (c_reassembly c)"
    "room_for k sc"
    "map ch_mode (c_channels c) = map Mode (cc_ChannelLayout (cl_config cl))" "list_all (known_mode \<circ> ch_mode) (c_channels c)"
    using est unfolding established_def by blast
  have modes: "map ch_mode (c_channels sc) = map ch_mode (c_channels c)" using c(6) by (simp add: peers_def)
  have "list_all (known_mode \<circ> ch_mode) (c_channels sc)"
    using c(10) modes by (metis list.pred_map comp_apply)
  then have "sendable clib pool sc m" if "m \<in> set ms" for m
    using message_ok_sendable [OF ms(1) [rule_format, OF that], of sc] map_eq_imp_length_eq [OF c(9)] map_eq_imp_length_eq [OF modes]
    by simp
  moreover have "room_for (255 * length ms + 0) sc" by (rule room_for_mono [OF c(8)]) (use ms(2) in simp)
  ultimately obtain sc' u' ds c' where r:
    "sendMessages clib sf ms t (sc, u) = ((sc', u'), replicate (length ms) None)"
    "wire u' = wire u @ map ((@) (prefix sc)) ds"
    "receiveDatagrams clib t' ds c = Inr (c', map (\<lambda>(data, i). OnMessage data i) ms)"
    using messages_arrive [OF lib c(4,6,3,5) _ c(7), where ms = ms and k = 0 and now = t and u = u and now' = t'] by blast
  have "map ((@) (prefix sc)) ds = ds" by (induction ds) (simp_all add: pre)
  with client_receives [OF c(1) r(3) [folded env] map_Pair_messages(2)] r(1,2) c(2) show ?thesis by auto
qed

end

text \<open>What happens when the client sends from an address the server does not know.\<close>

lemma migration_steps:
  assumes at: "attached k pool a i c s" and lib: "comp_lib_ok clib" "newCompressorPool clib cfg = Inr pool"
    and env: "env_comp senv = clib"
    and move: "can_move b i s"
    and ms: "\<forall>m \<in> set ms. message_ok clib pool (length (c_channels c)) m" "255 * length ms \<le> k" "ms \<noteq> []"
  shows "\<exists>c' d ds s1 s'.
    sendMessages clib (client_sendFunc record_write) ms t (c, u) =
      ((c', u @ map ((@) (tokenPrefix c)) (d # ds)), replicate (length ms) None) \<and>
    processIncoming senv t' (from_client b rnd (tokenPrefix c @ d)) s = Inr s1 \<and>
    conns_get (s_conns s1) b = Some i \<and> conns_get (s_conns s1) a = None \<and>
    steps (processIncoming senv t') (map (\<lambda>d. from_client b rnd (tokenPrefix c @ d)) ds) s1 = Inr s' \<and>
    s_events s' = s_events s @ map (\<lambda>(data, ch). (i, OnMessage data ch)) ms \<and> s_conns s' = s_conns s1 \<and>
    receiveDatagrams clib t' (d # ds) ((s_heap s ! i)\<lparr>c_remoteAddr := b\<rparr>) =
      Inr (s_heap s' ! i, map (\<lambda>(data, ch). OnMessage data ch) ms) \<and>
    (\<forall>j. j \<noteq> i \<longrightarrow> s_heap s' ! j = s_heap s ! j) \<and> attached (k - 255 * length ms) pool b i c' s'"
proof -
  let ?sc = "s_heap s ! i"
  let ?bsc = "?sc\<lparr>c_remoteAddr := b\<rparr>" and ?es = "map (\<lambda>(data, ch). OnMessage data ch) ms"
  have mig: "migrates ?sc" "sc_ConnectionMigration (s_config s)"
      "tokens_get (s_tokens s) (c_migrationToken ?sc) = Some i" "wf_conns (s_conns s)"
    and new: "conns_get (s_conns s) b = None" "pending_get (s_pending s) b = None"
    using move by (simp_all add: can_move_def)
  have c: "i < length (s_heap s)" "conns_get (s_conns s) a = Some i" "c_remoteAddr ?sc = a" "uplink k pool c ?sc"
    using at by (simp_all add: attached_def)
  have "uplink k pool c ?bsc" using c(4) uplink_moved by blast
  then obtain c' ds sc' where r:
    "sendMessages clib (client_sendFunc record_write) ms t (c, u) = ((c', u @ map ((@) (tokenPrefix c)) ds), replicate (length ms) None)"
    "receiveDatagrams clib t' ds ?bsc = Inr (sc', ?es)" "uplink (k - 255 * length ms) pool c' sc'" "keeps ?bsc sc'"
    by (rule uplink_messages [OF _ lib ms(1,2)])
  obtain d ds' c1 es1 es2 where d: "ds = d # ds'" "processConnData clib t' d ?bsc = Inr (c1, es1)"
    "receiveDatagrams clib t' ds' c1 = Inr (sc', es2)" "?es = es1 @ es2"
    using r(2) ms(3) by (cases ds) (auto split: sum.splits)
  have "set es1 \<subseteq> set ?es" "set es2 \<subseteq> set ?es" unfolding d(4) by simp_all
  then have es: "\<forall>e. OnError e \<notin> set es1" "RemoveConnection \<notin> set es1" "RemoveConnection \<notin> set es2" by auto
  have "c_features c = c_features ?sc" "c_migrationToken c = c_migrationToken ?sc" "length (c_migrationToken c) = MigrationTokenSize"
    using c(4) unfolding uplink_def by blast+
  then have pre: "tokenPrefix c = c_migrationToken ?sc" "length (tokenPrefix c) = MigrationTokenSize"
    using mig(1) by (simp_all add: tokenPrefix_def migrates_def go_copy_def)
  have ab: "c_remoteAddr ?sc \<noteq> b" using c(2,3) new(1) by auto
  define s1 where "s1 = commit i (c1, es1) (moveConnection i b s)"
  have "tryMigration senv t' i b (tokenPrefix c @ d) s = Inr s1"
    unfolding s1_def by (rule tryMigration_moves [OF c(1) refl ab pre(2)]) (use d(2) env es(1) in simp_all)
  then have step: "processIncoming senv t' (from_client b rnd (tokenPrefix c @ d)) s = Inr s1"
    using new mig(2,3) pre by (simp add: processIncoming_def from_client_def)
  have f: "filter (\<lambda>e. e \<noteq> RemoveConnection) es1 = es1" using es(2) by (auto simp: filter_id_conv)
  have s1: "s_conns s1 = conns_put b i (conns_remove a (s_conns s))" "s_heap s1 = (s_heap s)[i := c1]"
    "s_events s1 = s_events s @ map (Pair i) es1"
    using es(2) ab c(3) by (simp_all add: s1_def commit_eq moveConnection_def Let_def f)
  have get: "conns_get (s_conns s1) b = Some i" "conns_get (s_conns s1) a = None"
    unfolding s1(1) using conns.get_put [OF conns.wf_remove [OF mig(4)]] conns.get_remove [OF mig(4)] ab c(3) by simp_all
  have p: "if migrates c1 then length (tokenPrefix c) = MigrationTokenSize else tokenPrefix c = []"
    using processConnData_outcome [OF d(2)] es(2) mig(1) pre(2) by (simp add: outcome_def keeps_def migrates_def)
  have s1i: "i < length (s_heap s1)" "s_heap s1 ! i = c1" using c(1) by (simp_all add: s1(2))
  let ?s = "s1\<lparr>s_heap := (s_heap s1)[i := sc'], s_events := s_events s1 @ map (Pair i) es2\<rparr>"
  have rest: "steps (processIncoming senv t') (map (\<lambda>d. from_client b rnd (tokenPrefix c @ d)) ds') s1 = Inr ?s"
    by (rule server_receives [OF get(1) s1i d(3) [folded env] es(3) p])
  have "map (Pair i) es1 @ map (Pair i) es2 = map (\<lambda>(data, ch). (i, OnMessage data ch)) ms"
    unfolding map_append [symmetric] d(4) [symmetric] by (rule map_Pair_messages)
  then have ev: "s_events ?s = s_events s @ map (\<lambda>(data, ch). (i, OnMessage data ch)) ms" using s1(3) by simp
  have heap: "s_heap ?s ! i = sc'" "\<forall>j. j \<noteq> i \<longrightarrow> s_heap ?s ! j = s_heap s ! j" using c(1) by (simp_all add: s1(2))
  have "attached (k - 255 * length ms) pool b i c' ?s" using c(1) r(3,4) get(1) by (simp add: attached_def s1(2) keeps_def)
  then show ?thesis using r(1,2) d(1) step get rest ev heap
    by (intro exI [of _ c'] exI [of _ d] exI [of _ ds'] exI [of _ s1] exI [of _ ?s]) simp
qed

section \<open>Properties\<close>

text \<open>C1. A whole session. A client that is not connected calls \<open>Connect\<close>; its packets, and the
  server's, are delivered; the server admits it. Then the CONNECT produces a CHALLENGE, the
  CHALLENGE a RESPONSE, the RESPONSE a connection on both sides, with one \<open>OnConnect\<close> each. The
  application then sends any messages, on any channels: every call succeeds, and the datagrams
  it wrote, given to the server, call its handler with exactly these messages, in order. This
  holds for every cipher suite, with and without batching, migration tokens and compression, and
  for fragmented messages.\<close>

theorem session_delivers:
  assumes lib: "ecdh_agrees lib" "aeads_ok lib" "\<forall>d. length (sha256_Sum256 lib d) = 32" "comp_lib_ok clib"
    and len: "length (x25519_PublicKey lib x) = 32" "length (x25519_PublicKey lib y) = 32" "length token = 32" "length mig = 8"
    and keys: "DeriveKeys lib x (x25519_PublicKey lib y) token (cc_CipherPreference (cl_config cl)) = Inr (k1, k2)"
      "NewCipherState lib k1 (cc_CipherPreference (cl_config cl)) = Inr st1"
      "NewCipherState lib k2 (cc_CipherPreference (cl_config cl)) = Inr st2"
    and cl: "\<not> cl_connected cl" "cenv_crypto env = lib" "cenv_comp env = clib" "cenv_Write env = record_write"
    and s: "admits t1 a s" "env_crypto senv = lib" "env_comp senv = clib" "env_net senv = record_net" "wf_conns (s_conns s)"
    and conf: "compatible lib clib pool (connectMessage lib (cenv_appVersion env) (cl_config cl)
      \<lparr>Private = x, Public = x25519_PublicKey lib x\<rparr>) (cl_config cl) (s_config s)"
    and ms: "\<forall>m \<in> set ms. message_ok clib pool (length (cc_ChannelLayout (cl_config cl))) m" "255 * length ms < 2 ^ 32"
  shows "\<exists>cl1 req s1 chal cl2 resp s2 cl3 c c' ds s3.
    connectStart env (Inr x) cl = (cl1, None) \<and> cl_net cl1 = cl_net cl @ [req] \<and>
    processIncoming senv t1 (from_client a \<lparr>rnd_private = Inr y, rnd_challenge = Inr token, rnd_migration = Inr mig\<rparr> req) s = Inr s1 \<and>
    s_net s1 = s_net s @ [(a, chal)] \<and>
    processHandshakePacket env t2 chal cl1 = cl2 \<and> cl_net cl2 = cl_net cl1 @ [resp] \<and>
    processIncoming senv t3 (from_client a rnd resp) s1 = Inr s2 \<and>
    connectFinish False cl2 = (cl3, None) \<and> cl_events cl3 = cl_events cl @ [OnConnect] \<and> cl_server cl3 = Some c \<and>
    sendMessages clib (client_sendFunc record_write) ms t4 (c, cl_net cl3) = ((c', cl_net cl3 @ ds), replicate (length ms) None) \<and>
    steps (processIncoming senv t5) (map (from_client a rnd) ds) s2 = Inr s3 \<and>
    s_events s3 = s_events s @ (length (s_heap s), OnConnect) # map (\<lambda>(data, ch). (length (s_heap s), OnMessage data ch)) ms"
proof -
  let ?i = "length (s_heap s)"
  obtain cl1 req s1 chal cl2 resp s2 where h: "connectStart env (Inr x) cl = (cl1, None)" "cl_net cl1 = cl_net cl @ [req]"
    "processIncoming senv t1 (from_client a \<lparr>rnd_private = Inr y, rnd_challenge = Inr token, rnd_migration = Inr mig\<rparr> req) s = Inr s1"
    "s_net s1 = s_net s @ [(a, chal)]" "processHandshakePacket env t2 chal cl1 = cl2" "cl_net cl2 = cl_net cl1 @ [resp]"
    "processIncoming senv t3 (from_client a rnd resp) s1 = Inr s2" "s_events s2 = s_events s @ [(?i, OnConnect)]"
    "snd (connectFinish False cl2) = None" "cl_events (fst (connectFinish False cl2)) = cl_events cl @ [OnConnect]"
    and cfg: "cl_config (fst (connectFinish False cl2)) = cl_config cl"
    and est: "established (2 ^ 32 - 1) clib pool a ?i (fst (connectFinish False cl2)) s2"
    using connects [OF lib(1-3) len keys cl s conf, of t2 t3 rnd] by blast
  let ?cl = "fst (connectFinish False cl2)"
  have pool: "newCompressorPool clib (cc_Compression (cl_config cl)) = Inr pool" using conf by (simp add: compatible_def)
  obtain c where m0: "cl_server ?cl = Some c" "attached (2 ^ 32 - 1) pool a ?i c s2" "length (c_channels c) = length (cc_ChannelLayout (cl_config cl))"
    using established_attached [OF est] unfolding cfg by blast
  have ok: "\<forall>m \<in> set ms. message_ok clib pool (length (c_channels c)) m" "255 * length ms \<le> 2 ^ 32 - 1" using ms m0(3) by simp_all
  obtain c' ds s3 where m:
    "sendMessages clib (client_sendFunc record_write) ms t4 (c, cl_net ?cl) = ((c', cl_net ?cl @ ds), replicate (length ms) None)"
    "steps (processIncoming senv t5) (map (from_client a rnd) ds) s2 = Inr s3"
    "s_events s3 = s_events s2 @ map (\<lambda>(data, ch). (?i, OnMessage data ch)) ms"
    by (rule client_sends [OF m0(2) lib(4) pool s(3) ok, of t4 "cl_net ?cl" t5 rnd]) simp
  have "connectFinish False cl2 = (?cl, None)" using h(9) by (metis prod.collapse)
  moreover have "s_events s3 = s_events s @ (?i, OnConnect) # map (\<lambda>(data, ch). (?i, OnMessage data ch)) ms"
    using m(3) h(8) by simp
  ultimately show ?thesis using h(1-7,10) m0(1) m(1,2) by blast
qed

text \<open>The other direction: whatever the server sends on an established connection, with and
  without write coalescing, the client's handler receives, in order.\<close>

theorem server_messages_reach_client:
  assumes est: "established k clib pool a i cl s" and lib: "comp_lib_ok clib" "newCompressorPool clib cfg = Inr pool"
    and env: "cenv_comp env = clib"
    and ms: "\<forall>m \<in> set ms. message_ok clib pool (length (cc_ChannelLayout (cl_config cl))) m" "255 * length ms \<le> k"
  shows "\<exists>sc' u' ds cl'.
    sendMessages clib (server_sendFunc record_net coalesce) ms t (s_heap s ! i, s_net s) = ((sc', u'), replicate (length ms) None) \<and>
    map snd u' = map snd (s_net s) @ ds \<and>
    steps (client_processIncoming env t') ds cl = Inr cl' \<and>
    cl_events cl' = cl_events cl @ map (\<lambda>(data, ch). OnMessage data ch) ms"
  using server_wire.reaches_client [OF refl est lib env ms, of coalesce t "s_net s" t'] by simp

text \<open>C3. Migration keeps the session. Take a session at any point at which what the client has sent so
  far has arrived. When the client's address changes and its datagrams now arrive from an address
  the server does not know, the first one moves the connection there, and frees the old address;
  all the messages are delivered, in order. The connection is kept, with its ciphers, sequence
  numbers and counters: what it becomes is what the old connection, with only the address replaced,
  makes of the datagrams. Other connections do not change, and the session goes on at the new
  address. The messages are at most \<open>k div 255\<close>, so that the client can number their packets.\<close>

theorem migration_follows_client:
  assumes at: "attached k pool a i c s" and lib: "comp_lib_ok clib" "newCompressorPool clib cfg = Inr pool"
    and env: "env_comp senv = clib"
    and move: "can_move b i s"
    and ms: "\<forall>m \<in> set ms. message_ok clib pool (length (c_channels c)) m" "255 * length ms \<le> k" "ms \<noteq> []"
  shows "\<exists>c' d ds s1 s'.
    sendMessages clib (client_sendFunc record_write) ms t (c, u) =
      ((c', u @ map ((@) (tokenPrefix c)) (d # ds)), replicate (length ms) None) \<and>
    processIncoming senv t' (from_client b rnd (tokenPrefix c @ d)) s = Inr s1 \<and>
    conns_get (s_conns s1) b = Some i \<and> conns_get (s_conns s1) a = None \<and>
    steps (processIncoming senv t') (map (\<lambda>d. from_client b rnd (tokenPrefix c @ d)) ds) s1 = Inr s' \<and>
    s_events s' = s_events s @ map (\<lambda>(data, ch). (i, OnMessage data ch)) ms \<and> s_conns s' = s_conns s1 \<and>
    receiveDatagrams clib t' (d # ds) ((s_heap s ! i)\<lparr>c_remoteAddr := b\<rparr>) =
      Inr (s_heap s' ! i, map (\<lambda>(data, ch). OnMessage data ch) ms) \<and>
    (\<forall>j. j \<noteq> i \<longrightarrow> s_heap s' ! j = s_heap s ! j) \<and> attached (k - 255 * length ms) pool b i c' s'"
  by (rule migration_steps [OF assms])

text \<open>C12. A datagram from an unknown address changes the address table only if it is authentic: it
  carries the token of a connection, and its first packet decrypts under that connection's key
  with a nonce that has not been used. Nothing else, in particular no replayed or forged
  datagram, moves a connection.\<close>

theorem migration_authenticated:
  assumes "conns_get (s_conns s) (ip_addr pkt) = None" "pending_get (s_pending s) (ip_addr pkt) = None"
    and "processIncoming env now pkt s = Inr s'" "s_conns s' \<noteq> s_conns s"
  shows "\<exists>i w rest k p. sc_ConnectionMigration (s_config s) \<and>
    tokens_get (s_tokens s) (take MigrationTokenSize (ip_data pkt)) = Some i \<and>
    (if c_batchEnabled (s_heap s ! i) then UnmarshalBatch (drop MigrationTokenSize (ip_data pkt)) = Inr (w # rest)
     else w = drop MigrationTokenSize (ip_data pkt)) \<and>
    Decrypt (c_recvCipher (s_heap s ! i)) w getDecryptBuffer = (k, Inr p)"
proof -
  have "s_conns (handleHandshake env now a d r s) = s_conns s" for a d r
    by (simp add: handleHandshake_def writeTo_def Let_def split: sum.split prod.split option.split)
  then obtain i where i: "sc_ConnectionMigration (s_config s)"
    "tokens_get (s_tokens s) (take MigrationTokenSize (ip_data pkt)) = Some i"
    and m: "tryMigration env now i (ip_addr pkt) (ip_data pkt) s = Inr s'"
    using assms by (auto simp: processIncoming_def split: option.splits if_splits)
  have "\<exists>w rest k p. (if c_batchEnabled (s_heap s ! i) then UnmarshalBatch (drop MigrationTokenSize (ip_data pkt)) = Inr (w # rest)
     else w = drop MigrationTokenSize (ip_data pkt)) \<and> Decrypt (c_recvCipher (s_heap s ! i)) w getDecryptBuffer = (k, Inr p)"
    using m assms(4) unfolding tryMigration_def Let_def
    by (auto split: if_splits sum.splits list.splits prod.splits)
  with i show ?thesis by blast
qed

text \<open>C14. Closing ends: after \<open>Close\<close>, ticks that are more than a retransmission timeout apart resend
  the DISCONNECT packet three times, and the fourth removes the connection and tells the handler,
  even if the peer never answers and every write fails.\<close>

theorem close_completes:
  assumes "c_state c = StateConnected" "spaced (RTO (c_rtt c)) now ts" "length ts = 4"
  shows "\<exists>c1 u1 c' u'. Close (Some (server_sendFunc net coalesce)) now (c, u) = ((c1, u1), None) \<and>
    c_state c1 = StateDisconnecting \<and>
    runTicks lib p (server_sendFunc net coalesce) ts (c1, u1) =
      Inr ((c', u'), [[], [], [], [RemoveConnection, OnDisconnect DisconnectGraceful]]) \<and>
    c_state c' = StateDisconnected"
  by (rule server_send.close_ends [OF assms])

text \<open>C18. A peer can crash the server. Once batching is negotiated, a batch of a DISCONNECT packet
  and a data packet on an ordered channel makes the server panic: the first packet releases the
  reorder buffers, the loop over the batch goes on, and the second one is written to a nil map.\<close>

theorem batch_after_disconnect_panics:
  assumes est: "established 2 clib pool a i cl s" and env: "env_comp senv = clib"
    and batch: "c_batchEnabled (s_heap s ! i)" and ch: "unat (ch :: byte) < length (cc_ChannelLayout (cl_config cl))"
      "Mode (cc_ChannelLayout (cl_config cl) ! unat ch) = ReliableOrdered"
  shows "\<exists>d. processIncoming senv t (from_client a rnd d) s = Inl PanicNilMap"
proof -
  obtain c sc where c: "cl_server cl = Some c" "s_heap s ! i = sc" "conns_get (s_conns s) a = Some i"
    "peers c sc" "room_for 2 c" "c_features c = c_features sc" "length (c_migrationToken c) = MigrationTokenSize"
    "map ch_mode (c_channels c) = map Mode (cc_ChannelLayout (cl_config cl))"
    using est unfolding established_def by blast
  have len: "unat ch < length (c_channels c)" and mode: "ch_mode (c_channels c ! unat ch) = ReliableOrdered"
    using ch c(8) map_eq_imp_length_eq [OF c(8)] by simp_all (metis nth_map)
  note pc = peers_channel [OF c(4) len]
  have sync: "in_sync (c_sendCipher c) (c_recvCipher sc)" "nonces_left (c_sendCipher c) (Suc (Suc 0))"
    using c(4,5) by (auto simp: peers_def room_for_def nonces_left_def)
  let ?q = "ch_sendSeq (c_channels c ! unat ch)"
  let ?h = "\<lparr>Flags = 0, Channel = ch, Sequence = ?q + 1, Ack = 0, AckField = 0\<rparr>"
  obtain k1 w1 r1 where e1: "\<And>dst. Decrypt (c_recvCipher sc) w1 dst = (r1, Inr disconnect_enc)" "in_sync k1 r1"
    "nonces_left k1 (Suc 0)" and l1: "length w1 \<le> length disconnect_enc + WireOverhead"
    by (rule in_sync_step [OF sync, of disconnect_enc]) blast
  obtain k2 w2 r2 where e2: "\<And>dst. Decrypt r1 w2 dst = (r2, Inr (header_enc ?h @ []))"
    and l2: "length w2 \<le> length (header_enc ?h @ []) + WireOverhead"
    by (rule in_sync_step [OF e1(2,3), of "header_enc ?h @ []"]) blast
  have room_q: "unat ?q < 2 ^ 32 - 1"
    using c(5) nth_mem [OF len] by (fastforce simp: room_for_def)
  have fr: "UnmarshalBatch (frame [w1, w2]) = Inr [w1, w2]"
    using UnmarshalBatch_frame [of "[w1, w2]" "[]"] l1 l2 length_header_enc(2) [of ?h] length_header_enc(2) [of controlHeader]
    by (simp add: framable_def disconnect_enc_def size_defs)
  let ?n = "length (frame [w1, w2])"
  let ?c1 = "(countReceived ?n sc)\<lparr>c_recvCipher := r1\<rparr>"
  let ?c2 = "teardown (applyAcks t 0 0 0 (?c1\<lparr>c_lastRecv := t\<rparr>))"
  have "c_channels sc \<noteq> []" using pc(1) by auto
  then have p1: "processPacket clib t w1 (countReceived ?n sc) = Inr (?c2, [RemoveConnection, OnDisconnect DisconnectGraceful])"
    using e1(1) handleDecrypted_disconnect [of ?c1 clib t] by (simp add: processPacket_def countReceived_def)
  have r1: "c_recvCipher ?c2 = r1"
    using applyAcks_frame [of t 0 0 0 "?c1\<lparr>c_lastRecv := t\<rparr>"] by (auto simp: teardown_def conn_releasePendingBuffers_def)
  obtain x where x: "c_channels ?c2 ! unat ch = releasePendingBuffers x" "expects ?q x" "ch_mode x = ReliableOrdered"
    "unat ch < length (c_channels ?c2)"
    using released_channel [OF pc(1,3)] pc(2) mode by (metis (no_types, lifting))
  have "processPacket clib t w2 ?c2 = Inl PanicNilMap"
    using e2 r1 released_panics [OF x room_q, of clib t "[]" r2] by (simp add: processPacket_def)
  then have "processConnData clib t (frame [w1, w2]) sc = Inl PanicNilMap"
    using batch c(2) fr p1 by (simp add: processConnData_def Let_def countReceived_def)
  moreover have "if migrates sc then length (tokenPrefix c) = MigrationTokenSize else tokenPrefix c = []"
    using length_tokenPrefix [OF _ c(7)] c(6) by (auto simp: migrates_def tokenPrefix_def)
  ultimately have "processIncoming senv t (from_client a rnd (tokenPrefix c @ frame [w1, w2])) s = Inl PanicNilMap"
    using c(2,3) env by (simp add: processIncoming_def from_client_def server_processConnData_def split: if_splits)
  then show ?thesis by blast
qed

section \<open>Witnesses\<close>

text \<open>A client and a server with batching and migration, otherwise with the default configuration.\<close>

definition demo_client :: "bytes list client" where
  "demo_client = NewClient (DefaultClientConfig\<lparr>cc_SendBatching := True, cc_ConnectionMigration := True\<rparr>) []"

definition demo_server :: "(AddrPort \<times> bytes) list server" where
  "demo_server = NewServer 4 (DefaultServerConfig\<lparr>sc_SendBatching := True, sc_ConnectionMigration := True\<rparr>) []"

definition demo_env :: "bytes list client_env" where
  "demo_env = \<lparr>cenv_crypto = toy_lib, cenv_comp = toy_comp, cenv_appVersion = 7, cenv_Write = record_write, cenv_remote = toy_addr\<rparr>"

definition demo_senv :: "(AddrPort \<times> bytes) list server_env" where
  "demo_senv = \<lparr>env_crypto = toy_lib, env_comp = toy_comp, env_appVersion = 7, env_net = record_net\<rparr>"

definition demo_pool :: compressorPool where
  "demo_pool = \<lparr>cp_config = emptyCompression, cp_compressor = None\<rparr>"

lemma demo_config:
  "cc_CipherPreference (cl_config demo_client) = CipherAES128GCM" "cc_ChannelLayout (cl_config demo_client) = DefaultChannelLayout"
  "\<not> cl_connected demo_client" "cl_net demo_client = []" "cl_events demo_client = []"
  "s_events demo_server = []" "s_heap demo_server = []" "s_net demo_server = []"
  by (simp_all add: demo_client_def NewClient_def clientDefaults_def DefaultClientConfig_def DefaultChannelLayout_def
      demo_server_def NewServer_def Let_def)

lemma demo_admits: "admits t toy_addr demo_server" "wf_conns (s_conns demo_server)"
proof -
  have "conns_get newConnectionTable a = (None :: nat option)" for a by (rule conns.get_empty)
  moreover have "conns_count (newConnectionTable :: nat connectionTable) = 0"
    by (simp add: conns_count_sum newConnectionTable_def)
  ultimately show "admits t toy_addr demo_server"
    by (simp add: admits_def demo_server_def NewServer_def Let_def serverDefaults_def DefaultServerConfig_def
        newTokenTable_def tokens_get_def newPendingTable_def pending_get_def allow_def touchBucket_def newHandshakeLimiter_def
        DefaultHandshakeBurst_def handshakeLimiterMaxEntries_def)
  show "wf_conns (s_conns demo_server)"
    using conns.wf_empty by (simp add: demo_server_def NewServer_def Let_def)
qed

lemma demo_compatible: "compatible toy_lib toy_comp demo_pool (connectMessage toy_lib v (cl_config demo_client) kp)
    (cl_config demo_client) (s_config demo_server)" "newCompressorPool toy_comp emptyCompression = Inr demo_pool"
proof -
  show pool: "newCompressorPool toy_comp emptyCompression = Inr demo_pool"
    by (simp add: newCompressorPool_def demo_pool_def emptyCompression_def)
  have conf: "cc_Compression (cl_config demo_client) = emptyCompression" "cc_ChannelLayout (cl_config demo_client) = DefaultChannelLayout"
    "sc_ChannelLayout (s_config demo_server) = DefaultChannelLayout" "sc_Compression (s_config demo_server) = emptyCompression"
    "cc_MaxReassemblyBytes (cl_config demo_client) = DefaultMaxReassemblyBytes"
    "sc_MaxReassemblyBytes (s_config demo_server) = DefaultMaxReassemblyBytes"
    by (simp_all add: demo_client_def NewClient_def clientDefaults_def DefaultClientConfig_def DefaultChannelLayout_def
        demo_server_def NewServer_def Let_def serverDefaults_def DefaultServerConfig_def or_default_def)
  have "snd (negotiateCompression toy_lib emptyCompression (connectMessage toy_lib v (cl_config demo_client) kp)) = emptyCompression"
    by (simp add: negotiateCompression_def)
  then show "compatible toy_lib toy_comp demo_pool (connectMessage toy_lib v (cl_config demo_client) kp)
      (cl_config demo_client) (s_config demo_server)"
    using pool by (simp add: compatible_def conf DefaultChannelLayout_def known_mode_def roomy_def clientSettings_def
        serverSettings_def DefaultMaxReassemblyBytes_def Let_def)
qed

definition demo_messages :: "(bytes \<times> byte) list" where
  "demo_messages = [([72, 105], 0), (replicate 3000 7, 1), ([], 0)]"

lemma demo_messages_ok:
  "\<forall>m \<in> set demo_messages. message_ok toy_comp demo_pool (length (cc_ChannelLayout (cl_config demo_client))) m"
  "255 * length demo_messages < 2 ^ 32" "demo_messages \<noteq> []" "255 * length demo_messages \<le> 2 ^ 32 - 1"
  by (simp_all add: demo_messages_def message_ok_def demo_config DefaultChannelLayout_def compressPayload_def demo_pool_def)

lemma demo_keys:
  "DeriveKeys toy_lib (replicate 32 5) (x25519_PublicKey toy_lib (replicate 32 6)) (replicate 32 7)
     (cc_CipherPreference (cl_config demo_client)) = Inr (fst toy_keys, snd toy_keys)"
  "NewCipherState toy_lib k (cc_CipherPreference (cl_config demo_client)) = Inr toy_state"
  using toy_NewCipherState by (simp_all only: demo_config toy_len toy_DeriveKeys) (simp add: suite_defs)

definition demo_rnd :: randomness where
  "demo_rnd = \<lparr>rnd_private = Inr (replicate 32 6), rnd_challenge = Inr (replicate 32 7), rnd_migration = Inr (replicate 8 9)\<rparr>"

lemma demo_envs:
  "cenv_crypto demo_env = toy_lib" "cenv_comp demo_env = toy_comp" "cenv_Write demo_env = record_write"
  "env_crypto demo_senv = toy_lib" "env_comp demo_senv = toy_comp" "env_net demo_senv = record_net"
  by (simp_all add: demo_env_def demo_senv_def)

lemma demo_lengths:
  "length (x25519_PublicKey toy_lib (replicate 32 n)) = 32" "\<forall>d. length (sha256_Sum256 toy_lib d) = 32"
  "length (replicate 32 (7 :: byte)) = 32" "length (replicate 8 (9 :: byte)) = 8"
  by (simp_all add: toy_len)

theorem session_delivers_witness:
  "\<exists>cl1 req s1 chal cl2 resp s2 cl3 c c' ds s3.
    connectStart demo_env (Inr (replicate 32 5)) demo_client = (cl1, None) \<and> cl_net cl1 = [req] \<and>
    processIncoming demo_senv 1 (from_client toy_addr demo_rnd req) demo_server = Inr s1 \<and>
    s_net s1 = [(toy_addr, chal)] \<and>
    processHandshakePacket demo_env 2 chal cl1 = cl2 \<and> cl_net cl2 = cl_net cl1 @ [resp] \<and>
    processIncoming demo_senv 3 (from_client toy_addr demo_rnd resp) s1 = Inr s2 \<and>
    connectFinish False cl2 = (cl3, None) \<and> cl_events cl3 = [OnConnect] \<and> cl_server cl3 = Some c \<and>
    sendMessages toy_comp (client_sendFunc record_write) demo_messages 4 (c, cl_net cl3) =
      ((c', cl_net cl3 @ ds), replicate (length demo_messages) None) \<and>
    steps (processIncoming demo_senv 5) (map (from_client toy_addr demo_rnd) ds) s2 = Inr s3 \<and>
    s_events s3 = (0, OnConnect) # map (\<lambda>(data, ch). (0, OnMessage data ch)) demo_messages"
  using session_delivers [OF toy_ecdh toy_aeads demo_lengths(2) toy_comp_ok demo_lengths(1) [of 5] demo_lengths(1) [of 6] demo_lengths(3,4)
      demo_keys(1) demo_keys(2) demo_keys(2) demo_config(3) demo_envs(1-3) demo_admits(1) demo_envs(4-6) demo_admits(2)
      demo_compatible(1) demo_messages_ok(1,2), of 1 2 3 demo_rnd 4 5, folded demo_rnd_def]
  by (simp only: demo_config append_Nil list.size(3))

text \<open>The address the client has after it changed networks.\<close>

definition demo_addr :: AddrPort where "demo_addr = toy_addr\<lparr>ap_port := 9\<rparr>"

lemma demo_moves:
  "demo_addr \<noteq> toy_addr \<and> conns_get (s_conns demo_server) demo_addr = None \<and> pending_get (s_pending demo_server) demo_addr = None \<and>
   wf_map (s_tokens demo_server) \<and> sc_ConnectionMigration (s_config demo_server) \<and>
   cc_ConnectionMigration (cl_config demo_client) \<and> s_features demo_server AND FeatureConnectionMigration \<noteq> 0"
proof -
  have "conns_get newConnectionTable demo_addr = (None :: nat option)" by (rule conns.get_empty)
  moreover have "wf_map (newTokenTable :: nat tokenTable)" by (rule tokens.wf_empty)
  ultimately show ?thesis
    by (simp add: demo_addr_def toy_addr_def demo_client_def NewClient_def clientDefaults_def DefaultClientConfig_def
        demo_server_def NewServer_def Let_def serverDefaults_def DefaultServerConfig_def newPendingTable_def pending_get_def
        featuresFromConfig_bits del: word_neq_0_conv)
qed

lemma demo_established:
  obtains cl s where "established (2 ^ 32 - 1) toy_comp demo_pool toy_addr 0 cl s" "cl_events cl = [OnConnect]"
    "cl_config cl = cl_config demo_client" "c_batchEnabled (s_heap s ! 0)" "can_move demo_addr 0 s" "wf_server toy_comp s"
    "s_events s = [(0, OnConnect)]"
proof -
  have wf0: "wf_server (env_comp demo_senv) demo_server"
    unfolding demo_server_def by (rule NewServer_wf) (simp add: DefaultServerConfig_def pool_ok_empty)
  have wf: "wf_server toy_comp s2" if "processIncoming demo_senv t p demo_server = Inr s1" "processIncoming demo_senv t' p' s1 = Inr s2"
    for t p s1 t' p' s2
    using processIncoming_wf [OF processIncoming_wf [OF wf0 that(1)] that(2)] unfolding demo_envs .
  have b: "batching (featuresFromConfig (cc_SendBatching (cl_config demo_client)) (cc_ConnectionMigration (cl_config demo_client)) AND
      s_features demo_server)"
    by (simp add: demo_client_def NewClient_def clientDefaults_def DefaultClientConfig_def demo_server_def NewServer_def Let_def
        serverDefaults_def DefaultServerConfig_def featuresFromConfig_def batching_def FeatureSendBatching_def
        FeatureConnectionMigration_def)
  show thesis
    using connects [OF toy_ecdh toy_aeads demo_lengths(2) demo_lengths(1) [of 5] demo_lengths(1) [of 6] demo_lengths(3,4)
      demo_keys(1) demo_keys(2) demo_keys(2) demo_config(3) demo_envs(1-3) demo_admits(1) demo_envs(4-6) demo_admits(2)
      demo_compatible(1), where ?t2.0 = 2 and ?t3.0 = 3 and rnd = demo_rnd and ?t1.0 = 1] that b demo_moves wf
    unfolding demo_config append_Nil list.size(3) by blast
qed

theorem server_messages_reach_client_witness:
  "\<exists>i cl (s :: (AddrPort \<times> bytes) list server) sc' u' ds cl'. established (2 ^ 32 - 1) toy_comp demo_pool toy_addr i cl s \<and>
    sendMessages toy_comp (server_sendFunc record_net True) demo_messages 4 (s_heap s ! i, s_net s) =
      ((sc', u'), replicate (length demo_messages) None) \<and>
    steps (client_processIncoming demo_env 5) ds cl = Inr cl' \<and>
    cl_events cl' = OnConnect # map (\<lambda>(data, ch). OnMessage data ch) demo_messages"
proof -
  obtain cl s where est: "established (2 ^ 32 - 1) toy_comp demo_pool toy_addr 0 cl s" "cl_events cl = [OnConnect]" "cl_config cl = cl_config demo_client"
    by (rule demo_established)
  have ms: "\<forall>m \<in> set demo_messages. message_ok toy_comp demo_pool (length (cc_ChannelLayout (cl_config cl))) m"
    unfolding est(3) by (rule demo_messages_ok)
  obtain sc' u' ds cl' where
    "sendMessages toy_comp (server_sendFunc record_net True) demo_messages 4 (s_heap s ! 0, s_net s) =
      ((sc', u'), replicate (length demo_messages) None)"
    "steps (client_processIncoming demo_env 5) ds cl = Inr cl'"
    "cl_events cl' = cl_events cl @ map (\<lambda>(data, ch). OnMessage data ch) demo_messages"
    using server_messages_reach_client [OF est(1) toy_comp_ok demo_compatible(2) demo_envs(2) ms demo_messages_ok(4), of True 4 5] by blast
  with est(1) show ?thesis unfolding est(2) append_Cons append_Nil by blast
qed

text \<open>The session of the demonstration after the client has sent its messages: its sequence numbers
  are no longer those of a new connection.\<close>

lemma demo_attached:
  obtains c and s :: "(AddrPort \<times> bytes) list server" where "attached (2 ^ 32 - 766) demo_pool toy_addr 0 c s" "can_move demo_addr 0 s"
    "\<forall>m \<in> set demo_messages. message_ok toy_comp demo_pool (length (c_channels c)) m"
    "s_events s = (0, OnConnect) # map (\<lambda>(data, ch). (0, OnMessage data ch)) demo_messages"
proof -
  obtain cl s where est: "established (2 ^ 32 - 1) toy_comp demo_pool toy_addr 0 cl s" "cl_config cl = cl_config demo_client" "can_move demo_addr 0 s"
    "s_events s = [(0, OnConnect)]"
    by (rule demo_established)
  obtain c where c: "attached (2 ^ 32 - 1) demo_pool toy_addr 0 c s" "length (c_channels c) = length (cc_ChannelLayout (cl_config demo_client))"
    using established_attached [OF est(1)] unfolding est(2) by blast
  have ms: "\<forall>m \<in> set demo_messages. message_ok toy_comp demo_pool (length (c_channels c)) m"
    unfolding c(2) by (rule demo_messages_ok)
  obtain c' sc' and s' :: "(AddrPort \<times> bytes) list server" where s': "s' = s\<lparr>s_heap := (s_heap s)[0 := sc'], s_events := s_events s @ map (\<lambda>(data, ch). (0, OnMessage data ch)) demo_messages\<rparr>"
    "attached (2 ^ 32 - 1 - 255 * length demo_messages) demo_pool toy_addr 0 c' s'" "keeps (s_heap s ! 0) sc'"
    "length (c_channels c') = length (c_channels c)"
    by (rule client_sends [OF c(1) toy_comp_ok demo_compatible(2) demo_envs(5) ms demo_messages_ok(4), of 4 "[]" 5 demo_rnd])
  have "0 < length (s_heap s)" using c(1) by (simp add: attached_def)
  then have "can_move demo_addr 0 s'" using est(3) s'(3) by (simp add: can_move_def s'(1) keeps_def migrates_def)
  then show thesis using that [of c' s'] s'(2,4) ms est(4) by (simp add: demo_messages_def s'(1))
qed

theorem migration_follows_client_witness:
  "\<exists>c s c' d ds s1 s'. s_events s = (0, OnConnect) # map (\<lambda>(data, ch). (0, OnMessage data ch)) demo_messages \<and>
    sendMessages toy_comp (client_sendFunc record_write) demo_messages 6 (c, []) =
      ((c', map ((@) (tokenPrefix c)) (d # ds)), replicate (length demo_messages) None) \<and>
    processIncoming demo_senv 7 (from_client demo_addr demo_rnd (tokenPrefix c @ d)) s = Inr s1 \<and>
    conns_get (s_conns s1) demo_addr = Some 0 \<and> conns_get (s_conns s1) toy_addr = None \<and>
    steps (processIncoming demo_senv 7) (map (\<lambda>d. from_client demo_addr demo_rnd (tokenPrefix c @ d)) ds) s1 = Inr s' \<and>
    s_events s' = (0, OnConnect) # map (\<lambda>(data, ch). (0, OnMessage data ch)) (demo_messages @ demo_messages)"
proof -
  obtain c and s :: "(AddrPort \<times> bytes) list server" where at: "attached (2 ^ 32 - 766) demo_pool toy_addr 0 c s" "can_move demo_addr 0 s"
    and ms: "\<forall>m \<in> set demo_messages. message_ok toy_comp demo_pool (length (c_channels c)) m"
    and ev: "s_events s = (0, OnConnect) # map (\<lambda>(data, ch). (0, OnMessage data ch)) demo_messages"
    by (rule demo_attached)
  have len: "255 * length demo_messages \<le> 2 ^ 32 - 766" by (simp add: demo_messages_def)
  obtain c' d ds s1 s' where r:
    "sendMessages toy_comp (client_sendFunc record_write) demo_messages 6 (c, []) =
      ((c', [] @ map ((@) (tokenPrefix c)) (d # ds)), replicate (length demo_messages) None)"
    "processIncoming demo_senv 7 (from_client demo_addr demo_rnd (tokenPrefix c @ d)) s = Inr s1"
    "conns_get (s_conns s1) demo_addr = Some 0" "conns_get (s_conns s1) toy_addr = None"
    "steps (processIncoming demo_senv 7) (map (\<lambda>d. from_client demo_addr demo_rnd (tokenPrefix c @ d)) ds) s1 = Inr s'"
    "s_events s' = s_events s @ map (\<lambda>(data, ch). (0, OnMessage data ch)) demo_messages"
    using migration_follows_client [OF at(1) toy_comp_ok demo_compatible(2) demo_envs(5) at(2) ms len demo_messages_ok(3), of 6 "[]" 7 demo_rnd]
    by (elim exE conjE) (rule that)
  show ?thesis
    by (rule exI [of _ c], rule exI [of _ s], rule exI [of _ c'], rule exI [of _ d], rule exI [of _ ds], rule exI [of _ s1], rule exI [of _ s'])
      (use r ev in simp)
qed

theorem migration_authenticated_witness:
  "\<exists>(s :: (AddrPort \<times> bytes) list server) d s' i w k p. processIncoming demo_senv 5 (from_client demo_addr demo_rnd d) s = Inr s' \<and>
    s_conns s' \<noteq> s_conns s \<and> tokens_get (s_tokens s) (take MigrationTokenSize d) = Some i \<and>
    Decrypt (c_recvCipher (s_heap s ! i)) w getDecryptBuffer = (k, Inr p)"
proof -
  obtain cl s where est: "established (2 ^ 32 - 1) toy_comp demo_pool toy_addr 0 cl s" "cl_config cl = cl_config demo_client" "can_move demo_addr 0 s"
    by (rule demo_established)
  obtain c where c: "attached (2 ^ 32 - 1) demo_pool toy_addr 0 c s" "length (c_channels c) = length (cc_ChannelLayout (cl_config demo_client))"
    using established_attached [OF est(1)] unfolding est(2) by blast
  have ms: "\<forall>m \<in> set demo_messages. message_ok toy_comp demo_pool (length (c_channels c)) m"
    unfolding c(2) by (rule demo_messages_ok)
  obtain d s1 where d: "processIncoming demo_senv 5 (from_client demo_addr demo_rnd d) s = Inr s1"
    "conns_get (s_conns s1) demo_addr = Some 0"
    using migration_steps [OF c(1) toy_comp_ok demo_compatible(2) demo_envs(5) est(3) ms demo_messages_ok(4,3), of 4 "[]" 5 demo_rnd] by blast
  have n: "conns_get (s_conns s) demo_addr = None" "pending_get (s_pending s) demo_addr = None" using est(3) by (simp_all add: can_move_def)
  then have ch: "s_conns s1 \<noteq> s_conns s" using d(2) by auto
  have fc: "ip_addr (from_client demo_addr demo_rnd d) = demo_addr" "ip_data (from_client demo_addr demo_rnd d) = d"
    by (simp_all add: from_client_def)
  from migration_authenticated [of s "from_client demo_addr demo_rnd d" demo_senv 5 s1, unfolded fc, OF n d(1) ch] d(1) ch
  show ?thesis by blast
qed

definition demo_conn :: connection where
  "demo_conn = newConnection toy_comp 0 \<lparr>in_addr = toy_addr, in_sendCipher = toy_state, in_recvCipher = toy_state,
     in_suite = CipherAES128GCM, in_layout = DefaultChannelLayout, in_compression = emptyCompression,
     in_congestionMode = Conservative, in_initialCwnd = 4, in_features = 0, in_token = replicate 8 0,
     in_settings = clientSettings DefaultClientConfig\<rparr>"

lemma demo_conn: "live demo_conn" "c_state demo_conn = StateConnected" "c_rtt demo_conn = rtt_New"
  using newConnection_live [of toy_comp] pool_ok_empty by (simp_all add: demo_conn_def) (simp add: newConnection_def Let_def)

theorem close_completes_witness:
  "\<exists>c1 u1 c' u'. Close (Some (server_sendFunc record_net True)) 0 (demo_conn, []) = ((c1, u1), None) \<and>
    runTicks toy_comp (serverParams DefaultServerConfig) (server_sendFunc record_net True)
      [10 * second, 20 * second, 30 * second, 40 * second] (c1, u1) =
      Inr ((c', u'), [[], [], [], [RemoveConnection, OnDisconnect DisconnectGraceful]])"
proof -
  have "spaced (RTO (c_rtt demo_conn)) 0 [10 * second, 20 * second, 30 * second, 40 * second]"
    by (simp add: demo_conn RTO_def rtt_New_def rtoMin_def second_def trunc_real_def)
  from close_completes [OF demo_conn(2) this, of record_net True "[]" toy_comp "serverParams DefaultServerConfig"]
  show ?thesis by (simp del: runTicks.simps) blast
qed

theorem batch_after_disconnect_panics_witness:
  "\<exists>s d. conns_get (s_conns s) toy_addr = Some 0 \<and> processIncoming demo_senv 4 (from_client toy_addr demo_rnd d) s = Inl PanicNilMap"
proof -
  obtain cl s where est: "established (2 ^ 32 - 1) toy_comp demo_pool toy_addr 0 cl s" "cl_config cl = cl_config demo_client" "c_batchEnabled (s_heap s ! 0)"
    by (rule demo_established)
  have ch: "unat (0 :: byte) < length (cc_ChannelLayout (cl_config cl))"
    "Mode (cc_ChannelLayout (cl_config cl) ! unat (0 :: byte)) = ReliableOrdered"
    unfolding est(2) by (simp_all add: demo_config DefaultChannelLayout_def)
  have "established 2 toy_comp demo_pool toy_addr 0 cl s" by (rule established_mono [OF est(1)]) simp
  from batch_after_disconnect_panics [OF this demo_envs(5) est(3) ch, of 4 demo_rnd] est(1) show ?thesis
    unfolding established_def by blast
qed

end
