(* ===== verification/Loops.thy ===== *)
theory Loops
  imports Session "HOL-Library.Multiset"
begin

text \<open>
  The goroutines of a server: the read loops, the queue between them and the tick, and the write
  loop of coalesced output (\<open>server.go\<close>: \<open>readLoop\<close>, \<open>tickLoop\<close>, \<open>tick\<close>, \<open>writeLoop\<close>, \<open>drainWriteCh\<close>).

  A read loop receives a datagram into a buffer of the pool and then sends it to the channel
  \<open>incoming\<close>; a tick first takes packets from the channel until it is empty. The model interleaves
  these steps in any order. A step of the tick that panics has no successor.
\<close>

section \<open>Definitions\<close>

text \<open>The size of a read buffer: what is longer is cut off by the socket.\<close>

definition readBufferSize :: "int \<Rightarrow> nat" where
  "readBufferSize mtu = nat (mtu + int WireOverhead + int MigrationTokenSize + int BatchHeaderSize)"

definition incomingCapacity :: nat where "incomingCapacity = 4096"

text \<open>A read loop, between two calls of \<open>ReadFromUDPAddrPort\<close>: the number of errors in a row, and the
  packet it is about to send to the channel.\<close>

record reader =
  rd_consecutiveErrors :: nat
  rd_packet :: "incomingPacket option"

datatype read_result = ReadFailed | ReadOK AddrPort bytes randomness

fun readPacket :: "nat \<Rightarrow> read_result \<Rightarrow> reader \<Rightarrow> reader" where
  "readPacket n ReadFailed r = r\<lparr>rd_consecutiveErrors := rd_consecutiveErrors r + 1\<rparr>"
| "readPacket n (ReadOK addr data rnd) r =
     r\<lparr>rd_consecutiveErrors := 0,
       rd_packet := Some \<lparr>ip_addr = addr, ip_data = take n data, ip_random = rnd\<rparr>\<rparr>"

text \<open>How long it sleeps after an error, in nanoseconds.\<close>

definition backoff :: "reader \<Rightarrow> duration" where
  "backoff r = push_bit (min (rd_consecutiveErrors r) 7) 1 * 1000000"

text \<open>The process: \<open>p_readSize\<close> is the size of the buffers of \<open>readPool\<close>, \<open>p_tick\<close> is the time of the tick that is running, if any.\<close>

record 'u process =
  p_server :: "'u server"
  p_readSize :: nat
  p_incoming :: "incomingPacket list"
  p_readers :: "reader list"
  p_tick :: "time option"

text \<open>\<open>Start\<close>: one read loop, or as many as configured.\<close>

definition readerCount :: "ServerConfig \<Rightarrow> nat" where
  "readerCount config =
     (if sc_CoalesceIO config \<and> 1 < sc_CoalesceReaders config then nat (sc_CoalesceReaders config) else 1)"

definition startProcess :: "'u server \<Rightarrow> 'u process" where
  "startProcess s =
     \<lparr>p_server = fst (Start s), p_readSize = readBufferSize (sc_MTU (s_config s)), p_incoming = [],
      p_readers = replicate (readerCount (s_config s)) \<lparr>rd_consecutiveErrors = 0, rd_packet = None\<rparr>, p_tick = None\<rparr>"

datatype loop_event =
    Received nat read_result       \<comment> \<open>a read loop has read from the socket\<close>
  | Queued nat incomingPacket      \<comment> \<open>a read loop has sent its packet to the channel\<close>
  | TickStarted time
  | Processed incomingPacket       \<comment> \<open>the tick has processed a packet of the channel\<close>
  | TickDone                       \<comment> \<open>the channel was empty; the rest of the tick\<close>

inductive loop_step :: "'u server_env \<Rightarrow> 'u process \<Rightarrow> loop_event \<Rightarrow> 'u process \<Rightarrow> bool" for env where
  received: "i < length (p_readers p) \<Longrightarrow> rd_packet (p_readers p ! i) = None \<Longrightarrow>
    loop_step env p (Received i r)
      (p\<lparr>p_readers := (p_readers p)[i := readPacket (p_readSize p) r (p_readers p ! i)]\<rparr>)"
| queued: "i < length (p_readers p) \<Longrightarrow> rd_packet (p_readers p ! i) = Some pkt \<Longrightarrow>
    length (p_incoming p) < incomingCapacity \<Longrightarrow>
    loop_step env p (Queued i pkt)
      (p\<lparr>p_incoming := p_incoming p @ [pkt], p_readers := (p_readers p)[i := (p_readers p ! i)\<lparr>rd_packet := None\<rparr>]\<rparr>)"
| tick_started: "p_tick p = None \<Longrightarrow> loop_step env p (TickStarted now) (p\<lparr>p_tick := Some now\<rparr>)"
| processed: "p_tick p = Some now \<Longrightarrow> p_incoming p = pkt # q \<Longrightarrow> processIncoming env now pkt (p_server p) = Inr s \<Longrightarrow>
    loop_step env p (Processed pkt) (p\<lparr>p_server := s, p_incoming := q\<rparr>)"
| tick_done: "p_tick p = Some now \<Longrightarrow> p_incoming p = [] \<Longrightarrow> tick env now [] (p_server p) = Inr s \<Longrightarrow>
    loop_step env p TickDone (p\<lparr>p_server := s, p_tick := None\<rparr>)"

inductive loop_run :: "'u server_env \<Rightarrow> 'u process \<Rightarrow> loop_event list \<Rightarrow> 'u process \<Rightarrow> bool" for env where
  idle: "loop_run env p [] p"
| more: "loop_run env p es p' \<Longrightarrow> loop_step env p' e p'' \<Longrightarrow> loop_run env p (es @ [e]) p''"

inductive_cases loop_stepE: "loop_step env p e p'"

subsection \<open>Coalesced writes\<close>

text \<open>The channel to the write loop, and the socket it writes to.\<close>

record 'u writer =
  w_queue :: "(AddrPort \<times> bytes) list"
  w_socket :: 'u

definition writeCapacity :: nat where "writeCapacity = 4096"

definition writeOne :: "('u \<Rightarrow> bytes \<Rightarrow> AddrPort \<Rightarrow> 'u \<times> bool) \<Rightarrow> 'u writer \<Rightarrow> 'u writer" where
  "writeOne WriteTo w =
     (case w_queue w of
        [] \<Rightarrow> w
      | (addr, data) # q \<Rightarrow> w\<lparr>w_queue := q, w_socket := fst (WriteTo (w_socket w) data addr)\<rparr>)"

function drainWriteCh :: "('u \<Rightarrow> bytes \<Rightarrow> AddrPort \<Rightarrow> 'u \<times> bool) \<Rightarrow> 'u writer \<Rightarrow> 'u writer" where
  "drainWriteCh WriteTo w = (if w_queue w = [] then w else drainWriteCh WriteTo (writeOne WriteTo w))"
  by pat_completeness auto
termination
  by (relation "measure (\<lambda>(_, w). length (w_queue w))") (auto simp: writeOne_def split: list.split)

declare drainWriteCh.simps [simp del]

text \<open>The send to the channel: when it is full the sender waits until the write loop has taken a
  request. While the server runs the send succeeds. The write loop may also take requests at other
  times: that is a step of its own (\<open>OpWrite\<close> in \<open>PooledServer\<close>). The branch for a closing server is
  in \<open>Shutdown\<close>.\<close>

definition sendWrite :: "('u \<Rightarrow> bytes \<Rightarrow> AddrPort \<Rightarrow> 'u \<times> bool) \<Rightarrow> 'u writer \<Rightarrow> bytes \<Rightarrow> AddrPort \<Rightarrow> 'u writer \<times> bool" where
  "sendWrite WriteTo w data addr =
     (let w = (if length (w_queue w) < writeCapacity then w else writeOne WriteTo w)
      in (w\<lparr>w_queue := w_queue w @ [(addr, data)]\<rparr>, True))"

definition coalesced_net :: "('u \<Rightarrow> bytes \<Rightarrow> AddrPort \<Rightarrow> 'u \<times> bool) \<Rightarrow> 'u writer server_net" where
  "coalesced_net WriteTo =
     \<lparr>udp_WriteTo = (\<lambda>w data addr. let (u, ok) = WriteTo (w_socket w) data addr in (w\<lparr>w_socket := u\<rparr>, ok)),
      writeCh_send = sendWrite WriteTo\<rparr>"

subsection \<open>The client's read loop\<close>

definition clientIncomingCapacity :: nat where "clientIncomingCapacity = 1024"

text \<open>What the client's read loop does with a datagram: before the connection is up it processes it
  itself, afterwards it queues it for the tick. The result is None while the loop waits: the queue
  is full, or the socket is closed.\<close>

definition client_receive ::
  "'u client_env \<Rightarrow> time \<Rightarrow> bytes \<Rightarrow> 'u client \<times> bytes list \<Rightarrow> ('u client \<times> bytes list) option" where
  "client_receive env now data p =
     (case p of (cl, incoming) \<Rightarrow>
        let data = take (readBufferSize (cc_MTU (cl_config cl))) data
        in if cl_closed cl then None
           else if \<not> cl_connected cl then Some (processHandshakePacket env now data cl, incoming)
           else if length incoming < clientIncomingCapacity then Some (cl, incoming @ [data])
           else None)"

section \<open>Every interleaving is a sequence of ticks\<close>

fun queued_packets :: "loop_event list \<Rightarrow> incomingPacket list" where
  "queued_packets [] = []"
| "queued_packets (Queued i pkt # es) = pkt # queued_packets es"
| "queued_packets (_ # es) = queued_packets es"

lemma queued_packets_append [simp]: "queued_packets (es @ fs) = queued_packets es @ queued_packets fs"
  by (induction es rule: queued_packets.induct) auto

text \<open>The packets that were read, and those the read loops still hold.\<close>

fun received_packets :: "nat \<Rightarrow> loop_event list \<Rightarrow> incomingPacket list" where
  "received_packets n [] = []"
| "received_packets n (Received i (ReadOK addr data rnd) # es) =
     \<lparr>ip_addr = addr, ip_data = take n data, ip_random = rnd\<rparr> # received_packets n es"
| "received_packets n (_ # es) = received_packets n es"

lemma received_packets_append [simp]: "received_packets n (es @ fs) = received_packets n es @ received_packets n fs"
  by (induction n es rule: received_packets.induct) auto

definition held :: "reader \<Rightarrow> incomingPacket multiset" where
  "held r = (case rd_packet r of None \<Rightarrow> {#} | Some pkt \<Rightarrow> {#pkt#})"

definition in_hand :: "'u process \<Rightarrow> incomingPacket multiset" where
  "in_hand p = (\<Sum>r \<leftarrow> p_readers p. held r)"

lemma sum_list_update_mset:
  fixes f :: "'a \<Rightarrow> 'b multiset"
  assumes "i < length xs"
  shows "(\<Sum>x \<leftarrow> xs[i := y]. f x) + f (xs ! i) = (\<Sum>x \<leftarrow> xs. f x) + f y"
  using assms by (induction xs arbitrary: i) (auto split: nat.split simp: ac_simps)

lemma sum_list_empties: "sum_list (replicate n {#}) = {#}"
  by (induction n) auto

lemma in_hand_step:
  assumes "loop_step env p e p'"
  shows "in_hand p' + mset (queued_packets [e]) = in_hand p + mset (received_packets (p_readSize p) [e])"
    "p_readSize p' = p_readSize p" "length (p_incoming p) \<le> incomingCapacity \<Longrightarrow> length (p_incoming p') \<le> incomingCapacity"
proof -
  show "in_hand p' + mset (queued_packets [e]) = in_hand p + mset (received_packets (p_readSize p) [e])"
    using assms
  proof cases
    case (received i r)
    then show ?thesis
      using sum_list_update_mset [OF received(3), of held "readPacket (p_readSize p) r (p_readers p ! i)"]
      by (cases r) (simp_all add: in_hand_def held_def)
  next
    case (queued i pkt)
    then show ?thesis
      using sum_list_update_mset [OF queued(3), of held "(p_readers p ! i)\<lparr>rd_packet := None\<rparr>"]
      by (simp add: in_hand_def held_def)
  qed (simp_all add: in_hand_def)
qed (use assms in \<open>cases; simp\<close>)+

lemma loop_run_in_hand:
  assumes "loop_run env p es p'" "length (p_incoming p) \<le> incomingCapacity"
  shows "in_hand p' + mset (queued_packets es) = in_hand p + mset (received_packets (p_readSize p) es) \<and>
    p_readSize p' = p_readSize p \<and> length (p_incoming p') \<le> incomingCapacity"
  using assms
proof (induction rule: loop_run.induct)
  case (more p es p' e p'')
  note st = in_hand_step [OF more.hyps(2)]
  have "in_hand p'' + mset (queued_packets [e]) + mset (queued_packets es) =
      in_hand p + mset (received_packets (p_readSize p) es) + mset (received_packets (p_readSize p) [e])"
    using st(1) more.IH [OF more.prems] by (metis (no_types, lifting) union_assoc union_commute)
  with st(2,3) more.IH [OF more.prems] show ?case by (simp add: ac_simps)
qed simp

lemma steps_append: "steps f (xs @ ys) s = (case steps f xs s of Inl e \<Rightarrow> Inl e | Inr s \<Rightarrow> steps f ys s)"
  by (induction xs arbitrary: s) (auto split: sum.split)

lemma tick_split:
  assumes "steps (processIncoming env now) pkts s = Inr s1"
  shows "tick env now pkts s = tick env now [] s1"
  using assms by (simp add: tick_def)

text \<open>What a run has done so far: the finished ticks, and the packets the running one has taken.\<close>

definition follows :: "'u server_env \<Rightarrow> 'u server \<Rightarrow> incomingPacket list \<Rightarrow> 'u process \<Rightarrow> bool" where
  "follows env s0 qs p \<longleftrightarrow> (\<exists>rounds taken s. server_run env rounds s0 = Inr s \<and>
     (case p_tick p of None \<Rightarrow> taken = [] \<and> p_server p = s
      | Some now \<Rightarrow> steps (processIncoming env now) taken s = Inr (p_server p)) \<and>
     concat (map snd rounds) @ taken @ p_incoming p = qs)"

lemma follows_step:
  assumes "follows env s0 qs p" "loop_step env p e p'"
  shows "follows env s0 (qs @ queued_packets [e]) p'"
proof -
  obtain rounds taken s where h: "server_run env rounds s0 = Inr s" "concat (map snd rounds) @ taken @ p_incoming p = qs"
    and c: "case p_tick p of None \<Rightarrow> taken = [] \<and> p_server p = s
      | Some now \<Rightarrow> steps (processIncoming env now) taken s = Inr (p_server p)"
    using assms(1) by (auto simp: follows_def)
  from assms(2) show ?thesis
  proof cases
    case (received i r)
    then show ?thesis using h c unfolding follows_def by (intro exI [of _ rounds] exI [of _ taken] exI [of _ s]) (simp split: option.splits)
  next
    case (queued i pkt)
    then show ?thesis using h c unfolding follows_def by (intro exI [of _ rounds] exI [of _ taken] exI [of _ s]) (simp split: option.splits)
  next
    case (tick_started now)
    then show ?thesis using h c unfolding follows_def by (intro exI [of _ rounds] exI [of _ taken] exI [of _ s]) (simp split: option.splits)
  next
    case (processed now pkt q s')
    then show ?thesis
      using h c unfolding follows_def
      by (intro exI [of _ rounds] exI [of _ "taken @ [pkt]"] exI [of _ s]) (simp add: steps_append)
  next
    case (tick_done now s')
    then have "steps (processIncoming env now) taken s = Inr (p_server p)" using c by simp
    then have "tick env now taken s = Inr s'" using tick_done by (simp only: tick_split)
    then have "server_run env (rounds @ [(now, taken)]) s0 = Inr s'" using h(1) by (simp add: server_run_def steps_append)
    then show ?thesis using h(2) tick_done unfolding follows_def
      by (intro exI [of _ "rounds @ [(now, taken)]"] exI [of _ "[]"] exI [of _ s']) simp
  qed
qed

lemma loop_run_follows: "loop_run env p es p' \<Longrightarrow> follows env s0 qs p \<Longrightarrow> follows env s0 (qs @ queued_packets es) p'"
  by (induction rule: loop_run.induct) (use follows_step in fastforce)+

section \<open>The state of the server in a run\<close>

text \<open>The invariant of the server holds in every state of the process, in the middle of a tick too.\<close>

lemma loop_step_wf:
  fixes p :: "'u process"
  assumes "loop_step env p e p'" "wf_server (env_comp env) (p_server p)"
  shows "wf_server (env_comp env) (p_server p') \<and> s_features (p_server p') = s_features (p_server p)"
  using assms(1)
proof cases
  case (processed now pkt q s)
  then show ?thesis using processIncoming_wf [OF assms(2) processed(5)] processIncoming_features [OF processed(5)] by simp
next
  case (tick_done now s)
  then show ?thesis using tick_wf(1) [OF assms(2) tick_done(5)] by simp
qed (use assms(2) in simp_all)

lemma loop_run_wf:
  fixes p :: "'u process"
  assumes "loop_run env p es p'" "wf_server (env_comp env) (p_server p)"
  shows "wf_server (env_comp env) (p_server p') \<and> s_features (p_server p') = s_features (p_server p)"
  using assms by (induction rule: loop_run.induct) (use loop_step_wf in fastforce)+

lemma loop_run_Cons:
  assumes "loop_run env p' es p''" "loop_step env p e p'"
  shows "loop_run env p (e # es) p''"
  using assms
proof (induction rule: loop_run.induct)
  case (idle p')
  then show ?case using loop_run.more [OF loop_run.idle] by fastforce
next
  case (more p' es p1 e' p2)
  then show ?case using loop_run.more [of env p "e # es" p1 e' p2] by simp
qed

text \<open>While the read loops are silent, the tick empties the queue and ends.\<close>

lemma tick_ends:
  fixes p :: "'u process"
  assumes "wf_server (env_comp env) (p_server p)" "\<not> batching (s_features (p_server p))" "p_tick p = Some now"
  shows "\<exists>p'. loop_run env p (map Processed (p_incoming p) @ [TickDone]) p' \<and> p_tick p' = None \<and> p_incoming p' = []"
  using assms
proof (induction "p_incoming p" arbitrary: p)
  case Nil
  obtain s where "tick env now [] (p_server p) = Inr s" using tick_wf(2) [OF Nil(2,3)] by blast
  then have "loop_step env p TickDone (p\<lparr>p_server := s, p_tick := None\<rparr>)"
    using Nil by (intro loop_step.tick_done) simp_all
  then show ?case using loop_run.more [OF loop_run.idle] Nil(1) by fastforce
next
  case (Cons pkt q)
  obtain s where s: "processIncoming env now pkt (p_server p) = Inr s"
    using processIncoming_total [OF Cons(3)] Cons(4) by blast
  let ?p = "p\<lparr>p_server := s, p_incoming := q\<rparr>"
  have st: "loop_step env p (Processed pkt) ?p" using Cons.hyps(2) [symmetric] Cons.prems s by (intro loop_step.processed)
  have "\<exists>p'. loop_run env ?p (map Processed (p_incoming ?p) @ [TickDone]) p' \<and> p_tick p' = None \<and> p_incoming p' = []"
    by (rule Cons.hyps(1)) (use loop_step_wf [OF st Cons(3)] Cons.prems in simp_all)
  then show ?case using loop_run_Cons [OF _ st] Cons.hyps(2) [symmetric] by auto
qed

section \<open>Coalescing\<close>

text \<open>A socket that records what is written to it.\<close>

definition record_socket :: "(AddrPort \<times> bytes) list \<Rightarrow> bytes \<Rightarrow> AddrPort \<Rightarrow> (AddrPort \<times> bytes) list \<times> bool" where
  "record_socket u data addr = (u @ [(addr, data)], True)"

lemma writeOne_log: "w_socket (writeOne record_socket w) @ w_queue (writeOne record_socket w) = w_socket w @ w_queue w"
  by (simp add: writeOne_def record_socket_def split: list.split prod.split)

lemma drain_log: "w_socket (drainWriteCh record_socket w) = w_socket w @ w_queue w \<and> w_queue (drainWriteCh record_socket w) = []"
proof (induction record_socket w rule: drainWriteCh.induct)
  case (1 w)
  then show ?case by (simp add: drainWriteCh.simps [of record_socket w] writeOne_log)
qed

lemma sendWrite_log:
  "w_socket (fst (sendWrite record_socket w d a)) @ w_queue (fst (sendWrite record_socket w d a)) = w_socket w @ w_queue w @ [(a, d)]"
  "snd (sendWrite record_socket w d a)"
  using writeOne_log [of w] by (simp_all add: sendWrite_def Let_def)

interpretation coalesced_wire: transport "server_sendFunc (coalesced_net record_socket) True"
    "\<lambda>w. map snd (w_socket w @ w_queue w)" "\<lambda>_. []"
proof
  fix c :: connection and w :: "(AddrPort \<times> bytes) list writer" and d
  obtain w' where w': "sendWrite record_socket w d (c_remoteAddr c) = (w', True)"
    "w_socket w' @ w_queue w' = w_socket w @ w_queue w @ [(c_remoteAddr c, d)]"
    using sendWrite_log [of w d "c_remoteAddr c"] by (cases "sendWrite record_socket w d (c_remoteAddr c)") auto
  have "map snd (w_socket w' @ w_queue w') = map snd (w_socket w @ w_queue w) @ [[] @ d]" unfolding w'(2) by simp
  with w'(1) show "\<exists>n b u'. server_sendFunc (coalesced_net record_socket) True (c, w) d = ((c\<lparr>c_bytesSent := n, c_sendBW := b\<rparr>, u'), None) \<and>
      map snd (w_socket u' @ w_queue u') = map snd (w_socket w @ w_queue w) @ [[] @ d]"
    by (auto simp: server_sendFunc_def coalesced_net_def countSent_def simp del: map_append)
qed simp

section \<open>A connection without a send function\<close>

text \<open>A tick of a new connection sends a heartbeat, and nothing before it.\<close>

lemma retransmit_idle:
  assumes "\<forall>i \<in> set is. ch_pendingSend (c_channels c ! i) = []"
  shows "retransmitChannels sf now rto m is (c, u) = ((c, u), False)"
  using assms
proof (induction "is")
  case (Cons i "is")
  have "setChannel i ((c_channels c ! i)\<lparr>ch_pendingSend := []\<rparr>) c = c"
  proof -
    have "(c_channels c ! i)\<lparr>ch_pendingSend := []\<rparr> = c_channels c ! i" using Cons.prems by (cases "c_channels c ! i") simp
    then show ?thesis by (cases c) (simp add: setChannel_def)
  qed
  then show ?case using Cons by (simp add: checkRetransmissions_def Let_def)
qed simp

lemma nil_heartbeat:
  assumes "c_channels c \<noteq> []"
  shows "snd (fst (sendHeartbeat nil_sendFunc now (c, called)))"
proof -
  obtain e where e: "ackEntries [0] c = [e]" using assms by (simp add: ackEntries_def conn_channel_def)
  obtain ctrl n where m: "marshalMultiAck (replicate 256 0) [e] = (ctrl, Inr n)" and n: "length (take n ctrl) \<le> n"
    using marshalAckEntries_enough [of 2 "[e]" "(replicate 256 0)[0 := ControlMultiAck, 1 := 1]"]
    by (auto simp: marshalMultiAck_def)
  obtain buf pn where b: "buildControlPacket (getSendBuffer (64 + n)) controlHeader (take n ctrl) = (buf, Inr pn)"
    by (rule buildControlPacket_ok [of "getSendBuffer (64 + n)" "take n ctrl"]) (use n in \<open>simp_all add: getSendBuffer_def\<close>)
  obtain k w where "Encrypt (c_sendCipher c) (take pn buf) (getSendBuffer (NonceSize + pn + TagSize)) = (k, Inr w)"
    using Encrypt_total by blast
  then show ?thesis
    by (simp add: sendHeartbeat_def sendMultiChannelHeartbeat_def e m b sendFramed_def nil_sendFunc_def Let_def)
qed

lemma nil_first_tick:
  assumes "in_layout inp \<noteq> []" "tp_HeartbeatInterval p \<le> t - now" "t - now < tp_ConnTimeout p"
  shows "\<exists>c es. tickConnection lib' p nil_sendFunc t (newConnection lib now inp, False) = Inr ((c, True), es)"
proof -
  let ?c = "newConnection lib now inp"
  have c: "c_state ?c = StateConnected" "c_lastRecv ?c = now" "c_lastSend ?c = now" "c_sendQueue ?c = []" "c_batchBuf ?c = []"
    "c_channels ?c \<noteq> []" "\<forall>ch \<in> set (c_channels ?c). ch_pendingSend ch = [] \<and> \<not> ch_needsAck ch"
    using assms(1) by (simp_all add: newConnection_def Let_def newChannels_def) (auto simp: newChannel_def)
  have r: "retransmitChannels nil_sendFunc t (currentRTO ?c) (tp_MaxRetransmits p) [0..<length (c_channels ?c)] (?c, False) =
      ((?c, False), False)"
    by (rule retransmit_idle) (use c(7) in simp)
  have id: "?c\<lparr>c_batchBuf := []\<rparr> = ?c" "map (fst \<circ> clearNeedsAck) (c_channels ?c) = c_channels ?c"
    using c(5) by (cases ?c, simp) (rule map_idI, use c(7) in \<open>simp add: clearNeedsAck_def\<close>)
  have f: "(if c_batchEnabled ?c then conn_flushBatch (tp_MTU p) nil_sendFunc (?c, False) else ((?c, False), None)) = ((?c, False), None)"
    using c(5) id(1) by (simp add: conn_flushBatch_def flushBatch_def)
  have "filter (\<lambda>i. snd (clearNeedsAck (c_channels ?c ! i))) [0..<length (c_channels ?c)] = []"
    using c(7) by (auto simp: filter_empty_conv clearNeedsAck_def)
  then have a: "takeAckChannels ?c = (?c, [])" using id(2) by (cases ?c) (simp add: takeAckChannels_def)
  have h: "needsHeartbeatAt t (tp_HeartbeatInterval p) ?c" using assms(2) c by (simp add: needsHeartbeatAt_def)
  show ?thesis
    using nil_heartbeat [OF c(6), of t False] assms(3) c r f a h
    by (simp add: tickConnection_def isTimedOutAt_def tickSend_def drainSendQueue_def report_def Let_def)
qed

section \<open>Stopping\<close>

lemma conns_forEach_fold: "conns_forEach f ct s = fold f (concat (map (map snd) ct)) s"
proof -
  have sh: "fold (\<lambda>(a, c). f c) sh s = fold f (map snd sh) s" for sh s
    by (induction sh arbitrary: s) auto
  show ?thesis unfolding conns_forEach_def by (induction ct arbitrary: s) (simp_all add: sh)
qed

lemma stopConnections:
  assumes "\<forall>i \<in> set is. i < length (s_heap s)"
  shows "\<exists>heap. fold stopConnection is s =
      s\<lparr>s_heap := heap, s_events := s_events s @ map (\<lambda>i. (i, OnDisconnect DisconnectGraceful)) is\<rparr> \<and>
    length heap = length (s_heap s) \<and> (\<forall>i \<in> set is. c_state (heap ! i) = StateDisconnected) \<and>
    (\<forall>i. i \<notin> set is \<longrightarrow> heap ! i = s_heap s ! i)"
  using assms
proof (induction "is" arbitrary: s)
  case Nil
  then show ?case by (intro exI [of _ "s_heap s"]) simp
next
  case (Cons i "is")
  let ?s = "s\<lparr>s_heap := (s_heap s)[i := teardown (s_heap s ! i)], s_events := s_events s @ [(i, OnDisconnect DisconnectGraceful)]\<rparr>"
  have "stopConnection i s = ?s" by (simp add: stopConnection_def commit_eq)
  moreover obtain heap where "fold stopConnection is ?s =
      ?s\<lparr>s_heap := heap, s_events := s_events ?s @ map (\<lambda>i. (i, OnDisconnect DisconnectGraceful)) is\<rparr>"
    "length heap = length (s_heap ?s)" "\<forall>j \<in> set is. c_state (heap ! j) = StateDisconnected"
    "\<forall>j. j \<notin> set is \<longrightarrow> heap ! j = s_heap ?s ! j"
    using Cons.IH [of ?s] Cons.prems by auto
  moreover have "c_state (teardown (s_heap s ! i)) = StateDisconnected" by (simp add: teardown_def)
  ultimately show ?case using Cons.prems by (intro exI [of _ heap]) (auto simp: nth_list_update)
qed

lemma listed: "wf_conns ct \<Longrightarrow> conns_get ct a = Some i \<Longrightarrow> i \<in> set (concat (map (map snd) ct))"
  by (force simp: conns_get_def wf_conns_def dest: map_of_SomeD)

lemma length_listed: "length (concat (map (map snd) ct)) = conns_count ct"
  by (simp add: conns_count_def fold_count length_concat o_def)

text \<open>A read loop receives and queues an empty datagram, and the tick processes it: nothing has changed.\<close>

lemma flood_round:
  assumes "p_tick p = Some now" "p_incoming p = []" "p_readers p = \<lparr>rd_consecutiveErrors = 0, rd_packet = None\<rparr> # rs"
    and "conns_get (s_conns (p_server p)) a = None" "pending_get (s_pending (p_server p)) a = None"
    and "loop_run env p es p'"
  shows "loop_run env p (Received 0 (ReadOK a [] rnd) # Queued 0 (from_client a rnd []) # Processed (from_client a rnd []) # es) p'"
proof -
  let ?pkt = "from_client a rnd []" and ?r = "\<lparr>rd_consecutiveErrors = 0, rd_packet = Some (from_client a rnd [])\<rparr>"
  have r: "loop_step env p (Received 0 (ReadOK a [] rnd)) (p\<lparr>p_readers := ?r # rs\<rparr>)"
    using loop_step.received [of 0 p env "ReadOK a [] rnd"] assms(3) by (simp add: from_client_def)
  have ids: "p\<lparr>p_incoming := [?pkt], p_readers := \<lparr>rd_consecutiveErrors = 0, rd_packet = None\<rparr> # rs\<rparr> = p\<lparr>p_incoming := [?pkt]\<rparr>"
    "p\<lparr>p_incoming := []\<rparr> = p" using assms(2,3) by (cases p; simp)+
  have "loop_step env (p\<lparr>p_readers := ?r # rs\<rparr>) (Queued 0 ?pkt)
      (p\<lparr>p_incoming := [?pkt], p_readers := \<lparr>rd_consecutiveErrors = 0, rd_packet = None\<rparr> # rs\<rparr>)"
    using loop_step.queued [of 0 "p\<lparr>p_readers := ?r # rs\<rparr>" ?pkt env] assms(2) by (simp add: incomingCapacity_def)
  note q = this [unfolded ids(1)]
  have "processIncoming env now ?pkt (p_server p) = Inr (p_server p)"
    using assms(4,5) by (simp add: processIncoming_def from_client_def MigrationTokenSize_def handleHandshake_def
        parseControlPacket_def UnmarshalHeader_def)
  then have "loop_step env (p\<lparr>p_incoming := [?pkt]\<rparr>) (Processed ?pkt) (p\<lparr>p_incoming := []\<rparr>)"
    using loop_step.processed [of "p\<lparr>p_incoming := [?pkt]\<rparr>" now ?pkt "[]" env "p_server p"] assms(1) by simp
  note d = this [unfolded ids(2)]
  show ?thesis by (rule loop_run_Cons [OF loop_run_Cons [OF loop_run_Cons [OF assms(6) d] q] r])
qed

section \<open>Properties\<close>

text \<open>C5. Whatever the interleaving of the read loops and the ticks, the server is in a state that a
  sequence of atomic ticks produces, on the packets in the order in which they were queued: none
  is lost, none processed twice, and those not yet processed are in the queue, of at most 4096
  packets. Everything that was read has been queued or is held by a read loop.\<close>

theorem loops_refine_ticks:
  assumes "loop_run env (startProcess s) es p" "p_tick p = None"
  shows "\<exists>rounds. server_run env rounds (fst (Start s)) = Inr (p_server p) \<and>
    concat (map snd rounds) @ p_incoming p = queued_packets es \<and> length (p_incoming p) \<le> incomingCapacity \<and>
    mset (received_packets (readBufferSize (sc_MTU (s_config s))) es) = mset (queued_packets es) + in_hand p"
proof -
  have "follows env (fst (Start s)) [] (startProcess s)"
    unfolding follows_def by (intro exI [of _ "[]"] exI [of _ "fst (Start s)"]) (simp add: startProcess_def server_run_def)
  from loop_run_follows [OF assms(1) this] assms(2)
  obtain rounds where "server_run env rounds (fst (Start s)) = Inr (p_server p)"
    "concat (map snd rounds) @ p_incoming p = queued_packets es" by (auto simp: follows_def)
  moreover have "in_hand (startProcess s) = {#}" "p_readSize (startProcess s) = readBufferSize (sc_MTU (s_config s))"
    "p_incoming (startProcess s) = []"
    by (simp_all add: in_hand_def startProcess_def held_def sum_list_empties)
  ultimately show ?thesis using loop_run_in_hand [OF assms(1)] by (auto simp: ac_simps)
qed

text \<open>A tick ends: in any state a server without send batching can reach, in the middle of a
  tick, the tick processes what is in the queue and finishes, if no more packets are queued
  meanwhile.\<close>

theorem tick_terminates:
  assumes "pool_ok (env_comp env) (sc_Compression config)" "\<not> sc_SendBatching config"
    and "loop_run env (startProcess (NewServer numCPU config u)) es p" "p_tick p = Some now"
  shows "\<exists>p'. loop_run env p (map Processed (p_incoming p) @ [TickDone]) p' \<and> p_tick p' = None \<and> p_incoming p' = []"
proof (rule tick_ends)
  let ?s = "NewServer numCPU config u"
  have start: "wf_server (env_comp env) (fst (Start ?s))" "s_features (fst (Start ?s)) = s_features ?s"
    using NewServer_wf [OF assms(1)] by (simp_all add: Start_def wf_server_def in_table_def)
  have run: "wf_server (env_comp env) (p_server p)" "s_features (p_server p) = s_features ?s"
    using loop_run_wf [OF assms(3)] start by (simp_all add: startProcess_def)
  show "wf_server (env_comp env) (p_server p)" by (rule run)
  show "\<not> batching (s_features (p_server p))"
    using assms(2) run(2) by (simp add: NewServer_def Let_def serverDefaults_def featuresFromConfig_def batching_def
        FeatureSendBatching_def FeatureConnectionMigration_def)
qed (rule assms(4))

text \<open>C23. A flood keeps a tick from ending. Empty datagrams from any address without a connection are
  processed as fast as they are queued, and however many there are, the tick goes on taking
  them: no connection is ticked, nothing is retransmitted and nothing times out.\<close>

theorem flood_starves_tick:
  assumes "p_tick p = Some now" "p_incoming p = []" "p_readers p = \<lparr>rd_consecutiveErrors = 0, rd_packet = None\<rparr> # rs"
    and "conns_get (s_conns (p_server p)) a = None" "pending_get (s_pending (p_server p)) a = None"
  shows "loop_run env p (concat (replicate n
    [Received 0 (ReadOK a [] rnd), Queued 0 (from_client a rnd []), Processed (from_client a rnd [])])) p"
  by (induction n) (simp_all add: loop_run.idle flood_round [OF assms])

text \<open>C22. Write coalescing is transparent: the messages a server sends on an established connection
  through the channel of the write loop, of bounded capacity, are all on the socket once the
  channel has been drained, in order, and reach the client's handler.\<close>

theorem coalesced_messages_reach_client:
  assumes est: "established k clib pool a i cl s" and lib: "comp_lib_ok clib" "newCompressorPool clib cfg = Inr pool"
    and env: "cenv_comp env = clib"
    and ms: "\<forall>m \<in> set ms. message_ok clib pool (length (cc_ChannelLayout (cl_config cl))) m" "255 * length ms \<le> k"
    and w: "w_queue w = []"
  shows "\<exists>sc' w' ds cl'.
    sendMessages clib (server_sendFunc (coalesced_net record_socket) True) ms t (s_heap s ! i, w) =
      ((sc', w'), replicate (length ms) None) \<and>
    map snd (w_socket (drainWriteCh record_socket w')) = map snd (w_socket w) @ ds \<and>
    steps (client_processIncoming env t') ds cl = Inr cl' \<and>
    cl_events cl' = cl_events cl @ map (\<lambda>(data, ch). OnMessage data ch) ms"
  using coalesced_wire.reaches_client [OF refl est lib env ms, of t w t'] w by (simp add: drain_log)

text \<open>C24. Stopping the server disconnects every connection and tells the handler once for each. The
  peers are not told: nothing is sent. The connections stay in the tables, so that a second
  \<open>Stop\<close> calls the handler for all of them again.\<close>

theorem stop_disconnects_all:
  assumes "wf_server lib s" "s_started s"
  shows "\<exists>s' is s''. Stop s = (s', None) \<and> length is = ConnectionCount s \<and>
    (\<forall>a i. conns_get (s_conns s) a = Some i \<longrightarrow> i \<in> set is \<and> c_state (s_heap s' ! i) = StateDisconnected) \<and>
    s_events s' = s_events s @ map (\<lambda>i. (i, OnDisconnect DisconnectGraceful)) is \<and>
    s_net s' = s_net s \<and> s_conns s' = s_conns s \<and>
    Stop s' = (s'', None) \<and> s_events s'' = s_events s' @ map (\<lambda>i. (i, OnDisconnect DisconnectGraceful)) is"
proof -
  let ?is = "concat (map (map snd) (s_conns s))"
  have idx: "\<forall>i \<in> set ?is. i < length (s_heap s)"
    using tickConns_handles [OF assms(1)] by (auto simp: handles_def)
  from stopConnections [OF this] obtain heap where h: "fold stopConnection ?is s =
      s\<lparr>s_heap := heap, s_events := s_events s @ map (\<lambda>i. (i, OnDisconnect DisconnectGraceful)) ?is\<rparr>"
    "length heap = length (s_heap s)" "\<forall>i \<in> set ?is. c_state (heap ! i) = StateDisconnected" by blast
  let ?s = "s\<lparr>s_heap := heap, s_events := s_events s @ map (\<lambda>i. (i, OnDisconnect DisconnectGraceful)) ?is\<rparr>"
  have s: "Stop s = (?s, None)" using h(1) assms(2) by (simp add: Stop_def conns_forEach_fold)
  have "\<forall>i \<in> set ?is. i < length (s_heap ?s)" using idx h(2) by simp
  from stopConnections [OF this] obtain s2 where
    "fold stopConnection ?is ?s = s2" "s_events s2 = s_events ?s @ map (\<lambda>i. (i, OnDisconnect DisconnectGraceful)) ?is"
    by auto
  then have s2: "Stop ?s = (s2, None)" "s_events s2 = s_events ?s @ map (\<lambda>i. (i, OnDisconnect DisconnectGraceful)) ?is"
    using assms(2) by (simp_all add: Stop_def conns_forEach_fold)
  have g: "\<forall>a i. conns_get (s_conns s) a = Some i \<longrightarrow> i \<in> set ?is \<and> c_state (heap ! i) = StateDisconnected"
    using h(3) listed [OF wf_serverD(1) [OF assms(1)]] by blast
  show ?thesis
    by (rule exI [of _ ?s], rule exI [of _ ?is], rule exI [of _ s2]) (use s s2 g in \<open>simp add: length_listed ConnectionCount_def\<close>)
qed

text \<open>C4. A forged CHALLENGE crashes a client. When its connection has ended, the client's read loop
  again treats datagrams as handshake packets. Any well-formed CHALLENGE, with any public key and
  token, then creates a connection that has no send function, and the first tick at which a
  heartbeat is due calls it: a nil dereference.\<close>

theorem forged_challenge_panics:
  assumes cl: "\<not> cl_connected cl" "\<not> cl_closed cl" "\<not> cl_connectAborted cl"
    and lib: "aeads_ok (cenv_crypto env)" "cenv_Write env (cl_net cl) = (\<lambda>d. (w d, True))"
    and ch: "wf_challenge ch" "cha_ProtocolVersion ch = ProtocolVersion" "buildChallengePacket (replicate 128 0) ch = (buf, Inr n)"
    and keys: "DeriveKeys (cenv_crypto env) (Private (cl_clientKP cl)) (cha_PublicKey ch) (cha_ChallengeToken ch) (cha_SelectedCipher ch) =
        Inr (k1, k2)"
      "NewCipherState (cenv_crypto env) k1 (cha_SelectedCipher ch) = Inr st1"
      "NewCipherState (cenv_crypto env) k2 (cha_SelectedCipher ch) = Inr st2"
    and conf: "cc_ChannelLayout (cl_config cl) \<noteq> []" "128 \<le> cc_MTU (cl_config cl)"
      "cc_HeartbeatInterval (cl_config cl) \<le> t - now" "t - now < cc_ConnTimeout (cl_config cl)"
  shows "\<exists>cl'. client_receive env now (take n buf) (cl, []) = Some (cl', []) \<and>
    cl_events cl' = cl_events cl \<and> client_tick env t [] cl' = Inl PanicNilPointer"
proof -
  have "8 + length (challenge_enc ch) \<le> 128" using ch(1) by (simp add: length_challenge_enc)
  with challenge.build_parse [OF ch(1), of "replicate 128 0"] ch(1,3) have
    data: "parseControlPacket (take n buf) = Inr (controlHeader, ControlChallenge, challenge_enc ch)" and n: "n \<le> 128"
    by (auto simp: buildChallengePacket_def length_challenge_enc)
  obtain s resp where c: "clientProcessChallenge (cenv_crypto env) (take n buf) (cl_clientKP cl) =
      Inr (s, st2, cha_SelectedCipher ch, resp)"
    by (rule clientProcessChallenge_ok [OF data ch(1,2) keys lib(1)])
  then obtain inp where acc: "acceptChallenge (cenv_crypto env) (cenv_comp env) (cl_config cl) now (take n buf) (cl_clientKP cl)
      (cenv_remote env) = Inr (newConnection (cenv_comp env) now inp, resp)" "in_layout inp = cc_ChannelLayout (cl_config cl)"
    using data by (auto simp: acceptChallenge_def unmarshal_encs(2) [OF ch(1)])
  let ?c = "newConnection (cenv_comp env) now inp"
  let ?cl = "cl\<lparr>cl_net := w resp, cl_server := Some ?c, cl_sendFunc := False, cl_connectDone := True\<rparr>"
  have t: "take (readBufferSize (cc_MTU (cl_config cl))) (take n buf) = take n buf"
  proof -
    have "n \<le> readBufferSize (cc_MTU (cl_config cl))" using conf(2) n by (simp add: readBufferSize_def)
    then show ?thesis by (simp add: min_def)
  qed
  have "client_receive env now (take n buf) (cl, []) = Some (?cl, [])"
    unfolding client_receive_def prod.case Let_def t
    using cl lib(2) data acc(1) by (simp add: processHandshakePacket_def handleChallenge_def)
  moreover have "client_tick env t [] ?cl = Inl PanicNilPointer"
    using nil_first_tick [of inp "clientParams (cl_config cl)" t now "cenv_comp env" "cenv_comp env"] conf acc(2)
    by (auto simp: client_tick_def client_tickConnection_def clientParams_def Let_def)
  ultimately show ?thesis by auto
qed

section \<open>Witnesses\<close>

text \<open>A run of the read loop and a tick: one empty datagram is read, queued and processed.\<close>

definition demo_process :: "(AddrPort \<times> bytes) list process" where
  "demo_process = startProcess demo_server"

lemma demo_process:
  "p_readers demo_process = [\<lparr>rd_consecutiveErrors = 0, rd_packet = None\<rparr>]" "p_tick demo_process = None"
  "p_incoming demo_process = []" "s_conns (p_server demo_process) = s_conns demo_server"
  "s_pending (p_server demo_process) = s_pending demo_server" "fst (Start demo_server) = p_server demo_process"
  by (simp_all add: demo_process_def startProcess_def Start_def)
    (simp add: readerCount_def demo_server_def NewServer_def Let_def serverDefaults_def DefaultServerConfig_def)

lemma demo_free: "conns_get (s_conns (p_server demo_process)) demo_addr = None" "pending_get (s_pending (p_server demo_process)) demo_addr = None"
  using demo_moves by (simp_all add: demo_process)

theorem loops_refine_ticks_witness:
  "\<exists>es p rounds. loop_run demo_senv (startProcess demo_server) es p \<and> TickDone \<in> set es \<and>
    queued_packets es = [from_client demo_addr demo_rnd []] \<and>
    server_run demo_senv rounds (fst (Start demo_server)) = Inr (p_server p) \<and>
    concat (map snd rounds) @ p_incoming p = [from_client demo_addr demo_rnd []]"
proof -
  let ?p = "demo_process\<lparr>p_tick := Some 1\<rparr>" and ?pkt = "from_client demo_addr demo_rnd []"
  let ?es = "[TickStarted 1, Received 0 (ReadOK demo_addr [] demo_rnd), Queued 0 ?pkt, Processed ?pkt, TickDone]"
  have "concat (map (map snd) (s_conns demo_server)) = []"
    by (simp add: demo_server_def NewServer_def Let_def newConnectionTable_def)
  then have "conns_forEach (\<lambda>i is. is @ [i]) (s_conns (p_server demo_process)) [] = []" by (simp only: tickConns demo_process append_Nil)
  then obtain s where t: "tick demo_senv 1 [] (p_server demo_process) = Inr s" by (simp add: tick_def Let_def)
  let ?q = "?p\<lparr>p_server := s, p_tick := None\<rparr>"
  have d: "loop_step demo_senv ?p TickDone ?q" by (rule loop_step.tick_done) (use t in \<open>simp_all add: demo_process\<close>)
  have "loop_step demo_senv demo_process (TickStarted 1) ?p" by (rule loop_step.tick_started) (simp add: demo_process)
  then have run: "loop_run demo_senv (startProcess demo_server) ?es ?q"
    unfolding demo_process_def [symmetric]
    by (rule loop_run_Cons [rotated], intro flood_round [where now = 1 and rs = "[]"] loop_run_Cons [OF loop_run.idle d])
      (use demo_free in \<open>simp_all add: demo_process\<close>)
  from loops_refine_ticks [OF this] obtain rounds where "server_run demo_senv rounds (fst (Start demo_server)) = Inr (p_server ?q)"
    "concat (map snd rounds) @ p_incoming ?q = queued_packets ?es" by auto
  with run show ?thesis by (intro exI [of _ ?es] exI [of _ ?q] exI [of _ rounds]) simp
qed

theorem flood_starves_tick_witness:
  "\<exists>p. p_tick p = Some 1 \<and> loop_run demo_senv p (concat (replicate 1000
    [Received 0 (ReadOK demo_addr [] demo_rnd), Queued 0 (from_client demo_addr demo_rnd []), Processed (from_client demo_addr demo_rnd [])])) p"
  by (intro exI [of _ "demo_process\<lparr>p_tick := Some 1\<rparr>"] conjI flood_starves_tick [where now = 1 and rs = "[]"])
    (use demo_free in \<open>simp_all add: demo_process\<close>)

theorem tick_terminates_witness:
  "\<exists>p'. loop_run mute_env ((startProcess (NewServer 4 DefaultServerConfig ()))\<lparr>p_tick := Some 1\<rparr>) [TickDone] p' \<and> p_tick p' = None"
proof -
  let ?p = "startProcess (NewServer 4 DefaultServerConfig ())"
  have "p_tick ?p = None" "p_incoming ?p = []" by (simp_all add: startProcess_def)
  then have "loop_run mute_env ?p [TickStarted 1] (?p\<lparr>p_tick := Some 1\<rparr>)"
    using loop_run_Cons [OF loop_run.idle loop_step.tick_started, of ?p mute_env 1] by simp
  from tick_terminates [OF toy_pool this] \<open>p_incoming ?p = []\<close> show ?thesis by simp blast
qed

theorem coalesced_messages_reach_client_witness:
  "\<exists>i cl (s :: (AddrPort \<times> bytes) list server) sc' w' ds cl'. established (2 ^ 32 - 1) toy_comp demo_pool toy_addr i cl s \<and>
    sendMessages toy_comp (server_sendFunc (coalesced_net record_socket) True) demo_messages 4 (s_heap s ! i, \<lparr>w_queue = [], w_socket = []\<rparr>) =
      ((sc', w'), replicate (length demo_messages) None) \<and>
    map snd (w_socket (drainWriteCh record_socket w')) = ds \<and> steps (client_processIncoming demo_env 5) ds cl = Inr cl' \<and>
    cl_events cl' = OnConnect # map (\<lambda>(data, ch). OnMessage data ch) demo_messages"
proof -
  obtain cl s where est: "established (2 ^ 32 - 1) toy_comp demo_pool toy_addr 0 cl s" "cl_events cl = [OnConnect]" "cl_config cl = cl_config demo_client"
    by (rule demo_established)
  have ms: "\<forall>m \<in> set demo_messages. message_ok toy_comp demo_pool (length (cc_ChannelLayout (cl_config cl))) m"
    unfolding est(3) by (rule demo_messages_ok)
  from coalesced_messages_reach_client [OF est(1) toy_comp_ok demo_compatible(2) demo_envs(2) ms demo_messages_ok(4),
      of "\<lparr>w_queue = [], w_socket = []\<rparr>" 4 5] est(1)
  show ?thesis unfolding est(2) by simp blast
qed

theorem stop_disconnects_all_witness:
  "\<exists>(s :: (AddrPort \<times> bytes) list server) s'. conns_get (s_conns s) toy_addr = Some 0 \<and> Stop s = (s', None) \<and>
    c_state (s_heap s' ! 0) = StateDisconnected"
proof -
  obtain cl s where est: "established (2 ^ 32 - 1) toy_comp demo_pool toy_addr 0 cl s" and wf: "wf_server toy_comp s" by (rule demo_established)
  let ?s = "s\<lparr>s_started := True\<rparr>"
  have "wf_server toy_comp ?s" "s_started ?s" using wf by (simp_all add: wf_server_def in_table_def)
  moreover have "conns_get (s_conns ?s) toy_addr = Some 0" using est by (auto simp: established_def)
  ultimately show ?thesis using stop_disconnects_all [of toy_comp ?s] by blast
qed

text \<open>A client whose connection was closed by the server, and the CHALLENGE it then receives.\<close>

definition left_client :: "bytes list client" where
  "left_client = demo_client\<lparr>cl_clientKP := toy_kp, cl_events := [OnConnect, OnDisconnect DisconnectGraceful]\<rparr>"

definition forged_challenge :: challengePacket where
  "forged_challenge = \<lparr>cha_ProtocolVersion = ProtocolVersion, cha_AppVersion = 0, cha_PublicKey = replicate 32 6,
     cha_ChallengeToken = replicate 32 7, cha_SelectedCipher = CipherAES128GCM, cha_CompressionAck = 0, cha_Features = 0,
     cha_MigrationToken = replicate 8 0\<rparr>"

theorem forged_challenge_panics_witness:
  "\<exists>data cl'. client_receive demo_env 0 data (left_client, []) = Some (cl', []) \<and>
    client_tick demo_env (2 * second) [] cl' = Inl PanicNilPointer"
proof -
  have ch: "wf_challenge forged_challenge" "cha_ProtocolVersion forged_challenge = ProtocolVersion"
    by (simp_all add: forged_challenge_def wf_challenge_def MigrationTokenSize_def)
  obtain buf n where b: "buildChallengePacket (replicate 128 0) forged_challenge = (buf, Inr n)" by (rule buildChallenge_ok [OF ch(1)])
  have st: "NewCipherState toy_lib k CipherAES128GCM = Inr toy_state" for k
    using toy_NewCipherState by (simp add: suite_defs)
  have "\<exists>cl'. client_receive demo_env 0 (take n buf) (left_client, []) = Some (cl', []) \<and>
      cl_events cl' = cl_events left_client \<and> client_tick demo_env (2 * second) [] cl' = Inl PanicNilPointer"
  proof (rule forged_challenge_panics [OF _ _ _ _ _ ch b])
    show "DeriveKeys (cenv_crypto demo_env) (Private (cl_clientKP left_client)) (cha_PublicKey forged_challenge)
        (cha_ChallengeToken forged_challenge) (cha_SelectedCipher forged_challenge) = Inr (fst toy_keys, snd toy_keys)"
      using toy_DeriveKeys by (simp add: demo_env_def left_client_def toy_kp_def forged_challenge_def)
    show "cenv_Write demo_env (cl_net left_client) = (\<lambda>d. ([d], True))"
      by (simp add: demo_env_def left_client_def demo_config record_write_def fun_eq_iff)
  qed (use st demo_config toy_aeads in \<open>simp_all add: demo_env_def forged_challenge_def left_client_def DefaultChannelLayout_def
      demo_client_def NewClient_def clientDefaults_def DefaultClientConfig_def second_def DefaultMTU_def\<close>)
  then show ?thesis by blast
qed

end
