(* ===== verification/Shutdown.thy ===== *)
theory Shutdown
  imports Loops
begin

text \<open>
  Starting and stopping the goroutines (\<open>server.go\<close>: \<open>Start\<close>, \<open>Stop\<close>, \<open>readLoop\<close>, \<open>writeLoop\<close>, \<open>tickLoop\<close>,
  \<open>drainIncoming\<close>; \<open>client.go\<close>: \<open>Close\<close>, \<open>readLoop\<close>, \<open>tickLoop\<close>). What the loops do with the data is in
  \<open>Loops\<close>; here each is the point at which it waits or works, and the channels are the number of
  elements they hold. \<open>Stop\<close> closes \<open>closeCh\<close> and the socket and waits for the loops
  (\<open>wg\<close> counts those that have not returned).
\<close>

section \<open>Definitions\<close>

datatype reader_pc =
    Reading      \<comment> \<open>in \<open>ReadFromUDPAddrPort\<close>\<close>
  | ReadError    \<comment> \<open>it failed; about to look at \<open>closeCh\<close>\<close>
  | BackingOff   \<comment> \<open>waits for the timer or \<open>closeCh\<close>\<close>
  | Offering     \<comment> \<open>waits to send to \<open>incoming\<close>, or for \<open>closeCh\<close>\<close>
  | ReaderDone

datatype writer_pc = WriterWaiting | WriterDraining | WriterDone

datatype ticker_pc =
    TickerWaiting
  | TickDraining         \<comment> \<open>in the loop over \<open>incoming\<close>\<close>
  | TickSending nat      \<comment> \<open>in the loop over the connections, with so many datagrams left to send\<close>
  | TickerStopping       \<comment> \<open>a handler has called \<open>Stop\<close> and waits in \<open>wg.Wait\<close>\<close>
  | TickerDone

datatype stop_pc = NotStopped | Waiting | Returned

record loops =
  lo_closed :: bool           \<comment> \<open>\<open>closeCh\<close> and the socket are closed\<close>
  lo_incoming :: nat
  lo_capacity :: nat          \<comment> \<open>of \<open>incoming\<close>\<close>
  lo_writeCh :: nat
  lo_coalesce :: bool         \<comment> \<open>there is a \<open>writeCh\<close>\<close>
  lo_readers :: "reader_pc list"
  lo_writer :: writer_pc
  lo_ticker :: ticker_pc
  lo_stop :: stop_pc

text \<open>\<open>wg\<close>\<close>

definition running :: "loops \<Rightarrow> nat" where
  "running l = length (filter (\<lambda>r. r \<noteq> ReaderDone) (lo_readers l)) +
     (if lo_writer l = WriterDone then 0 else 1) + (if lo_ticker l = TickerDone then 0 else 1)"

text \<open>\<open>Start\<close> of a server, and the loops of a client after \<open>Connect\<close>.\<close>

definition startLoops :: "ServerConfig \<Rightarrow> loops" where
  "startLoops config =
     \<lparr>lo_closed = False, lo_incoming = 0, lo_capacity = incomingCapacity, lo_writeCh = 0, lo_coalesce = sc_CoalesceIO config,
      lo_readers = replicate (readerCount config) Reading,
      lo_writer = (if sc_CoalesceIO config then WriterWaiting else WriterDone),
      lo_ticker = (if sc_TickMode config = TickAuto then TickerWaiting else TickerDone), lo_stop = NotStopped\<rparr>"

definition clientLoops :: "ClientConfig \<Rightarrow> loops" where
  "clientLoops config =
     \<lparr>lo_closed = False, lo_incoming = 0, lo_capacity = clientIncomingCapacity, lo_writeCh = 0, lo_coalesce = False,
      lo_readers = [Reading], lo_writer = WriterDone,
      lo_ticker = (if cc_TickMode config = TickAuto then TickerWaiting else TickerDone), lo_stop = NotStopped\<rparr>"

text \<open>\<open>readLoop\<close>: a step of one reader. A client that is not connected yet handles the datagram in its
  read loop.\<close>

inductive reader_step :: "loops \<Rightarrow> nat \<Rightarrow> loops \<Rightarrow> bool" where
  read_ok: "i < length (lo_readers l) \<Longrightarrow> lo_readers l ! i = Reading \<Longrightarrow> \<not> lo_closed l \<Longrightarrow>
    reader_step l i (l\<lparr>lo_readers := (lo_readers l)[i := Offering]\<rparr>)"
| handled_inline: "i < length (lo_readers l) \<Longrightarrow> lo_readers l ! i = Reading \<Longrightarrow> \<not> lo_closed l \<Longrightarrow> reader_step l i l"
| read_failed: "i < length (lo_readers l) \<Longrightarrow> lo_readers l ! i = Reading \<Longrightarrow>
    reader_step l i (l\<lparr>lo_readers := (lo_readers l)[i := ReadError]\<rparr>)"
| error_closed: "i < length (lo_readers l) \<Longrightarrow> lo_readers l ! i = ReadError \<Longrightarrow> lo_closed l \<Longrightarrow>
    reader_step l i (l\<lparr>lo_readers := (lo_readers l)[i := ReaderDone]\<rparr>)"
| error_open: "i < length (lo_readers l) \<Longrightarrow> lo_readers l ! i = ReadError \<Longrightarrow> \<not> lo_closed l \<Longrightarrow>
    reader_step l i (l\<lparr>lo_readers := (lo_readers l)[i := BackingOff]\<rparr>)"
| timer: "i < length (lo_readers l) \<Longrightarrow> lo_readers l ! i = BackingOff \<Longrightarrow>
    reader_step l i (l\<lparr>lo_readers := (lo_readers l)[i := Reading]\<rparr>)"
| backoff_closed: "i < length (lo_readers l) \<Longrightarrow> lo_readers l ! i = BackingOff \<Longrightarrow> lo_closed l \<Longrightarrow>
    reader_step l i (l\<lparr>lo_readers := (lo_readers l)[i := ReaderDone]\<rparr>)"
| offered: "i < length (lo_readers l) \<Longrightarrow> lo_readers l ! i = Offering \<Longrightarrow> lo_incoming l < lo_capacity l \<Longrightarrow>
    reader_step l i (l\<lparr>lo_incoming := lo_incoming l + 1, lo_readers := (lo_readers l)[i := Reading]\<rparr>)"
| offer_closed: "i < length (lo_readers l) \<Longrightarrow> lo_readers l ! i = Offering \<Longrightarrow> lo_closed l \<Longrightarrow>
    reader_step l i (l\<lparr>lo_readers := (lo_readers l)[i := ReaderDone]\<rparr>)"

text \<open>\<open>writeLoop\<close> and its \<open>drainWriteCh\<close>.\<close>

inductive writer_step :: "loops \<Rightarrow> loops \<Rightarrow> bool" where
  write_first: "lo_writer l = WriterWaiting \<Longrightarrow> 0 < lo_writeCh l \<Longrightarrow>
    writer_step l (l\<lparr>lo_writeCh := lo_writeCh l - 1, lo_writer := WriterDraining\<rparr>)"
| write_next: "lo_writer l = WriterDraining \<Longrightarrow> 0 < lo_writeCh l \<Longrightarrow> writer_step l (l\<lparr>lo_writeCh := lo_writeCh l - 1\<rparr>)"
| drained: "lo_writer l = WriterDraining \<Longrightarrow> lo_writeCh l = 0 \<Longrightarrow> writer_step l (l\<lparr>lo_writer := WriterWaiting\<rparr>)"
| writer_closed: "lo_writer l = WriterWaiting \<Longrightarrow> lo_closed l \<Longrightarrow> writer_step l (l\<lparr>lo_writer := WriterDone\<rparr>)"

text \<open>\<open>tickLoop\<close> and the \<open>tick\<close> it runs. With coalescing a send waits for a free place in \<open>writeCh\<close> or for
  \<open>closeCh\<close>. The tick itself does not look at \<open>closeCh\<close>.\<close>

inductive tick_begins :: "loops \<Rightarrow> loops \<Rightarrow> bool" where
  ticked: "lo_ticker l = TickerWaiting \<Longrightarrow> tick_begins l (l\<lparr>lo_ticker := TickDraining\<rparr>)"

inductive ticker_step :: "loops \<Rightarrow> loops \<Rightarrow> bool" where
  taken: "lo_ticker l = TickDraining \<Longrightarrow> 0 < lo_incoming l \<Longrightarrow> ticker_step l (l\<lparr>lo_incoming := lo_incoming l - 1\<rparr>)"
| queue_empty: "lo_ticker l = TickDraining \<Longrightarrow> lo_incoming l = 0 \<Longrightarrow> ticker_step l (l\<lparr>lo_ticker := TickSending n\<rparr>)"
| sent_directly: "lo_ticker l = TickSending (Suc n) \<Longrightarrow> \<not> lo_coalesce l \<Longrightarrow> ticker_step l (l\<lparr>lo_ticker := TickSending n\<rparr>)"
| sent_to_writer: "lo_ticker l = TickSending (Suc n) \<Longrightarrow> lo_coalesce l \<Longrightarrow> lo_writeCh l < writeCapacity \<Longrightarrow>
    ticker_step l (l\<lparr>lo_writeCh := lo_writeCh l + 1, lo_ticker := TickSending n\<rparr>)"
| send_closed: "lo_ticker l = TickSending (Suc n) \<Longrightarrow> lo_coalesce l \<Longrightarrow> lo_closed l \<Longrightarrow> ticker_step l (l\<lparr>lo_ticker := TickSending n\<rparr>)"
| tick_over: "lo_ticker l = TickSending 0 \<Longrightarrow> ticker_step l (l\<lparr>lo_ticker := TickerWaiting\<rparr>)"
| ticker_closed: "lo_ticker l = TickerWaiting \<Longrightarrow> lo_closed l \<Longrightarrow> ticker_step l (l\<lparr>lo_ticker := TickerDone\<rparr>)"

text \<open>\<open>Stop\<close>, called by another goroutine, and its return when all loops have returned: \<open>drainIncoming\<close> and
  \<open>drainWriteCh\<close> empty the channels.\<close>

inductive stop_called :: "loops \<Rightarrow> loops \<Rightarrow> bool" where
  stop_begins: "lo_stop l = NotStopped \<Longrightarrow> stop_called l (l\<lparr>lo_closed := True, lo_stop := Waiting\<rparr>)"

inductive stop_returns_step :: "loops \<Rightarrow> loops \<Rightarrow> bool" where
  all_done: "lo_stop l = Waiting \<Longrightarrow> running l = 0 \<Longrightarrow>
    stop_returns_step l (l\<lparr>lo_stop := Returned, lo_incoming := 0, lo_writeCh := 0\<rparr>)"

text \<open>A handler that calls \<open>Stop\<close>: handlers run on the goroutine of the tick. Another goroutine may have
  called it before.\<close>

inductive stop_in_handler :: "loops \<Rightarrow> loops \<Rightarrow> bool" where
  handler_stops: "lo_stop l \<noteq> Returned \<Longrightarrow> lo_ticker l = TickDraining \<or> (\<exists>n. lo_ticker l = TickSending n) \<Longrightarrow>
    stop_in_handler l (l\<lparr>lo_closed := True, lo_stop := Waiting, lo_ticker := TickerStopping\<rparr>)"

text \<open>The steps of the library: those of the loops and of a waiting \<open>Stop\<close>. The ticker may start a tick
  although \<open>closeCh\<close> is closed, because \<open>select\<close> takes any of the cases that are ready. \<open>settles\<close> are the
  steps other than that one. The rest is up to the application: it calls \<open>Stop\<close>, or a handler does.\<close>

definition settles :: "loops \<Rightarrow> loops \<Rightarrow> bool" where
  "settles l l' \<longleftrightarrow> (\<exists>i. reader_step l i l') \<or> writer_step l l' \<or> ticker_step l l' \<or> stop_returns_step l l'"

definition library_step :: "loops \<Rightarrow> loops \<Rightarrow> bool" where
  "library_step l l' \<longleftrightarrow> settles l l' \<or> tick_begins l l'"

definition loops_step :: "loops \<Rightarrow> loops \<Rightarrow> bool" where
  "loops_step l l' \<longleftrightarrow> library_step l l' \<or> stop_called l l' \<or> stop_in_handler l l'"

section \<open>Everything that is left to do\<close>

text \<open>The readers, the ticker and \<open>Stop\<close> move forward; between these moves the channels drain.\<close>

fun reader_rank :: "reader_pc \<Rightarrow> nat" where
  "reader_rank Reading = 2"
| "reader_rank ReadError = 1"
| "reader_rank BackingOff = 3"
| "reader_rank Offering = 3"
| "reader_rank ReaderDone = 0"

fun ticker_rank :: "ticker_pc \<Rightarrow> nat" where
  "ticker_rank TickDraining = 3"
| "ticker_rank (TickSending n) = 2"
| "ticker_rank TickerWaiting = 1"
| "ticker_rank _ = 0"

fun left_to_send :: "ticker_pc \<Rightarrow> nat" where
  "left_to_send (TickSending n) = n"
| "left_to_send _ = 0"

definition moves_left :: "loops \<Rightarrow> nat" where
  "moves_left l = sum_list (map reader_rank (lo_readers l)) + (if lo_writer l = WriterDone then 0 else 1) +
     ticker_rank (lo_ticker l) + (if lo_stop l = Waiting then 1 else 0)"

definition drains_left :: "loops \<Rightarrow> nat" where
  "drains_left l = lo_incoming l + 3 * left_to_send (lo_ticker l) + 2 * lo_writeCh l + (if lo_writer l = WriterDraining then 1 else 0)"

lemma reader_moves:
  assumes "i < length (lo_readers l)" "reader_rank r < reader_rank (lo_readers l ! i)"
  shows "sum_list (map reader_rank ((lo_readers l)[i := r])) < sum_list (map reader_rank (lo_readers l))"
  using assms
proof (induction "lo_readers l" arbitrary: l i)
  case (Cons x xs)
  from Cons.hyps(1) [of "l\<lparr>lo_readers := xs\<rparr>" "i - 1"] Cons.prems show ?case
    unfolding Cons.hyps(2) [symmetric] by (cases i) simp_all
qed simp

lemma settles_decreases:
  assumes "settles l l'" "lo_closed l"
  shows "((moves_left l', drains_left l'), (moves_left l, drains_left l)) \<in> less_than <*lex*> less_than"
proof -
  consider i where "reader_step l i l'" | "writer_step l l'" | "ticker_step l l'" | "stop_returns_step l l'"
    using assms(1) by (auto simp: settles_def)
  then show ?thesis
  proof cases
    case 1
    then show ?thesis using assms(2) by cases (simp_all add: moves_left_def reader_moves)
  next
    case 2
    then show ?thesis by cases (simp_all add: moves_left_def drains_left_def)
  next
    case 3
    then show ?thesis by cases (simp_all add: moves_left_def drains_left_def)
  next
    case 4
    then show ?thesis by cases (simp add: moves_left_def)
  qed
qed

lemma settlesE:
  assumes "settles l l'"
  obtains i where "reader_step l i l'" | "writer_step l l'" | "ticker_step l l'" | "stop_returns_step l l'"
  using assms by (auto simp: settles_def)

lemma settles_frame:
  assumes "settles l l'"
  shows "lo_closed l' = lo_closed l" "lo_ticker l \<noteq> TickerStopping \<Longrightarrow> lo_ticker l' \<noteq> TickerStopping"
    "lo_ticker l = TickerStopping \<Longrightarrow> lo_ticker l' = TickerStopping" "lo_stop l = Waiting \<Longrightarrow> lo_stop l' \<noteq> NotStopped"
  using assms by (auto simp: settles_def elim!: reader_step.cases writer_step.cases ticker_step.cases stop_returns_step.cases)

lemma running_0: "running l = 0 \<longleftrightarrow> (\<forall>r \<in> set (lo_readers l). r = ReaderDone) \<and> lo_writer l = WriterDone \<and> lo_ticker l = TickerDone"
proof -
  have "length (filter (\<lambda>r. r \<noteq> ReaderDone) (lo_readers l)) = 0 \<longleftrightarrow> (\<forall>r \<in> set (lo_readers l). r = ReaderDone)"
    unfolding length_0_conv filter_empty_conv by blast
  then show ?thesis by (auto simp: running_def)
qed

lemma all_done_stuck:
  assumes "running l = 0"
  shows "\<not> reader_step l i l'" "\<not> writer_step l l'" "\<not> ticker_step l l'"
proof
  assume "reader_step l i l'"
  then have "i < length (lo_readers l)" "lo_readers l ! i \<noteq> ReaderDone" by (cases; simp)+
  then show False using assms unfolding running_0 by (metis nth_mem)
qed (use assms in \<open>auto simp: running_0 elim: writer_step.cases ticker_step.cases\<close>)

text \<open>Nothing waits for ever: while \<open>Stop\<close> waits, some loop can move, unless the ticker itself waits in it.\<close>

lemma settles_progress:
  assumes "lo_closed l" "lo_stop l = Waiting" "lo_ticker l \<noteq> TickerStopping"
  shows "\<exists>l'. settles l l'"
proof -
  consider "running l = 0" | "\<exists>r \<in> set (lo_readers l). r \<noteq> ReaderDone" | "lo_writer l \<noteq> WriterDone" | "lo_ticker l \<noteq> TickerDone"
    unfolding running_0 by blast
  then show ?thesis
  proof cases
    case 1
    then show ?thesis using all_done [OF assms(2)] by (auto simp: settles_def)
  next
    case 2
    then obtain i where i: "i < length (lo_readers l)" "lo_readers l ! i \<noteq> ReaderDone" by (auto simp: in_set_conv_nth)
    then have "\<exists>l'. reader_step l i l'"
      using read_failed [of i l] error_closed [of i l] backoff_closed [of i l] offer_closed [of i l] assms(1)
      by (cases "lo_readers l ! i") blast+
    then show ?thesis by (auto simp: settles_def)
  next
    case 3
    then have "\<exists>l'. writer_step l l'"
      using write_next [of l] drained [of l] writer_closed [of l] assms(1)
      by (cases "lo_writer l"; cases "lo_writeCh l = 0") auto
    then show ?thesis by (auto simp: settles_def)
  next
    case 4
    have "\<exists>l'. ticker_step l l'"
    proof (cases "lo_ticker l")
      case (TickSending n)
      show ?thesis
      proof (cases n)
        case 0
        then show ?thesis using tick_over TickSending by blast
      next
        case (Suc m)
        then have "ticker_step l (l\<lparr>lo_ticker := TickSending m\<rparr>)"
          using TickSending assms(1) by (cases "lo_coalesce l") (simp_all add: sent_directly send_closed)
        then show ?thesis by blast
      qed
    next
      case TickDraining
      then show ?thesis using taken [of l] queue_empty [of l] by (cases "lo_incoming l = 0") auto
    qed (use 4 assms ticker_closed [of l] in auto)
    then show ?thesis by (auto simp: settles_def)
  qed
qed

definition stopping :: "loops \<Rightarrow> bool" where
  "stopping l \<longleftrightarrow> lo_closed l \<and> lo_ticker l \<noteq> TickerStopping \<and>
     (lo_stop l = Waiting \<or> lo_stop l = Returned \<and> running l = 0 \<and> lo_incoming l = 0 \<and> lo_writeCh l = 0)"

lemma settles_not_returned: "settles l l' \<Longrightarrow> running l = 0 \<Longrightarrow> lo_stop l \<noteq> Returned"
  by (auto simp: settles_def all_done_stuck elim: stop_returns_step.cases)

lemma settles_stopping:
  assumes "settles l l'" "stopping l"
  shows "stopping l'"
proof -
  have w: "lo_stop l = Waiting" using assms settles_not_returned by (auto simp: stopping_def)
  have "lo_stop l' = Waiting \<or> lo_stop l' = Returned \<and> running l' = 0 \<and> lo_incoming l' = 0 \<and> lo_writeCh l' = 0"
    using assms(1)
  proof (cases rule: settlesE)
    case (1 i)
    then show ?thesis using w by cases simp_all
  next
    case 2
    then show ?thesis using w by cases simp_all
  next
    case 3
    then show ?thesis using w by cases simp_all
  next
    case 4
    then show ?thesis by cases (simp add: running_0)
  qed
  then show ?thesis using settles_frame [OF assms(1)] assms(2) by (simp add: stopping_def)
qed

lemma tick_begins_stopping: "tick_begins l l' \<Longrightarrow> stopping l \<Longrightarrow> stopping l'"
  by (erule tick_begins.cases) (auto simp: stopping_def running_0)

lemma library_step_stopping: "library_step l l' \<Longrightarrow> stopping l \<Longrightarrow> stopping l'"
  by (auto simp: library_step_def intro: settles_stopping tick_begins_stopping)

lemma library_run_stopping: "library_step\<^sup>*\<^sup>* l l' \<Longrightarrow> stopping l \<Longrightarrow> stopping l'"
  by (induction rule: rtranclp_induct) (auto intro: library_step_stopping)

lemma settles_stuck: "stopping l \<Longrightarrow> \<nexists>l'. settles l l' \<Longrightarrow> lo_stop l = Returned"
  using settles_progress by (auto simp: stopping_def)

lemma settles_returns: "stopping l \<Longrightarrow> \<exists>l'. settles\<^sup>*\<^sup>* l l' \<and> lo_stop l' = Returned"
proof (induction l rule: wf_induct_rule [OF wf_inv_image [OF wf_lex_prod [OF wf_less_than wf_less_than], of "\<lambda>l. (moves_left l, drains_left l)"]])
  case (1 l)
  show ?case
  proof (cases "\<exists>l1. settles l l1")
    case False
    then show ?thesis using settles_stuck [OF 1(2)] by blast
  next
    case True
    then obtain l1 where l1: "settles l l1" by blast
    have "(l1, l) \<in> inv_image (less_than <*lex*> less_than) (\<lambda>l. (moves_left l, drains_left l))"
      using settles_decreases [OF l1] 1(2) by (simp add: stopping_def)
    from 1(1) [OF this settles_stopping [OF l1 1(2)]] obtain l' where "settles\<^sup>*\<^sup>* l1 l'" "lo_stop l' = Returned" by blast
    with l1 show ?thesis by (meson converse_rtranclp_into_rtranclp)
  qed
qed

lemma settles_no_chain: "stopping (f 0) \<Longrightarrow> \<exists>k. \<not> settles (f k) (f (Suc k))"
proof (rule ccontr)
  assume st: "stopping (f 0)" and "\<nexists>k. \<not> settles (f k) (f (Suc k))"
  then have s: "settles (f k) (f (Suc k))" for k by blast
  have "stopping (f k)" for k by (induction k) (use st s settles_stopping in auto)
  then have "((moves_left (f (Suc k)), drains_left (f (Suc k))), (moves_left (f k), drains_left (f k))) \<in> less_than <*lex*> less_than" for k
    using settles_decreases [OF s] by (simp add: stopping_def)
  then show False
    using wf_no_infinite_down_chainE [OF wf_lex_prod [OF wf_less_than wf_less_than], of "\<lambda>k. (moves_left (f k), drains_left (f k))"] by blast
qed

text \<open>So a run of the library that does not end starts infinitely many ticks.\<close>

lemma library_chain_ticks:
  assumes "stopping (f 0)" "\<And>k. library_step (f k) (f (Suc k))"
  shows "\<exists>k \<ge> n. tick_begins (f k) (f (Suc k))"
proof (rule ccontr)
  assume no: "\<not> (\<exists>k \<ge> n. tick_begins (f k) (f (Suc k)))"
  have "stopping (f k)" for k by (induction k) (use assms library_step_stopping in auto)
  then obtain k where "\<not> settles (f (n + k)) (f (Suc (n + k)))"
    using settles_no_chain [of "\<lambda>k. f (n + k)"] by auto
  then show False using assms(2) [of "n + k"] no le_add1 [of n k] unfolding library_step_def by blast
qed

section \<open>Reachable states\<close>

definition loops_ok :: "loops \<Rightarrow> bool" where
  "loops_ok l \<longleftrightarrow> (lo_stop l \<noteq> NotStopped \<longrightarrow> lo_closed l) \<and> lo_incoming l \<le> lo_capacity l \<and> lo_writeCh l \<le> writeCapacity \<and>
     (lo_stop l = Returned \<longrightarrow> running l = 0 \<and> lo_incoming l = 0 \<and> lo_writeCh l = 0)"

lemma loops_step_ok:
  assumes "loops_step l l'" "loops_ok l"
  shows "loops_ok l'"
proof -
  consider "settles l l'" | "tick_begins l l'" | "stop_called l l'" | "stop_in_handler l l'"
    using assms(1) by (auto simp: loops_step_def library_step_def)
  then show ?thesis
  proof cases
    case 1
    then have nr: "lo_stop l \<noteq> Returned" using settles_not_returned assms(2) by (auto simp: loops_ok_def)
    from 1 show ?thesis
    proof (cases rule: settlesE)
      case (1 i)
      then show ?thesis using nr assms(2) by cases (simp_all add: loops_ok_def)
    next
      case 2
      then show ?thesis using nr assms(2) by cases (auto simp: loops_ok_def)
    next
      case 3
      then show ?thesis using nr assms(2) by cases (auto simp: loops_ok_def)
    next
      case 4
      then show ?thesis using assms(2) by cases (simp add: loops_ok_def running_0)
    qed
  next
    case 2
    then show ?thesis using assms(2) by cases (simp add: loops_ok_def running_def)
  next
    case 3
    then show ?thesis using assms(2) by cases (simp add: loops_ok_def)
  next
    case 4
    then show ?thesis using assms(2) by cases (simp add: loops_ok_def)
  qed
qed

lemma loops_run_ok: "loops_step\<^sup>*\<^sup>* l l' \<Longrightarrow> loops_ok l \<Longrightarrow> loops_ok l'"
  by (induction rule: rtranclp_induct) (auto intro: loops_step_ok)

lemma start_ok: "loops_ok (startLoops sc)" "loops_ok (clientLoops cc)"
  by (simp_all add: loops_ok_def startLoops_def clientLoops_def)

section \<open>Properties\<close>

text \<open>C15. \<open>Stop\<close> of a server and \<open>Close\<close> of a client return, if no handler calls them and the \<open>select\<close> of the tick
  loop is not always decided for the ticker. In detail: \<open>Stop\<close> waits, and the ticker is not itself
  waiting in a \<open>Stop\<close> of a handler. Then in whatever order the loops go on, new ticks included, \<open>Stop\<close> can
  still return; the loops get stuck only when it has returned, with no loop running and nothing
  in the channels; and an execution in which it never returns starts ticks for ever, each time
  with \<open>closeCh\<close> closed and ready. In particular readers blocked on a full channel and a
  tick blocked on a full write channel do not block it.\<close>

theorem stop_returns:
  assumes "loops_step\<^sup>*\<^sup>* l0 l" "l0 = startLoops sc \<or> l0 = clientLoops cc" "lo_stop l = Waiting" "lo_ticker l \<noteq> TickerStopping"
  shows "(\<forall>l1. library_step\<^sup>*\<^sup>* l l1 \<longrightarrow> lo_closed l1 \<and> (\<exists>l2. library_step\<^sup>*\<^sup>* l1 l2 \<and> lo_stop l2 = Returned)) \<and>
    (\<forall>l1. library_step\<^sup>*\<^sup>* l l1 \<and> (\<nexists>l2. library_step l1 l2) \<longrightarrow>
       lo_stop l1 = Returned \<and> running l1 = 0 \<and> lo_incoming l1 = 0 \<and> lo_writeCh l1 = 0) \<and>
    (\<forall>f. f 0 = l \<and> (\<forall>k. library_step (f k) (f (Suc k))) \<longrightarrow> (\<forall>n. \<exists>k \<ge> n. tick_begins (f k) (f (Suc k))))"
proof (intro conjI allI impI)
  have "loops_ok l" using loops_run_ok [OF assms(1)] assms(2) start_ok by auto
  then have st: "stopping l" using assms(3,4) by (simp add: loops_ok_def stopping_def)
  {
    fix l1 assume "library_step\<^sup>*\<^sup>* l l1"
    then have st1: "stopping l1" by (rule library_run_stopping [OF _ st])
    then show "lo_closed l1" by (simp add: stopping_def)
    obtain l2 where "settles\<^sup>*\<^sup>* l1 l2" "lo_stop l2 = Returned" using settles_returns [OF st1] by blast
    moreover have "settles\<^sup>*\<^sup>* \<le> library_step\<^sup>*\<^sup>*" by (rule rtranclp_mono) (auto simp: library_step_def)
    ultimately show "\<exists>l2. library_step\<^sup>*\<^sup>* l1 l2 \<and> lo_stop l2 = Returned" by blast
  next
    fix l1 assume l1: "library_step\<^sup>*\<^sup>* l l1 \<and> (\<nexists>l2. library_step l1 l2)"
    then have st1: "stopping l1" using library_run_stopping [OF _ st] by blast
    have "lo_stop l1 = Returned" by (rule settles_stuck [OF st1]) (use l1 in \<open>auto simp: library_step_def\<close>)
    with st1 show "lo_stop l1 = Returned" "running l1 = 0" "lo_incoming l1 = 0" "lo_writeCh l1 = 0" by (simp_all add: stopping_def)
  next
    fix f and n :: nat assume "f 0 = l \<and> (\<forall>k. library_step (f k) (f (Suc k)))"
    then show "\<exists>k \<ge> n. tick_begins (f k) (f (Suc k))" using library_chain_ticks [of f n] st by blast
  }
qed

text \<open>C17. A handler that calls \<open>Stop\<close>, or \<open>Close\<close> of the client, in the mode in which the library ticks
  by itself, blocks for ever: it runs on the goroutine of the ticker, which \<open>Stop\<close> waits for.\<close>

theorem stop_in_handler_deadlocks:
  assumes "stop_in_handler l l1" "loops_step\<^sup>*\<^sup>* l1 l2"
  shows "lo_stop l2 = Waiting \<and> lo_ticker l2 = TickerStopping"
  using assms(2)
proof (induction rule: rtranclp_induct)
  case base
  then show ?case using assms(1) by cases simp
next
  case (step l2 l3)
  then have "running l2 \<noteq> 0" by (simp add: running_def)
  with step show ?case
    by (auto simp: loops_step_def library_step_def settles_def elim!: reader_step.cases writer_step.cases ticker_step.cases
        stop_returns_step.cases tick_begins.cases stop_called.cases stop_in_handler.cases)
qed

section \<open>Witnesses\<close>

theorem stop_returns_witness:
  "\<exists>l l'. loops_step\<^sup>*\<^sup>* (startLoops DefaultServerConfig) l \<and> lo_ticker l = TickDraining \<and> lo_stop l = Waiting \<and>
    library_step l (l\<lparr>lo_incoming := 0, lo_ticker := TickSending 7\<rparr>) \<and>
    library_step\<^sup>*\<^sup>* (l\<lparr>lo_incoming := 0, lo_ticker := TickSending 7\<rparr>) l' \<and> lo_stop l' = Returned"
proof -
  let ?l0 = "startLoops DefaultServerConfig"
  let ?l1 = "?l0\<lparr>lo_ticker := TickDraining\<rparr>"
  let ?l2 = "?l1\<lparr>lo_closed := True, lo_stop := Waiting\<rparr>"
  have "tick_begins ?l0 ?l1" by (rule ticked) (simp add: startLoops_def DefaultServerConfig_def)
  moreover have "stop_called ?l1 ?l2" by (rule stop_begins) (simp add: startLoops_def)
  ultimately have "loops_step ?l0 ?l1" "loops_step ?l1 ?l2" unfolding loops_step_def library_step_def by blast+
  then have r: "loops_step\<^sup>*\<^sup>* ?l0 ?l2" by (rule converse_rtranclp_into_rtranclp [OF _ r_into_rtranclp])
  have "ticker_step ?l2 (?l2\<lparr>lo_ticker := TickSending 7\<rparr>)" by (rule queue_empty) (simp_all add: startLoops_def)
  moreover have eq: "?l2\<lparr>lo_incoming := 0, lo_ticker := TickSending 7\<rparr> = ?l2\<lparr>lo_ticker := TickSending 7\<rparr>" by (simp add: startLoops_def)
  ultimately have st: "library_step ?l2 (?l2\<lparr>lo_incoming := 0, lo_ticker := TickSending 7\<rparr>)"
    unfolding eq library_step_def settles_def by blast
  from stop_returns [OF r disjI1 [OF refl]] obtain l' where
    "library_step\<^sup>*\<^sup>* (?l2\<lparr>lo_incoming := 0, lo_ticker := TickSending 7\<rparr>) l'" "lo_stop l' = Returned"
    using r_into_rtranclp [of library_step, OF st] by auto
  with r st show ?thesis by (intro exI [of _ ?l2] exI [of _ l']) simp
qed

theorem stop_in_handler_deadlocks_witness:
  "\<exists>l l1. loops_step\<^sup>*\<^sup>* (startLoops DefaultServerConfig) l \<and> stop_in_handler l l1 \<and>
    (\<forall>l2. loops_step\<^sup>*\<^sup>* l1 l2 \<longrightarrow> lo_stop l2 \<noteq> Returned)"
proof -
  let ?l0 = "startLoops DefaultServerConfig"
  let ?l1 = "?l0\<lparr>lo_ticker := TickDraining\<rparr>"
  have "tick_begins ?l0 ?l1" by (rule ticked) (simp add: startLoops_def DefaultServerConfig_def)
  then have "loops_step ?l0 ?l1" unfolding loops_step_def library_step_def by blast
  then have r: "loops_step\<^sup>*\<^sup>* ?l0 ?l1" by (rule r_into_rtranclp)
  have h: "stop_in_handler ?l1 (?l1\<lparr>lo_closed := True, lo_stop := Waiting, lo_ticker := TickerStopping\<rparr>)"
    by (rule handler_stops) (simp_all add: startLoops_def)
  have "lo_stop l2 \<noteq> Returned" if "loops_step\<^sup>*\<^sup>* (?l1\<lparr>lo_closed := True, lo_stop := Waiting, lo_ticker := TickerStopping\<rparr>) l2" for l2
    using stop_in_handler_deadlocks [OF h that] by simp
  with r h show ?thesis by blast
qed

end
