(* ===== verification/BufferPool.thy ===== *)
theory BufferPool
  imports Lifecycle "HOL-Library.Monad_Syntax" "HOL-Library.Multiset"
begin

text \<open>
  The buffer pool (\<open>pool.go\<close>) and the discipline with which the send path uses it.

  A slice is an array in a store and a length; every slice the send path keeps starts at the
  beginning of its array, and its capacity is the length of the array. \<open>sync.Pool\<close> may hand out any
  buffer that was put back, or a new one: the store carries a list of choices, one for each call
  of \<open>Get\<close>. The store also has the slices that wait in the channel of the write loop. A panic is
  \<open>None\<close>.
\<close>

section \<open>Definitions\<close>

record slice =
  sl_array :: nat
  sl_len :: nat

record store =
  so_arrays :: "bytes list"
  so_pool :: "slice list"     \<comment> \<open>\<open>bufferPool\<close>\<close>
  so_choices :: "nat list"
  so_queue :: "slice list"    \<comment> \<open>the data of the requests in \<open>writeCh\<close>\<close>

definition cap :: "store \<Rightarrow> slice \<Rightarrow> nat" where
  "cap st s = length (so_arrays st ! sl_array s)"

definition content :: "store \<Rightarrow> slice \<Rightarrow> bytes" where
  "content st s = take (sl_len s) (so_arrays st ! sl_array s)"

definition go_make :: "nat \<Rightarrow> store \<Rightarrow> slice \<times> store" where
  "go_make n st = (\<lparr>sl_array = length (so_arrays st), sl_len = n\<rparr>, st\<lparr>so_arrays := so_arrays st @ [replicate n 0]\<rparr>)"

definition reslice :: "nat \<Rightarrow> store \<Rightarrow> slice \<Rightarrow> slice option" where
  "reslice n st s = (if n \<le> cap st s then Some (s\<lparr>sl_len := n\<rparr>) else None)"

text \<open>Writing the bytes of a slice: \<open>bs\<close> are at most as many as its length.\<close>

definition overwrite :: "slice \<Rightarrow> bytes \<Rightarrow> store \<Rightarrow> store" where
  "overwrite s bs st =
     st\<lparr>so_arrays := (so_arrays st)[sl_array s := bs @ drop (length bs) (so_arrays st ! sl_array s)]\<rparr>"

definition copyTo :: "slice \<Rightarrow> nat \<Rightarrow> bytes \<Rightarrow> store \<Rightarrow> store" where
  "copyTo s off src st = overwrite s (go_copy (content st s) off src) st"

definition pool_Get :: "store \<Rightarrow> slice \<times> store" where
  "pool_Get st =
     (case so_choices st of
        [] \<Rightarrow> go_make DefaultMTU st
      | i # is \<Rightarrow>
          let st = st\<lparr>so_choices := is\<rparr>
          in if i < length (so_pool st)
             then (so_pool st ! i, st\<lparr>so_pool := take i (so_pool st) @ drop (Suc i) (so_pool st)\<rparr>)
             else go_make DefaultMTU st)"

definition GetBuffer :: "store \<Rightarrow> slice \<times> store" where
  "GetBuffer st = pool_Get st"

definition PutBuffer :: "slice \<Rightarrow> store \<Rightarrow> store" where
  "PutBuffer buf st = st\<lparr>so_pool := so_pool st @ [buf]\<rparr>"

definition pool_getSendBuffer :: "nat \<Rightarrow> store \<Rightarrow> (slice \<times> store) option" where
  "pool_getSendBuffer n st =
     (if n \<le> DefaultMTU
      then let (b, st) = pool_Get st in map_option (\<lambda>b. (b, st)) (reslice n st b)
      else Some (go_make n st))"

definition pool_putSendBuffer :: "slice \<Rightarrow> store \<Rightarrow> store" where
  "pool_putSendBuffer buf st =
     (if cap st buf = DefaultMTU then st\<lparr>so_pool := so_pool st @ [buf\<lparr>sl_len := cap st buf\<rparr>]\<rparr> else st)"

definition pool_putAll :: "slice list \<Rightarrow> store \<Rightarrow> store" where
  "pool_putAll bufs st = fold pool_putSendBuffer bufs st"

text \<open>\<open>append\<close>: in place while the capacity lasts. An array that has to grow gets the capacity needed, where Go may
  round it up; the send path does not come there, since a flush starts a new datagram before.\<close>

definition go_append :: "slice \<Rightarrow> bytes \<Rightarrow> store \<Rightarrow> slice \<times> store" where
  "go_append s bs st =
     (let n = sl_len s + length bs
      in if n \<le> cap st s then (s\<lparr>sl_len := n\<rparr>, overwrite s (content st s @ bs) st)
         else let (t, st') = go_make n st in (t, overwrite t (content st s @ bs) st'))"

section \<open>Ownership\<close>

text \<open>
  \<open>own st L\<close>: the buffers of the pool, those in the channel and those in \<open>L\<close> are pairwise different
  arrays, and what is in the pool has the length and the capacity of \<open>DefaultMTU\<close>. \<open>L\<close> are the
  slices in use. \<open>same st st' L\<close>: their contents and capacities have not changed, nor has the channel.
\<close>

definition own :: "store \<Rightarrow> slice list \<Rightarrow> bool" where
  "own st L \<longleftrightarrow>
     distinct (map sl_array (so_pool st @ so_queue st @ L)) \<and>
     (\<forall>s \<in> set (so_pool st @ so_queue st @ L). sl_array s < length (so_arrays st) \<and> sl_len s \<le> cap st s) \<and>
     (\<forall>s \<in> set (so_pool st). sl_len s = DefaultMTU \<and> cap st s = DefaultMTU)"

definition same :: "store \<Rightarrow> store \<Rightarrow> slice list \<Rightarrow> bool" where
  "same st st' L \<longleftrightarrow> so_queue st' = so_queue st \<and> (\<forall>s \<in> set (so_queue st @ L). content st' s = content st s \<and> cap st' s = cap st s)"

lemma own_perm: "own st L \<Longrightarrow> mset L' = mset L \<Longrightarrow> own st L'"
proof -
  assume o: "own st L" and m: "mset L' = mset L"
  have s: "set L' = set L" by (rule mset_eq_setD [OF m])
  have "mset (map sl_array L') = mset (map sl_array L)" using m by (metis mset_map)
  then have "distinct (map sl_array L') = distinct (map sl_array L)"
    by (metis card_distinct distinct_card size_mset mset_eq_setD)
  then show ?thesis using o s by (auto simp: own_def)
qed

lemma same_refl [simp]: "same st st L"
  by (simp add: same_def)

lemma same_trans: "same st st' L \<Longrightarrow> same st' st'' L \<Longrightarrow> same st st'' L"
  by (simp add: same_def)

lemma same_mono: "same st st' L \<Longrightarrow> set L' \<subseteq> set L \<Longrightarrow> same st st' L'"
  by (auto simp: same_def)

lemma own_drop: "own st (s # L) \<Longrightarrow> own st L"
  by (auto simp: own_def)

lemma own_len: "own st (s # L) \<Longrightarrow> length (content st s) = sl_len s"
  by (simp add: own_def content_def cap_def)

lemma own_mem: "own st L \<Longrightarrow> s \<in> set L \<Longrightarrow> length (content st s) = sl_len s \<and> sl_len s \<le> cap st s"
  by (simp add: own_def content_def cap_def)

lemma own_reslice: "own st (s # L) \<Longrightarrow> n \<le> cap st s \<Longrightarrow> own st (s\<lparr>sl_len := n\<rparr> # L)"
  by (auto simp: own_def cap_def)

lemma cap_reslice [simp]: "cap st (s\<lparr>sl_len := n\<rparr>) = cap st s"
  by (simp add: cap_def)

lemma content_reslice: "n \<le> sl_len s \<Longrightarrow> content st (s\<lparr>sl_len := n\<rparr>) = take n (content st s)"
  by (simp add: content_def min_def)

lemma go_make_own:
  assumes "own st L" "go_make n st = (b, st')"
  shows "own st' (b # L)" "same st st' L" "sl_len b = n" "cap st' b = n"
proof -
  have st': "b = \<lparr>sl_array = length (so_arrays st), sl_len = n\<rparr>" "st' = st\<lparr>so_arrays := so_arrays st @ [replicate n 0]\<rparr>"
    using assms(2) by (auto simp: go_make_def)
  have old: "(so_arrays st @ [replicate n 0]) ! sl_array s = so_arrays st ! sl_array s"
    "sl_array s < length (so_arrays st)" "sl_array s \<noteq> length (so_arrays st)"
    if "s \<in> set (so_pool st @ so_queue st @ L)" for s
  proof -
    show "sl_array s < length (so_arrays st)" using assms(1) that by (simp only: own_def)
    then show "(so_arrays st @ [replicate n 0]) ! sl_array s = so_arrays st ! sl_array s"
      "sl_array s \<noteq> length (so_arrays st)" by (simp_all add: nth_append)
  qed
  show "own st' (b # L)" using assms(1) old unfolding own_def st' cap_def by (fastforce intro: less_SucI)
  show "same st st' L" using old unfolding same_def st' content_def cap_def by simp
  show "sl_len b = n" "cap st' b = n" by (simp_all add: st' cap_def)
qed

lemma pool_Get_own:
  assumes "own st L" "pool_Get st = (b, st')"
  shows "own st' (b # L) \<and> same st st' L \<and> cap st' b = DefaultMTU"
proof (cases "so_choices st")
  case Nil
  then show ?thesis using go_make_own [OF assms(1)] assms(2) by (simp add: pool_Get_def)
next
  case (Cons i "is")
  let ?st = "st\<lparr>so_choices := is\<rparr>"
  have o: "own ?st L" using assms(1) by (simp add: own_def cap_def)
  have sm: "same st ?st L" by (simp add: same_def content_def cap_def)
  show ?thesis
  proof (cases "i < length (so_pool st)")
    case True
    let ?p = "take i (so_pool st) @ drop (Suc i) (so_pool st)"
    have b: "b = so_pool st ! i" and st': "st' = ?st\<lparr>so_pool := ?p\<rparr>"
      using assms(2) Cons True by (auto simp: pool_Get_def)
    obtain xs ys where p: "so_pool st = xs @ b # ys" "?p = xs @ ys"
      using id_take_nth_drop [OF True] b by blast
    show ?thesis using assms(1) unfolding own_def st' same_def cap_def content_def p(2) by (auto simp: p(1))
  next
    case False
    then have "go_make DefaultMTU ?st = (b, st')" using assms(2) Cons by (simp add: pool_Get_def)
    from go_make_own [OF o this] sm show ?thesis by (auto intro: same_trans)
  qed
qed

lemma getSendBuffer_own:
  assumes "own st L"
  shows "\<exists>b st'. pool_getSendBuffer n st = Some (b, st') \<and> own st' (b # L) \<and> same st st' L \<and>
           sl_len b = n \<and> length (content st' b) = n \<and> n \<le> cap st' b"
proof -
  obtain b st' where g: "pool_Get st = (b, st')" by (cases "pool_Get st")
  obtain b' st'' where m: "go_make n st = (b', st'')" by (cases "go_make n st")
  have "\<exists>b st'. pool_getSendBuffer n st = Some (b, st') \<and> own st' (b # L) \<and> same st st' L \<and> sl_len b = n \<and> n \<le> cap st' b"
    using pool_Get_own [OF assms g] go_make_own [OF assms m]
    by (cases "n \<le> DefaultMTU") (auto simp: pool_getSendBuffer_def reslice_def g m intro: own_reslice)
  then show ?thesis using own_len by blast
qed

lemma putSendBuffer_own:
  assumes "own st (b # L)"
  shows "own (pool_putSendBuffer b st) L" "same st (pool_putSendBuffer b st) L"
proof -
  have "distinct (map sl_array ((so_pool st @ [b\<lparr>sl_len := n\<rparr>]) @ so_queue st @ L))" for n
    using assms unfolding own_def by auto
  moreover have "cap (st\<lparr>so_pool := p\<rparr>) s = cap st s" for p s by (simp add: cap_def)
  ultimately show "own (pool_putSendBuffer b st) L"
    using assms own_drop [OF assms] by (cases "cap st b = DefaultMTU") (simp_all add: pool_putSendBuffer_def own_def)
  show "same st (pool_putSendBuffer b st) L"
    by (simp add: pool_putSendBuffer_def same_def content_def cap_def)
qed

lemma content_putSendBuffer [simp]: "content (pool_putSendBuffer b st) s = content st s" "cap (pool_putSendBuffer b st) s = cap st s"
  by (simp_all add: pool_putSendBuffer_def content_def cap_def)

lemma putAll_own: "own st (bs @ L) \<Longrightarrow> own (pool_putAll bs st) L \<and> same st (pool_putAll bs st) L"
proof (induction bs arbitrary: st)
  case (Cons b bs)
  then have "own st (b # bs @ L)" by simp
  note put = putSendBuffer_own [OF this]
  have "same st (pool_putSendBuffer b st) L" using put(2) by (rule same_mono) auto
  then show ?case using Cons.IH [OF put(1)] by (auto simp: pool_putAll_def intro: same_trans)
qed (simp add: pool_putAll_def)

lemma overwrite_own:
  assumes "own st (b # L)" "length bs \<le> cap st b"
  shows "own (overwrite b bs st) (b # L)" "same st (overwrite b bs st) L"
    "cap (overwrite b bs st) b = cap st b"
    "content (overwrite b bs st) (b\<lparr>sl_len := length bs\<rparr>) = bs"
proof -
  have a: "sl_array b < length (so_arrays st)" using assms(1) by (simp add: own_def)
  have other: "sl_array s \<noteq> sl_array b" if "s \<in> set (so_pool st @ so_queue st @ L)" for s
  proof -
    have "distinct (map sl_array (so_pool st @ so_queue st @ b # L))" using assms(1) unfolding own_def by (rule conjunct1)
    then have "sl_array b \<notin> sl_array ` set (so_pool st @ so_queue st @ L)" by auto
    then show ?thesis using that by (metis imageI)
  qed
  have c: "cap (overwrite b bs st) s = cap st s" for s
    using assms(2) a by (cases "sl_array s = sl_array b") (auto simp: cap_def overwrite_def)
  then show "cap (overwrite b bs st) b = cap st b" .
  show "own (overwrite b bs st) (b # L)" using assms(1) unfolding own_def c by (simp add: overwrite_def)
  have "content (overwrite b bs st) s = content st s" if "s \<in> set (so_pool st @ so_queue st @ L)" for s
    using other [OF that] by (simp add: content_def overwrite_def)
  moreover have "so_queue (overwrite b bs st) = so_queue st" by (simp add: overwrite_def)
  ultimately show "same st (overwrite b bs st) L" by (simp add: same_def c)
  show "content (overwrite b bs st) (b\<lparr>sl_len := length bs\<rparr>) = bs" using a by (simp add: content_def overwrite_def)
qed

lemma overwrite_all:
  assumes "own st (b # L)" "length bs = sl_len b"
  shows "own (overwrite b bs st) (b # L)" "same st (overwrite b bs st) L" "content (overwrite b bs st) b = bs"
    "cap (overwrite b bs st) b = cap st b"
proof -
  have le: "length bs \<le> cap st b" using assms by (simp add: own_def)
  have "b\<lparr>sl_len := length bs\<rparr> = b" using assms(2) by simp
  then show "content (overwrite b bs st) b = bs" using overwrite_own(4) [OF assms(1) le] by simp
  show "own (overwrite b bs st) (b # L)" "same st (overwrite b bs st) L" "cap (overwrite b bs st) b = cap st b"
    by (rule overwrite_own [OF assms(1) le])+
qed

lemma copyTo_own:
  assumes "own st (b # L)" "off \<le> sl_len b"
  shows "own (copyTo b off src st) (b # L)" "same st (copyTo b off src st) L"
    "content (copyTo b off src st) b = go_copy (content st b) off src"
proof -
  have "length (go_copy (content st b) off src) = sl_len b" using own_len [OF assms(1)] assms(2) by simp
  from overwrite_all [OF assms(1) this]
  show "own (copyTo b off src st) (b # L)" "same st (copyTo b off src st) L"
    "content (copyTo b off src st) b = go_copy (content st b) off src" by (simp_all add: copyTo_def)
qed

lemma go_append_own:
  assumes "own st (b # L)" "go_append b bs st = (b', st')"
  shows "own st' (b' # L)" "same st st' L" "content st' b' = content st b @ bs"
proof -
  note len = own_len [OF assms(1)]
  have "own st' (b' # L) \<and> same st st' L \<and> content st' b' = content st b @ bs"
  proof (cases "sl_len b + length bs \<le> cap st b")
    case True
    then have b': "b' = b\<lparr>sl_len := length (content st b @ bs)\<rparr>" "st' = overwrite b (content st b @ bs) st"
      using assms(2) len by (auto simp: go_append_def)
    have le: "length (content st b @ bs) \<le> cap st b" using True len by simp
    note ow = overwrite_own [OF assms(1) le]
    show ?thesis unfolding b' using ow own_reslice [OF ow(1)] le by simp
  next
    case False
    obtain t st1 where m: "go_make (sl_len b + length bs) st = (t, st1)" by (metis surj_pair)
    from go_make_own [OF own_drop [OF assms(1)] m] len
    have o: "own st1 (t # L)" "same st st1 L" "length (content st b @ bs) = sl_len t" by simp_all
    have "b' = t" "st' = overwrite t (content st b @ bs) st1"
      using assms(2) False m by (auto simp: go_append_def Let_def)
    then show ?thesis using overwrite_all [OF o(1,3)] o(2) by (auto intro: same_trans)
  qed
  then show "own st' (b' # L)" "same st st' L" "content st' b' = content st b @ bs" by simp_all
qed

text \<open>The exported functions: \<open>PutBuffer\<close> takes back what \<open>GetBuffer\<close> returned.\<close>

lemma GetBuffer_own:
  assumes "own st L" "GetBuffer st = (b, st')"
  shows "own st' (b # L)" "same st st' L" "cap st' b = DefaultMTU" "sl_len b = DefaultMTU"
proof -
  have g: "pool_Get st = (b, st')" using assms(2) by (simp add: GetBuffer_def)
  show "own st' (b # L)" "same st st' L" "cap st' b = DefaultMTU" using pool_Get_own [OF assms(1) g] by simp_all
  have "\<forall>b \<in> set (so_pool st). sl_len b = DefaultMTU" using assms(1) by (simp add: own_def)
  then show "sl_len b = DefaultMTU" using g by (auto simp: pool_Get_def go_make_def Let_def split: list.splits if_splits)
qed

lemma PutBuffer_own:
  assumes "own st (b # L)" "sl_len b = DefaultMTU" "cap st b = DefaultMTU"
  shows "own (PutBuffer b st) L" "same st (PutBuffer b st) L"
proof -
  have "PutBuffer b st = pool_putSendBuffer b st" using assms(2,3) by (simp add: PutBuffer_def pool_putSendBuffer_def)
  then show "own (PutBuffer b st) L" "same st (PutBuffer b st) L" using putSendBuffer_own [OF assms(1)] by simp_all
qed

end
