(* ===== verification/PooledSend.thy ===== *)
theory PooledSend
  imports BufferPool
begin

text \<open>
  The send path and the release of buffers (\<open>connection.go\<close>, \<open>batch.go\<close>, \<open>channel.go\<close> and the tick of
  \<open>server.go\<close>) over the store of \<open>BufferPool\<close>: every \<open>getSendBuffer\<close>, \<open>putSendBuffer\<close> and write into a
  buffer is a step on the store.

  \<open>buffers\<close> are the slices a connection holds: \<open>raw\<close> of the pending packets of each channel (their
  \<open>poolBuf\<close> is the same array up to its capacity), the batch buffer and the disconnect packet. The
  functions below read packets from these slices. The fields \<open>pp_raw\<close>, \<open>c_batchBuf\<close> and
  \<open>c_disconnectPacket\<close> of the connection record what was in a buffer when the connection took it;
  nothing here reads them, and the main result is that the slices still have these contents when
  they are used.
\<close>

section \<open>Definitions\<close>

record buffers =
  bf_pending :: "slice list list"
  bf_batch :: "slice list"
  bf_disconnect :: "slice option"

type_synonym 'u pst = "'u st \<times> buffers \<times> store"

text \<open>A \<open>sendFunc\<close> on the store; it may use buffers of its own.\<close>

type_synonym 'u pooledSend = "'u st \<Rightarrow> slice \<Rightarrow> store \<Rightarrow> (('u st \<times> fw_error option) \<times> store) option"

subsection \<open>One packet\<close>

definition pool_Encrypt :: "CipherState \<Rightarrow> bytes \<Rightarrow> slice \<Rightarrow> store \<Rightarrow> (CipherState \<times> slice res) \<times> store" where
  "pool_Encrypt cs plaintext dst st =
     (case Encrypt cs plaintext (so_arrays st ! sl_array dst) of
        (cs, Inl e) \<Rightarrow> ((cs, Inl e), st)
      | (cs, Inr w) \<Rightarrow>
          if length w \<le> cap st dst then ((cs, Inr (dst\<lparr>sl_len := length w\<rparr>)), overwrite dst w st)
          else let (b, st) = go_make (length w) st in ((cs, Inr b), overwrite b w st))"

definition pool_singleFrame :: "slice \<Rightarrow> store \<Rightarrow> (slice \<times> store) option" where
  "pool_singleFrame encrypted st =
     do {
       (frame, st) \<leftarrow> pool_getSendBuffer (BatchHeaderSize + BatchLenSize + sl_len encrypted) st;
       let st = overwrite frame ((content st frame)[0 := 1, 1 := of_nat (sl_len encrypted),
                  2 := of_nat (drop_bit 8 (sl_len encrypted))]) st;
       Some (frame, copyTo frame 3 (content st encrypted) st)
     }"

definition pool_sendFramed :: "'u pooledSend \<Rightarrow> slice \<Rightarrow> 'u st \<Rightarrow> store \<Rightarrow> (('u st \<times> fw_error option) \<times> store) option" where
  "pool_sendFramed psf encrypted s st =
     (if c_batchEnabled (fst s)
      then do {
        (frame, st) \<leftarrow> pool_singleFrame encrypted st;
        (r, st) \<leftarrow> psf s frame st;
        Some (r, pool_putSendBuffer frame st)
      }
      else psf s encrypted st)"

definition pool_writeEncrypted :: "'u pooledSend \<Rightarrow> slice \<Rightarrow> 'u pst \<Rightarrow> (fw_error option \<times> 'u pst) option" where
  "pool_writeEncrypted psf encrypted p =
     (case p of ((c, u), bf, st) \<Rightarrow>
        if c_batchEnabled c \<and> \<not> c_skipBatch c \<and> length (bf_batch bf) < maxBatchQueueSize
        then Some (None, (c\<lparr>c_batchBuf := c_batchBuf c @ [content st encrypted]\<rparr>, u),
                   bf\<lparr>bf_batch := bf_batch bf @ [encrypted]\<rparr>, st)
        else do {
          ((s, err), st) \<leftarrow> pool_sendFramed psf encrypted (c, u) st;
          Some (err, s, bf, pool_putSendBuffer encrypted st)
        })"

definition pool_sendPacket ::
  "'u pooledSend \<Rightarrow> byte \<Rightarrow> byte \<Rightarrow> bytes \<Rightarrow> time \<Rightarrow> 'u pst \<Rightarrow> (fw_error option \<times> 'u pst) option" where
  "pool_sendPacket psf flags channelID payload now p =
     (case p of ((c, u), bf, st) \<Rightarrow>
        let (ch, seq) = nextSequence (c_channels c ! unat channelID);
            c = setChannel (unat channelID) ch c;
            (ack, ackField) = ackState ch;
            hdr = \<lparr>Flags = flags, Channel = channelID, Sequence = seq, Ack = ack, AckField = ackField\<rparr>
        in do {
          (buf, st) \<leftarrow> pool_getSendBuffer (MaxHeaderSize + length payload) st;
          case MarshalHeader (content st buf) hdr of
            (b, Inl e) \<Rightarrow> Some (Some e, (c, u), bf, pool_putSendBuffer buf (overwrite buf b st))
          | (b, Inr n) \<Rightarrow>
              do {
                let st = copyTo buf n payload (overwrite buf b st);
                plaintext \<leftarrow> reslice (n + length payload) st buf;
                (encBuf, st) \<leftarrow> pool_getSendBuffer (NonceSize + sl_len plaintext + TagSize) st;
                let ((cipher, r), st) = pool_Encrypt (c_sendCipher c) (content st plaintext) encBuf st;
                let c = c\<lparr>c_sendCipher := cipher\<rparr>;
                case r of
                  Inl e \<Rightarrow> Some (Some e, (c, u), bf, pool_putSendBuffer buf (pool_putSendBuffer encBuf st))
                | Inr encrypted \<Rightarrow>
                    do {
                      (err, (c, u), bf, st) \<leftarrow> pool_writeEncrypted psf encrypted ((c, u), bf, st);
                      case err of
                        Some e \<Rightarrow> Some (Some e, (c, u), bf, pool_putSendBuffer buf st)
                      | None \<Rightarrow>
                          if reliable (c_channels c ! unat channelID)
                          then Some (None, (trackSent channelID seq (content st plaintext) now c, u),
                                 bf\<lparr>bf_pending := (bf_pending bf)[unat channelID := bf_pending bf ! unat channelID @ [plaintext]]\<rparr>, st)
                          else Some (None, (c, u), bf, pool_putSendBuffer buf st)
                    }
              }
        })"

definition pool_sendSinglePacket ::
  "'u pooledSend \<Rightarrow> byte \<Rightarrow> bytes \<Rightarrow> time \<Rightarrow> 'u pst \<Rightarrow> (fw_error option \<times> 'u pst) option" where
  "pool_sendSinglePacket psf channelID payload now p =
     do {
       (err, (c, u), bf, st) \<leftarrow> pool_sendPacket psf 0 channelID payload now p;
       Some (err, (if err = None then c\<lparr>c_lastSend := now\<rparr> else c, u), bf, st)
     }"

fun pool_sendFragments ::
  "'u pooledSend \<Rightarrow> byte \<Rightarrow> bytes list \<Rightarrow> time \<Rightarrow> 'u pst \<Rightarrow> (fw_error option \<times> 'u pst) option" where
  "pool_sendFragments psf channelID [] now p = Some (None, p)"
| "pool_sendFragments psf channelID (frag # frags) now p =
     do {
       (err, p) \<leftarrow> pool_sendPacket psf FlagFragment channelID frag now p;
       if err = None then pool_sendFragments psf channelID frags now p else Some (err, p)
     }"

definition pool_sendFragmented ::
  "'u pooledSend \<Rightarrow> byte \<Rightarrow> bytes \<Rightarrow> byte \<Rightarrow> time \<Rightarrow> 'u pst \<Rightarrow> (fw_error option \<times> 'u pst) option" where
  "pool_sendFragmented psf channelID compressed fragFlags now p =
     (case p of ((c, u), bf, st) \<Rightarrow>
        let (c, fid) = nextFragmentID c
        in case splitMessage compressed fid fragFlags of
             Inl e \<Rightarrow> Some (Some e, (c, u), bf, st)
           | Inr fragments \<Rightarrow>
               do {
                 (err, (c, u), bf, st) \<leftarrow> pool_sendFragments psf channelID fragments now ((c, u), bf, st);
                 Some (err, (if err = None then c\<lparr>c_lastSend := now\<rparr> else c, u), bf, st)
               })"

text \<open>The scratch buffer of \<open>compressPayload\<close>. Its size and what the compressor leaves in it are up
  to the compression library; the result is a copy.\<close>

record scratch_lib =
  CompressBlockBound :: "nat \<Rightarrow> nat"
  compressor_writes :: "bytes \<Rightarrow> bytes"

definition pool_compressPayload ::
  "comp_lib \<Rightarrow> scratch_lib \<Rightarrow> compressorPool \<Rightarrow> bytes \<Rightarrow> store \<Rightarrow> ((bytes \<times> byte) res \<times> store) option" where
  "pool_compressPayload lib slib cp payload st =
     (if cp_compressor cp = None \<or> (of_nat (length payload) :: u32) < cfg_Hurdle (cp_config cp)
      then Some (compressPayload lib cp payload, st)
      else do {
        (dst, st) \<leftarrow> pool_getSendBuffer (4 + CompressBlockBound slib (length payload)) st;
        let st = overwrite dst (take (cap st dst) (compressor_writes slib payload)) st;
        Some (compressPayload lib cp payload, pool_putSendBuffer dst st)
      })"

definition pool_sendMessage ::
  "comp_lib \<Rightarrow> scratch_lib \<Rightarrow> 'u pooledSend \<Rightarrow> bytes \<Rightarrow> byte \<Rightarrow> time \<Rightarrow> 'u pst \<Rightarrow> (fw_error option \<times> 'u pst) option" where
  "pool_sendMessage lib slib psf data channelID now p =
     (case p of ((c, u), bf, st) \<Rightarrow>
        if conn_channel c channelID = None then Some (Some ErrInvalidChannel, p)
        else case c_compress c of
               None \<Rightarrow> Some (Some PanicNilPointer, p)
             | Some pool \<Rightarrow>
                 do {
                   (r, st) \<leftarrow> pool_compressPayload lib slib pool data st;
                   case r of
                     Inl e \<Rightarrow> Some (Some e, (c, u), bf, st)
                   | Inr (compressed, fragFlags) \<Rightarrow>
                       if MaxFragmentPayload < length compressed \<or> fragFlags \<noteq> 0
                       then pool_sendFragmented psf channelID compressed fragFlags now ((c, u), bf, st)
                       else pool_sendSinglePacket psf channelID compressed now ((c, u), bf, st)
                 })"

definition pool_SendImmediate ::
  "comp_lib \<Rightarrow> scratch_lib \<Rightarrow> 'u pooledSend \<Rightarrow> bytes \<Rightarrow> byte \<Rightarrow> time \<Rightarrow> 'u pst \<Rightarrow> (fw_error option \<times> 'u pst) option" where
  "pool_SendImmediate lib slib psf data channel now p =
     (case p of ((c, u), bf, st) \<Rightarrow>
        if c_state c \<noteq> StateConnected then Some (Some ErrConnectionClosed, p)
        else if length (c_channels c) \<le> unat channel then Some (Some ErrInvalidChannel, p)
        else do {
          (err, (c, u), bf, st) \<leftarrow> pool_sendMessage lib slib psf data channel now ((c\<lparr>c_skipBatch := True\<rparr>, u), bf, st);
          Some (err, (c\<lparr>c_skipBatch := False\<rparr>, u), bf, st)
        })"

section \<open>Buffers and contents\<close>

definition inUse :: "buffers \<Rightarrow> slice list" where
  "inUse bf = concat (bf_pending bf) @ bf_batch bf @ (case bf_disconnect bf of None \<Rightarrow> [] | Some s \<Rightarrow> [s])"

definition raws :: "connection \<Rightarrow> bytes list list" where
  "raws c = map (\<lambda>ch. map pp_raw (ch_pendingSend ch)) (c_channels c)"

definition matches :: "connection \<Rightarrow> buffers \<Rightarrow> store \<Rightarrow> bool" where
  "matches c bf st \<longleftrightarrow> map (map (content st)) (bf_pending bf) = raws c \<and>
     map (content st) (bf_batch bf) = c_batchBuf c \<and> map_option (content st) (bf_disconnect bf) = c_disconnectPacket c"

definition sealed_ok :: "connection \<Rightarrow> bool" where
  "sealed_ok c \<longleftrightarrow> (\<forall>a. cs_aead (c_sendCipher c) = Some a \<longrightarrow> aead_ok a)"

text \<open>
  \<open>pooled_ok\<close>: the slices of the connection and those in \<open>L\<close> belong to their holders alone, and the
  connection's have the contents its record says. \<open>implements P Q\<close>: the function on the store
  returns what the function on the bytes returns, keeps this, and does not touch \<open>L\<close>.
\<close>

definition pooled_ok :: "('u \<Rightarrow> store \<Rightarrow> bool) \<Rightarrow> 'u pst \<Rightarrow> slice list \<Rightarrow> bool" where
  "pooled_ok net_ok p L \<longleftrightarrow>
     (case p of ((c, u), bf, st) \<Rightarrow> own st (inUse bf @ L) \<and> matches c bf st \<and> net_ok u st \<and> sealed_ok c)"

definition untouched :: "store \<Rightarrow> store \<Rightarrow> slice list \<Rightarrow> bool" where
  "untouched st st' L \<longleftrightarrow> (\<forall>s \<in> set L. content st' s = content st s \<and> cap st' s = cap st s)"

definition runs :: "('u \<Rightarrow> store \<Rightarrow> bool) \<Rightarrow> ('r \<times> 'u pst) option \<Rightarrow> store \<Rightarrow> slice list \<Rightarrow> 'u st \<times> 'r \<Rightarrow> bool" where
  "runs net_ok m st L q \<longleftrightarrow>
     (\<exists>bf' st'. m = Some (snd q, fst q, bf', st') \<and> pooled_ok net_ok (fst q, bf', st') L \<and> untouched st st' L)"

definition implements :: "('u \<Rightarrow> store \<Rightarrow> bool) \<Rightarrow> ('u pst \<Rightarrow> ('r \<times> 'u pst) option) \<Rightarrow> ('u st \<Rightarrow> 'u st \<times> 'r) \<Rightarrow> bool" where
  "implements net_ok P Q \<longleftrightarrow>
     (\<forall>s bf st L. pooled_ok net_ok (s, bf, st) L \<longrightarrow> runs net_ok (P (s, bf, st)) st L (Q s))"

definition same_packets :: "connection \<Rightarrow> connection \<Rightarrow> bool" where
  "same_packets c c' \<longleftrightarrow> raws c' = raws c \<and> c_batchBuf c' = c_batchBuf c \<and>
     c_disconnectPacket c' = c_disconnectPacket c \<and> cs_aead (c_sendCipher c') = cs_aead (c_sendCipher c)"

lemma untouched_refl [simp]: "untouched st st L"
  by (simp add: untouched_def)

lemma untouched_trans: "untouched st st' L \<Longrightarrow> untouched st' st'' L \<Longrightarrow> untouched st st'' L"
  by (simp add: untouched_def)

lemma untouched_tail: "untouched st st' (b # L) \<Longrightarrow> untouched st st' L"
  by (simp add: untouched_def)

lemma untouched_same: "same st st' (M @ L) \<Longrightarrow> untouched st st' L"
  by (simp add: untouched_def same_def)

lemma matches_unt: "matches c bf st \<Longrightarrow> untouched st st' (inUse bf) \<Longrightarrow> matches c bf st'"
proof -
  assume m: "matches c bf st" and sm: "untouched st st' (inUse bf)"
  have eq: "content st' s = content st s" if "s \<in> set (inUse bf)" for s
    using sm that by (simp add: untouched_def)
  have "map (map (content st')) (bf_pending bf) = map (map (content st)) (bf_pending bf)"
    "map (content st') (bf_batch bf) = map (content st) (bf_batch bf)"
    using eq by (auto simp: inUse_def)
  moreover have "map_option (content st') (bf_disconnect bf) = map_option (content st) (bf_disconnect bf)"
    using eq by (cases "bf_disconnect bf") (simp_all add: inUse_def)
  ultimately show ?thesis using m unfolding matches_def by metis
qed

lemma matches_same: "matches c bf st \<Longrightarrow> same st st' (inUse bf @ L) \<Longrightarrow> matches c bf st'"
  by (erule matches_unt) (simp add: untouched_def same_def)

lemma ok_conn: "pooled_ok N ((c, u), bf, st) L \<Longrightarrow> same_packets c c' \<Longrightarrow> pooled_ok N ((c', u), bf, st) L"
  by (simp add: pooled_ok_def matches_def same_packets_def sealed_ok_def)

lemma same_packets_fields [simp]:
  "same_packets c (c\<lparr>c_lastSend := t\<rparr>)" "same_packets c (c\<lparr>c_skipBatch := b\<rparr>)" "same_packets c (c\<lparr>c_fragmentID := i\<rparr>)"
  "same_packets c (c\<lparr>c_bytesSent := n, c_sendBW := w\<rparr>)" "same_packets c (c\<lparr>c_lastSend := t, c_cc := k\<rparr>)"
  "same_packets c (c\<lparr>c_sendQueue := q\<rparr>)" "same_packets c (c\<lparr>c_lastRecv := t\<rparr>)" "same_packets c (c\<lparr>c_recvCipher := r\<rparr>)"
  "same_packets c (c\<lparr>c_loss := l\<rparr>)"
  by (simp_all add: same_packets_def raws_def)

lemma same_packets_trans: "same_packets c c' \<Longrightarrow> same_packets c' c'' \<Longrightarrow> same_packets c c''"
  by (simp add: same_packets_def)

lemma raws_setChannel: "raws (setChannel i ch c) = (raws c)[i := map pp_raw (ch_pendingSend ch)]"
  by (simp add: raws_def setChannel_def map_update)

lemma raws_nth: "i < length (c_channels c) \<Longrightarrow> raws c ! i = map pp_raw (ch_pendingSend (c_channels c ! i))"
  by (simp add: raws_def)

lemma length_raws [simp]: "length (raws c) = length (c_channels c)"
  by (simp add: raws_def)

lemma same_packets_channel:
  assumes "map pp_raw (ch_pendingSend ch) = map pp_raw (ch_pendingSend (c_channels c ! i))"
  shows "same_packets c (setChannel i ch c)"
proof -
  have "(raws c)[i := map pp_raw (ch_pendingSend ch)] = raws c"
    unfolding assms by (cases "i < length (c_channels c)") (simp_all add: raws_nth [symmetric] list_update_beyond)
  then show ?thesis unfolding same_packets_def raws_setChannel by (simp add: setChannel_def)
qed

lemma same_packets_cipher: "cs_aead k = cs_aead (c_sendCipher c) \<Longrightarrow> same_packets c (c\<lparr>c_sendCipher := k\<rparr>)"
  by (simp add: same_packets_def raws_def)

lemma Encrypt_any:
  assumes "sealed_ok c"
  shows "\<exists>k w. (\<forall>dst. Encrypt (c_sendCipher c) p dst = (k, Inr w)) \<and> cs_aead k = cs_aead (c_sendCipher c) \<and>
    length w \<le> NonceSize + length p + TagSize"
proof (cases "cs_aead (c_sendCipher c)")
  case None
  then show ?thesis by (simp add: Encrypt_pass)
next
  case (Some a)
  then have a: "aead_ok a" using assms by (simp add: sealed_ok_def)
  show ?thesis using Encrypt_sealed [OF Some a] length_sealed [OF a] by (simp add: WireOverhead_def)
qed

lemma overwrite_overwrite: "length bs = length cs \<Longrightarrow> overwrite b cs (overwrite b bs st) = overwrite b cs st"
  by (cases "sl_array b < length (so_arrays st)") (simp_all add: overwrite_def list_update_beyond)

lemma take_three: "3 \<le> length xs \<Longrightarrow> take 3 (xs[0 := a, Suc 0 := b, 2 := c]) = [a, b, c]"
  by (cases xs; cases "tl xs"; cases "tl (tl xs)") (auto simp: numeral_2_eq_2 numeral_3_eq_3)

lemma length_held: "pooled_ok N ((c, u), bf, st) L \<Longrightarrow> length (bf_pending bf) = length (c_channels c)"
proof -
  assume "pooled_ok N ((c, u), bf, st) L"
  then have "map (map (content st)) (bf_pending bf) = raws c" by (simp add: pooled_ok_def matches_def)
  then show ?thesis by (metis length_map length_raws)
qed

subsection \<open>Taking, filling and returning a buffer\<close>

lemma implementsI:
  "(\<And>c u bf st L. pooled_ok N ((c, u), bf, st) L \<Longrightarrow> runs N (P ((c, u), bf, st)) st L (Q (c, u))) \<Longrightarrow> implements N P Q"
  by (auto simp: implements_def)

lemma implementsD: "implements N P Q \<Longrightarrow> pooled_ok N (s, bf, st) L \<Longrightarrow> runs N (P (s, bf, st)) st L (Q s)"
  unfolding implements_def by blast

lemma runs_return: "pooled_ok N (s, bf, st) L \<Longrightarrow> runs N (Some (r, s, bf, st)) st L (s, r)"
  by (simp add: runs_def)

lemma runs_return': "pooled_ok N (s, bf, st) L \<Longrightarrow> q = (s, r) \<Longrightarrow> runs N (Some (r, s, bf, st)) st L q"
  by (simp add: runs_def)

lemma runs_bind:
  assumes "runs N m st L q" "\<And>c u r bf' st'. q = ((c, u), r) \<Longrightarrow> pooled_ok N ((c, u), bf', st') L \<Longrightarrow> runs N (k (r, (c, u), bf', st')) st' L q'"
  shows "runs N (Option.bind m k) st L q'"
proof -
  obtain c u r where q: "q = ((c, u), r)" by (metis surj_pair)
  obtain bf' st' where 1: "m = Some (r, (c, u), bf', st')" "pooled_ok N ((c, u), bf', st') L" "untouched st st' L"
    using assms(1) unfolding runs_def q by auto
  from assms(2) [OF q 1(2)] obtain bf2 st2 where
    "k (r, (c, u), bf', st') = Some (snd q', fst q', bf2, st2)" "pooled_ok N (fst q', bf2, st2) L" "untouched st' st2 L"
    unfolding runs_def by blast
  with 1 untouched_trans [OF 1(3)] show ?thesis unfolding runs_def by auto
qed

lemma runs_untouched: "runs N m st' L q \<Longrightarrow> untouched st st' L \<Longrightarrow> runs N m st L q"
  unfolding runs_def using untouched_trans by blast

locale pooled_net = counting sf for sf :: "'u st sendFunc" +
  fixes psf :: "'u pooledSend" and net_ok :: "'u \<Rightarrow> store \<Rightarrow> bool"
  assumes net_stable: "net_ok u st \<Longrightarrow> so_queue st' = so_queue st \<Longrightarrow>
      (\<And>s. s \<in> set (so_queue st) \<Longrightarrow> content st' s = content st s) \<Longrightarrow> net_ok u st'"
    and psf_sends: "own st (s # L) \<Longrightarrow> net_ok (snd x) st \<Longrightarrow>
      \<exists>st'. psf x s st = Some (sf x (content st s), st') \<and> own st' (s # L) \<and>
        net_ok (snd (fst (sf x (content st s)))) st' \<and> untouched st st' (s # L)"
begin

lemma ok_same:
  assumes "pooled_ok net_ok (s, bf, st) L" "same st st' (inUse bf @ L)" "own st' (inUse bf @ L')"
  shows "pooled_ok net_ok (s, bf, st') L'" "untouched st st' L"
proof -
  obtain c u where s: "s = (c, u)" by (cases s)
  have ok: "matches c bf st" "net_ok u st" "sealed_ok c" using assms(1) by (simp_all add: pooled_ok_def s)
  have "net_ok u st'" by (rule net_stable [OF ok(2)]) (use assms(2) in \<open>simp_all add: same_def\<close>)
  then show "pooled_ok net_ok (s, bf, st') L'"
    using assms(3) matches_same [OF ok(1) assms(2)] ok(3) by (simp add: pooled_ok_def s)
  show "untouched st st' L" by (rule untouched_same [OF assms(2)])
qed

lemma ok_own: "pooled_ok net_ok (s, bf, st) L \<Longrightarrow> own st (inUse bf @ L)"
  by (auto simp: pooled_ok_def)

lemma ok_own_first: "pooled_ok net_ok (s, bf, st) (b # L) \<Longrightarrow> own st (b # inUse bf @ L)"
  by (rule own_perm [OF ok_own [of s bf st "b # L"]]) simp_all

lemma ok_get:
  assumes "pooled_ok net_ok (s, bf, st) L"
  obtains b st' where "pool_getSendBuffer n st = Some (b, st')" "pooled_ok net_ok (s, bf, st') (b # L)"
    "untouched st st' L" "sl_len b = n" "length (content st' b) = n" "n \<le> cap st' b"
proof -
  obtain b st' where g: "pool_getSendBuffer n st = Some (b, st')" "own st' (b # inUse bf @ L)" "same st st' (inUse bf @ L)"
    "sl_len b = n" "length (content st' b) = n" "n \<le> cap st' b"
    using getSendBuffer_own [OF ok_own [OF assms]] by blast
  have "own st' (inUse bf @ b # L)" by (rule own_perm [OF g(2)]) simp
  from ok_same [OF assms g(3) this] that g show thesis by blast
qed

lemma ok_put:
  assumes "pooled_ok net_ok (s, bf, st) (b # L)"
  shows "pooled_ok net_ok (s, bf, pool_putSendBuffer b st) L" "untouched st (pool_putSendBuffer b st) M"
proof -
  note p = putSendBuffer_own [OF ok_own_first [OF assms]]
  have "same st (pool_putSendBuffer b st) (inUse bf @ b # L)" unfolding same_def by (simp add: pool_putSendBuffer_def content_def cap_def)
  from ok_same(1) [OF assms this p(1)] show "pooled_ok net_ok (s, bf, pool_putSendBuffer b st) L" .
  show "untouched st (pool_putSendBuffer b st) M" by (simp add: untouched_def)
qed

lemma ok_overwrite:
  assumes "pooled_ok net_ok (s, bf, st) (b # L)" "length bs \<le> cap st b"
  shows "pooled_ok net_ok (s, bf, overwrite b bs st) (b # L)" "untouched st (overwrite b bs st) L"
    "content (overwrite b bs st) (b\<lparr>sl_len := length bs\<rparr>) = bs" "cap (overwrite b bs st) b = cap st b"
proof -
  note o = overwrite_own [OF ok_own_first [OF assms(1)] assms(2)]
  have ok: "pooled_ok net_ok (s, bf, st) L"
    using assms(1) own_drop [OF ok_own_first [OF assms(1)]] by (auto simp: pooled_ok_def)
  have "own (overwrite b bs st) (inUse bf @ b # L)" by (rule own_perm [OF o(1)]) simp
  from ok_same [OF ok o(2) this]
  show "pooled_ok net_ok (s, bf, overwrite b bs st) (b # L)" "untouched st (overwrite b bs st) L" by blast+
qed (use overwrite_own [OF ok_own_first [OF assms(1)] assms(2)] in simp_all)

lemma ok_len: "pooled_ok net_ok (s, bf, st) (b # L) \<Longrightarrow> length (content st b) = sl_len b \<and> sl_len b \<le> cap st b"
  using own_len [OF ok_own_first] ok_own_first [of s bf st b L] by (simp add: own_def)

lemma ok_fill:
  assumes "pooled_ok net_ok (s, bf, st) (b # L)" "length bs = sl_len b"
  shows "pooled_ok net_ok (s, bf, overwrite b bs st) (b # L)" "untouched st (overwrite b bs st) L"
    "content (overwrite b bs st) b = bs" "cap (overwrite b bs st) b = cap st b"
proof -
  have "b\<lparr>sl_len := length bs\<rparr> = b" using assms(2) by simp
  with ok_overwrite [OF assms(1), of bs] ok_len [OF assms(1)] assms(2)
  show "pooled_ok net_ok (s, bf, overwrite b bs st) (b # L)" "untouched st (overwrite b bs st) L"
    "content (overwrite b bs st) b = bs" "cap (overwrite b bs st) b = cap st b" by simp_all
qed

lemma ok_copyTo:
  assumes "pooled_ok net_ok (s, bf, st) (b # L)" "off \<le> sl_len b"
  shows "pooled_ok net_ok (s, bf, copyTo b off src st) (b # L)" "untouched st (copyTo b off src st) L"
    "content (copyTo b off src st) b = go_copy (content st b) off src" "cap (copyTo b off src st) b = cap st b"
  using ok_fill [OF assms(1), of "go_copy (content st b) off src"] ok_len [OF assms(1)] assms(2)
  by (simp_all add: copyTo_def)

lemma ok_reslice:
  assumes "pooled_ok net_ok (s, bf, st) (b # L)" "n \<le> cap st b"
  shows "pooled_ok net_ok (s, bf, st) (b\<lparr>sl_len := n\<rparr> # L)"
proof -
  have "own st (inUse bf @ b\<lparr>sl_len := n\<rparr> # L)"
    by (rule own_perm [OF own_reslice [OF ok_own_first [OF assms(1)] assms(2)]]) simp
  then show ?thesis using assms(1) by (auto simp: pooled_ok_def)
qed

lemma ok_perm: "pooled_ok net_ok (s, bf, st) L \<Longrightarrow> mset L' = mset L \<Longrightarrow> pooled_ok net_ok (s, bf, st) L'"
  using own_perm [of st "inUse bf @ L" "inUse bf @ L'"] by (auto simp: pooled_ok_def)

lemma ok_psf:
  assumes "pooled_ok net_ok (s, bf, st) (b # L)"
  obtains st' where "psf s b st = Some (sf s (content st b), st')"
    "pooled_ok net_ok (fst (sf s (content st b)), bf, st') (b # L)" "untouched st st' (b # L)"
proof -
  obtain c u where s: "s = (c, u)" by (cases s)
  have ok: "matches c bf st" "net_ok u st" "sealed_ok c" using assms by (simp_all add: pooled_ok_def s)
  obtain st' where p: "psf s b st = Some (sf s (content st b), st')" "own st' (b # inUse bf @ L)"
    "net_ok (snd (fst (sf s (content st b)))) st'" "untouched st st' (b # inUse bf @ L)"
    using psf_sends [OF ok_own_first [OF assms], of s] ok(2) by (auto simp: s)
  obtain n w u' err where sf: "sf s (content st b) = ((c\<lparr>c_bytesSent := n, c_sendBW := w\<rparr>, u'), err)"
    using sf_counts [of c u "content st b"] s by auto
  have m: "matches c bf st'"
    by (rule matches_unt [OF ok(1)]) (use p(4) in \<open>simp add: untouched_def\<close>)
  have "own st' (inUse bf @ b # L)" by (rule own_perm [OF p(2)]) simp
  then have "pooled_ok net_ok ((c, u'), bf, st') (b # L)"
    using p(3) m ok(3) by (simp add: pooled_ok_def sf)
  from ok_conn [OF this same_packets_fields(4)] sf that [OF p(1)] p(4) show thesis by (simp add: untouched_def)
qed

subsection \<open>One packet\<close>

lemma ok_Encrypt:
  assumes "pooled_ok net_ok ((c, u), bf, st) (b # L)" "NonceSize + length p + TagSize \<le> cap st b"
  obtains k w e st' where "pool_Encrypt (c_sendCipher c) p b st = ((k, Inr e), st')" "\<forall>dst. Encrypt (c_sendCipher c) p dst = (k, Inr w)"
    "pooled_ok net_ok ((c\<lparr>c_sendCipher := k\<rparr>, u), bf, st') (e # L)" "untouched st st' L" "content st' e = w"
proof -
  have "sealed_ok c" using assms(1) by (simp add: pooled_ok_def)
  then obtain k w where e: "\<forall>dst. Encrypt (c_sendCipher c) p dst = (k, Inr w)" "cs_aead k = cs_aead (c_sendCipher c)"
    "length w \<le> NonceSize + length p + TagSize" using Encrypt_any by blast
  then have le: "length w \<le> cap st b" using assms(2) by simp
  note o = ok_overwrite [OF assms(1) le]
  have "pooled_ok net_ok ((c, u), bf, overwrite b w st) (b\<lparr>sl_len := length w\<rparr> # L)"
    by (rule ok_reslice [OF o(1)]) (simp add: o(4) le)
  from that [OF _ e(1) ok_conn [OF this same_packets_cipher [OF e(2)]] o(2,3)] e(1) le show thesis
    by (simp add: pool_Encrypt_def)
qed

text \<open>Filling a buffer and taking the first \<open>n\<close> bytes; encrypting into a new buffer.\<close>

lemma ok_build:
  assumes "pooled_ok net_ok (s, bf, st) (b # L)" "length bs = sl_len b" "n \<le> sl_len b"
  shows "pooled_ok net_ok (s, bf, overwrite b bs st) (b\<lparr>sl_len := n\<rparr> # L)" "untouched st (overwrite b bs st) L"
    "content (overwrite b bs st) (b\<lparr>sl_len := n\<rparr>) = take n bs" "n \<le> cap (overwrite b bs st) b"
proof -
  note f = ok_fill [OF assms(1,2)]
  show n: "n \<le> cap (overwrite b bs st) b" using ok_len [OF assms(1)] assms(3) f(4) by simp
  show "pooled_ok net_ok (s, bf, overwrite b bs st) (b\<lparr>sl_len := n\<rparr> # L)" by (rule ok_reslice [OF f(1) n])
  show "untouched st (overwrite b bs st) L" by (rule f(2))
  show "content (overwrite b bs st) (b\<lparr>sl_len := n\<rparr>) = take n bs" using f(3) assms(3) by (simp add: content_reslice)
qed

lemma ok_seal:
  assumes "pooled_ok net_ok ((c, u), bf, st) L"
  obtains eb st1 k w e st2 where "pool_getSendBuffer (NonceSize + length p + TagSize) st = Some (eb, st1)" "untouched st st1 L"
    "pool_Encrypt (c_sendCipher c) p eb st1 = ((k, Inr e), st2)" "\<forall>dst. Encrypt (c_sendCipher c) p dst = (k, Inr w)"
    "pooled_ok net_ok ((c\<lparr>c_sendCipher := k\<rparr>, u), bf, st2) (e # L)" "untouched st st2 L" "content st2 e = w"
    "cs_aead k = cs_aead (c_sendCipher c)"
proof -
  let ?m = "NonceSize + length p + TagSize"
  obtain eb st1 where g: "pool_getSendBuffer ?m st = Some (eb, st1)" "pooled_ok net_ok ((c, u), bf, st1) (eb # L)"
    "untouched st st1 L" "?m \<le> cap st1 eb" by (rule ok_get [OF assms])
  obtain k w e st2 where e: "pool_Encrypt (c_sendCipher c) p eb st1 = ((k, Inr e), st2)"
    "\<forall>dst. Encrypt (c_sendCipher c) p dst = (k, Inr w)"
    "pooled_ok net_ok ((c\<lparr>c_sendCipher := k\<rparr>, u), bf, st2) (e # L)" "untouched st1 st2 L" "content st2 e = w"
    by (rule ok_Encrypt [OF g(2,4)])
  have "cs_aead k = cs_aead (c_sendCipher c)" using Encrypt_any [of c p] assms e(2) by (auto simp: pooled_ok_def)
  from that [OF g(1,3) e(1-3) untouched_trans [OF g(3) e(4)] e(5) this] show thesis .
qed

lemma ok_singleFrame:
  assumes "pooled_ok net_ok (s, bf, st) (e # L)"
  obtains f st' where "pool_singleFrame e st = Some (f, st')" "pooled_ok net_ok (s, bf, st') (f # e # L)"
    "untouched st st' (e # L)" "content st' f = singleFrame (content st e)"
proof -
  let ?n = "BatchHeaderSize + BatchLenSize + sl_len e"
  obtain f st1 where g: "pool_getSendBuffer ?n st = Some (f, st1)" "pooled_ok net_ok (s, bf, st1) (f # e # L)"
    "untouched st st1 (e # L)" "sl_len f = ?n" "length (content st1 f) = ?n"
    using ok_get [OF assms] by metis
  let ?b = "(content st1 f)[0 := 1, 1 := of_nat (sl_len e), 2 := of_nat (drop_bit 8 (sl_len e))]"
  define st2 where "st2 = overwrite f ?b st1"
  have o: "pooled_ok net_ok (s, bf, st2) (f # e # L)" "untouched st1 st2 (e # L)" "content st2 f = ?b"
    unfolding st2_def by (rule ok_fill [OF g(2)]; simp add: g)+
  have "3 \<le> sl_len f" using g(4) by (simp add: batch_size_defs)
  note c = ok_copyTo [OF o(1) this, of "content st2 e"]
  have e: "content st2 e = content st e" "length (content st e) = sl_len e"
    using g(3) o(2) ok_len [OF assms] by (simp_all add: untouched_def)
  have "content (copyTo f 3 (content st2 e) st2) f = singleFrame (content st e)"
    unfolding c(3) unfolding o(3) e singleFrame_def Let_def
    using g(5) e(2) by (simp add: go_copy_fits take_three getSendBuffer_def batch_size_defs del: take_update_swap)
  then show thesis
    using that [OF _ c(1)] g(1,3) o(2) c(2) by (auto simp: pool_singleFrame_def st2_def Let_def intro: untouched_trans)
qed

lemma ok_sendFramed:
  assumes "pooled_ok net_ok (s, bf, st) (e # L)"
  obtains st' where "pool_sendFramed psf e s st = Some (sendFramed sf (content st e) s, st')"
    "pooled_ok net_ok (fst (sendFramed sf (content st e) s), bf, st') (e # L)" "untouched st st' (e # L)"
proof (cases "c_batchEnabled (fst s)")
  case True
  obtain f st1 where f: "pool_singleFrame e st = Some (f, st1)" "pooled_ok net_ok (s, bf, st1) (f # e # L)"
    "untouched st st1 (e # L)" "content st1 f = singleFrame (content st e)" by (rule ok_singleFrame [OF assms])
  obtain st2 where p: "psf s f st1 = Some (sf s (content st1 f), st2)"
    "pooled_ok net_ok (fst (sf s (content st1 f)), bf, st2) (f # e # L)" "untouched st1 st2 (f # e # L)"
    by (rule ok_psf [OF f(2)])
  from that [OF _ _ untouched_trans [OF f(3) untouched_trans [OF untouched_tail [OF p(3)] ok_put(2) [OF p(2)]]]]
    ok_put(1) [OF p(2)] True f p show thesis by (simp add: pool_sendFramed_def sendFramed_def)
next
  case False
  obtain st' where "psf s e st = Some (sf s (content st e), st')"
    "pooled_ok net_ok (fst (sf s (content st e)), bf, st') (e # L)" "untouched st st' (e # L)" by (rule ok_psf [OF assms])
  from that [OF _ _ this(3)] this False show thesis by (simp add: pool_sendFramed_def sendFramed_def)
qed

lemma ok_writeEncrypted:
  assumes "pooled_ok net_ok (s, bf, st) (e # L)"
  obtains bf' st' where "pool_writeEncrypted psf e (s, bf, st) =
      Some (snd (writeEncrypted sf (content st e) s), fst (writeEncrypted sf (content st e) s), bf', st')"
    "pooled_ok net_ok (fst (writeEncrypted sf (content st e) s), bf', st') L" "untouched st st' L"
proof -
  obtain c u where s: "s = (c, u)" by (cases s)
  have m: "length (bf_batch bf) = length (c_batchBuf c)"
    using assms by (auto simp: pooled_ok_def matches_def s dest: map_eq_imp_length_eq [where g = id] arg_cong [where f = length])
  show thesis
  proof (cases "c_batchEnabled c \<and> \<not> c_skipBatch c \<and> length (c_batchBuf c) < maxBatchQueueSize")
    case True
    let ?bf = "bf\<lparr>bf_batch := bf_batch bf @ [e]\<rparr>"
    have "own st (inUse ?bf @ L)" by (rule own_perm [OF ok_own [OF assms]]) (simp add: inUse_def)
    then have "pooled_ok net_ok ((c\<lparr>c_batchBuf := c_batchBuf c @ [content st e]\<rparr>, u), ?bf, st) L"
      using assms by (simp add: pooled_ok_def matches_def s raws_def sealed_ok_def)
    with that [of ?bf st] True m show thesis by (simp add: pool_writeEncrypted_def writeEncrypted_def s)
  next
    case False
    obtain st' where f: "pool_sendFramed psf e s st = Some (sendFramed sf (content st e) s, st')"
      "pooled_ok net_ok (fst (sendFramed sf (content st e) s), bf, st') (e # L)" "untouched st st' (e # L)"
      by (rule ok_sendFramed [OF assms])
    from that [OF _ _ untouched_trans [OF untouched_tail [OF f(3)] ok_put(2) [OF f(2)]]] ok_put(1) [OF f(2)] f(1) False m
    show thesis by (auto simp: pool_writeEncrypted_def writeEncrypted_def s split_beta)
  qed
qed

lemma ok_track:
  assumes "pooled_ok net_ok ((c, u), bf, st) (b # L)" "reliable (c_channels c ! unat i)"
  shows "pooled_ok net_ok ((trackSent i seq (content st b) now c, u),
           bf\<lparr>bf_pending := (bf_pending bf)[unat i := bf_pending bf ! unat i @ [b]]\<rparr>, st) L"
proof -
  let ?i = "unat i" and ?bf = "bf\<lparr>bf_pending := (bf_pending bf)[unat i := bf_pending bf ! unat i @ [b]]\<rparr>"
  let ?q = "\<lparr>pp_raw = content st b, pp_sendTime = now, pp_retransmitCount = 0,
    pp_nextRetransmit = now + currentRTO c, pp_firstTransmit = True, pp_sequence = seq\<rparr>"
  let ?c = "setChannel ?i (addPending ?q (c_channels c ! ?i)) c"
  have t: "trackSent i seq (content st b) now c = ?c\<lparr>c_loss := RecordSend seq (c_loss c)\<rparr>"
    using assms(2) by (simp add: trackSent_def Let_def)
  note len = length_held [OF assms(1)]
  have "own st (inUse ?bf @ L)"
  proof (cases "?i < length (bf_pending bf)")
    case True
    then obtain xs ys where p: "bf_pending bf = xs @ bf_pending bf ! ?i # ys" "length xs = ?i"
      using id_take_nth_drop [OF True] by (metis length_take min.absorb4)
    have "mset (concat ((bf_pending bf)[?i := bf_pending bf ! ?i @ [b]])) = mset (concat (bf_pending bf)) + {#b#}"
      by (subst (1 3) p(1), simp only: p(2) [symmetric] list_update_length) simp
    then show ?thesis by (intro own_perm [OF ok_own [OF assms(1)]]) (simp add: inUse_def)
  next
    case False
    then show ?thesis using own_drop [OF ok_own_first [OF assms(1)]] by (simp add: list_update_beyond inUse_def)
  qed
  moreover have "matches ?c ?bf st"
  proof (cases "?i < length (c_channels c)")
    case True
    have m: "map (map (content st)) (bf_pending bf) = raws c" using assms(1) by (simp add: pooled_ok_def matches_def)
    then have "map (content st) (bf_pending bf ! ?i) = raws c ! ?i" using True len by (metis nth_map)
    then show ?thesis
      using assms(1) True m by (simp add: pooled_ok_def matches_def raws_setChannel map_update raws_nth addPending_def)
        (simp add: setChannel_def)
  next
    case False
    then show ?thesis using assms(1) len by (simp add: pooled_ok_def matches_def setChannel_def list_update_beyond)
  qed
  ultimately have "pooled_ok net_ok ((?c, u), ?bf, st) L"
    using assms(1) by (simp add: pooled_ok_def sealed_ok_def) (simp add: setChannel_def)
  from ok_conn [OF this same_packets_fields(9)] show ?thesis unfolding t by simp
qed

lemma sendPacket_implements: "implements net_ok (pool_sendPacket psf flags i payload now) (sendPacket sf flags i payload now)"
  unfolding implements_def
proof (intro allI impI)
  fix s :: "'u st" and bf st L
  assume ok: "pooled_ok net_ok (s, bf, st) L"
  obtain c u where s: "s = (c, u)" by (cases s)
  let ?ch = "fst (nextSequence (c_channels c ! unat i))" and ?seq = "snd (nextSequence (c_channels c ! unat i))"
  let ?hdr = "\<lparr>Flags = flags, Channel = i, Sequence = ?seq, Ack = fst (ackState ?ch), AckField = snd (ackState ?ch)\<rparr>"
  let ?h = "header_enc ?hdr" and ?n = "MaxHeaderSize + length payload"
  define c1 where "c1 = setChannel (unat i) ?ch c"
  have "same_packets c c1" unfolding c1_def by (rule same_packets_channel) (simp add: nextSequence_def Let_def)
  with ok have ok1: "pooled_ok net_ok ((c1, u), bf, st) L" unfolding s by (rule ok_conn)
  obtain buf st1 where g: "pool_getSendBuffer ?n st = Some (buf, st1)" "pooled_ok net_ok ((c1, u), bf, st1) (buf # L)"
    "untouched st st1 L" "sl_len buf = ?n" "length (content st1 buf) = ?n" "?n \<le> cap st1 buf"
    by (rule ok_get [OF ok1])
  have hl: "length ?h \<le> MaxHeaderSize" "header_room ?hdr \<le> MaxHeaderSize"
    using header_room_bounds [of ?hdr] length_header_enc [of ?hdr] by (simp_all add: MaxHeaderSize_def)
  have m: "MarshalHeader b ?hdr = (go_copy b 0 ?h, Inr (length ?h))" if "length b = ?n" for b
    using hl that by (intro MarshalHeader_ok) simp
  have plain: "take (length ?h + length payload) (go_copy (go_copy b 0 ?h) (length ?h) payload) = ?h @ payload" if "length b = ?n" for b
    using hl that by (simp add: go_copy_def)
  let ?b = "go_copy (go_copy (content st1 buf) 0 ?h) (length ?h) payload" and ?pt = "buf\<lparr>sl_len := length ?h + length payload\<rparr>"
  define st2 where "st2 = copyTo buf (length ?h) payload (overwrite buf (go_copy (content st1 buf) 0 ?h) st1)"
  have st2: "st2 = overwrite buf ?b st1"
    unfolding st2_def copyTo_def using ok_fill(3) [OF g(2)] g(4,5) hl(1) by (simp add: overwrite_overwrite)
  have "length ?b = sl_len buf" "length ?h + length payload \<le> sl_len buf" using g(4,5) hl by simp_all
  note b = ok_build [OF g(2) this, folded st2, unfolded plain [OF g(5)]]
  obtain eb st3 k w e st4 where g3: "pool_getSendBuffer (NonceSize + length (?h @ payload) + TagSize) st2 = Some (eb, st3)"
    "untouched st2 st3 (?pt # L)" and en: "pool_Encrypt (c_sendCipher c1) (?h @ payload) eb st3 = ((k, Inr e), st4)"
    "\<forall>dst. Encrypt (c_sendCipher c1) (?h @ payload) dst = (k, Inr w)"
    "pooled_ok net_ok ((c1\<lparr>c_sendCipher := k\<rparr>, u), bf, st4) (e # ?pt # L)" "untouched st2 st4 (?pt # L)" "content st4 e = w"
    by (rule ok_seal [OF b(1)])
  have pt3: "content st3 ?pt = ?h @ payload" using g3(2) b(3) by (simp add: untouched_def)
  let ?r = "writeEncrypted sf w (c1\<lparr>c_sendCipher := k\<rparr>, u)"
  obtain bf5 st5 where w: "pool_writeEncrypted psf e ((c1\<lparr>c_sendCipher := k\<rparr>, u), bf, st4) = Some (snd ?r, fst ?r, bf5, st5)"
    "pooled_ok net_ok (fst ?r, bf5, st5) (?pt # L)" "untouched st4 st5 (?pt # L)"
    by (rule ok_writeEncrypted [OF en(3), unfolded en(5)])
  obtain c5 u5 err where r: "?r = ((c5, u5), err)" by (metis surj_pair)
  have pt5: "content st5 ?pt = ?h @ payload" using w(3) en(4) b(3) by (simp add: untouched_def)
  have unt: "untouched st st5 L"
    using g(3) b(2) untouched_tail [OF en(4)] untouched_tail [OF w(3)] by (simp add: untouched_def)
  have abs: "sendPacket sf flags i payload now s =
      (if err = None then ((trackSent i ?seq (?h @ payload) now c5, u5), None) else ((c5, u5), err))"
    unfolding sendPacket_def s prod.case Let_def split_beta
    using m [of "getSendBuffer ?n"] plain [of "getSendBuffer ?n"] en(2) r
    by (simp add: getSendBuffer_def c1_def split: option.split)
  have con: "pool_sendPacket psf flags i payload now (s, bf, st) =
      (if err = None \<and> reliable (c_channels c5 ! unat i)
       then Some (None, (trackSent i ?seq (?h @ payload) now c5, u5),
              bf5\<lparr>bf_pending := (bf_pending bf5)[unat i := bf_pending bf5 ! unat i @ [?pt]]\<rparr>, st5)
       else Some (err, (c5, u5), bf5, pool_putSendBuffer buf st5))"
    unfolding pool_sendPacket_def s prod.case Let_def split_beta
    using g(1) m [OF g(5)] b(4) g3(1) en(1) w(1) r pt3 pt5
    by (simp add: c1_def [symmetric] st2_def [symmetric] reslice_def split: option.split)
  show "runs net_ok (pool_sendPacket psf flags i payload now (s, bf, st)) st L (sendPacket sf flags i payload now s)"
  proof (cases "err = None \<and> reliable (c_channels c5 ! unat i)")
    case True
    then show ?thesis using abs con ok_track [of c5 u5 bf5 st5 ?pt L] w(2) r unt pt5 by (simp add: runs_def)
  next
    case False
    have "pool_putSendBuffer buf st5 = pool_putSendBuffer ?pt st5" by (simp add: pool_putSendBuffer_def)
    then have "pooled_ok net_ok ((c5, u5), bf5, pool_putSendBuffer buf st5) L" "untouched st (pool_putSendBuffer buf st5) L"
      using ok_put [of "(c5, u5)" bf5 st5 ?pt L] w(2) r unt by (auto simp: untouched_def)
    moreover have "trackSent i ?seq (?h @ payload) now c5 = c5" if "\<not> reliable (c_channels c5 ! unat i)"
      using that by (simp add: trackSent_def Let_def)
    ultimately show ?thesis using abs con False by (auto simp: runs_def)
  qed
qed

subsection \<open>Messages\<close>

lemma sendSinglePacket_implements:
  "implements net_ok (pool_sendSinglePacket psf i payload now) (sendSinglePacket sf i payload now)"
proof (rule implementsI)
  fix c u bf st L
  assume "pooled_ok net_ok ((c, u), bf, st) L"
  note p = implementsD [OF sendPacket_implements this, of 0 i payload now]
  show "runs net_ok (pool_sendSinglePacket psf i payload now ((c, u), bf, st)) st L (sendSinglePacket sf i payload now (c, u))"
    unfolding pool_sendSinglePacket_def
  proof (rule runs_bind [OF p])
    fix c1 u1 err bf1 st1
    assume q: "sendPacket sf 0 i payload now (c, u) = ((c1, u1), err)" and ok: "pooled_ok net_ok ((c1, u1), bf1, st1) L"
    show "runs net_ok ((\<lambda>(err, (c, u), bf, st). Some (err, (if err = None then c\<lparr>c_lastSend := now\<rparr> else c, u), bf, st))
        (err, (c1, u1), bf1, st1)) st1 L (sendSinglePacket sf i payload now (c, u))"
      using ok ok_conn [OF ok same_packets_fields(1)] by (cases err) (simp_all add: sendSinglePacket_def q runs_return)
  qed
qed

lemma sendFragments_implements: "implements net_ok (pool_sendFragments psf i frags now) (sendFragments sf i frags now)"
proof (induction frags)
  case Nil
  then show ?case by (rule implementsI) (simp add: runs_return)
next
  case (Cons f fs)
  show ?case
  proof (rule implementsI)
    fix c u bf st L
    assume "pooled_ok net_ok ((c, u), bf, st) L"
    note p = implementsD [OF sendPacket_implements this, of FlagFragment i f now]
    show "runs net_ok (pool_sendFragments psf i (f # fs) now ((c, u), bf, st)) st L (sendFragments sf i (f # fs) now (c, u))"
      unfolding pool_sendFragments.simps
    proof (rule runs_bind [OF p])
      fix c1 u1 err bf1 st1
      assume q: "sendPacket sf FlagFragment i f now (c, u) = ((c1, u1), err)" and ok: "pooled_ok net_ok ((c1, u1), bf1, st1) L"
      show "runs net_ok (case (err, (c1, u1), bf1, st1) of (err, p) \<Rightarrow>
          if err = None then pool_sendFragments psf i fs now p else Some (err, p)) st1 L (sendFragments sf i (f # fs) now (c, u))"
        using implementsD [OF Cons.IH ok] ok by (cases err) (simp_all add: q runs_return)
    qed
  qed
qed

lemma sendFragmented_implements:
  "implements net_ok (pool_sendFragmented psf i d flags now) (sendFragmented sf i d flags now)"
proof (rule implementsI)
  fix c u bf st L
  assume ok: "pooled_ok net_ok ((c, u), bf, st) L"
  obtain c1 fid where n: "nextFragmentID c = (c1, fid)" by (cases "nextFragmentID c")
  have ok1: "pooled_ok net_ok ((c1, u), bf, st) L"
    using ok_conn [OF ok same_packets_fields(3)] n by (auto simp: nextFragmentID_def Let_def)
  show "runs net_ok (pool_sendFragmented psf i d flags now ((c, u), bf, st)) st L (sendFragmented sf i d flags now (c, u))"
  proof (cases "splitMessage d fid flags")
    case (Inl e)
    then show ?thesis using ok1 by (simp add: pool_sendFragmented_def sendFragmented_def n runs_return)
  next
    case (Inr frags)
    note p = implementsD [OF sendFragments_implements ok1, of i frags now]
    show ?thesis unfolding pool_sendFragmented_def n prod.case Let_def Inr sum.case
    proof (rule runs_bind [OF p])
      fix c2 u2 err bf2 st2
      assume q: "sendFragments sf i frags now (c1, u) = ((c2, u2), err)" and ok2: "pooled_ok net_ok ((c2, u2), bf2, st2) L"
      show "runs net_ok ((\<lambda>(err, (c, u), bf, st). Some (err, (if err = None then c\<lparr>c_lastSend := now\<rparr> else c, u), bf, st))
          (err, (c2, u2), bf2, st2)) st2 L (sendFragmented sf i d flags now (c, u))"
        using ok2 ok_conn [OF ok2 same_packets_fields(1)]
        by (cases err) (simp_all add: sendFragmented_def n Inr q runs_return)
    qed
  qed
qed

lemma ok_compress:
  assumes "pooled_ok net_ok (s, bf, st) L"
  obtains st' where "pool_compressPayload lib slib cp d st = Some (compressPayload lib cp d, st')"
    "pooled_ok net_ok (s, bf, st') L" "untouched st st' L"
proof (cases "cp_compressor cp = None \<or> (of_nat (length d) :: u32) < cfg_Hurdle (cp_config cp)")
  case True
  then show thesis using that [OF _ assms] by (auto simp: pool_compressPayload_def)
next
  case False
  let ?n = "4 + CompressBlockBound slib (length d)"
  obtain b st1 where g: "pool_getSendBuffer ?n st = Some (b, st1)" "pooled_ok net_ok (s, bf, st1) (b # L)" "untouched st st1 L"
    using ok_get [OF assms] by metis
  let ?w = "take (cap st1 b) (compressor_writes slib d)"
  have o: "pooled_ok net_ok (s, bf, overwrite b ?w st1) (b # L)" "untouched st1 (overwrite b ?w st1) L"
    by (rule ok_overwrite [OF g(2)]; simp)+
  from that [OF _ ok_put(1) [OF o(1)]] g(1,3) o(2) False show thesis
    by (auto simp: pool_compressPayload_def Let_def untouched_def)
qed

lemma sendMessage_implements:
  "implements net_ok (pool_sendMessage lib slib psf d i now) (sendMessage lib sf d i now)"
proof (rule implementsI)
  fix c u bf st L
  assume ok: "pooled_ok net_ok ((c, u), bf, st) L"
  show "runs net_ok (pool_sendMessage lib slib psf d i now ((c, u), bf, st)) st L (sendMessage lib sf d i now (c, u))"
  proof (cases "c_compress c")
    case None
    then show ?thesis using ok by (simp add: pool_sendMessage_def sendMessage_def runs_return)
  next
    case (Some cp)
    obtain st1 where c: "pool_compressPayload lib slib cp d st = Some (compressPayload lib cp d, st1)"
      "pooled_ok net_ok ((c, u), bf, st1) L" "untouched st st1 L" by (rule ok_compress [OF ok])
    note single = runs_untouched [OF implementsD [OF sendSinglePacket_implements c(2)] c(3)]
    note frag = runs_untouched [OF implementsD [OF sendFragmented_implements c(2)] c(3)]
    note err = runs_untouched [OF runs_return [OF c(2)] c(3)]
    show ?thesis using ok c(1) single frag err
      by (auto simp: pool_sendMessage_def sendMessage_def Some runs_return split: sum.split)
  qed
qed

lemma SendImmediate_implements:
  "implements net_ok (pool_SendImmediate lib slib psf d i now) (SendImmediate lib (Some sf) d i now)"
proof (rule implementsI)
  fix c u bf st L
  assume ok: "pooled_ok net_ok ((c, u), bf, st) L"
  have "pooled_ok net_ok ((c\<lparr>c_skipBatch := True\<rparr>, u), bf, st) L" by (rule ok_conn [OF ok]) simp
  note p = implementsD [OF sendMessage_implements this, of lib slib d i now]
  show "runs net_ok (pool_SendImmediate lib slib psf d i now ((c, u), bf, st)) st L (SendImmediate lib (Some sf) d i now (c, u))"
  proof (cases "c_state c \<noteq> StateConnected \<or> length (c_channels c) \<le> unat i")
    case True
    then show ?thesis using ok by (auto simp: pool_SendImmediate_def SendImmediate_def runs_return)
  next
    case False
    have "runs net_ok (Option.bind (pool_sendMessage lib slib psf d i now ((c\<lparr>c_skipBatch := True\<rparr>, u), bf, st))
        (\<lambda>(err, (c, u), bf, st). Some (err, (c\<lparr>c_skipBatch := False\<rparr>, u), bf, st))) st L (SendImmediate lib (Some sf) d i now (c, u))"
    proof (rule runs_bind [OF p])
      fix c1 u1 err bf1 st1
      assume q: "sendMessage lib sf d i now (c\<lparr>c_skipBatch := True\<rparr>, u) = ((c1, u1), err)"
        and ok1: "pooled_ok net_ok ((c1, u1), bf1, st1) L"
      have "pooled_ok net_ok ((c1\<lparr>c_skipBatch := False\<rparr>, u1), bf1, st1) L" by (rule ok_conn [OF ok1]) simp
      then show "runs net_ok ((\<lambda>(err, (c, u), bf, st). Some (err, (c\<lparr>c_skipBatch := False\<rparr>, u), bf, st))
          (err, (c1, u1), bf1, st1)) st1 L (SendImmediate lib (Some sf) d i now (c, u))"
        using False by (simp add: SendImmediate_def q runs_return)
    qed
    then show ?thesis using False by (simp add: pool_SendImmediate_def)
  qed
qed

end

end
