(* ===== verification/PooledTick.thy ===== *)
theory PooledTick
  imports PooledSend
begin

text \<open>
  The rest of a connection's life over the store of \<open>BufferPool\<close>: heartbeats, closing, retransmission,
  the flush of the batch, the release of acknowledged packets, the tick and the receive pipeline.
  The main result is that a connection with pooled buffers behaves as the one of \<open>Pipeline\<close>, whose
  buffers are values: no buffer is in two places, none is written while a packet in it is still
  needed, and no slice expression panics.
\<close>

section \<open>Definitions\<close>

subsection \<open>Control packets\<close>

definition pool_sendMultiChannelHeartbeat ::
  "'u pooledSend \<Rightarrow> byte list \<Rightarrow> time \<Rightarrow> 'u pst \<Rightarrow> (fw_error option \<times> 'u pst) option" where
  "pool_sendMultiChannelHeartbeat psf channelIDs now p =
     (case p of ((c, u), bf, st) \<Rightarrow>
        let entries = ackEntries channelIDs c
        in if length entries = 0 then Some (None, p)
           else case marshalMultiAck (replicate 256 0) entries of
                  (ctrlBuf, Inl e) \<Rightarrow> Some (Some e, p)
                | (ctrlBuf, Inr n) \<Rightarrow>
                    do {
                      (buf, st) \<leftarrow> pool_getSendBuffer (64 + n) st;
                      case buildControlPacket (content st buf) controlHeader (take n ctrlBuf) of
                        (b, Inl e) \<Rightarrow> Some (Some e, (c, u), bf, pool_putSendBuffer buf (overwrite buf b st))
                      | (b, Inr pn) \<Rightarrow>
                          do {
                            let st = overwrite buf b st;
                            plaintext \<leftarrow> reslice pn st buf;
                            (encBuf, st) \<leftarrow> pool_getSendBuffer (NonceSize + pn + TagSize) st;
                            let ((cipher, r), st) = pool_Encrypt (c_sendCipher c) (content st plaintext) encBuf st;
                            let c = c\<lparr>c_sendCipher := cipher\<rparr>;
                            let st = pool_putSendBuffer buf st;
                            case r of
                              Inl e \<Rightarrow> Some (Some e, (c, u), bf, pool_putSendBuffer encBuf st)
                            | Inr encrypted \<Rightarrow>
                                do {
                                  (((c, u), err), st) \<leftarrow> pool_sendFramed psf encrypted (c, u) st;
                                  Some (err, (if err = None then c\<lparr>c_lastSend := now\<rparr> else c, u), bf,
                                        pool_putSendBuffer encrypted st)
                                }
                          }
                    })"

text \<open>\<open>Close\<close> passes \<open>Encrypt\<close> a nil destination, which allocates the result.\<close>

definition pool_EncryptNil :: "CipherState \<Rightarrow> bytes \<Rightarrow> store \<Rightarrow> (CipherState \<times> slice res) \<times> store" where
  "pool_EncryptNil cs plaintext st =
     (case Encrypt cs plaintext [] of
        (cs, Inl e) \<Rightarrow> ((cs, Inl e), st)
      | (cs, Inr w) \<Rightarrow> let (b, st) = go_make (length w) st in ((cs, Inr b), overwrite b w st))"

definition pool_Close :: "'u pooledSend \<Rightarrow> time \<Rightarrow> 'u pst \<Rightarrow> (fw_error option \<times> 'u pst) option" where
  "pool_Close psf now p =
     (case p of ((c, u), bf, st) \<Rightarrow>
        if c_state c \<noteq> StateConnected then Some (Some ErrConnectionClosed, p)
        else do {
          let c = c\<lparr>c_state := StateDisconnecting\<rparr>;
          (buf, st) \<leftarrow> pool_getSendBuffer 64 st;
          case marshalDisconnect (replicate 1 0) of
            (ctrlBuf, Inl e) \<Rightarrow> Some (None, (c, u), bf, pool_putSendBuffer buf st)
          | (ctrlBuf, Inr n) \<Rightarrow>
              (case buildControlPacket (content st buf) controlHeader (take n ctrlBuf) of
                 (b, Inl e) \<Rightarrow> Some (None, (c, u), bf, pool_putSendBuffer buf (overwrite buf b st))
               | (b, Inr pn) \<Rightarrow>
                   do {
                     let st = overwrite buf b st;
                     plaintext \<leftarrow> reslice pn st buf;
                     let ((cipher, r), st) = pool_EncryptNil (c_sendCipher c) (content st plaintext) st;
                     let c = c\<lparr>c_sendCipher := cipher\<rparr>;
                     let st = pool_putSendBuffer buf st;
                     case r of
                       Inl e \<Rightarrow> Some (None, (c, u), bf, st)
                     | Inr encrypted \<Rightarrow>
                         do {
                           (pktData, st) \<leftarrow> (if c_batchEnabled c then pool_singleFrame encrypted st else Some (encrypted, st));
                           let c = c\<lparr>c_disconnectPacket := Some (content st pktData), c_disconnectRetries := 0,
                                     c_nextDisconnectRetry := now + RTO (c_rtt c)\<rparr>;
                           ((s, err), st) \<leftarrow> psf (c, u) pktData st;
                           Some (None, s, bf\<lparr>bf_disconnect := Some pktData\<rparr>, st)
                         }
                   })
        })"

subsection \<open>Releasing\<close>

definition pool_releasePendingBuffers :: "connection \<times> buffers \<times> store \<Rightarrow> connection \<times> buffers \<times> store" where
  "pool_releasePendingBuffers p =
     (case p of (c, bf, st) \<Rightarrow>
        (conn_releasePendingBuffers c,
         \<lparr>bf_pending = map (\<lambda>_. []) (bf_pending bf), bf_batch = [], bf_disconnect = None\<rparr>,
         pool_putAll (bf_batch bf) (pool_putAll (case bf_disconnect bf of None \<Rightarrow> [] | Some s \<Rightarrow> [s])
           (pool_putAll (concat (bf_pending bf)) st))))"

text \<open>What follows the release in every place: the connection is disconnected. In \<open>Client.Close\<close> the
  DISCONNECT packet is sent before.\<close>

definition pool_teardown :: "connection \<times> buffers \<times> store \<Rightarrow> connection \<times> buffers \<times> store" where
  "pool_teardown p = (case pool_releasePendingBuffers p of (c, q) \<Rightarrow> (c\<lparr>c_state := StateDisconnected\<rparr>, q))"

text \<open>\<open>processAcks\<close> returns the buffer of every acknowledged packet.\<close>

definition pool_applyAcks ::
  "time \<Rightarrow> byte \<Rightarrow> u32 \<Rightarrow> u32 \<Rightarrow> connection \<times> buffers \<times> store \<Rightarrow> connection \<times> buffers \<times> store" where
  "pool_applyAcks now i ack ackField p =
     (case p of (c, bf, st) \<Rightarrow>
        let ps = zip (ch_pendingSend (c_channels c ! unat i)) (bf_pending bf ! unat i);
            gone = (\<lambda>q. isAcked (pp_sequence (fst q)) ack ackField)
        in if ack = 0 then (applyAcks now i ack ackField c, bf, st)
           else (applyAcks now i ack ackField c,
                 bf\<lparr>bf_pending := (bf_pending bf)[unat i := map snd (filter (\<lambda>q. \<not> gone q) ps)]\<rparr>,
                 pool_putAll (map snd (filter gone ps)) st))"

definition pool_applyMultiAck ::
  "time \<Rightarrow> multiAckEntry \<Rightarrow> connection \<times> buffers \<times> store \<Rightarrow> connection \<times> buffers \<times> store" where
  "pool_applyMultiAck now e p =
     (if conn_channel (fst p) (mae_Channel e) = None then p
      else pool_applyAcks now (mae_Channel e) (mae_Ack e) (mae_AckField e) p)"

definition pool_handleControl ::
  "time \<Rightarrow> bytes \<Rightarrow> connection \<times> buffers \<times> store \<Rightarrow> (connection \<times> buffers \<times> store) \<times> effect list" where
  "pool_handleControl now body p =
     (if length body < 1 then (p, [])
      else if body ! 0 = ControlHeartbeat then (p, [])
      else if body ! 0 = ControlMultiAck
      then case unmarshalMultiAck (drop 1 body) of
             Inl e \<Rightarrow> (p, [])
           | Inr (acks, k) \<Rightarrow> (fold (pool_applyMultiAck now) acks p, [])
      else if body ! 0 = ControlDisconnect
      then (pool_teardown p, [RemoveConnection, OnDisconnect DisconnectGraceful])
      else (p, []))"

text \<open>The receive pipeline. Delivery and reassembly use no send buffers.\<close>

definition pool_handleDecrypted ::
  "comp_lib \<Rightarrow> time \<Rightarrow> bytes \<Rightarrow> connection \<times> buffers \<times> store \<Rightarrow> ((connection \<times> buffers \<times> store) \<times> effect list) res" where
  "pool_handleDecrypted lib now decrypted p =
     (case p of (c, bf, st) \<Rightarrow>
        case UnmarshalHeader decrypted of
          Inl e \<Rightarrow> Inr (p, [OnError e])
        | Inr (hdr, n) \<Rightarrow>
            let c = c\<lparr>c_lastRecv := now\<rparr>
            in if conn_channel c (Channel hdr) = None then Inr ((c, bf, st), [])
               else
                 let (c, bf, st) = pool_applyAcks now (Channel hdr) (Ack hdr) (AckField hdr) (c, bf, st)
                 in if Flags hdr AND FlagControl \<noteq> 0 then Inr (pool_handleControl now (drop n decrypted) (c, bf, st))
                    else
                      let (ch, ok) = recordReceive (Sequence hdr) (c_channels c ! unat (Channel hdr));
                          c = setChannel (unat (Channel hdr)) ch c
                      in if \<not> ok then Inr ((c, bf, st), [])
                         else case (if Flags hdr AND FlagFragment \<noteq> 0
                                    then handleFragment lib now hdr (drop n decrypted) c
                                    else deliverMessages (Channel hdr) (Sequence hdr) (Some (drop n decrypted)) c) of
                                Inl e \<Rightarrow> Inl e
                              | Inr (c, es) \<Rightarrow> Inr ((c, bf, st), es))"

definition pool_processPacket ::
  "comp_lib \<Rightarrow> time \<Rightarrow> bytes \<Rightarrow> connection \<times> buffers \<times> store \<Rightarrow> ((connection \<times> buffers \<times> store) \<times> effect list) res" where
  "pool_processPacket lib now data p =
     (case p of (c, bf, st) \<Rightarrow>
        let (cipher, r) = Decrypt (c_recvCipher c) data getDecryptBuffer;
            c = c\<lparr>c_recvCipher := cipher\<rparr>
        in case r of
             Inl e \<Rightarrow> Inr ((c, bf, st), [OnError e])
           | Inr decrypted \<Rightarrow> pool_handleDecrypted lib now decrypted (c, bf, st))"

fun pool_processPackets ::
  "comp_lib \<Rightarrow> time \<Rightarrow> bytes list \<Rightarrow> connection \<times> buffers \<times> store \<Rightarrow> ((connection \<times> buffers \<times> store) \<times> effect list) res" where
  "pool_processPackets lib now [] p = Inr (p, [])"
| "pool_processPackets lib now (pkt # pkts) p =
     (case pool_processPacket lib now pkt p of
        Inl e \<Rightarrow> Inl e
      | Inr (p, es) \<Rightarrow>
          (case pool_processPackets lib now pkts p of
             Inl e \<Rightarrow> Inl e
           | Inr (p, es') \<Rightarrow> Inr (p, es @ es')))"

definition pool_processConnData ::
  "comp_lib \<Rightarrow> time \<Rightarrow> bytes \<Rightarrow> connection \<times> buffers \<times> store \<Rightarrow> ((connection \<times> buffers \<times> store) \<times> effect list) res" where
  "pool_processConnData lib now data p =
     (case p of (c, bf, st) \<Rightarrow>
        let c = countReceived (length data) c
        in if c_batchEnabled c
           then case UnmarshalBatch data of
                  Inl e \<Rightarrow> Inr ((c, bf, st), [OnError e])
                | Inr packets \<Rightarrow> pool_processPackets lib now packets (c, bf, st)
           else pool_processPacket lib now data (c, bf, st))"

subsection \<open>The tick\<close>

fun pool_retransmitPackets :: "'u pooledSend \<Rightarrow> time \<Rightarrow> slice list \<Rightarrow> 'u pst \<Rightarrow> (unit \<times> 'u pst) option" where
  "pool_retransmitPackets psf now [] p = Some ((), p)"
| "pool_retransmitPackets psf now (raw # rest) p =
     (case p of ((c, u), bf, st) \<Rightarrow>
        do {
          (encBuf, st) \<leftarrow> pool_getSendBuffer (NonceSize + sl_len raw + TagSize) st;
          let ((cipher, r), st) = pool_Encrypt (c_sendCipher c) (content st raw) encBuf st;
          let c = c\<lparr>c_sendCipher := cipher\<rparr>;
          case r of
            Inl e \<Rightarrow> pool_retransmitPackets psf now rest ((c, u), bf, pool_putSendBuffer encBuf st)
          | Inr encrypted \<Rightarrow>
              do {
                (((c, u), err), st) \<leftarrow> pool_sendFramed psf encrypted (c, u) st;
                let st = pool_putSendBuffer encrypted st;
                let c = c\<lparr>c_lastSend := now, c_cc := OnLoss (c_cc c)\<rparr>;
                pool_retransmitPackets psf now rest ((c, u), bf, st)
              }
        })"

text \<open>The slices of the packets \<open>checkRetransmissions\<close> returns.\<close>

definition dueSlices :: "time \<Rightarrow> pendingPacket list \<Rightarrow> slice list \<Rightarrow> slice list" where
  "dueSlices now ps ss = map snd (filter (\<lambda>q. \<not> now < pp_nextRetransmit (fst q)) (zip ps ss))"

fun pool_retransmitChannels ::
  "'u pooledSend \<Rightarrow> time \<Rightarrow> duration \<Rightarrow> int \<Rightarrow> nat list \<Rightarrow> 'u pst \<Rightarrow> (bool \<times> 'u pst) option" where
  "pool_retransmitChannels psf now rto maxRetries [] p = Some (False, p)"
| "pool_retransmitChannels psf now rto maxRetries (i # is) p =
     (case p of ((c, u), bf, st) \<Rightarrow>
        let (ch, retransmits, kill) = checkRetransmissions now rto maxRetries (c_channels c ! i);
            resend = dueSlices now (ch_pendingSend (c_channels c ! i)) (bf_pending bf ! i);
            c = setChannel i ch c
        in if kill then Some (True, (c, u), bf, st)
           else do {
             (_, p) \<leftarrow> pool_retransmitPackets psf now resend ((c, u), bf, st);
             pool_retransmitChannels psf now rto maxRetries is p
           })"

fun pool_sendQueued ::
  "comp_lib \<Rightarrow> scratch_lib \<Rightarrow> 'u pooledSend \<Rightarrow> time \<Rightarrow> outgoingMessage list \<Rightarrow> 'u pst \<Rightarrow> (effect list \<times> 'u pst) option" where
  "pool_sendQueued lib slib psf now [] p = Some ([], p)"
| "pool_sendQueued lib slib psf now (m # ms) p =
     (case p of ((c, u), bf, st) \<Rightarrow>
        if \<not> CanSend (c_cc c) (InFlightCount c) then Some ([], (requeue (m # ms) c, u), bf, st)
        else do {
          (err, p) \<leftarrow> pool_sendMessage lib slib psf (om_data m) (om_channel m) now p;
          es \<leftarrow> (case report err of Inl e \<Rightarrow> None | Inr es \<Rightarrow> Some es);
          (es', p) \<leftarrow> pool_sendQueued lib slib psf now ms p;
          Some (es @ es', p)
        })"

type_synonym pdgram = "slice option \<times> nat"

definition pool_batchFlush :: "'u pooledSend \<Rightarrow> 'u st \<Rightarrow> pdgram \<Rightarrow> store \<Rightarrow> (('u st \<times> fw_error option) \<times> pdgram \<times> store) option" where
  "pool_batchFlush psf s dg st =
     (case dg of (dgBuf, pktCount) \<Rightarrow>
        if pktCount = 0 then Some ((s, None), dg, st)
        else do {
          buf \<leftarrow> dgBuf;
          let st = overwrite buf ((content st buf)[0 := of_nat pktCount]) st;
          (r, st) \<leftarrow> psf s buf st;
          Some (r, (None, 0), pool_putSendBuffer buf st)
        })"

definition pool_appendPacket :: "slice \<Rightarrow> slice \<Rightarrow> store \<Rightarrow> slice \<times> store" where
  "pool_appendPacket dgBuf pkt st =
     (let (dgBuf, st) = go_append dgBuf (len16 (content st pkt)) st in go_append dgBuf (content st pkt) st)"

definition pool_newDatagram :: "int \<Rightarrow> store \<Rightarrow> (slice \<times> store) option" where
  "pool_newDatagram mtu st =
     do {
       (b, st) \<leftarrow> pool_getSendBuffer (nat mtu) st;
       b \<leftarrow> reslice 1 st b;
       Some (b, st)
     }"

definition pool_single :: "slice \<Rightarrow> store \<Rightarrow> (slice \<times> store) option" where
  "pool_single pkt st =
     do {
       (b, st) \<leftarrow> pool_getSendBuffer (BatchHeaderSize + (BatchLenSize + sl_len pkt)) st;
       let st = overwrite b ((content st b)[0 := 1]) st;
       let st = copyTo b 1 (len16 (content st pkt)) st;
       Some (b, copyTo b 3 (content st pkt) st)
     }"

fun pool_flushLoop ::
  "int \<Rightarrow> 'u pooledSend \<Rightarrow> slice list \<Rightarrow> 'u st \<Rightarrow> pdgram \<Rightarrow> store \<Rightarrow> (('u st \<times> fw_error option) \<times> store) option" where
  "pool_flushLoop mtu psf [] s dg st = do { (r, dg, st) \<leftarrow> pool_batchFlush psf s dg st; Some (r, st) }"
| "pool_flushLoop mtu psf (pkt # pkts) s dg st =
     (let entrySize = BatchLenSize + sl_len pkt
      in if mtu < int (BatchHeaderSize + entrySize)
         then do {
           ((s, err), dg, st) \<leftarrow> pool_batchFlush psf s dg st;
           if err \<noteq> None then Some ((s, err), st)
           else do {
             (b, st) \<leftarrow> pool_single pkt st;
             ((s, err), st) \<leftarrow> psf s b st;
             let st = pool_putSendBuffer b st;
             if err \<noteq> None then Some ((s, err), st) else pool_flushLoop mtu psf pkts s dg st
           }
         }
         else do {
           (b, st) \<leftarrow> (case fst dg of None \<Rightarrow> pool_newDatagram mtu st | Some b \<Rightarrow> Some (b, st));
           if mtu < int (sl_len b + entrySize) \<or> 255 \<le> snd dg
           then do {
             ((s, err), dg', st) \<leftarrow> pool_batchFlush psf s (Some b, snd dg) st;
             if err \<noteq> None then Some ((s, err), st)
             else do {
               (b, st) \<leftarrow> pool_newDatagram mtu st;
               let (b, st) = pool_appendPacket b pkt st;
               pool_flushLoop mtu psf pkts s (Some b, snd dg' + 1) st
             }
           }
           else let (b, st) = pool_appendPacket b pkt st
                in pool_flushLoop mtu psf pkts s (Some b, snd dg + 1) st
         })"

definition pool_flushBatch :: "int \<Rightarrow> 'u pooledSend \<Rightarrow> 'u pst \<Rightarrow> (fw_error option \<times> 'u pst) option" where
  "pool_flushBatch mtu psf p =
     (case p of ((c, u), bf, st) \<Rightarrow>
        if bf_batch bf = [] then Some (None, p)
        else do {
          ((s, err), st) \<leftarrow> pool_flushLoop mtu psf (bf_batch bf) (c\<lparr>c_batchBuf := []\<rparr>, u) (None, 0) st;
          Some (err, s, bf\<lparr>bf_batch := []\<rparr>, pool_putAll (bf_batch bf) st)
        })"

definition pool_tickDisconnecting :: "'u pooledSend \<Rightarrow> time \<Rightarrow> 'u pst \<Rightarrow> (effect list \<times> 'u pst) option" where
  "pool_tickDisconnecting psf now p =
     (case p of ((c, u), bf, st) \<Rightarrow>
        if maxDisconnectRetries \<le> c_disconnectRetries c
        then (case pool_teardown (c, bf, st) of (c, bf, st) \<Rightarrow>
                Some ([RemoveConnection, OnDisconnect DisconnectGraceful], (c, u), bf, st))
        else case bf_disconnect bf of
               None \<Rightarrow> Some ([], p)
             | Some pkt \<Rightarrow>
                 if c_nextDisconnectRetry c < now
                 then do {
                   (((c, u), err), st) \<leftarrow> psf (c, u) pkt st;
                   Some ([], (c\<lparr>c_disconnectRetries := c_disconnectRetries c + 1,
                                c_nextDisconnectRetry := now + RTO (c_rtt c)\<rparr>, u), bf, st)
                 }
                 else Some ([], p))"

definition pool_tickSend ::
  "comp_lib \<Rightarrow> scratch_lib \<Rightarrow> tickParams \<Rightarrow> 'u pooledSend \<Rightarrow> time \<Rightarrow> 'u pst \<Rightarrow> (effect list \<times> 'u pst) option" where
  "pool_tickSend lib slib tp psf now p =
     (case p of ((c, u), bf, st) \<Rightarrow>
        do {
          let (c, msgs) = drainSendQueue c;
          (es, p) \<leftarrow> pool_sendQueued lib slib psf now msgs ((c, u), bf, st);
          (err, p) \<leftarrow> (if c_batchEnabled (fst (fst p)) then pool_flushBatch (tp_MTU tp) psf p else Some (None, p));
          es' \<leftarrow> (case report err of Inl e \<Rightarrow> None | Inr es \<Rightarrow> Some es);
          let (c, acks) = takeAckChannels (fst (fst p));
          let p = ((c, snd (fst p)), snd p);
          (_, p) \<leftarrow> (if 0 < length acks then pool_sendMultiChannelHeartbeat psf acks now p else Some (None, p));
          (_, p) \<leftarrow> (if needsHeartbeatAt now (tp_HeartbeatInterval tp) (fst (fst p))
                     then pool_sendMultiChannelHeartbeat psf [0] now p else Some (None, p));
          let c = fst (fst p);
          let c = c\<lparr>c_reassembly := fst (reassembly_cleanup now (tp_FragmentTimeout tp) (c_reassembly c))\<rparr>;
          Some (es @ es', (tickBandwidth now c, snd (fst p)), snd p)
        })"

definition pool_tickConnection ::
  "comp_lib \<Rightarrow> scratch_lib \<Rightarrow> tickParams \<Rightarrow> 'u pooledSend \<Rightarrow> time \<Rightarrow> 'u pst \<Rightarrow> (effect list \<times> 'u pst) option" where
  "pool_tickConnection lib slib tp psf now p =
     (case p of ((c, u), bf, st) \<Rightarrow>
        if c_state c = StateDisconnecting then pool_tickDisconnecting psf now p
        else if c_state c \<noteq> StateConnected then Some ([], p)
        else if isTimedOutAt now (tp_ConnTimeout tp) c
        then (case pool_teardown (c, bf, st) of (c, bf, st) \<Rightarrow>
                Some ([RemoveConnection, OnDisconnect DisconnectTimeout], (c, u), bf, st))
        else do {
          (kill, (c, u), bf, st) \<leftarrow> pool_retransmitChannels psf now (currentRTO c) (tp_MaxRetransmits tp) [0..<length (c_channels c)] p;
          if kill
          then (case pool_teardown (c, bf, st) of (c, bf, st) \<Rightarrow>
                  Some ([RemoveConnection, OnError ErrMaxRetransmits, OnDisconnect DisconnectError], (c, u), bf, st))
          else pool_tickSend lib slib tp psf now ((c, u), bf, st)
        })"

section \<open>Releasing and receiving\<close>

lemma content_putAll [simp]: "content (pool_putAll bs st) s = content st s" "cap (pool_putAll bs st) s = cap st s"
proof (induction bs arbitrary: st)
  case (Cons b bs)
  case 1
  from Cons.IH(1) [of "pool_putSendBuffer b st"] show ?case by (simp add: pool_putAll_def)
next
  case (Cons b bs)
  case 2
  from Cons.IH(2) [of "pool_putSendBuffer b st"] show ?case by (simp add: pool_putAll_def)
qed (simp_all add: pool_putAll_def)

lemma untouched_putAll [simp]: "untouched st (pool_putAll bs st) L"
  by (simp add: untouched_def)

lemma putAll_append: "pool_putAll (as @ bs) st = pool_putAll bs (pool_putAll as st)"
  by (simp add: pool_putAll_def)

lemma zip_filter:
  "length ss = length ps \<Longrightarrow> map f ss = map g ps \<Longrightarrow>
     map f (map snd (filter (\<lambda>q. P (fst q)) (zip ps ss))) = map g (filter P ps)"
  by (induction ss ps rule: list_induct2) auto

lemma zip_partition:
  "length ss = length ps \<Longrightarrow>
     mset ss = mset (map snd (filter P (zip ps ss))) + mset (map snd (filter (\<lambda>q. \<not> P q) (zip ps ss)))"
  by (induction ss ps rule: list_induct2) auto

lemma mset_concat_update:
  assumes "i < length xss"
  shows "mset (concat xss) = mset (concat (xss[i := ys])) + mset (xss ! i) - mset ys"
    "mset (concat (xss[i := ys])) + mset (xss ! i) = mset (concat xss) + mset ys"
proof -
  obtain as bs where x: "xss = as @ xss ! i # bs" "length as = i"
    using id_take_nth_drop [OF assms] assms by (metis length_take min.absorb4)
  have "xss[i := ys] = as @ ys # bs" by (subst x(1)) (simp add: x(2) [symmetric])
  then show 2: "mset (concat (xss[i := ys])) + mset (xss ! i) = mset (concat xss) + mset ys"
    by (subst (2) x(1)) simp
  then show "mset (concat xss) = mset (concat (xss[i := ys])) + mset (xss ! i) - mset ys" by simp
qed

lemma pool_releasePendingBuffers_eq:
  "\<exists>bs. pool_releasePendingBuffers (c, bf, st) = (conn_releasePendingBuffers c,
      \<lparr>bf_pending = map (\<lambda>_. []) (bf_pending bf), bf_batch = [], bf_disconnect = None\<rparr>, pool_putAll bs st) \<and> mset bs = mset (inUse bf)"
  by (rule exI [of _ "concat (bf_pending bf) @ (case bf_disconnect bf of None \<Rightarrow> [] | Some s \<Rightarrow> [s]) @ bf_batch bf"])
     (simp add: pool_releasePendingBuffers_def putAll_append inUse_def)

lemma applyAcks_packets:
  "raws (applyAcks now i ack field c) = (if ack = 0 then raws c
     else (raws c)[unat i := map pp_raw (filter (\<lambda>p. \<not> isAcked (pp_sequence p) ack field) (ch_pendingSend (c_channels c ! unat i)))])"
  "c_batchBuf (applyAcks now i ack field c) = c_batchBuf c"
  "c_disconnectPacket (applyAcks now i ack field c) = c_disconnectPacket c"
  "c_sendCipher (applyAcks now i ack field c) = c_sendCipher c"
proof -
  obtain ch r acked where p: "processAcks now ack field (Some (c_rtt c)) (c_channels c ! unat i) = (ch, r, acked)"
    by (metis surj_pair)
  have ch: "ch_pendingSend ch = (if ack = 0 then ch_pendingSend (c_channels c ! unat i)
      else filter (\<lambda>p. \<not> isAcked (pp_sequence p) ack field) (ch_pendingSend (c_channels c ! unat i)))"
    using p by (auto simp: processAcks_def ackLoop_spec acked_packet_def split: if_splits)
  have "raws (applyAcks now i ack field c) = raws (setChannel (unat i) ch c)"
    by (simp add: applyAcks_def p raws_def Let_def)
  then show "raws (applyAcks now i ack field c) = (if ack = 0 then raws c
     else (raws c)[unat i := map pp_raw (filter (\<lambda>p. \<not> isAcked (pp_sequence p) ack field) (ch_pendingSend (c_channels c ! unat i)))])"
    using same_packets_channel [of ch c "unat i"] by (simp add: raws_setChannel ch same_packets_def)
  show "c_batchBuf (applyAcks now i ack field c) = c_batchBuf c"
    "c_disconnectPacket (applyAcks now i ack field c) = c_disconnectPacket c"
    "c_sendCipher (applyAcks now i ack field c) = c_sendCipher c"
    by (simp_all add: applyAcks_def p setChannel_def Let_def)
qed

lemma deliverTo_packets: "deliverTo i seq p c = Inr (c', ms) \<Longrightarrow> same_packets c c'"
proof -
  assume d: "deliverTo i seq p c = Inr (c', ms)"
  then obtain ch where ch: "deliver seq p (c_channels c ! unat i) = Inr (ch, ms)" "c' = setChannel (unat i) ch c"
    by (auto simp: deliverTo_def split: sum.splits)
  have "ch_pendingSend ch = ch_pendingSend (c_channels c ! unat i)"
    using ch(1) by (auto simp: deliver_def deliverReliableOrdered_def deliverUnreliableSequenced_def Let_def
        split: if_splits option.splits prod.splits)
  then show ?thesis unfolding ch(2) by (simp add: same_packets_channel)
qed

lemma deliverMessages_packets: "deliverMessages i seq p c = Inr (c', es) \<Longrightarrow> same_packets c c'"
  by (auto simp: deliverMessages_def split: sum.splits dest: deliverTo_packets)

lemma handleFragment_packets: "handleFragment lib now hdr p c = Inr (c', es) \<Longrightarrow> same_packets c c'"
proof -
  have r: "same_packets c (c\<lparr>c_reassembly := x\<rparr>)" for x by (simp add: same_packets_def raws_def)
  assume "handleFragment lib now hdr p c = Inr (c', es)"
  then show ?thesis
    by (cases rule: handleFragment_cases)
       (auto intro: r same_packets_trans [OF r] dest: deliverTo_packets deliverMessages_packets)
qed

lemma runsE:
  assumes "runs N m st L (s, r)"
  obtains bf' st' where "m = Some (r, s, bf', st')" "pooled_ok N (s, bf', st') L" "untouched st st' L"
  using assms unfolding runs_def by auto

context pooled_net
begin

lemma ok_release:
  assumes "pooled_ok net_ok ((c, u), bf, st) L" "mset (inUse bf) = mset bs + mset (inUse bf')"
    and "matches c' bf' st" "cs_aead (c_sendCipher c') = cs_aead (c_sendCipher c)"
  shows "pooled_ok net_ok ((c', u), bf', pool_putAll bs st) L"
proof -
  have "own st (bs @ inUse bf' @ L)" by (rule own_perm [OF ok_own [OF assms(1)]]) (simp add: assms(2))
  from putAll_own [OF this] have o: "own (pool_putAll bs st) (inUse bf' @ L)" "so_queue (pool_putAll bs st) = so_queue st"
    by (simp_all add: same_def)
  have "net_ok u (pool_putAll bs st)"
    by (rule net_stable [of u st]) (use assms(1) o(2) in \<open>simp_all add: pooled_ok_def\<close>)
  moreover have "matches c' bf' (pool_putAll bs st)" by (rule matches_unt [OF assms(3)]) simp
  ultimately show ?thesis using o(1) assms(1,4) by (simp add: pooled_ok_def sealed_ok_def)
qed

lemma ok_teardown:
  assumes "pooled_ok net_ok ((c, u), bf, st) L"
  obtains bf' st' where "pool_teardown (c, bf, st) = (teardown c, bf', st')" "pooled_ok net_ok ((teardown c, u), bf', st') L"
    "untouched st st' L"
proof -
  let ?bf = "\<lparr>bf_pending = map (\<lambda>_. []) (bf_pending bf), bf_batch = [], bf_disconnect = None\<rparr>"
  obtain bs where r: "pool_releasePendingBuffers (c, bf, st) = (conn_releasePendingBuffers c, ?bf, pool_putAll bs st)"
    "mset bs = mset (inUse bf)" using pool_releasePendingBuffers_eq by blast
  have "map (\<lambda>_. []) (bf_pending bf) = map (\<lambda>_. []) (c_channels c)"
    using length_held [OF assms] by (metis map_replicate_const)
  then have m: "matches (teardown c) ?bf st"
    by (simp add: matches_def teardown_def conn_releasePendingBuffers_def raws_def releasePendingBuffers_def o_def)
  have h: "mset (inUse bf) = mset bs + mset (inUse ?bf)" using r(2) by (simp add: inUse_def)
  have "cs_aead (c_sendCipher (teardown c)) = cs_aead (c_sendCipher c)" by (simp add: teardown_def conn_releasePendingBuffers_def)
  from that [OF _ ok_release [OF assms h m this]] r(1) show thesis by (simp add: pool_teardown_def teardown_def)
qed

lemma ok_applyAcks:
  assumes "pooled_ok net_ok ((c, u), bf, st) L" "unat i < length (c_channels c)"
  obtains bf' st' where "pool_applyAcks now i ack field (c, bf, st) = (applyAcks now i ack field c, bf', st')"
    "pooled_ok net_ok ((applyAcks now i ack field c, u), bf', st') L" "untouched st st' L"
proof (cases "ack = 0")
  case True
  have "same_packets c (applyAcks now i ack field c)" unfolding same_packets_def by (simp add: applyAcks_packets True)
  from that [OF _ ok_conn [OF assms(1) this]] True show thesis by (simp add: pool_applyAcks_def Let_def)
next
  case False
  let ?ps = "ch_pendingSend (c_channels c ! unat i)" and ?ss = "bf_pending bf ! unat i"
  let ?g = "\<lambda>p. isAcked (pp_sequence p) ack field"
  let ?gone = "map snd (filter (\<lambda>q. ?g (fst q)) (zip ?ps ?ss))" and ?kept = "map snd (filter (\<lambda>q. \<not> ?g (fst q)) (zip ?ps ?ss))"
  let ?bf = "bf\<lparr>bf_pending := (bf_pending bf)[unat i := ?kept]\<rparr>"
  have m: "matches c bf st" using assms(1) by (simp add: pooled_ok_def)
  have i: "unat i < length (bf_pending bf)" using assms(2) length_held [OF assms(1)] by simp
  have eq: "map (content st) ?ss = map pp_raw ?ps"
    using m i assms(2) unfolding matches_def by (metis nth_map raws_nth)
  then have len: "length ?ss = length ?ps" by (metis length_map)
  have "map (content st) ?kept = map pp_raw (filter (\<lambda>p. \<not> ?g p) ?ps)" by (rule zip_filter [OF len eq])
  then have m': "matches (applyAcks now i ack field c) ?bf st"
    using m False by (simp add: matches_def applyAcks_packets map_update)
  have "mset (inUse bf) + mset ?kept = mset (inUse ?bf) + mset ?ss"
    using mset_concat_update(2) [OF i, of ?kept] by (simp add: inUse_def)
  then have h: "mset (inUse bf) = mset ?gone + mset (inUse ?bf)"
    using zip_partition [OF len, of "\<lambda>q. ?g (fst q)"] by simp
  from that [OF _ ok_release [OF assms(1) h m']] False show thesis
    by (simp add: pool_applyAcks_def Let_def applyAcks_packets(4))
qed

lemma ok_applyMultiAcks:
  assumes "pooled_ok net_ok ((c, u), bf, st) L"
  obtains bf' st' where "fold (pool_applyMultiAck now) acks (c, bf, st) = (fold (applyMultiAck now) acks c, bf', st')"
    "pooled_ok net_ok ((fold (applyMultiAck now) acks c, u), bf', st') L" "untouched st st' L"
proof -
  have "\<exists>bf' st'. fold (pool_applyMultiAck now) acks (c, bf, st) = (fold (applyMultiAck now) acks c, bf', st') \<and>
      pooled_ok net_ok ((fold (applyMultiAck now) acks c, u), bf', st') L \<and> untouched st st' L"
    using assms
  proof (induction acks arbitrary: c bf st)
    case (Cons e es)
    show ?case
    proof (cases "conn_channel c (mae_Channel e) = None")
      case True
      then show ?thesis using Cons.IH [OF Cons.prems] by (simp add: pool_applyMultiAck_def applyMultiAck_def)
    next
      case False
      then have "unat (mae_Channel e) < length (c_channels c)" by (simp add: conn_channel_def split: if_splits)
      from ok_applyAcks [OF Cons.prems this, of now "mae_Ack e" "mae_AckField e"] obtain bf1 st1 where
        1: "pool_applyAcks now (mae_Channel e) (mae_Ack e) (mae_AckField e) (c, bf, st) = (applyMultiAck now e c, bf1, st1)"
        "pooled_ok net_ok ((applyMultiAck now e c, u), bf1, st1) L" "untouched st st1 L"
        using False by (auto simp: applyMultiAck_def)
      then show ?thesis using Cons.IH [OF 1(2)] False by (auto simp: pool_applyMultiAck_def intro: untouched_trans)
    qed
  qed auto
  then show thesis using that by blast
qed

lemma ok_handleControl:
  assumes "pooled_ok net_ok ((c, u), bf, st) L" "handleControl now body c = (c', es)"
  shows "\<exists>bf' st'. pool_handleControl now body (c, bf, st) = ((c', bf', st'), es) \<and>
    pooled_ok net_ok ((c', u), bf', st') L \<and> untouched st st' L"
proof -
  obtain bf1 st1 where t: "pool_teardown (c, bf, st) = (teardown c, bf1, st1)" "pooled_ok net_ok ((teardown c, u), bf1, st1) L"
    "untouched st st1 L" by (rule ok_teardown [OF assms(1)])
  have m: "\<exists>bf' st'. fold (pool_applyMultiAck now) acks (c, bf, st) = (fold (applyMultiAck now) acks c, bf', st') \<and>
      pooled_ok net_ok ((fold (applyMultiAck now) acks c, u), bf', st') L \<and> untouched st st' L" for acks
    using ok_applyMultiAcks [OF assms(1)] by metis
  show ?thesis using assms t m by (auto simp: handleControl_def pool_handleControl_def split: if_splits sum.splits)
qed

lemma ok_handleDecrypted:
  assumes "pooled_ok net_ok ((c, u), bf, st) L" "handleDecrypted lib now dec c = Inr (c', es)"
  shows "\<exists>bf' st'. pool_handleDecrypted lib now dec (c, bf, st) = Inr ((c', bf', st'), es) \<and>
    pooled_ok net_ok ((c', u), bf', st') L \<and> untouched st st' L"
proof (cases "UnmarshalHeader dec")
  case (Inl e)
  then show ?thesis using assms by (auto simp: handleDecrypted_def pool_handleDecrypted_def)
next
  case (Inr hn)
  obtain hdr n where hn: "hn = (hdr, n)" by (cases hn)
  let ?i = "Channel hdr"
  define c1 where "c1 = c\<lparr>c_lastRecv := now\<rparr>"
  have ok1: "pooled_ok net_ok ((c1, u), bf, st) L" unfolding c1_def by (rule ok_conn [OF assms(1)]) simp
  show ?thesis
  proof (cases "conn_channel c1 ?i = None")
    case True
    then show ?thesis using assms ok1 by (auto simp: handleDecrypted_def pool_handleDecrypted_def Inr hn c1_def Let_def)
  next
    case False
    then have "unat ?i < length (c_channels c1)" by (simp add: conn_channel_def split: if_splits)
    then obtain bf2 st2 where a: "pool_applyAcks now ?i (Ack hdr) (AckField hdr) (c1, bf, st) =
        (applyAcks now ?i (Ack hdr) (AckField hdr) c1, bf2, st2)"
      "pooled_ok net_ok ((applyAcks now ?i (Ack hdr) (AckField hdr) c1, u), bf2, st2) L" "untouched st st2 L"
      by (rule ok_applyAcks [OF ok1])
    define c2 where "c2 = applyAcks now ?i (Ack hdr) (AckField hdr) c1"
    let ?r = "recordReceive (Sequence hdr) (c_channels c2 ! unat ?i)"
    define c3 where "c3 = setChannel (unat ?i) (fst ?r) c2"
    have "same_packets c2 c3" unfolding c3_def by (rule same_packets_channel) simp
    with a(2) have ok3: "pooled_ok net_ok ((c3, u), bf2, st2) L" unfolding c2_def by (rule ok_conn)
    have p: "pool_handleDecrypted lib now dec (c, bf, st) =
        (if Flags hdr AND FlagControl \<noteq> 0 then Inr (pool_handleControl now (drop n dec) (c2, bf2, st2))
         else if \<not> snd ?r then Inr ((c3, bf2, st2), [])
         else case (if Flags hdr AND FlagFragment \<noteq> 0 then handleFragment lib now hdr (drop n dec) c3
                    else deliverMessages ?i (Sequence hdr) (Some (drop n dec)) c3) of
                Inl e \<Rightarrow> Inl e | Inr (c, es) \<Rightarrow> Inr ((c, bf2, st2), es))"
      unfolding pool_handleDecrypted_def prod.case Inr hn sum.case Let_def c1_def [symmetric] a(1) split_beta
        c2_def [symmetric] fst_conv snd_conv c3_def [symmetric] by (simp only: False if_False)
    have v: "handleDecrypted lib now dec c =
        (if Flags hdr AND FlagControl \<noteq> 0 then Inr (handleControl now (drop n dec) c2)
         else if \<not> snd ?r then Inr (c3, [])
         else if Flags hdr AND FlagFragment \<noteq> 0 then handleFragment lib now hdr (drop n dec) c3
         else deliverMessages ?i (Sequence hdr) (Some (drop n dec)) c3)"
      unfolding handleDecrypted_eq [OF Inr [unfolded hn]] Let_def c1_def [symmetric] c2_def [symmetric] c3_def [symmetric]
      by (simp only: False if_False)
    show ?thesis
    proof (cases "Flags hdr AND FlagControl \<noteq> 0")
      case True
      then have "handleControl now (drop n dec) c2 = (c', es)" using assms(2) v by simp
      from ok_handleControl [OF a(2) [folded c2_def] this] True p a(3) show ?thesis by (auto intro: untouched_trans)
    next
      case False
      then show ?thesis
        using assms(2) v p a(3) ok3 ok_conn [OF ok3 handleFragment_packets] ok_conn [OF ok3 deliverMessages_packets]
        by (auto split: if_splits)
    qed
  qed
qed

lemma ok_processPacket:
  assumes "pooled_ok net_ok ((c, u), bf, st) L" "processPacket lib now d c = Inr (c', es)"
  shows "\<exists>bf' st'. pool_processPacket lib now d (c, bf, st) = Inr ((c', bf', st'), es) \<and>
    pooled_ok net_ok ((c', u), bf', st') L \<and> untouched st st' L"
proof -
  obtain k r where d: "Decrypt (c_recvCipher c) d getDecryptBuffer = (k, r)" by (metis surj_pair)
  have ok: "pooled_ok net_ok ((c\<lparr>c_recvCipher := k\<rparr>, u), bf, st) L" by (rule ok_conn [OF assms(1)]) simp
  show ?thesis using assms(2) ok ok_handleDecrypted [OF ok]
    by (cases r) (auto simp: processPacket_def pool_processPacket_def d)
qed

lemma ok_processPackets:
  assumes "pooled_ok net_ok ((c, u), bf, st) L" "processPackets lib now ds c = Inr (c', es)"
  shows "\<exists>bf' st'. pool_processPackets lib now ds (c, bf, st) = Inr ((c', bf', st'), es) \<and>
    pooled_ok net_ok ((c', u), bf', st') L \<and> untouched st st' L"
  using assms
proof (induction ds arbitrary: c bf st es)
  case (Cons d ds)
  obtain c1 es1 es2 where p: "processPacket lib now d c = Inr (c1, es1)" "processPackets lib now ds c1 = Inr (c', es2)" "es = es1 @ es2"
    using Cons.prems(2) by (auto split: sum.splits)
  obtain bf1 st1 where 1: "pool_processPacket lib now d (c, bf, st) = Inr ((c1, bf1, st1), es1)"
    "pooled_ok net_ok ((c1, u), bf1, st1) L" "untouched st st1 L" using ok_processPacket [OF Cons.prems(1) p(1)] by blast
  obtain bf2 st2 where 2: "pool_processPackets lib now ds (c1, bf1, st1) = Inr ((c', bf2, st2), es2)"
    "pooled_ok net_ok ((c', u), bf2, st2) L" "untouched st1 st2 L" using Cons.IH [OF 1(2) p(2)] by blast
  then show ?case using 1 p(3) untouched_trans [OF 1(3) 2(3)] by simp
qed auto

lemma ok_processConnData:
  assumes "pooled_ok net_ok ((c, u), bf, st) L" "processConnData lib now d c = Inr (c', es)"
  shows "\<exists>bf' st'. pool_processConnData lib now d (c, bf, st) = Inr ((c', bf', st'), es) \<and>
    pooled_ok net_ok ((c', u), bf', st') L \<and> untouched st st' L"
proof -
  have "same_packets c (countReceived (length d) c)" by (simp add: same_packets_def raws_def countReceived_def)
  from ok_conn [OF assms(1) this] have ok: "pooled_ok net_ok ((countReceived (length d) c, u), bf, st) L" .
  show ?thesis using assms(2) ok ok_processPackets [OF ok] ok_processPacket [OF ok]
    by (auto simp: processConnData_def pool_processConnData_def Let_def split: if_splits sum.splits)
qed

end

section \<open>Ticking and closing\<close>

lemma put_reslice [simp]: "pool_putSendBuffer (b\<lparr>sl_len := n\<rparr>) st = pool_putSendBuffer b st"
  by (simp add: pool_putSendBuffer_def)

lemma buildControlPacket_any:
  assumes "12 \<le> length buf" "8 + length p \<le> length buf"
  shows "\<exists>b. buildControlPacket buf controlHeader p = (b, Inr (8 + length p)) \<and>
    take (8 + length p) b = header_enc controlHeader @ p \<and> length b = length buf"
proof -
  have h: "controlHeader\<lparr>Flags := Flags controlHeader OR FlagControl\<rparr> = controlHeader"
    by (simp add: controlHeader_def FlagControl_def)
  have l: "length (header_enc controlHeader) = 8" "header_room controlHeader \<le> length buf"
    using assms(1) by (simp_all add: header_enc_def header_room_def controlHeader_def leb.simps)
  show ?thesis using assms l by (simp add: buildControlPacket_def h MarshalHeader_ok Let_def go_copy_def)
qed

lemma pending_stable:
  assumes "matches c bf st" "matches c' bf st'" "raws c' = raws c" "s \<in> set (concat (bf_pending bf))"
  shows "content st' s = content st s"
proof -
  have "map (map (content st')) (bf_pending bf) = map (map (content st)) (bf_pending bf)"
    using assms(1-3) by (simp add: matches_def)
  then show ?thesis using assms(4) by auto
qed

lemma retransmitLoop_raw: "map pp_raw (fst (retransmitLoop now rto n ps)) = map pp_raw ps"
  by (induction ps) (auto simp: Let_def split: prod.split)

lemma checkRetransmissions_due:
  assumes "checkRetransmissions now rto n ch = (ch', rs, False)" "length ss = length (ch_pendingSend ch)"
    and "map f ss = map pp_raw (ch_pendingSend ch)"
  shows "map f (dueSlices now (ch_pendingSend ch) ss) = map pp_raw rs"
proof -
  obtain ps' rs' k where l: "retransmitLoop now rto n (ch_pendingSend ch) = (ps', rs', k)" by (metis surj_pair)
  then have "rs = map (resent now rto) (filter (due now) (ch_pendingSend ch))"
    using retransmitLoop_spec [OF l] assms(1) by (auto simp: checkRetransmissions_def)
  then have "map pp_raw rs = map pp_raw (filter (\<lambda>p. \<not> now < pp_nextRetransmit p) (ch_pendingSend ch))"
    by (simp add: resent_def due_def [abs_def] not_less o_def)
  then show ?thesis unfolding dueSlices_def using zip_filter [OF assms(2,3), of "\<lambda>p. \<not> now < pp_nextRetransmit p"] by simp
qed

lemma set_dueSlices: "set (dueSlices now ps ss) \<subseteq> set ss"
  by (auto simp: dueSlices_def dest: set_zip_rightD)

lemma tl_length: "xs \<noteq> [] \<Longrightarrow> ys \<noteq> [] \<Longrightarrow> tl xs = tl ys \<Longrightarrow> length xs = length ys"
  by (cases xs; cases ys) auto

text \<open>The datagram under construction: the first byte is written only when it is sent.\<close>

definition dgl :: "pdgram \<Rightarrow> slice list" where
  "dgl dg = (case fst dg of None \<Rightarrow> [] | Some b \<Rightarrow> [b])"

definition dg_rel :: "store \<Rightarrow> pdgram \<Rightarrow> dgram \<Rightarrow> bool" where
  "dg_rel st dg dv \<longleftrightarrow> snd dg = snd dv \<and>
     (case fst dg of
        None \<Rightarrow> fst dv = None
      | Some b \<Rightarrow> (case fst dv of None \<Rightarrow> False
                  | Some v \<Rightarrow> content st b \<noteq> [] \<and> v \<noteq> [] \<and> tl (content st b) = tl v))"

definition flush_runs ::
  "('u \<Rightarrow> store \<Rightarrow> bool) \<Rightarrow> (('u st \<times> fw_error option) \<times> store) option \<Rightarrow> buffers \<Rightarrow> store \<Rightarrow> slice list \<Rightarrow> 'u st \<times> fw_error option \<Rightarrow> bool" where
  "flush_runs net_ok m bf st L q \<longleftrightarrow> (\<exists>st'. m = Some (q, st') \<and> pooled_ok net_ok (fst q, bf, st') L \<and> untouched st st' L)"

lemma flush_runs_after:
  assumes "flush_runs N m bf st' L (flushLoop mtu sf (map (content st') pkts) s dv)" "untouched st st' L" "set pkts \<subseteq> set L"
  shows "flush_runs N m bf st L (flushLoop mtu sf (map (content st) pkts) s dv)"
proof -
  obtain st2 where r: "m = Some (flushLoop mtu sf (map (content st') pkts) s dv, st2)"
    "pooled_ok N (fst (flushLoop mtu sf (map (content st') pkts) s dv), bf, st2) L" "untouched st' st2 L"
    using assms(1) unfolding flush_runs_def by blast
  have eq: "map (content st') pkts = map (content st) pkts" by (rule map_cong) (use assms(2,3) in \<open>auto simp: untouched_def\<close>)
  show ?thesis unfolding flush_runs_def
    by (rule exI [of _ st2], intro conjI) (rule r(1) [unfolded eq], rule r(2) [unfolded eq], rule untouched_trans [OF assms(2) r(3)])
qed

context pooled_net
begin

lemma sendFramed_packets: "sendFramed sf w (c, u) = ((c', u'), err) \<Longrightarrow> same_packets c c'"
  using sf_counts [of c u "singleFrame w"] sf_counts [of c u w] by (auto simp: sendFramed_def split: if_splits)

lemma ok_control:
  assumes "pooled_ok net_ok ((c, u), bf, st) L" "12 \<le> n" "8 + length p \<le> n"
  obtains buf st1 b where "pool_getSendBuffer n st = Some (buf, st1)" "buildControlPacket (content st1 buf) controlHeader p = (b, Inr (8 + length p))"
    "pooled_ok net_ok ((c, u), bf, overwrite buf b st1) (buf\<lparr>sl_len := 8 + length p\<rparr> # L)" "untouched st (overwrite buf b st1) L"
    "content (overwrite buf b st1) (buf\<lparr>sl_len := 8 + length p\<rparr>) = header_enc controlHeader @ p"
    "8 + length p \<le> cap (overwrite buf b st1) buf"
proof -
  obtain buf st1 where g: "pool_getSendBuffer n st = Some (buf, st1)" "pooled_ok net_ok ((c, u), bf, st1) (buf # L)"
    "untouched st st1 L" "sl_len buf = n" "length (content st1 buf) = n" by (rule ok_get [OF assms(1)])
  obtain b where b: "buildControlPacket (content st1 buf) controlHeader p = (b, Inr (8 + length p))"
    "take (8 + length p) b = header_enc controlHeader @ p" "length b = n"
    using buildControlPacket_any [of "content st1 buf" p] g(5) assms(2,3) by auto
  have "length b = sl_len buf" "8 + length p \<le> sl_len buf" using b(3) g(4) assms(3) by simp_all
  note o = ok_build [OF g(2) this]
  from that [OF g(1) b(1) o(1) untouched_trans [OF g(3) o(2)] _ o(4)] o(3) b(2) show thesis by simp
qed

lemma heartbeat_implements:
  "implements net_ok (pool_sendMultiChannelHeartbeat psf ids now) (sendMultiChannelHeartbeat sf ids now)"
proof (rule implementsI)
  fix c u bf st L
  assume ok: "pooled_ok net_ok ((c, u), bf, st) L"
  let ?es = "ackEntries ids c"
  obtain cb r where m: "marshalMultiAck (replicate 256 0) ?es = (cb, r)" by (metis surj_pair)
  show "runs net_ok (pool_sendMultiChannelHeartbeat psf ids now ((c, u), bf, st)) st L (sendMultiChannelHeartbeat sf ids now (c, u))"
  proof (cases "length ?es = 0 \<or> (\<exists>e. r = Inl e)")
    case True
    then show ?thesis using ok m
      by (auto simp: pool_sendMultiChannelHeartbeat_def sendMultiChannelHeartbeat_def Let_def runs_return)
  next
    case False
    then obtain n where n: "r = Inr n" "length ?es \<noteq> 0" by (cases r) auto
    let ?p = "take n cb" and ?x = "header_enc controlHeader @ take n cb"
    have size: "12 \<le> 64 + n" "8 + length ?p \<le> 64 + n" by simp_all
    obtain buf st1 b where b: "pool_getSendBuffer (64 + n) st = Some (buf, st1)"
      "buildControlPacket (content st1 buf) controlHeader ?p = (b, Inr (8 + length ?p))"
      "pooled_ok net_ok ((c, u), bf, overwrite buf b st1) (buf\<lparr>sl_len := 8 + length ?p\<rparr> # L)" "untouched st (overwrite buf b st1) L"
      "content (overwrite buf b st1) (buf\<lparr>sl_len := 8 + length ?p\<rparr>) = ?x" "8 + length ?p \<le> cap (overwrite buf b st1) buf"
      by (rule ok_control [OF ok size])
    let ?st2 = "overwrite buf b st1" and ?pt = "buf\<lparr>sl_len := 8 + length ?p\<rparr>"
    obtain eb st3 k w e st4 where g: "pool_getSendBuffer (NonceSize + length ?x + TagSize) ?st2 = Some (eb, st3)"
      "untouched ?st2 st3 (?pt # L)" and en: "pool_Encrypt (c_sendCipher c) ?x eb st3 = ((k, Inr e), st4)"
      "\<forall>dst. Encrypt (c_sendCipher c) ?x dst = (k, Inr w)"
      "pooled_ok net_ok ((c\<lparr>c_sendCipher := k\<rparr>, u), bf, st4) (e # ?pt # L)" "untouched ?st2 st4 (?pt # L)" "content st4 e = w"
      by (rule ok_seal [OF b(3)])
    have hl: "length (header_enc controlHeader) = 8" by (simp add: header_enc_def controlHeader_def leb.simps)
    have pt: "content st3 ?pt = ?x" using g(2) b(5) by (simp add: untouched_def)
    have ok5: "pooled_ok net_ok ((c\<lparr>c_sendCipher := k\<rparr>, u), bf, st4) (?pt # e # L)" by (rule ok_perm [OF en(3)]) simp
    from ok_put(1) [OF this] have ok5: "pooled_ok net_ok ((c\<lparr>c_sendCipher := k\<rparr>, u), bf, pool_putSendBuffer buf st4) (e # L)" by simp
    let ?st5 = "pool_putSendBuffer buf st4" and ?r = "sendFramed sf w (c\<lparr>c_sendCipher := k\<rparr>, u)"
    obtain st6 where f: "pool_sendFramed psf e (c\<lparr>c_sendCipher := k\<rparr>, u) ?st5 = Some (?r, st6)"
      "pooled_ok net_ok (fst ?r, bf, st6) (e # L)" "untouched ?st5 st6 (e # L)"
      using ok_sendFramed [OF ok5] en(5) by (metis content_putSendBuffer)
    obtain c7 u7 err where r7: "?r = ((c7, u7), err)" by (metis surj_pair)
    have ok7: "pooled_ok net_ok ((c7, u7), bf, pool_putSendBuffer e st6) L" using ok_put(1) [OF f(2)] by (simp add: r7)
    have unt: "untouched st (pool_putSendBuffer e st6) L"
      using b(4) untouched_tail [OF en(4)] untouched_tail [OF f(3)] by (simp add: untouched_def)
    have con: "pool_sendMultiChannelHeartbeat psf ids now ((c, u), bf, st) =
        Some (err, (if err = None then c7\<lparr>c_lastSend := now\<rparr> else c7, u7), bf, pool_putSendBuffer e st6)"
      using n m b g(1) en(1) f(1) hl pt
      by (simp add: pool_sendMultiChannelHeartbeat_def Let_def reslice_def r7 add.assoc)
    have lb: "length (getSendBuffer (64 + n)) = 64 + n" by (simp add: getSendBuffer_def)
    obtain b' where "buildControlPacket (getSendBuffer (64 + n)) controlHeader ?p = (b', Inr (8 + length ?p))"
      "take (8 + length ?p) b' = ?x"
      using buildControlPacket_any [of "getSendBuffer (64 + n)" ?p, unfolded lb, OF size] by auto
    then have abs: "sendMultiChannelHeartbeat sf ids now (c, u) = ((if err = None then c7\<lparr>c_lastSend := now\<rparr> else c7, u7), err)"
      using n m en(2) r7 by (simp add: sendMultiChannelHeartbeat_def Let_def split_beta split: option.split)
    show ?thesis unfolding con abs
      by (rule runs_untouched [OF runs_return unt]) (use ok7 ok_conn [OF ok7 same_packets_fields(1)] in simp)
  qed
qed

lemma retransmitPackets_runs:
  assumes "pooled_ok net_ok ((c, u), bf, st) L" "set ss \<subseteq> set (concat (bf_pending bf) @ L)" "map (content st) ss = map pp_raw ps"
  shows "runs net_ok (pool_retransmitPackets psf now ss ((c, u), bf, st)) st L (retransmitPackets sf now ps (c, u), ())"
  using assms
proof (induction ss arbitrary: ps c u st)
  case Nil
  then show ?case by (simp add: runs_return)
next
  case (Cons s ss)
  then obtain p qs where ps: "ps = p # qs" "content st s = pp_raw p" "map (content st) ss = map pp_raw qs" by auto
  let ?x = "pp_raw p"
  have mem: "s \<in> set (inUse bf @ L)" using Cons.prems(2) by (auto simp: inUse_def)
  from own_mem [OF ok_own [OF Cons.prems(1)] this] have len: "length ?x = sl_len s" using ps(2) by simp
  obtain eb st1 k w e st2 where g: "pool_getSendBuffer (NonceSize + length ?x + TagSize) st = Some (eb, st1)" "untouched st st1 L"
    and en: "pool_Encrypt (c_sendCipher c) ?x eb st1 = ((k, Inr e), st2)" "\<forall>dst. Encrypt (c_sendCipher c) ?x dst = (k, Inr w)"
    "pooled_ok net_ok ((c\<lparr>c_sendCipher := k\<rparr>, u), bf, st2) (e # L)" "untouched st st2 L" "content st2 e = w"
    "cs_aead k = cs_aead (c_sendCipher c)"
    by (rule ok_seal [OF Cons.prems(1), of ?x])
  let ?r = "sendFramed sf w (c\<lparr>c_sendCipher := k\<rparr>, u)"
  obtain st3 where f: "pool_sendFramed psf e (c\<lparr>c_sendCipher := k\<rparr>, u) st2 = Some (?r, st3)"
    "pooled_ok net_ok (fst ?r, bf, st3) (e # L)" "untouched st2 st3 (e # L)" by (rule ok_sendFramed [OF en(3), unfolded en(5)])
  obtain c4 u4 err where r: "?r = ((c4, u4), err)" by (metis surj_pair)
  let ?c5 = "c4\<lparr>c_lastSend := now, c_cc := OnLoss (c_cc c4)\<rparr>" and ?st4 = "pool_putSendBuffer e st3"
  have "pooled_ok net_ok ((c4, u4), bf, ?st4) L" using ok_put(1) [OF f(2)] by (simp add: r)
  then have ok5: "pooled_ok net_ok ((?c5, u4), bf, ?st4) L" by (rule ok_conn) simp
  have sp: "same_packets c ?c5"
    by (rule same_packets_trans [OF same_packets_trans [OF same_packets_cipher [OF en(6)] sendFramed_packets [OF r]]]) simp
  have unt: "untouched st ?st4 L" using en(4) untouched_tail [OF f(3)] by (simp add: untouched_def)
  have pend: "content ?st4 x = content st x" if "x \<in> set (concat (bf_pending bf))" for x
    by (rule pending_stable [OF _ _ _ that, of c st ?c5])
       (use Cons.prems(1) ok5 sp in \<open>simp_all add: pooled_ok_def same_packets_def\<close>)
  have stable: "content ?st4 x = content st x" if "x \<in> set (concat (bf_pending bf) @ L)" for x
    using that pend unt by (auto simp: untouched_def)
  have st1: "content st1 s = ?x"
  proof -
    obtain b' st' where "pool_getSendBuffer (NonceSize + length ?x + TagSize) st = Some (b', st')"
      "same st st' (inUse bf @ L)" using getSendBuffer_own [OF ok_own [OF Cons.prems(1)]] by blast
    then show ?thesis using g(1) ps(2) mem unfolding same_def by auto
  qed
  have IH: "runs net_ok (pool_retransmitPackets psf now ss ((?c5, u4), bf, ?st4)) ?st4 L (retransmitPackets sf now qs (?c5, u4), ())"
  proof (rule Cons.IH [OF ok5])
    show sub: "set ss \<subseteq> set (concat (bf_pending bf) @ L)" using Cons.prems(2) by simp
    have "map (content ?st4) ss = map (content st) ss" by (rule map_cong [OF refl stable]) (use sub in blast)
    then show "map (content ?st4) ss = map pp_raw qs" using ps(3) by (rule trans)
  qed
  show ?case using runs_untouched [OF IH unt] g(1) en(1,2) f(1) r st1 len by (simp add: ps(1) getSendBuffer_def)
qed

lemma retransmitChannels_implements:
  assumes "pooled_ok net_ok ((c, u), bf, st) L" "\<forall>i \<in> set is. i < length (c_channels c)"
  shows "runs net_ok (pool_retransmitChannels psf now rto n is ((c, u), bf, st)) st L (retransmitChannels sf now rto n is (c, u))"
  using assms
proof (induction "is" arbitrary: c u bf st)
  case Nil
  then show ?case by (simp add: runs_return)
next
  case (Cons i "is")
  let ?ch = "c_channels c ! i"
  obtain ch rs kill where k: "checkRetransmissions now rto n ?ch = (ch, rs, kill)" by (metis surj_pair)
  have i: "i < length (c_channels c)" "i < length (bf_pending bf)" using Cons.prems length_held [OF Cons.prems(1)] by simp_all
  have m: "map (map (content st)) (bf_pending bf) = raws c" using Cons.prems(1) by (simp add: pooled_ok_def matches_def)
  have eq: "map (content st) (bf_pending bf ! i) = map pp_raw (ch_pendingSend ?ch)"
    using m i by (metis nth_map raws_nth)
  then have len: "length (bf_pending bf ! i) = length (ch_pendingSend ?ch)" by (metis length_map)
  have "map pp_raw (ch_pendingSend ch) = map pp_raw (ch_pendingSend ?ch)"
    using k retransmitLoop_raw [of now rto n "ch_pendingSend ?ch"] by (auto simp: checkRetransmissions_def split_beta)
  then have ok1: "pooled_ok net_ok ((setChannel i ch c, u), bf, st) L"
    by (intro ok_conn [OF Cons.prems(1)] same_packets_channel)
  show ?case
  proof (cases kill)
    case True
    then show ?thesis using ok1 k by (simp add: runs_return)
  next
    case False
    let ?ss = "dueSlices now (ch_pendingSend ?ch) (bf_pending bf ! i)"
    have "set (bf_pending bf ! i) \<subseteq> set (concat (bf_pending bf))" using nth_mem [OF i(2)] by auto
    then have "set ?ss \<subseteq> set (concat (bf_pending bf) @ L)" using set_dueSlices [of now "ch_pendingSend ?ch" "bf_pending bf ! i"] by auto
    moreover have "map (content st) ?ss = map pp_raw rs" using checkRetransmissions_due [OF _ len eq] k False by simp
    ultimately have p: "runs net_ok (pool_retransmitPackets psf now ?ss ((setChannel i ch c, u), bf, st)) st L
        (retransmitPackets sf now rs (setChannel i ch c, u), ())" by (rule retransmitPackets_runs [OF ok1])
    have "runs net_ok (Option.bind (pool_retransmitPackets psf now ?ss ((setChannel i ch c, u), bf, st))
        (\<lambda>(_, p). pool_retransmitChannels psf now rto n is p)) st L (retransmitChannels sf now rto n (i # is) (c, u))"
    proof (rule runs_bind [OF p])
      fix c2 u2 r bf2 st2
      assume q: "(retransmitPackets sf now rs (setChannel i ch c, u), ()) = ((c2, u2), r)" and ok2: "pooled_ok net_ok ((c2, u2), bf2, st2) L"
      have "length (c_channels c2) = length (c_channels c)"
        using retransmitPackets_sends [of "setChannel i ch c" now rs u] q by (auto simp: sends_def setChannel_def dest: keeps_length)
      then have "runs net_ok (pool_retransmitChannels psf now rto n is ((c2, u2), bf2, st2)) st2 L (retransmitChannels sf now rto n is (c2, u2))"
        using Cons.IH [OF ok2] Cons.prems(2) by simp
      then show "runs net_ok ((\<lambda>(_, p). pool_retransmitChannels psf now rto n is p) (r, (c2, u2), bf2, st2)) st2 L
          (retransmitChannels sf now rto n (i # is) (c, u))" using q k False by simp
    qed
    then show ?thesis using k False by simp
  qed
qed

lemma sendQueued_runs:
  assumes "pooled_ok net_ok ((c, u), bf, st) L" "sendQueued lib sf now ms (c, u) = Inr q"
  shows "runs net_ok (pool_sendQueued lib slib psf now ms ((c, u), bf, st)) st L q"
  using assms
proof (induction ms arbitrary: c u bf st q)
  case Nil
  then show ?case by (auto simp: runs_return)
next
  case (Cons m ms)
  show ?case
  proof (cases "CanSend (c_cc c) (InFlightCount c)")
    case False
    have "pooled_ok net_ok ((requeue (m # ms) c, u), bf, st) L"
      unfolding requeue_def by (rule ok_conn [OF Cons.prems(1)]) simp
    then show ?thesis using Cons.prems(2) False by (auto simp: runs_return)
  next
    case True
    note p = implementsD [OF sendMessage_implements Cons.prems(1), of lib slib "om_data m" "om_channel m" now]
    have "runs net_ok (Option.bind (pool_sendMessage lib slib psf (om_data m) (om_channel m) now ((c, u), bf, st))
        (\<lambda>(err, p). Option.bind (case report err of Inl e \<Rightarrow> None | Inr es \<Rightarrow> Some es) (\<lambda>es.
           Option.bind (pool_sendQueued lib slib psf now ms p) (\<lambda>(es', p). Some (es @ es', p))))) st L q"
    proof (rule runs_bind [OF p])
      fix c1 u1 err bf1 st1
      assume s: "sendMessage lib sf (om_data m) (om_channel m) now (c, u) = ((c1, u1), err)" and ok1: "pooled_ok net_ok ((c1, u1), bf1, st1) L"
      obtain es s2 es2 where e: "report err = Inr es" "sendQueued lib sf now ms (c1, u1) = Inr (s2, es2)" "q = (s2, es @ es2)"
        using Cons.prems(2) True s by (auto split: sum.splits)
      have "runs net_ok (Option.bind (pool_sendQueued lib slib psf now ms ((c1, u1), bf1, st1)) (\<lambda>(es', p). Some (es @ es', p))) st1 L q"
        by (rule runs_bind [OF Cons.IH [OF ok1 e(2)]]) (auto simp: e(3) runs_return)
      then show "runs net_ok ((\<lambda>(err, p). Option.bind (case report err of Inl e \<Rightarrow> None | Inr es \<Rightarrow> Some es) (\<lambda>es.
           Option.bind (pool_sendQueued lib slib psf now ms p) (\<lambda>(es', p). Some (es @ es', p)))) (err, (c1, u1), bf1, st1)) st1 L q"
        by (simp add: e(1))
    qed
    then show ?thesis using True by simp
  qed
qed

subsection \<open>Flushing the batch\<close>

lemma ok_drop: "pooled_ok net_ok (s, bf, st) (b # L) \<Longrightarrow> pooled_ok net_ok (s, bf, st) L"
  using own_drop [OF ok_own_first, of s bf st b L] by (auto simp: pooled_ok_def)

lemma ok_putAll: "pooled_ok net_ok (s, bf, st) (bs @ L) \<Longrightarrow> pooled_ok net_ok (s, bf, pool_putAll bs st) L"
proof (induction bs arbitrary: st)
  case (Cons b bs)
  then have "pooled_ok net_ok (s, bf, st) (b # bs @ L)" by simp
  from Cons.IH [OF ok_put(1) [OF this]] show ?case by (simp add: pool_putAll_def)
qed (simp add: pool_putAll_def)

lemma ok_append:
  assumes "pooled_ok net_ok (s, bf, st) (b # L)" "go_append b bs st = (b', st')"
  shows "pooled_ok net_ok (s, bf, st') (b' # L)" "untouched st st' L" "content st' b' = content st b @ bs"
proof -
  note a = go_append_own [OF ok_own_first [OF assms(1)] assms(2)]
  have "own st' (inUse bf @ b' # L)" by (rule own_perm [OF a(1)]) simp
  from ok_same [OF ok_drop [OF assms(1)] a(2) this] a(3)
  show "pooled_ok net_ok (s, bf, st') (b' # L)" "untouched st st' L" "content st' b' = content st b @ bs" by blast+
qed

lemma ok_appendPacket:
  assumes "pooled_ok net_ok (s, bf, st) (b # L)" "pkt \<in> set L"
  obtains b' st' where "pool_appendPacket b pkt st = (b', st')" "pooled_ok net_ok (s, bf, st') (b' # L)" "untouched st st' L"
    "content st' b' = content st b @ len16 (content st pkt) @ content st pkt"
proof -
  obtain b1 st1 where 1: "go_append b (len16 (content st pkt)) st = (b1, st1)" by (metis surj_pair)
  note a1 = ok_append [OF assms(1) 1]
  obtain b2 st2 where 2: "go_append b1 (content st1 pkt) st1 = (b2, st2)" by (metis surj_pair)
  note a2 = ok_append [OF a1(1) 2]
  have "content st1 pkt = content st pkt" using a1(2) assms(2) by (simp add: untouched_def)
  then show thesis using that [OF _ a2(1) untouched_trans [OF a1(2) a2(2)]] 1 2 a1(3) a2(3) by (simp add: pool_appendPacket_def)
qed

lemma ok_newDatagram:
  assumes "pooled_ok net_ok (s, bf, st) L" "1 \<le> mtu"
  obtains b st' where "pool_newDatagram mtu st = Some (b, st')" "pooled_ok net_ok (s, bf, st') (b # L)" "untouched st st' L"
    "sl_len b = 1" "length (content st' b) = 1"
proof -
  obtain b st1 where g: "pool_getSendBuffer (nat mtu) st = Some (b, st1)" "pooled_ok net_ok (s, bf, st1) (b # L)"
    "untouched st st1 L" "nat mtu \<le> cap st1 b" by (rule ok_get [OF assms(1)])
  have "1 \<le> cap st1 b" using g(4) assms(2) by linarith
  then have "pooled_ok net_ok (s, bf, st1) (b\<lparr>sl_len := 1\<rparr> # L)" "reslice 1 st1 b = Some (b\<lparr>sl_len := 1\<rparr>)"
    using ok_reslice [OF g(2)] by (simp_all add: reslice_def)
  from that [OF _ this(1) g(3)] this ok_len [OF this(1)] g(1) show thesis by (simp add: pool_newDatagram_def)
qed

lemma ok_single:
  assumes "pooled_ok net_ok (s, bf, st) L" "pkt \<in> set L"
  obtains b st' where "pool_single pkt st = Some (b, st')" "pooled_ok net_ok (s, bf, st') (b # L)" "untouched st st' L"
    "content st' b = 1 # len16 (content st pkt) @ content st pkt"
proof -
  let ?p = "content st pkt" and ?n = "BatchHeaderSize + (BatchLenSize + sl_len pkt)"
  have len: "length ?p = sl_len pkt" using own_mem [OF ok_own [OF assms(1)]] assms(2) by simp
  obtain b st1 where g: "pool_getSendBuffer ?n st = Some (b, st1)" "pooled_ok net_ok (s, bf, st1) (b # L)"
    "untouched st st1 L" "sl_len b = ?n" "length (content st1 b) = ?n" by (rule ok_get [OF assms(1)])
  define st2 where "st2 = overwrite b ((content st1 b)[0 := 1]) st1"
  have o: "pooled_ok net_ok (s, bf, st2) (b # L)" "untouched st1 st2 L" "content st2 b = (content st1 b)[0 := 1]"
    unfolding st2_def by (rule ok_fill [OF g(2)]; simp add: g)+
  have le: "1 \<le> sl_len b" "3 \<le> sl_len b" using g(4) by (simp_all add: batch_size_defs)
  define st3 where "st3 = copyTo b 1 (len16 (content st2 pkt)) st2"
  note c1 = ok_copyTo [OF o(1) le(1), of "len16 (content st2 pkt)", folded st3_def]
  note c2 = ok_copyTo [OF c1(1) le(2), of "content st3 pkt"]
  have p: "content st2 pkt = ?p" "content st3 pkt = ?p"
    using g(3) o(2) c1(2) assms(2) by (simp_all add: untouched_def)
  have "content (copyTo b 3 (content st3 pkt) st3) b = 1 # len16 ?p @ ?p"
  proof (cases "content st1 b")
    case Nil
    then show ?thesis using g(5) by (simp add: batch_size_defs)
  next
    case (Cons x xs)
    then show ?thesis unfolding c2(3) unfolding c1(3) o(3) p
      using g(5) len by (simp add: go_copy_def batch_size_defs numeral_3_eq_3 numeral_2_eq_2)
  qed
  moreover have "pool_single pkt st = Some (b, copyTo b 3 (content st3 pkt) st3)"
    using g(1) by (simp add: pool_single_def st2_def st3_def Let_def)
  moreover have "untouched st (copyTo b 3 (content st3 pkt) st3) L"
    using g(3) o(2) c1(2) c2(2) by (simp add: untouched_def)
  ultimately show thesis using that c2(1) by blast
qed

lemma ok_batchFlush:
  assumes "pooled_ok net_ok (s, bf, st) (dgl dg @ L)" "dg_rel st dg dv" "snd dv \<noteq> 0 \<longrightarrow> fst dv \<noteq> None"
    and "batchFlush sf s dv = (s', dv', err)"
  obtains dg' st' where "pool_batchFlush psf s dg st = Some ((s', err), dg', st')" "pooled_ok net_ok (s', bf, st') (dgl dg' @ L)"
    "dg_rel st' dg' dv'" "untouched st st' L" "snd dv' = 0"
proof (cases "snd dv = 0")
  case True
  then have "s' = s" "dv' = dv" "err = None" "snd dg = 0" using assms(2,4) by (auto simp: batchFlush_def dg_rel_def split_beta)
  then show thesis using that [of dg st] assms(1,2) True by (auto simp: pool_batchFlush_def split_beta)
next
  case False
  then obtain v where v: "fst dv = Some v" using assms(3) by auto
  then obtain b where b: "fst dg = Some b" "content st b \<noteq> []" "v \<noteq> []" "tl (content st b) = tl v" "snd dg = snd dv"
    using assms(2) by (auto simp: dg_rel_def split: option.splits)
  have ok: "pooled_ok net_ok (s, bf, st) (b # L)" using assms(1) b(1) by (simp add: dgl_def)
  let ?x = "(content st b)[0 := of_nat (snd dv)]"
  have eq: "?x = v[0 := of_nat (snd dv)]" using b(2-4) by (cases "content st b"; cases v) auto
  have "length ?x = sl_len b" using ok_len [OF ok] by simp
  note f = ok_fill [OF ok this]
  obtain st2 where p: "psf s b (overwrite b ?x st) = Some (sf s ?x, st2)" "pooled_ok net_ok (fst (sf s ?x), bf, st2) (b # L)"
    "untouched (overwrite b ?x st) st2 (b # L)" by (rule ok_psf [OF f(1), unfolded f(3)])
  have r: "sf s ?x = (s', err)" "dv' = (None, 0)" using assms(4) v False eq by (auto simp: batchFlush_def split_beta)
  show thesis
  proof (rule that [of "(None, 0)" "pool_putSendBuffer b st2"])
    show "pool_batchFlush psf s dg st = Some ((s', err), (None, 0), pool_putSendBuffer b st2)"
      using b False p(1) r(1) by (simp add: pool_batchFlush_def split_beta)
    show "pooled_ok net_ok (s', bf, pool_putSendBuffer b st2) (dgl (None, 0) @ L)" using ok_put(1) [OF p(2)] r(1) by (simp add: dgl_def)
    show "untouched st (pool_putSendBuffer b st2) L" using f(2) untouched_tail [OF p(3)] by (simp add: untouched_def)
  qed (simp_all add: r(2) dg_rel_def)
qed

lemma ok_datagram:
  assumes "pooled_ok net_ok (s, bf, st) (dgl dg @ L)" "dg_rel st dg dv" "1 \<le> mtu"
  obtains b st1 where "(case fst dg of None \<Rightarrow> pool_newDatagram mtu st | Some b \<Rightarrow> Some (b, st)) = Some (b, st1)"
    "pooled_ok net_ok (s, bf, st1) (b # L)" "untouched st st1 L"
    "dg_rel st1 (Some b, snd dg) (Some (case fst dv of None \<Rightarrow> [0] | Some v \<Rightarrow> v), snd dv)"
proof (cases "fst dg")
  case None
  then have "pooled_ok net_ok (s, bf, st) L" using assms(1) by (simp add: dgl_def)
  then obtain b st1 where "pool_newDatagram mtu st = Some (b, st1)" "pooled_ok net_ok (s, bf, st1) (b # L)"
    "untouched st st1 L" "length (content st1 b) = 1" by (rule ok_newDatagram [OF _ assms(3)])
  then show thesis using that [of b st1] None assms(2) by (auto simp: dg_rel_def length_Suc_conv)
next
  case (Some b)
  then show thesis using that [of b st] assms(1,2) by (auto simp: dgl_def dg_rel_def split: option.splits)
qed

lemma dgl_drop: "pooled_ok net_ok (s, bf, st) (dgl dg @ L) \<Longrightarrow> pooled_ok net_ok (s, bf, st) L"
  by (auto simp: dgl_def split: option.splits intro: ok_drop)

text \<open>One packet of the loop: it does not fit into any datagram, it starts a new one, or it is added to the
  last one. \<open>IH\<close> is about the packets after it.\<close>

lemma flushLoop_large:
  assumes ok: "pooled_ok net_ok (s, bf, st) (dgl dg @ L)" "dg_rel st dg dv" "snd dv \<noteq> 0 \<longrightarrow> fst dv \<noteq> None"
    and pkts: "pkt \<in> set L" "set pkts \<subseteq> set L" and large: "mtu < int (BatchHeaderSize + (BatchLenSize + sl_len pkt))"
    and IH: "\<And>s st dg dv. pooled_ok net_ok (s, bf, st) (dgl dg @ L) \<Longrightarrow> dg_rel st dg dv \<Longrightarrow> (snd dv \<noteq> 0 \<longrightarrow> fst dv \<noteq> None) \<Longrightarrow>
      flush_runs net_ok (pool_flushLoop mtu psf pkts s dg st) bf st L (flushLoop mtu sf (map (content st) pkts) s dv)"
  shows "flush_runs net_ok (pool_flushLoop mtu psf (pkt # pkts) s dg st) bf st L (flushLoop mtu sf (map (content st) (pkt # pkts)) s dv)"
proof -
  let ?p = "content st pkt"
  have len: "length ?p = sl_len pkt" using own_mem [OF ok_own [OF ok(1)]] pkts(1) by simp
  obtain s1 dv1 e1 where v1: "batchFlush sf s dv = (s1, dv1, e1)" by (metis surj_pair)
  obtain dg1 st1 where 1: "pool_batchFlush psf s dg st = Some ((s1, e1), dg1, st1)" "pooled_ok net_ok (s1, bf, st1) (dgl dg1 @ L)"
    "dg_rel st1 dg1 dv1" "untouched st st1 L" "snd dv1 = 0" by (rule ok_batchFlush [OF ok v1])
  show ?thesis
  proof (cases e1)
    case (Some e)
    then show ?thesis using dgl_drop [OF 1(2)] 1(1,4) large v1 len by (simp add: flush_runs_def Let_def)
  next
    case None
    have "content st1 pkt = ?p" using 1(4) pkts(1) by (simp add: untouched_def)
    then obtain b st2 where 2: "pool_single pkt st1 = Some (b, st2)" "pooled_ok net_ok (s1, bf, st2) (b # dgl dg1 @ L)"
      "untouched st1 st2 (dgl dg1 @ L)" "content st2 b = 1 # len16 ?p @ ?p"
      using ok_single [OF 1(2), of pkt] pkts(1) by (metis Un_iff set_append)
    obtain s3 e3 where v3: "sf s1 (1 # len16 ?p @ ?p) = (s3, e3)" by (metis surj_pair)
    obtain st3 where 3: "psf s1 b st2 = Some ((s3, e3), st3)" "pooled_ok net_ok (s3, bf, st3) (b # dgl dg1 @ L)"
      "untouched st2 st3 (b # dgl dg1 @ L)" using ok_psf [OF 2(2)] 2(4) v3 by (metis fst_conv)
    let ?st4 = "pool_putSendBuffer b st3"
    have ok4: "pooled_ok net_ok (s3, bf, ?st4) (dgl dg1 @ L)" by (rule ok_put(1) [OF 3(2)])
    have unt: "untouched st ?st4 L" using 1(4) 2(3) 3(3) by (auto simp: untouched_def)
    have rel: "dg_rel ?st4 dg1 dv1" using 1(3) 2(3) 3(3) by (auto simp: dg_rel_def untouched_def dgl_def split: option.splits)
    have "flush_runs net_ok (pool_flushLoop mtu psf pkts s3 dg1 ?st4) bf ?st4 L (flushLoop mtu sf (map (content ?st4) pkts) s3 dv1)"
      by (rule IH [OF ok4 rel]) (use 1(5) in simp)
    from flush_runs_after [OF this unt pkts(2)] show ?thesis
      using 1(1) 2(1) 3(1) large None v1 v3 len dgl_drop [OF ok4] unt by (cases e3) (simp_all add: flush_runs_def Let_def)
  qed
qed

lemma flushLoop_full:
  assumes ok: "pooled_ok net_ok (s, bf, st1) (b # L)" "dg_rel st1 (Some b, snd dg) (Some v, snd dv)" "untouched st st1 L" "1 \<le> mtu"
    and pkts: "pkt \<in> set L" "set pkts \<subseteq> set L"
    and IH: "\<And>s st dg dv. pooled_ok net_ok (s, bf, st) (dgl dg @ L) \<Longrightarrow> dg_rel st dg dv \<Longrightarrow> (snd dv \<noteq> 0 \<longrightarrow> fst dv \<noteq> None) \<Longrightarrow>
      flush_runs net_ok (pool_flushLoop mtu psf pkts s dg st) bf st L (flushLoop mtu sf (map (content st) pkts) s dv)"
  shows "flush_runs net_ok
    (do { ((s, err), dg', st) \<leftarrow> pool_batchFlush psf s (Some b, snd dg) st1;
          if err \<noteq> None then Some ((s, err), st)
          else do { (b, st) \<leftarrow> pool_newDatagram mtu st;
                    let (b, st) = pool_appendPacket b pkt st;
                    pool_flushLoop mtu psf pkts s (Some b, snd dg' + 1) st } }) bf st L
    (case batchFlush sf s (Some v, snd dv) of (s, dv', err) \<Rightarrow>
       if err \<noteq> None then (s, err)
       else flushLoop mtu sf (map (content st) pkts) s (Some ([0] @ len16 (content st pkt) @ content st pkt), snd dv' + 1))"
proof -
  obtain s2 dv2 e2 where v2: "batchFlush sf s (Some v, snd dv) = (s2, dv2, e2)" by (metis surj_pair)
  have ok1: "pooled_ok net_ok (s, bf, st1) (dgl (Some b, snd dg) @ L)" using ok(1) by (simp add: dgl_def)
  obtain dg2 st2 where 2: "pool_batchFlush psf s (Some b, snd dg) st1 = Some ((s2, e2), dg2, st2)"
    "pooled_ok net_ok (s2, bf, st2) (dgl dg2 @ L)" "dg_rel st2 dg2 dv2" "untouched st1 st2 L" "snd dv2 = 0"
    by (rule ok_batchFlush [OF ok1 ok(2) _ v2]) simp
  have ok2: "pooled_ok net_ok (s2, bf, st2) L" by (rule dgl_drop [OF 2(2)])
  have unt2: "untouched st st2 L" by (rule untouched_trans [OF ok(3) 2(4)])
  show ?thesis
  proof (cases e2)
    case (Some e)
    then show ?thesis using 2(1) ok2 unt2 v2 by (simp add: flush_runs_def)
  next
    case None
    obtain b3 st3 where 3: "pool_newDatagram mtu st2 = Some (b3, st3)" "pooled_ok net_ok (s2, bf, st3) (b3 # L)"
      "untouched st2 st3 L" "length (content st3 b3) = 1" by (rule ok_newDatagram [OF ok2 ok(4)])
    obtain b4 st4 where 4: "pool_appendPacket b3 pkt st3 = (b4, st4)" "pooled_ok net_ok (s2, bf, st4) (b4 # L)"
      "untouched st3 st4 L" "content st4 b4 = content st3 b3 @ len16 (content st3 pkt) @ content st3 pkt"
      by (rule ok_appendPacket [OF 3(2) pkts(1)])
    have unt: "untouched st st3 L" "untouched st st4 L" using unt2 3(3) 4(3) by (simp_all add: untouched_def)
    have ok4: "pooled_ok net_ok (s2, bf, st4) (dgl (Some b4, snd dg2 + 1) @ L)" using 4(2) by (simp add: dgl_def)
    have "content st3 pkt = content st pkt" using unt(1) pkts(1) by (simp add: untouched_def)
    then have rel: "dg_rel st4 (Some b4, snd dg2 + 1) (Some ([0] @ len16 (content st pkt) @ content st pkt), snd dv2 + 1)"
      using 4(4) 3(4) 2(3) by (auto simp: dg_rel_def length_Suc_conv)
    from flush_runs_after [OF IH [OF ok4 rel] unt(2) pkts(2)] show ?thesis using 2(1) 3(1) 4(1) None v2 by simp
  qed
qed

lemma flushLoop_fits:
  assumes ok: "pooled_ok net_ok (s, bf, st1) (b # L)" "dg_rel st1 (Some b, snd dg) (Some v, snd dv)" "untouched st st1 L"
    and pkts: "pkt \<in> set L" "set pkts \<subseteq> set L"
    and IH: "\<And>s st dg dv. pooled_ok net_ok (s, bf, st) (dgl dg @ L) \<Longrightarrow> dg_rel st dg dv \<Longrightarrow> (snd dv \<noteq> 0 \<longrightarrow> fst dv \<noteq> None) \<Longrightarrow>
      flush_runs net_ok (pool_flushLoop mtu psf pkts s dg st) bf st L (flushLoop mtu sf (map (content st) pkts) s dv)"
  shows "flush_runs net_ok (let (b, st) = pool_appendPacket b pkt st1 in pool_flushLoop mtu psf pkts s (Some b, snd dg + 1) st) bf st L
    (flushLoop mtu sf (map (content st) pkts) s (Some (v @ len16 (content st pkt) @ content st pkt), snd dv + 1))"
proof -
  obtain b2 st2 where 2: "pool_appendPacket b pkt st1 = (b2, st2)" "pooled_ok net_ok (s, bf, st2) (b2 # L)"
    "untouched st1 st2 L" "content st2 b2 = content st1 b @ len16 (content st1 pkt) @ content st1 pkt"
    by (rule ok_appendPacket [OF ok(1) pkts(1)])
  have unt: "untouched st st2 L" by (rule untouched_trans [OF ok(3) 2(3)])
  have ok2: "pooled_ok net_ok (s, bf, st2) (dgl (Some b2, snd dg + 1) @ L)" using 2(2) by (simp add: dgl_def)
  have "content st1 pkt = content st pkt" using ok(3) pkts(1) by (simp add: untouched_def)
  then have rel: "dg_rel st2 (Some b2, snd dg + 1) (Some (v @ len16 (content st pkt) @ content st pkt), snd dv + 1)"
    using ok(2) 2(4) by (auto simp: dg_rel_def)
  from flush_runs_after [OF IH [OF ok2 rel] unt pkts(2)] show ?thesis using 2(1) by simp
qed

lemma flushLoop_runs:
  assumes "pooled_ok net_ok (s, bf, st) (dgl dg @ L)" "dg_rel st dg dv" "snd dv \<noteq> 0 \<longrightarrow> fst dv \<noteq> None" "set pkts \<subseteq> set L"
  shows "flush_runs net_ok (pool_flushLoop mtu psf pkts s dg st) bf st L (flushLoop mtu sf (map (content st) pkts) s dv)"
  using assms
proof (induction pkts arbitrary: s st dg dv)
  case Nil
  obtain s' dv' err where v: "batchFlush sf s dv = (s', dv', err)" by (metis surj_pair)
  obtain dg' st' where "pool_batchFlush psf s dg st = Some ((s', err), dg', st')" "pooled_ok net_ok (s', bf, st') (dgl dg' @ L)"
    "untouched st st' L" by (rule ok_batchFlush [OF Nil.prems(1-3) v])
  then show ?case using dgl_drop v by (simp add: flush_runs_def)
next
  case (Cons pkt pkts)
  have pkts: "pkt \<in> set L" "set pkts \<subseteq> set L" using Cons.prems(4) by simp_all
  note IH = Cons.IH [OF _ _ _ pkts(2)]
  have len: "length (content st pkt) = sl_len pkt" using own_mem [OF ok_own [OF Cons.prems(1)]] pkts(1) by simp
  show ?case
  proof (cases "mtu < int (BatchHeaderSize + (BatchLenSize + sl_len pkt))")
    case True
    then show ?thesis by (intro flushLoop_large Cons.prems pkts IH)
  next
    case False
    then have mtu: "1 \<le> mtu" by (simp add: batch_size_defs)
    let ?v = "case fst dv of None \<Rightarrow> [0] | Some v \<Rightarrow> v"
    obtain b st1 where 1: "(case fst dg of None \<Rightarrow> pool_newDatagram mtu st | Some b \<Rightarrow> Some (b, st)) = Some (b, st1)"
      "pooled_ok net_ok (s, bf, st1) (b # L)" "untouched st st1 L" "dg_rel st1 (Some b, snd dg) (Some ?v, snd dv)"
      by (rule ok_datagram [OF Cons.prems(1,2) mtu])
    have "length (content st1 b) = length ?v" using 1(4) by (auto simp: dg_rel_def intro: tl_length)
    then have lb: "sl_len b = length ?v" "snd dg = snd dv" using ok_len [OF 1(2)] Cons.prems(2) by (simp_all add: dg_rel_def)
    show ?thesis
    proof (cases "mtu < int (length ?v + (BatchLenSize + sl_len pkt)) \<or> 255 \<le> snd dv")
      case True
      with flushLoop_full [OF 1(2,4,3) mtu pkts IH] 1(1) lb len False show ?thesis by (simp add: Let_def)
    next
      case fits: False
      with flushLoop_fits [OF 1(2,4,3) pkts IH] 1(1) lb len False show ?thesis by (simp add: Let_def)
    qed
  qed
qed

lemma flushBatch_implements: "implements net_ok (pool_flushBatch mtu psf) (conn_flushBatch mtu sf)"
proof (rule implementsI)
  fix c u bf st L
  assume ok: "pooled_ok net_ok ((c, u), bf, st) L"
  let ?bf = "bf\<lparr>bf_batch := []\<rparr>" and ?c = "c\<lparr>c_batchBuf := []\<rparr>"
  have v: "c_batchBuf c = map (content st) (bf_batch bf)" using ok by (simp add: pooled_ok_def matches_def)
  show "runs net_ok (pool_flushBatch mtu psf ((c, u), bf, st)) st L (conn_flushBatch mtu sf (c, u))"
  proof (cases "bf_batch bf = []")
    case True
    have c: "?c = c" using True v by (cases c) simp
    show ?thesis unfolding conn_flushBatch_def prod.case c using True ok v
      by (simp add: pool_flushBatch_def flushBatch_def runs_return)
  next
    case False
    have "own st (inUse ?bf @ bf_batch bf @ L)" by (rule own_perm [OF ok_own [OF ok]]) (simp add: inUse_def)
    then have ok1: "pooled_ok net_ok ((?c, u), ?bf, st) (dgl (None, 0) @ bf_batch bf @ L)"
      using ok by (simp add: pooled_ok_def matches_def raws_def sealed_ok_def dgl_def)
    obtain s' err where f: "flushLoop mtu sf (map (content st) (bf_batch bf)) (?c, u) (None, 0) = (s', err)" by (metis surj_pair)
    obtain st1 where 1: "pool_flushLoop mtu psf (bf_batch bf) (?c, u) (None, 0) st = Some ((s', err), st1)"
      "pooled_ok net_ok (s', ?bf, st1) (bf_batch bf @ L)" "untouched st st1 (bf_batch bf @ L)"
      using flushLoop_runs [OF ok1, of "(None, 0)" "bf_batch bf" mtu] f by (auto simp: dg_rel_def flush_runs_def)
    have "pooled_ok net_ok (s', ?bf, pool_putAll (bf_batch bf) st1) L" by (rule ok_putAll [OF 1(2)])
    moreover have "untouched st (pool_putAll (bf_batch bf) st1) L" using 1(3) by (simp add: untouched_def)
    ultimately show ?thesis using False 1(1) f v
      by (simp add: pool_flushBatch_def conn_flushBatch_def flushBatch_def runs_def)
  qed
qed

lemma ok_psf_held:
  assumes "pooled_ok net_ok (s, bf, st) L" "b \<in> set (inUse bf)"
  obtains st' where "psf s b st = Some (sf s (content st b), st')"
    "pooled_ok net_ok (fst (sf s (content st b)), bf, st') L" "untouched st st' L"
proof -
  obtain c u where s: "s = (c, u)" by (cases s)
  let ?R = "remove1 b (inUse bf @ L)"
  have perm: "mset (b # ?R) = mset (inUse bf @ L)" using assms(2) by simp
  have set: "set (b # ?R) = set (inUse bf @ L)" by (rule mset_eq_setD [OF perm])
  have ok: "matches c bf st" "net_ok u st" "sealed_ok c" using assms(1) by (simp_all add: pooled_ok_def s)
  obtain st' where p: "psf s b st = Some (sf s (content st b), st')" "own st' (b # ?R)"
    "net_ok (snd (fst (sf s (content st b)))) st'" "untouched st st' (b # ?R)"
    using psf_sends [OF own_perm [OF ok_own [OF assms(1)] perm], of s] ok(2) by (auto simp: s)
  have unt: "untouched st st' (inUse bf @ L)" using p(4) unfolding untouched_def set .
  obtain n w u' err where sf: "sf s (content st b) = ((c\<lparr>c_bytesSent := n, c_sendBW := w\<rparr>, u'), err)"
    using sf_counts [of c u "content st b"] s by auto
  have "own st' (inUse bf @ L)" by (rule own_perm [OF p(2)]) (simp only: perm)
  moreover have "matches c bf st'" by (rule matches_unt [OF ok(1)]) (use unt in \<open>simp add: untouched_def\<close>)
  ultimately have "pooled_ok net_ok ((c, u'), bf, st') L" using p(3) ok(3) by (simp add: pooled_ok_def sf)
  from ok_conn [OF this same_packets_fields(4)] sf that [OF p(1)] unt show thesis by (simp add: untouched_def)
qed

lemma tickDisconnecting_implements: "implements net_ok (pool_tickDisconnecting psf now) (tickDisconnecting sf now)"
proof (rule implementsI)
  fix c u bf st L
  assume ok: "pooled_ok net_ok ((c, u), bf, st) L"
  obtain bf1 st1 where t: "pool_teardown (c, bf, st) = (teardown c, bf1, st1)" "pooled_ok net_ok ((teardown c, u), bf1, st1) L"
    "untouched st st1 L" by (rule ok_teardown [OF ok])
  have m: "map_option (content st) (bf_disconnect bf) = c_disconnectPacket c" using ok by (simp add: pooled_ok_def matches_def)
  show "runs net_ok (pool_tickDisconnecting psf now ((c, u), bf, st)) st L (tickDisconnecting sf now (c, u))"
  proof (cases "maxDisconnectRetries \<le> c_disconnectRetries c \<or> c_disconnectPacket c = None \<or> \<not> c_nextDisconnectRetry c < now")
    case True
    then show ?thesis using t ok m
      by (auto simp: pool_tickDisconnecting_def tickDisconnecting_def runs_return split: option.split)
         (auto simp: runs_def)
  next
    case False
    then obtain pkt where pkt: "bf_disconnect bf = Some pkt" "c_disconnectPacket c = Some (content st pkt)" using m by (cases "bf_disconnect bf") auto
    then have "pkt \<in> set (inUse bf)" by (simp add: inUse_def)
    then obtain st2 where 2: "psf (c, u) pkt st = Some (sf (c, u) (content st pkt), st2)"
      "pooled_ok net_ok (fst (sf (c, u) (content st pkt)), bf, st2) L" "untouched st st2 L" by (rule ok_psf_held [OF ok])
    obtain c2 u2 err where r: "sf (c, u) (content st pkt) = ((c2, u2), err)" by (metis surj_pair)
    let ?c3 = "c2\<lparr>c_disconnectRetries := c_disconnectRetries c2 + 1, c_nextDisconnectRetry := now + RTO (c_rtt c2)\<rparr>"
    have "same_packets c2 ?c3" by (simp add: same_packets_def raws_def)
    with 2(2) have "pooled_ok net_ok ((?c3, u2), bf, st2) L" unfolding r fst_conv by (rule ok_conn)
    then show ?thesis using False pkt 2(1,3) r
      by (simp add: pool_tickDisconnecting_def tickDisconnecting_def runs_def)
  qed
qed

lemma ok_EncryptNil:
  assumes "pooled_ok net_ok ((c, u), bf, st) L"
  obtains k w e st' where "pool_EncryptNil (c_sendCipher c) p st = ((k, Inr e), st')" "Encrypt (c_sendCipher c) p [] = (k, Inr w)"
    "pooled_ok net_ok ((c\<lparr>c_sendCipher := k\<rparr>, u), bf, st') (e # L)" "untouched st st' L" "content st' e = w"
proof -
  have "sealed_ok c" using assms by (simp add: pooled_ok_def)
  then obtain k w where e: "Encrypt (c_sendCipher c) p [] = (k, Inr w)" "cs_aead k = cs_aead (c_sendCipher c)"
    using Encrypt_any by blast
  obtain b st1 where m: "go_make (length w) st = (b, st1)" by (metis surj_pair)
  note g = go_make_own [OF ok_own [OF assms] m]
  have "own st1 (inUse bf @ b # L)" by (rule own_perm [OF g(1)]) simp
  note ok1 = ok_same [OF assms g(2) this]
  have "length w = sl_len b" using g(3) by simp
  note f = ok_fill [OF ok1(1) this]
  show thesis
    by (rule that [OF _ e(1) ok_conn [OF f(1) same_packets_cipher [OF e(2)]] untouched_trans [OF ok1(2) f(2)] f(3)])
       (simp add: pool_EncryptNil_def e(1) m)
qed

lemma ok_setDisconnect:
  assumes "pooled_ok net_ok ((c, u), bf, st) (b # L)"
  shows "pooled_ok net_ok ((c\<lparr>c_disconnectPacket := Some (content st b), c_disconnectRetries := 0, c_nextDisconnectRetry := t\<rparr>, u),
    bf\<lparr>bf_disconnect := Some b\<rparr>, st) L"
proof -
  let ?old = "case bf_disconnect bf of None \<Rightarrow> [] | Some s \<Rightarrow> [s]" and ?bf = "bf\<lparr>bf_disconnect := Some b\<rparr>"
  have "own st (?old @ inUse ?bf @ L)" by (rule own_perm [OF ok_own [OF assms]]) (simp add: inUse_def)
  then have "own st (inUse ?bf @ L)" by (auto split: option.splits intro: own_drop)
  then show ?thesis using assms by (simp add: pooled_ok_def matches_def raws_def sealed_ok_def)
qed

lemma ok_frame:
  assumes "pooled_ok net_ok (s, bf, st) (e # L)"
  obtains d st' where "(if c_batchEnabled c then pool_singleFrame e st else Some (e, st)) = Some (d, st')"
    "pooled_ok net_ok (s, bf, st') (d # L)" "untouched st st' L"
    "content st' d = (if c_batchEnabled c then singleFrame (content st e) else content st e)"
proof (cases "c_batchEnabled c")
  case True
  obtain f st1 where f: "pool_singleFrame e st = Some (f, st1)" "pooled_ok net_ok (s, bf, st1) (f # e # L)"
    "untouched st st1 (e # L)" "content st1 f = singleFrame (content st e)" by (rule ok_singleFrame [OF assms])
  have "pooled_ok net_ok (s, bf, st1) (e # f # L)" by (rule ok_perm [OF f(2)]) simp
  from that [OF _ ok_drop [OF this] untouched_tail [OF f(3)]] f True show thesis by simp
next
  case False
  then show thesis using that [of e st] assms by simp
qed

lemma Close_implements: "implements net_ok (pool_Close psf now) (Close (Some sf) now)"
proof (rule implementsI)
  fix c u bf st L
  assume ok: "pooled_ok net_ok ((c, u), bf, st) L"
  show "runs net_ok (pool_Close psf now ((c, u), bf, st)) st L (Close (Some sf) now (c, u))"
  proof (cases "c_state c = StateConnected")
    case False
    then show ?thesis using ok by (simp add: pool_Close_def Close_def runs_return)
  next
    case True
    let ?c1 = "c\<lparr>c_state := StateDisconnecting\<rparr>" and ?x = "header_enc controlHeader @ [ControlDisconnect]"
    have "same_packets c ?c1" by (simp add: same_packets_def raws_def)
    with ok have ok1: "pooled_ok net_ok ((?c1, u), bf, st) L" by (rule ok_conn)
    have size: "12 \<le> (64 :: nat)" "8 + length [ControlDisconnect] \<le> 64" by simp_all
    obtain buf st1 b where b: "pool_getSendBuffer 64 st = Some (buf, st1)"
      "buildControlPacket (content st1 buf) controlHeader [ControlDisconnect] = (b, Inr (8 + length [ControlDisconnect]))"
      "pooled_ok net_ok ((?c1, u), bf, overwrite buf b st1) (buf\<lparr>sl_len := 8 + length [ControlDisconnect]\<rparr> # L)" "untouched st (overwrite buf b st1) L"
      "content (overwrite buf b st1) (buf\<lparr>sl_len := 8 + length [ControlDisconnect]\<rparr>) = ?x"
      "8 + length [ControlDisconnect] \<le> cap (overwrite buf b st1) buf"
      by (rule ok_control [OF ok1 size])
    let ?st2 = "overwrite buf b st1" and ?pt = "buf\<lparr>sl_len := 8 + length [ControlDisconnect]\<rparr>"
    obtain k w e st3 where en: "pool_EncryptNil (c_sendCipher ?c1) ?x ?st2 = ((k, Inr e), st3)" "Encrypt (c_sendCipher ?c1) ?x [] = (k, Inr w)"
      "pooled_ok net_ok ((?c1\<lparr>c_sendCipher := k\<rparr>, u), bf, st3) (e # ?pt # L)" "untouched ?st2 st3 (?pt # L)" "content st3 e = w"
      by (rule ok_EncryptNil [OF b(3)])
    let ?c2 = "?c1\<lparr>c_sendCipher := k\<rparr>" and ?st4 = "pool_putSendBuffer buf st3"
    have "pooled_ok net_ok ((?c2, u), bf, st3) (?pt # e # L)" by (rule ok_perm [OF en(3)]) simp
    from ok_put(1) [OF this] have ok4: "pooled_ok net_ok ((?c2, u), bf, ?st4) (e # L)" by simp
    let ?pkt = "if c_batchEnabled c then singleFrame w else w"
    have w: "content ?st4 e = w" using en(5) by simp
    obtain d st5 where d: "(if c_batchEnabled ?c2 then pool_singleFrame e ?st4 else Some (e, ?st4)) = Some (d, st5)"
      "pooled_ok net_ok ((?c2, u), bf, st5) (d # L)" "untouched ?st4 st5 L" "content st5 d = ?pkt"
      using ok_frame [OF ok4, of ?c2, unfolded w] by auto
    let ?c5 = "?c2\<lparr>c_disconnectPacket := Some ?pkt, c_disconnectRetries := 0, c_nextDisconnectRetry := now + RTO (c_rtt c)\<rparr>"
    have ok5: "pooled_ok net_ok ((?c5, u), bf\<lparr>bf_disconnect := Some d\<rparr>, st5) L"
      using ok_setDisconnect [OF d(2), of "now + RTO (c_rtt c)"] unfolding d(4) by simp
    have dh: "d \<in> set (inUse (bf\<lparr>bf_disconnect := Some d\<rparr>))" by (simp add: inUse_def)
    obtain st6 where 6: "psf (?c5, u) d st5 = Some (sf (?c5, u) ?pkt, st6)"
      "pooled_ok net_ok (fst (sf (?c5, u) ?pkt), bf\<lparr>bf_disconnect := Some d\<rparr>, st6) L" "untouched st5 st6 L"
      by (rule ok_psf_held [OF ok5 dh, unfolded d(4)])
    have con: "pool_Close psf now ((c, u), bf, st) = Some (None, fst (sf (?c5, u) ?pkt), bf\<lparr>bf_disconnect := Some d\<rparr>, st6)"
      using True b(1,2,5,6) en(1) d(1,4) 6(1)
      by (cases "c_batchEnabled c") (simp_all add: pool_Close_def marshalDisconnect_ok reslice_def Let_def split_beta)
    have abs: "Close (Some sf) now (c, u) = (fst (sf (?c5, u) ?pkt), None)"
      using Close_eq [OF True, of k w sf now u] en(2) by (simp add: disconnect_enc_def Let_def)
    have unt: "untouched st st6 L" using b(4) untouched_tail [OF en(4)] d(3) 6(3) by (simp add: untouched_def)
    show ?thesis unfolding con abs using 6(2) unt by (simp add: runs_def)
  qed
qed

lemma runs_if:
  assumes "implements net_ok P Q" "pooled_ok net_ok (s, bf, st) L"
  obtains bf' st' where "(if b then P (s, bf, st) else Some (r, s, bf, st)) =
      Some (snd (if b then Q s else (s, r)), fst (if b then Q s else (s, r)), bf', st')"
    "pooled_ok net_ok (fst (if b then Q s else (s, r)), bf', st') L" "untouched st st' L"
  using implementsD [OF assms] assms(2) unfolding runs_def by (cases b) auto

lemma tickSend_runs:
  assumes "pooled_ok net_ok ((c, u), bf, st) L" "tickSend lib tp sf now (c, u) = Inr q"
  shows "runs net_ok (pool_tickSend lib slib tp psf now ((c, u), bf, st)) st L q"
proof -
  obtain c0 msgs where d: "drainSendQueue c = (c0, msgs)" by (metis surj_pair)
  have "same_packets c c0" using d by (auto simp: drainSendQueue_def same_packets_def raws_def split: if_splits)
  with assms(1) have ok0: "pooled_ok net_ok ((c0, u), bf, st) L" by (rule ok_conn)
  obtain s1 es1 where 1: "sendQueued lib sf now msgs (c0, u) = Inr (s1, es1)"
    using assms(2) d by (auto simp: tickSend_def Let_def split: sum.splits)
  define s2 err where "s2 = fst (if c_batchEnabled (fst s1) then conn_flushBatch (tp_MTU tp) sf s1 else (s1, None))"
    and "err = snd (if c_batchEnabled (fst s1) then conn_flushBatch (tp_MTU tp) sf s1 else (s1, None))"
  define c3 acks where "c3 = fst (takeAckChannels (fst s2))" and "acks = snd (takeAckChannels (fst s2))"
  define r4 where "r4 = (if 0 < length acks then sendMultiChannelHeartbeat sf acks now (c3, snd s2) else ((c3, snd s2), None))"
  define r5 where "r5 = (if needsHeartbeatAt now (tp_HeartbeatInterval tp) (fst (fst r4)) then sendMultiChannelHeartbeat sf [0] now (fst r4) else (fst r4, None))"
  let ?s4 = "fst r4" and ?s5 = "fst r5"
  have s4: "(if 0 < length acks then fst (sendMultiChannelHeartbeat sf acks now (c3, snd s2)) else (c3, snd s2)) = ?s4" by (simp add: r4_def)
  have s5: "(if needsHeartbeatAt now (tp_HeartbeatInterval tp) (fst ?s4) then fst (sendMultiChannelHeartbeat sf [0] now ?s4) else ?s4) = ?s5"
    by (simp add: r5_def)
  let ?c6 = "(fst ?s5)\<lparr>c_reassembly := fst (reassembly_cleanup now (tp_FragmentTimeout tp) (c_reassembly (fst ?s5)))\<rparr>"
  obtain es2 where r: "report err = Inr es2" and q: "q = ((tickBandwidth now ?c6, snd ?s5), es1 @ es2)"
    using assms(2) unfolding tickSend_def fst_conv snd_conv d prod.case Let_def 1 sum.case split_beta sendHeartbeat_def
      s2_def [symmetric] err_def [symmetric] c3_def [symmetric] acks_def [symmetric] s4 s5
    by (auto split: sum.splits)
  obtain bf1 st1 where p1: "pool_sendQueued lib slib psf now msgs ((c0, u), bf, st) = Some (es1, s1, bf1, st1)"
    "pooled_ok net_ok (s1, bf1, st1) L" "untouched st st1 L" by (rule runsE [OF sendQueued_runs [OF ok0 1]])
  obtain bf2 st2 where p2: "(if c_batchEnabled (fst s1) then pool_flushBatch (tp_MTU tp) psf (s1, bf1, st1) else Some (None, s1, bf1, st1)) =
      Some (err, s2, bf2, st2)" "pooled_ok net_ok (s2, bf2, st2) L" "untouched st1 st2 L"
    unfolding err_def s2_def by (rule runs_if [OF flushBatch_implements p1(2)])
  have "same_packets (fst s2) c3"
    by (simp add: c3_def takeAckChannels_def same_packets_def raws_def clearNeedsAck_def o_def if_distrib cong: if_cong)
  then have ok3: "pooled_ok net_ok ((c3, snd s2), bf2, st2) L" using ok_conn [of net_ok "fst s2" "snd s2"] p2(2) by simp
  obtain bf4 st4 where p4: "(if 0 < length acks then pool_sendMultiChannelHeartbeat psf acks now ((c3, snd s2), bf2, st2)
      else Some (None, (c3, snd s2), bf2, st2)) = Some (snd r4, ?s4, bf4, st4)" "pooled_ok net_ok (?s4, bf4, st4) L" "untouched st2 st4 L"
    unfolding r4_def by (rule runs_if [OF heartbeat_implements ok3])
  obtain bf5 st5 where p5: "(if needsHeartbeatAt now (tp_HeartbeatInterval tp) (fst ?s4)
      then pool_sendMultiChannelHeartbeat psf [0] now (?s4, bf4, st4) else Some (None, ?s4, bf4, st4)) = Some (snd r5, ?s5, bf5, st5)"
    "pooled_ok net_ok (?s5, bf5, st5) L" "untouched st4 st5 L"
    unfolding r5_def by (rule runs_if [OF heartbeat_implements p4(2)])
  have "same_packets (fst ?s5) (tickBandwidth now ?c6)" by (simp add: tickBandwidth_def same_packets_def raws_def)
  then have ok6: "pooled_ok net_ok ((tickBandwidth now ?c6, snd ?s5), bf5, st5) L"
    using ok_conn [of net_ok "fst ?s5" "snd ?s5"] p5(2) by simp
  have ta: "takeAckChannels (fst s2) = (c3, acks)" by (simp add: c3_def acks_def)
  have "pool_tickSend lib slib tp psf now ((c, u), bf, st) = Some (es1 @ es2, (tickBandwidth now ?c6, snd ?s5), bf5, st5)"
    unfolding pool_tickSend_def by (simp only: prod.case d Let_def p1(1) p2(1) r ta p4(1) p5(1) Option.bind.simps fst_conv snd_conv sum.case)
  then show ?thesis unfolding runs_def q
    using ok6 p1(3) p2(3) p4(3) p5(3) by (simp add: untouched_def)
qed

lemma tickConnection_runs:
  assumes "pooled_ok net_ok ((c, u), bf, st) L" "tickConnection lib tp sf now (c, u) = Inr q"
  shows "runs net_ok (pool_tickConnection lib slib tp psf now ((c, u), bf, st)) st L q"
proof -
  have down: "\<exists>bf' st'. pool_teardown (c, bf, st) = (teardown c, bf', st') \<and> pooled_ok net_ok ((teardown c, u), bf', st') L \<and> untouched st st' L"
    if "pooled_ok net_ok ((c, u), bf, st) L" for c u bf st using ok_teardown [OF that] by metis
  consider "c_state c = StateDisconnecting" | "c_state c \<notin> {StateConnected, StateDisconnecting}"
    | "c_state c = StateConnected" "isTimedOutAt now (tp_ConnTimeout tp) c" | "c_state c = StateConnected" "\<not> isTimedOutAt now (tp_ConnTimeout tp) c"
    by auto
  then show ?thesis
  proof cases
    case 1
    then show ?thesis using implementsD [OF tickDisconnecting_implements assms(1), of now] assms(2)
      by (auto simp: pool_tickConnection_def tickConnection_def)
  next
    case 2
    then show ?thesis using assms by (auto simp: pool_tickConnection_def tickConnection_def runs_return)
  next
    case 3
    then show ?thesis using down [OF assms(1)] assms(2) by (auto simp: pool_tickConnection_def tickConnection_def runs_def)
  next
    case 4
    let ?is = "[0..<length (c_channels c)]"
    have p: "runs net_ok (pool_retransmitChannels psf now (currentRTO c) (tp_MaxRetransmits tp) ?is ((c, u), bf, st)) st L
        (retransmitChannels sf now (currentRTO c) (tp_MaxRetransmits tp) ?is (c, u))"
      by (rule retransmitChannels_implements [OF assms(1)]) simp
    have "runs net_ok (Option.bind (pool_retransmitChannels psf now (currentRTO c) (tp_MaxRetransmits tp) ?is ((c, u), bf, st))
        (\<lambda>(kill, (c, u), bf, st). if kill
          then (case pool_teardown (c, bf, st) of (c, bf, st) \<Rightarrow>
                  Some ([RemoveConnection, OnError ErrMaxRetransmits, OnDisconnect DisconnectError], (c, u), bf, st))
          else pool_tickSend lib slib tp psf now ((c, u), bf, st))) st L q"
    proof (rule runs_bind [OF p])
      fix c1 u1 kill bf1 st1
      assume v: "retransmitChannels sf now (currentRTO c) (tp_MaxRetransmits tp) ?is (c, u) = ((c1, u1), kill)"
        and ok1: "pooled_ok net_ok ((c1, u1), bf1, st1) L"
      have q: "(if kill then Inr ((teardown c1, u1), [RemoveConnection, OnError ErrMaxRetransmits, OnDisconnect DisconnectError])
          else tickSend lib tp sf now (c1, u1)) = Inr q"
        using assms(2) 4 v by (simp add: tickConnection_def)
      show "runs net_ok ((\<lambda>(kill, (c, u), bf, st). if kill
          then (case pool_teardown (c, bf, st) of (c, bf, st) \<Rightarrow>
                  Some ([RemoveConnection, OnError ErrMaxRetransmits, OnDisconnect DisconnectError], (c, u), bf, st))
          else pool_tickSend lib slib tp psf now ((c, u), bf, st)) (kill, (c1, u1), bf1, st1)) st1 L q"
        using q down [OF ok1] tickSend_runs [OF ok1] by (cases kill) (auto simp: runs_def)
    qed
    then show ?thesis using 4 by (simp add: pool_tickConnection_def)
  qed
qed

end

end
