(* ===== verification/PooledNet.thy ===== *)
theory PooledNet
  imports PooledTick Loops
begin

text \<open>
  The three functions that send a datagram, over the buffer pool: a server that writes to the socket
  itself, a server whose write loop does it (\<open>setupSendFunc\<close>, \<open>writeLoop\<close> and \<open>drainWriteCh\<close> in
  \<open>server.go\<close>), and a client (\<open>setupSendFunc\<close> in \<open>client.go\<close>). Each satisfies the laws of \<open>pooled_net\<close>, so
  that the results of \<open>PooledSend\<close> and \<open>PooledTick\<close> hold for it.
\<close>

section \<open>Definitions\<close>

definition pool_directSend :: "'u server_net \<Rightarrow> 'u pooledSend" where
  "pool_directSend net s data st =
     (case s of (c, u) \<Rightarrow>
        let (u, ok) = udp_WriteTo net u (content st data) (c_remoteAddr c)
        in Some (if ok then ((countSent (sl_len data) c, u), None) else ((c, u), Some ErrOther), st))"

text \<open>The write loop takes a request from the channel, writes it and returns its buffer. The slices of
  the requests are in the store, their addresses in the writer.\<close>

definition pool_writeOne ::
  "('u \<Rightarrow> bytes \<Rightarrow> AddrPort \<Rightarrow> 'u \<times> bool) \<Rightarrow> 'u writer \<Rightarrow> store \<Rightarrow> 'u writer \<times> store" where
  "pool_writeOne WriteTo w st =
     (case (w_queue w, so_queue st) of
        (req # q, data # ds) \<Rightarrow>
          (w\<lparr>w_queue := q, w_socket := fst (WriteTo (w_socket w) (content st data) (fst req))\<rparr>,
           pool_putSendBuffer data (st\<lparr>so_queue := ds\<rparr>))
      | _ \<Rightarrow> (w, st))"

definition pool_coalescedSend :: "('u \<Rightarrow> bytes \<Rightarrow> AddrPort \<Rightarrow> 'u \<times> bool) \<Rightarrow> 'u writer pooledSend" where
  "pool_coalescedSend WriteTo s data st =
     (case s of (c, w) \<Rightarrow>
        do {
          (cp, st) \<leftarrow> pool_getSendBuffer (sl_len data) st;
          let st = copyTo cp 0 (content st data) st;
          let (w, st) = (if length (w_queue w) < writeCapacity then (w, st) else pool_writeOne WriteTo w st);
          Some (((countSent (sl_len data) c, w\<lparr>w_queue := w_queue w @ [(c_remoteAddr c, content st cp)]\<rparr>), None),
                st\<lparr>so_queue := so_queue st @ [cp]\<rparr>)
        })"

text \<open>The client copies the token and the packet into a buffer of its own.\<close>

definition pool_clientSend :: "('u \<Rightarrow> bytes \<Rightarrow> 'u \<times> bool) \<Rightarrow> 'u pooledSend" where
  "pool_clientSend Write s data st =
     (case s of (c, u) \<Rightarrow>
        if migrates c
        then do {
          (buf, st) \<leftarrow> pool_getSendBuffer (MigrationTokenSize + sl_len data) st;
          let st = copyTo buf 0 (tokenPrefix c) st;
          let st = copyTo buf MigrationTokenSize (content st data) st;
          out \<leftarrow> reslice (MigrationTokenSize + sl_len data) st buf;
          let (u, ok) = Write u (content st out);
          Some (if ok then ((countSent (sl_len out) c, u), None) else ((c, u), Some ErrOther), pool_putSendBuffer buf st)
        }
        else
          let (u, ok) = Write u (content st data)
          in Some (if ok then ((countSent (sl_len data) c, u), None) else ((c, u), Some ErrOther), st))"

text \<open>What is queued are the bytes that were to be written.\<close>

definition queue_ok :: "'u writer \<Rightarrow> store \<Rightarrow> bool" where
  "queue_ok w st \<longleftrightarrow> map (content st) (so_queue st) = map snd (w_queue w)"

section \<open>The channel of the write loop\<close>

lemma own_queue_in:
  assumes "own st (s # L)"
  shows "own (st\<lparr>so_queue := so_queue st @ [s]\<rparr>) L"
  using assms by (auto simp: own_def cap_def)

lemma own_queue_out:
  assumes "own st L" "so_queue st = s # ss"
  shows "own (st\<lparr>so_queue := ss\<rparr>) (s # L)"
  using assms by (auto simp: own_def cap_def)

lemma content_queue [simp]: "content (st\<lparr>so_queue := q\<rparr>) = content st" "content (pool_putSendBuffer b st) = content st"
  "cap (st\<lparr>so_queue := q\<rparr>) = cap st"
  by (simp_all add: fun_eq_iff content_def pool_putSendBuffer_def cap_def)

lemma queue_putSendBuffer [simp]: "so_queue (pool_putSendBuffer b st) = so_queue st"
  by (simp add: pool_putSendBuffer_def)

lemma writeOne_ok:
  assumes "own st L" "queue_ok w st" "pool_writeOne WriteTo w st = (w', st')"
  shows "w' = writeOne WriteTo w" "own st' L" "queue_ok w' st'" "content st' s = content st s" "cap st' s = cap st s"
proof -
  have "w' = writeOne WriteTo w \<and> own st' L \<and> queue_ok w' st' \<and> content st' s = content st s \<and> cap st' s = cap st s"
  proof (cases "so_queue st")
    case Nil
    then have "w_queue w = []" using assms(2) by (simp add: queue_ok_def)
    then show ?thesis using assms by (simp add: pool_writeOne_def writeOne_def)
  next
    case (Cons d ds)
    then obtain a q where q: "w_queue w = (a, content st d) # q" "map (content st) ds = map snd q"
      using assms(2) by (auto simp: queue_ok_def Cons_eq_map_conv)
    have w': "w' = writeOne WriteTo w" "st' = pool_putSendBuffer d (st\<lparr>so_queue := ds\<rparr>)"
      using assms(3) Cons q(1) by (simp_all add: pool_writeOne_def writeOne_def)
    have "own st' L" unfolding w'(2) by (rule putSendBuffer_own(1) [OF own_queue_out [OF assms(1) Cons]])
    moreover have "queue_ok w' st'" using q by (simp add: w' writeOne_def queue_ok_def)
    ultimately show ?thesis by (simp add: w')
  qed
  then show "w' = writeOne WriteTo w" "own st' L" "queue_ok w' st'" "content st' s = content st s" "cap st' s = cap st s" by blast+
qed

lemma go_copy_all: "length src = length dst \<Longrightarrow> go_copy dst 0 src = src"
  by (simp add: go_copy_def)

section \<open>The laws of the send functions\<close>

lemma directSend_ok:
  assumes "own st (s # L)"
  shows "pool_directSend net x s st = Some (server_sendFunc net False x (content st s), st)"
  using own_len [OF assms] by (cases x) (simp add: pool_directSend_def server_sendFunc_def split_beta)

interpretation direct_net: pooled_net "server_sendFunc net False" "pool_directSend net" "\<lambda>_ _. True" for net
  by unfold_locales (simp_all add: directSend_ok)

lemma coalescedSend_ok:
  assumes "own st (s # L)" "queue_ok w st"
  shows "\<exists>st'. pool_coalescedSend WriteTo (c, w) s st =
      Some (server_sendFunc (coalesced_net WriteTo) True (c, w) (content st s), st') \<and> own st' (s # L) \<and>
    queue_ok (snd (fst (server_sendFunc (coalesced_net WriteTo) True (c, w) (content st s)))) st' \<and> untouched st st' (s # L)"
proof -
  obtain cp st1 where g: "pool_getSendBuffer (sl_len s) st = Some (cp, st1)" "own st1 (cp # s # L)" "same st st1 (s # L)"
    "sl_len cp = sl_len s" "length (content st1 cp) = sl_len s" using getSendBuffer_own [OF assms(1)] by blast
  define st2 where "st2 = copyTo cp 0 (content st1 s) st1"
  note cpy = copyTo_own [OF g(2), of 0 "content st1 s", folded st2_def, OF le0]
  have s1: "content st1 s = content st s" using g(3) by (simp add: same_def)
  have c2: "content st2 cp = content st s"
    using cpy(3) own_len [OF assms(1)] g(5) by (simp add: s1 go_copy_all)
  have "same st st2 (s # L)" using g(3) cpy(2) by (rule same_trans)
  then have u2: "untouched st st2 (s # L)" "queue_ok w st2" using assms(2) by (simp_all add: untouched_def same_def queue_ok_def cong: map_cong)
  obtain w3 st3 where 3: "(if length (w_queue w) < writeCapacity then (w, st2) else pool_writeOne WriteTo w st2) = (w3, st3)"
    by (metis surj_pair)
  have w3: "w3 = (if length (w_queue w) < writeCapacity then w else writeOne WriteTo w)" "own st3 (cp # s # L)" "queue_ok w3 st3"
    and c3: "content st3 b = content st2 b" "cap st3 b = cap st2 b" for b
    using 3 writeOne_ok [OF cpy(1) u2(2), of WriteTo w3 st3] cpy(1) u2(2) by (auto split: if_splits)
  let ?w = "w3\<lparr>w_queue := w_queue w3 @ [(c_remoteAddr c, content st s)]\<rparr>" and ?st = "st3\<lparr>so_queue := so_queue st3 @ [cp]\<rparr>"
  have "server_sendFunc (coalesced_net WriteTo) True (c, w) (content st s) = ((countSent (sl_len s) c, ?w), None)"
    using own_len [OF assms(1)] w3(1) by (simp add: server_sendFunc_def coalesced_net_def sendWrite_def Let_def)
  moreover have "pool_coalescedSend WriteTo (c, w) s st = Some (((countSent (sl_len s) c, ?w), None), ?st)"
    using g(1) 3 c2 c3(1) [of cp] by (simp add: pool_coalescedSend_def st2_def [symmetric] split: if_splits)
  moreover have "queue_ok ?w ?st" using w3(3) c2 c3(1) [of cp] by (simp add: queue_ok_def)
  moreover have "untouched st ?st (s # L)" using u2(1) c3 by (simp add: untouched_def)
  ultimately show ?thesis using own_queue_in [OF w3(2)] by auto
qed

interpretation coalesced: pooled_net "server_sendFunc (coalesced_net WriteTo) True" "pool_coalescedSend WriteTo" queue_ok for WriteTo
proof unfold_locales
  fix w :: "'a writer" and st st' :: store
  assume "queue_ok w st" "so_queue st' = so_queue st" "\<And>s. s \<in> set (so_queue st) \<Longrightarrow> content st' s = content st s"
  then show "queue_ok w st'" by (simp add: queue_ok_def cong: map_cong)
next
  fix st s L and x :: "'a writer st"
  assume "own st (s # L)" "queue_ok (snd x) st"
  then show "\<exists>st'. pool_coalescedSend WriteTo x s st =
      Some (server_sendFunc (coalesced_net WriteTo) True x (content st s), st') \<and> own st' (s # L) \<and>
    queue_ok (snd (fst (server_sendFunc (coalesced_net WriteTo) True x (content st s)))) st' \<and> untouched st st' (s # L)"
    using coalescedSend_ok [of st s L "snd x" WriteTo "fst x"] by simp
qed

lemma clientSend_ok:
  assumes "own st (s # L)"
  shows "\<exists>st'. pool_clientSend Write (c, u) s st = Some (client_sendFunc Write (c, u) (content st s), st') \<and>
    own st' (s # L) \<and> untouched st st' (s # L)"
proof (cases "migrates c")
  case False
  then show ?thesis using assms own_len [OF assms]
    by (simp add: pool_clientSend_def client_sendFunc_def tokenPrefix_def split_beta)
next
  case True
  let ?n = "MigrationTokenSize + sl_len s"
  obtain b st1 where g: "pool_getSendBuffer ?n st = Some (b, st1)" "own st1 (b # s # L)" "same st st1 (s # L)"
    "sl_len b = ?n" "length (content st1 b) = ?n" "?n \<le> cap st1 b" using getSendBuffer_own [OF assms] by blast
  define st2 where "st2 = copyTo b 0 (tokenPrefix c) st1"
  define st3 where "st3 = copyTo b MigrationTokenSize (content st2 s) st2"
  note a = copyTo_own [OF g(2), of 0 "tokenPrefix c", folded st2_def, OF le0]
  have "MigrationTokenSize \<le> sl_len b" using g(4) by simp
  note b = copyTo_own [OF a(1) this, of "content st2 s", folded st3_def]
  have sm: "same st st3 (s # L)" using same_trans [OF same_trans [OF g(3) a(2)] b(2)] .
  have s2: "content st2 s = content st s" using same_trans [OF g(3) a(2)] by (simp add: same_def)
  have t: "length (tokenPrefix c) = MigrationTokenSize" using True by (simp add: tokenPrefix_def)
  have out: "content st3 b = tokenPrefix c @ content st s"
    using b(3) a(3) s2 t g(5) own_len [OF assms] by (simp add: go_copy_def)
  have c3: "reslice ?n st3 b = Some b"
  proof -
    have "sl_len b \<le> cap st3 b" using own_mem [OF b(1)] by simp
    then show ?thesis using g(4) by (simp add: reslice_def)
  qed
  have "pool_clientSend Write (c, u) s st = Some (client_sendFunc Write (c, u) (content st s), pool_putSendBuffer b st3)"
    using True g(1,4) out c3 t own_len [OF assms]
    by (simp add: pool_clientSend_def client_sendFunc_def st2_def [symmetric] st3_def [symmetric] split_beta)
  moreover have "untouched st (pool_putSendBuffer b st3) (s # L)" using sm by (simp add: untouched_def same_def)
  ultimately show ?thesis using putSendBuffer_own(1) [OF b(1)] by blast
qed

interpretation client_net: pooled_net "client_sendFunc Write" "pool_clientSend Write" "\<lambda>_ _. True" for Write
  by unfold_locales (use clientSend_ok in fastforce)+

end
