(* ===== verification/PooledServer.thy ===== *)
theory PooledServer
  imports PooledNet
begin

text \<open>
  A server over the buffer pool: all its connections take their buffers from the same pool and
  return them to it (\<open>processIncoming\<close>, \<open>tryMigration\<close>, \<open>tickConnection\<close> and \<open>tick\<close> in \<open>server.go\<close>), and the
  application sends and closes in between. The main result is that this sharing cannot be
  observed: whatever buffers \<open>sync.Pool\<close> hands out, the server does what the server of \<open>Server\<close> does,
  in which packets are values.
\<close>

section \<open>Definitions\<close>

text \<open>The slices of the connections, in the order of the heap.\<close>

type_synonym 'u pserver = "'u server \<times> buffers list \<times> store"

definition noBuffers :: "nat \<Rightarrow> buffers" where
  "noBuffers n = \<lparr>bf_pending = replicate n [], bf_batch = [], bf_disconnect = None\<rparr>"

definition pool_server_processConnData :: "'u server_env \<Rightarrow> time \<Rightarrow> nat \<Rightarrow> bytes \<Rightarrow> 'u pserver \<Rightarrow> 'u pserver option" where
  "pool_server_processConnData env now i data p =
     (case p of (s, bfs, st) \<Rightarrow>
        let c = s_heap s ! i
        in if migrates c \<and> length data < MigrationTokenSize then Some p
           else
             let data = (if migrates c then drop MigrationTokenSize data else data)
             in case pool_processConnData (env_comp env) now data (c, bfs ! i, st) of
                  Inl e \<Rightarrow> None
                | Inr ((c, bf, st), es) \<Rightarrow> Some (commit i (c, es) s, bfs[i := bf], st))"

definition pool_tryMigration ::
  "'u server_env \<Rightarrow> time \<Rightarrow> nat \<Rightarrow> AddrPort \<Rightarrow> bytes \<Rightarrow> 'u pserver \<Rightarrow> 'u pserver option" where
  "pool_tryMigration env now i newAddr data p =
     (case p of (s, bfs, st) \<Rightarrow>
        let c = s_heap s ! i;
            stripped = drop MigrationTokenSize data
        in case (if c_batchEnabled c then UnmarshalBatch stripped else Inr [stripped]) of
             Inl e \<Rightarrow> Some p
           | Inr [] \<Rightarrow> Some p
           | Inr (pkt # pkts) \<Rightarrow>
               (case Decrypt (c_recvCipher c) pkt getDecryptBuffer of
                  (cipher, Inl e) \<Rightarrow> Some (s\<lparr>s_heap := (s_heap s)[i := c\<lparr>c_recvCipher := cipher\<rparr>]\<rparr>, bfs, st)
                | (cipher, Inr decrypted) \<Rightarrow>
                    let s = moveConnection i newAddr (s\<lparr>s_heap := (s_heap s)[i := c\<lparr>c_recvCipher := cipher\<rparr>]\<rparr>);
                        c = countReceived (length stripped) (s_heap s ! i)
                    in case pool_handleDecrypted (env_comp env) now decrypted (c, bfs ! i, st) of
                         Inl e \<Rightarrow> None
                       | Inr (q, es) \<Rightarrow>
                           (case pool_processPackets (env_comp env) now pkts q of
                              Inl e \<Rightarrow> None
                            | Inr ((c, bf, st), es') \<Rightarrow> Some (commit i (c, es @ es') s, bfs[i := bf], st))))"

definition pool_acceptResponse ::
  "'u server_env \<Rightarrow> time \<Rightarrow> AddrPort \<Rightarrow> bytes \<Rightarrow> pendingHandshake \<Rightarrow> 'u pserver \<Rightarrow> 'u pserver" where
  "pool_acceptResponse env now addr data ph p =
     (case p of (s, bfs, st) \<Rightarrow>
        let s' = acceptResponse env now addr data ph s
        in (s', bfs @ map (\<lambda>c. noBuffers (length (c_channels c))) (drop (length bfs) (s_heap s')), st))"

definition pool_processIncoming :: "'u server_env \<Rightarrow> time \<Rightarrow> incomingPacket \<Rightarrow> 'u pserver \<Rightarrow> 'u pserver option" where
  "pool_processIncoming env now pkt p =
     (case p of (s, bfs, st) \<Rightarrow>
        case conns_get (s_conns s) (ip_addr pkt) of
          Some i \<Rightarrow> pool_server_processConnData env now i (ip_data pkt) p
        | None \<Rightarrow>
            (case pending_get (s_pending s) (ip_addr pkt) of
               Some ph \<Rightarrow> Some (pool_acceptResponse env now (ip_addr pkt) (ip_data pkt) ph p)
             | None \<Rightarrow>
                 (case (if sc_ConnectionMigration (s_config s) \<and> MigrationTokenSize \<le> length (ip_data pkt)
                        then tokens_get (s_tokens s) (take MigrationTokenSize (ip_data pkt)) else None) of
                    Some i \<Rightarrow> pool_tryMigration env now i (ip_addr pkt) (ip_data pkt) p
                  | None \<Rightarrow> Some (handleHandshake env now (ip_addr pkt) (ip_data pkt) (ip_random pkt) s, bfs, st))))"

definition pool_server_tickConnection ::
  "'u server_env \<Rightarrow> scratch_lib \<Rightarrow> 'u pooledSend \<Rightarrow> time \<Rightarrow> nat \<Rightarrow> 'u pserver \<Rightarrow> 'u pserver option" where
  "pool_server_tickConnection env slib psf now i p =
     (case p of (s, bfs, st) \<Rightarrow>
        do {
          (es, (c, u), bf, st) \<leftarrow> pool_tickConnection (env_comp env) slib (serverParams (s_config s)) psf now
             ((s_heap s ! i, s_net s), bfs ! i, st);
          Some (commit i (c, es) (s\<lparr>s_net := u\<rparr>), bfs[i := bf], st)
        })"

fun psteps :: "('a \<Rightarrow> 's \<Rightarrow> 's option) \<Rightarrow> 'a list \<Rightarrow> 's \<Rightarrow> 's option" where
  "psteps f [] s = Some s"
| "psteps f (x # xs) s = do { s \<leftarrow> f x s; psteps f xs s }"

definition pool_tick ::
  "'u server_env \<Rightarrow> scratch_lib \<Rightarrow> 'u pooledSend \<Rightarrow> time \<Rightarrow> incomingPacket list \<Rightarrow> 'u pserver \<Rightarrow> 'u pserver option" where
  "pool_tick env slib psf now incoming p =
     do {
       p \<leftarrow> psteps (pool_processIncoming env now) incoming p;
       let tickConns = conns_forEach (\<lambda>i is. is @ [i]) (s_conns (fst p)) [];
       (s, bfs, st) \<leftarrow> psteps (pool_server_tickConnection env slib psf now) tickConns p;
       Some (s\<lparr>s_pending := pending_cleanup (isExpired now (sc_HandshakeTimeout (s_config s))) (s_pending s),
               s_limiter := limiter_cleanup now (sc_HandshakeTimeout (s_config s)) (s_limiter s)\<rparr>, bfs, st)
     }"

subsection \<open>What happens to a server\<close>

text \<open>A tick, the calls of the application on a connection it was given, and a step of the write
  loop. \<open>bg\<close> is that step on the network; without coalescing it does nothing.\<close>

datatype server_op =
    OpTick time "incomingPacket list"
  | OpSend nat bytes byte
  | OpSendImmediate nat bytes byte time
  | OpClose nat time
  | OpWrite

definition onConnection :: "('u st \<Rightarrow> 'u st \<times> fw_error option) \<Rightarrow> nat \<Rightarrow> 'u server \<Rightarrow> 'u server res" where
  "onConnection f i s =
     (if length (s_heap s) \<le> i then Inr s
      else let ((c, u), err) = f (s_heap s ! i, s_net s)
           in map_sum id (\<lambda>_. s\<lparr>s_heap := (s_heap s)[i := c], s_net := u\<rparr>) (report err))"

definition conn_Send :: "bytes \<Rightarrow> byte \<Rightarrow> 'u st \<Rightarrow> 'u st \<times> fw_error option" where
  "conn_Send data ch s = (case s of (c, u) \<Rightarrow> let (c, err) = enqueueSend data ch c in ((c, u), err))"

fun server_do :: "'u server_env \<Rightarrow> bool \<Rightarrow> ('u \<Rightarrow> 'u) \<Rightarrow> server_op \<Rightarrow> 'u server \<Rightarrow> 'u server res" where
  "server_do env coalesce bg (OpTick now incoming) s = tick env now incoming s"
| "server_do env coalesce bg (OpSend i data ch) s =
     onConnection (conn_Send data ch) i s"
| "server_do env coalesce bg (OpSendImmediate i data ch now) s =
     onConnection (SendImmediate (env_comp env) (Some (server_sendFunc (env_net env) coalesce)) data ch now) i s"
| "server_do env coalesce bg (OpClose i now) s =
     onConnection (Close (Some (server_sendFunc (env_net env) coalesce)) now) i s"
| "server_do env coalesce bg OpWrite s = Inr (s\<lparr>s_net := bg (s_net s)\<rparr>)"

definition pool_onConnection :: "('u pst \<Rightarrow> (fw_error option \<times> 'u pst) option) \<Rightarrow> nat \<Rightarrow> 'u pserver \<Rightarrow> 'u pserver option" where
  "pool_onConnection f i p =
     (case p of (s, bfs, st) \<Rightarrow>
        if length (s_heap s) \<le> i then Some p
        else do {
          (err, (c, u), bf, st) \<leftarrow> f ((s_heap s ! i, s_net s), bfs ! i, st);
          if isl (report err) then None
          else Some (s\<lparr>s_heap := (s_heap s)[i := c], s_net := u\<rparr>, bfs[i := bf], st)
        })"

definition pool_Send :: "bytes \<Rightarrow> byte \<Rightarrow> 'u pst \<Rightarrow> (fw_error option \<times> 'u pst) option" where
  "pool_Send data ch p = (case p of ((c, u), bf, st) \<Rightarrow> let (c, err) = enqueueSend data ch c in Some (err, (c, u), bf, st))"

fun pool_server_do ::
  "'u server_env \<Rightarrow> scratch_lib \<Rightarrow> 'u pooledSend \<Rightarrow> ('u \<Rightarrow> store \<Rightarrow> 'u \<times> store) \<Rightarrow> server_op \<Rightarrow> 'u pserver \<Rightarrow> 'u pserver option" where
  "pool_server_do env slib psf pbg (OpTick now incoming) p = pool_tick env slib psf now incoming p"
| "pool_server_do env slib psf pbg (OpSend i data ch) p =
     pool_onConnection (pool_Send data ch) i p"
| "pool_server_do env slib psf pbg (OpSendImmediate i data ch now) p =
     pool_onConnection (pool_SendImmediate (env_comp env) slib psf data ch now) i p"
| "pool_server_do env slib psf pbg (OpClose i now) p = pool_onConnection (pool_Close psf now) i p"
| "pool_server_do env slib psf pbg OpWrite p =
     (case p of (s, bfs, st) \<Rightarrow> let (u, st) = pbg (s_net s) st in Some (s\<lparr>s_net := u\<rparr>, bfs, st))"

text \<open>The pool is exported: the application gets buffers from it, writes to them and puts them back, in
  between what happens to the server. Its state are the buffers it has, each with the bytes it has
  written (those it found, at first).\<close>

datatype app_op = AppServer server_op | AppGet | AppWrite nat bytes | AppPut nat

fun app_do ::
  "'u server_env \<Rightarrow> scratch_lib \<Rightarrow> 'u pooledSend \<Rightarrow> ('u \<Rightarrow> store \<Rightarrow> 'u \<times> store) \<Rightarrow> app_op \<Rightarrow>
     'u pserver \<times> (slice \<times> bytes) list \<Rightarrow> ('u pserver \<times> (slice \<times> bytes) list) option" where
  "app_do env slib psf pbg (AppServer op) (p, A) = map_option (\<lambda>p. (p, A)) (pool_server_do env slib psf pbg op p)"
| "app_do env slib psf pbg AppGet ((s, bfs, st), A) = (let (b, st) = GetBuffer st in Some ((s, bfs, st), A @ [(b, content st b)]))"
| "app_do env slib psf pbg (AppWrite k bs) ((s, bfs, st), A) =
     (if k < length A \<and> length bs = sl_len (fst (A ! k))
      then Some ((s, bfs, overwrite (fst (A ! k)) bs st), A[k := (fst (A ! k), bs)]) else Some ((s, bfs, st), A))"
| "app_do env slib psf pbg (AppPut k) ((s, bfs, st), A) =
     (if k < length A then Some ((s, bfs, PutBuffer (fst (A ! k)) st), take k A @ drop (Suc k) A) else Some ((s, bfs, st), A))"

text \<open>What of it the server sees.\<close>

fun server_ops :: "app_op list \<Rightarrow> server_op list" where
  "server_ops [] = []"
| "server_ops (AppServer op # ops) = op # server_ops ops"
| "server_ops (_ # ops) = server_ops ops"

text \<open>A store at the start of the program: the pool is empty, the choices of \<open>sync.Pool\<close> are arbitrary.\<close>

definition newStore :: "nat list \<Rightarrow> store" where
  "newStore choices = \<lparr>so_arrays = [], so_pool = [], so_choices = choices, so_queue = []\<rparr>"

text \<open>The pool has buffers of one size only, and every buffer is in one place.\<close>

definition buffers_typed :: "buffers list \<Rightarrow> store \<Rightarrow> (slice \<times> bytes) list \<Rightarrow> bool" where
  "buffers_typed bfs st A \<longleftrightarrow>
     (\<forall>b \<in> set (so_pool st). sl_len b = DefaultMTU \<and> cap st b = DefaultMTU) \<and>
     distinct (map sl_array (so_pool st @ so_queue st @ concat (map inUse bfs) @ map fst A)) \<and>
     (\<forall>(b, v) \<in> set A. sl_len b = DefaultMTU \<and> content st b = v) \<and>
     length (content (snd (GetBuffer st)) (fst (GetBuffer st))) = DefaultMTU"

section \<open>One connection among many\<close>

text \<open>Every connection has its own buffers, with the contents its record says, and so does the
  application: \<open>A\<close> are the buffers it has got with \<open>GetBuffer\<close>, each with the bytes it has written.\<close>

definition server_pooled :: "('u \<Rightarrow> store \<Rightarrow> bool) \<Rightarrow> (slice \<times> bytes) list \<Rightarrow> 'u server \<Rightarrow> buffers list \<Rightarrow> store \<Rightarrow> bool" where
  "server_pooled net_ok A s bfs st \<longleftrightarrow>
     length bfs = length (s_heap s) \<and> own st (concat (map inUse bfs) @ map fst A) \<and> net_ok (s_net s) st \<and>
     (\<forall>i < length (s_heap s). matches (s_heap s ! i) (bfs ! i) st \<and> sealed_ok (s_heap s ! i)) \<and>
     (\<forall>(b, v) \<in> set A. sl_len b = DefaultMTU \<and> cap st b = DefaultMTU \<and> content st b = v)"

definition others :: "(slice \<times> bytes) list \<Rightarrow> nat \<Rightarrow> buffers list \<Rightarrow> slice list" where
  "others A i bfs = concat (map inUse (take i bfs @ drop (Suc i) bfs)) @ map fst A"

lemma others_split:
  assumes "i < length bfs"
  shows "mset (inUse b @ others A i bfs) = mset (concat (map inUse (bfs[i := b])) @ map fst A)"
  using assms by (simp add: others_def upd_conv_take_nth_drop mset_concat)

lemma held_untouched:
  assumes "\<forall>(b, v) \<in> set A. sl_len b = DefaultMTU \<and> cap st b = DefaultMTU \<and> content st b = v" "untouched st st' L" "set (map fst A) \<subseteq> set L"
  shows "\<forall>(b, v) \<in> set A. sl_len b = DefaultMTU \<and> cap st' b = DefaultMTU \<and> content st' b = v"
  using assms by (fastforce simp: untouched_def)

lemma focus:
  assumes "server_pooled N A s bfs st" "i < length (s_heap s)"
  shows "pooled_ok N ((s_heap s ! i, s_net s), bfs ! i, st) (others A i bfs)"
proof -
  have i: "i < length bfs" and o: "own st (concat (map inUse bfs) @ map fst A)" using assms by (simp_all add: server_pooled_def)
  have "own st (inUse (bfs ! i) @ others A i bfs)" by (rule own_perm [OF o]) (use others_split [OF i, of "bfs ! i"] in simp)
  then show ?thesis using assms by (simp add: server_pooled_def pooled_ok_def)
qed

lemma unfocus:
  assumes "server_pooled N A s bfs st" "i < length (s_heap s)" "pooled_ok N ((c, u), bf, st') (others A i bfs)"
    "untouched st st' (others A i bfs)" "s_heap s' = (s_heap s)[i := c]" "s_net s' = u"
  shows "server_pooled N A s' (bfs[i := bf]) st'"
proof -
  have l: "length bfs = length (s_heap s)" using assms(1) by (simp add: server_pooled_def)
  have ok: "own st' (inUse bf @ others A i bfs)" "matches c bf st'" "N u st'" "sealed_ok c"
    using assms(3) by (simp_all add: pooled_ok_def)
  have o: "own st' (concat (map inUse (bfs[i := bf])) @ map fst A)"
    by (rule own_perm [OF ok(1)]) (use others_split assms(2) l in simp)
  have m: "matches (s_heap s ! j) (bfs ! j) st'" "sealed_ok (s_heap s ! j)" if j: "j < length (s_heap s)" "j \<noteq> i" for j
  proof -
    have "bfs ! j \<in> set (take i bfs @ drop (Suc i) bfs)"
    proof (cases "j < i")
      case True
      then have "take i bfs ! j = bfs ! j" "j < length (take i bfs)" using j l by simp_all
      then show ?thesis by (metis UnI1 nth_mem set_append)
    next
      case False
      then have "drop (Suc i) bfs ! (j - Suc i) = bfs ! j" "j - Suc i < length (drop (Suc i) bfs)" using j l by simp_all
      then show ?thesis by (metis UnI2 nth_mem set_append)
    qed
    then have "set (inUse (bfs ! j)) \<subseteq> set (others A i bfs)" by (auto simp: others_def)
    then have "untouched st st' (inUse (bfs ! j))" using assms(4) by (auto simp: untouched_def)
    then show "matches (s_heap s ! j) (bfs ! j) st'" using assms(1) j by (auto simp: server_pooled_def intro: matches_unt)
    show "sealed_ok (s_heap s ! j)" using assms(1) j by (simp add: server_pooled_def)
  qed
  have held: "\<forall>(b, v) \<in> set A. sl_len b = DefaultMTU \<and> cap st' b = DefaultMTU \<and> content st' b = v"
    by (rule held_untouched [OF _ assms(4)]) (use assms(1) in \<open>auto simp: server_pooled_def others_def\<close>)
  have "matches (s_heap s' ! j) (bfs[i := bf] ! j) st' \<and> sealed_ok (s_heap s' ! j)" if "j < length (s_heap s)" for j
    using that m [of j] ok l by (cases "j = i") (simp_all add: assms(5))
  then show ?thesis using o ok(3) l held by (simp add: server_pooled_def assms(5,6))
qed

text \<open>What is kept from one step of the server to the next.\<close>

definition pooled_inv :: "('u \<Rightarrow> store \<Rightarrow> bool) \<Rightarrow> (slice \<times> bytes) list \<Rightarrow> comp_lib \<Rightarrow> bool \<Rightarrow> 'u server \<Rightarrow> buffers list \<Rightarrow> store \<Rightarrow> bool" where
  "pooled_inv net_ok A lib coalesce s bfs st \<longleftrightarrow>
     server_pooled net_ok A s bfs st \<and> wf_server lib s \<and> sc_CoalesceIO (s_config s) = coalesce"

lemma server_pooled_cong:
  "server_pooled N A s bfs st \<Longrightarrow> s_heap s' = s_heap s \<Longrightarrow> s_net s' = s_net s \<Longrightarrow> server_pooled N A s' bfs st"
  by (simp add: server_pooled_def)

lemma commit_heap [simp]: "s_heap (commit i r s) = (s_heap s)[i := fst r]" "s_net (commit i r s) = s_net s"
proof -
  have "s_heap (fold (applyEffect i) es s) = s_heap s \<and> s_net (fold (applyEffect i) es s) = s_net s" for es and s :: "'a server"
  proof (induction es arbitrary: s)
    case (Cons e es)
    have "s_heap (applyEffect i e s) = s_heap s \<and> s_net (applyEffect i e s) = s_net s"
      by (cases e) (simp_all add: removeConnection_def Let_def)
    then show ?case using Cons by simp
  qed simp
  then show "s_heap (commit i r s) = (s_heap s)[i := fst r]" "s_net (commit i r s) = s_net s" by (simp_all add: commit_def)
qed

lemma heap_moved_wf:
  assumes "wf_server lib s" "in_table s i \<Longrightarrow> moved (s_heap s ! i) c []"
  shows "wf_server lib (s\<lparr>s_heap := (s_heap s)[i := c]\<rparr>)"
proof -
  have k: "c_remoteAddr ((s_heap s)[i := c] ! j) = c_remoteAddr (s_heap s ! j)"
    "migrates ((s_heap s)[i := c] ! j) = migrates (s_heap s ! j)"
    "c_migrationToken ((s_heap s)[i := c] ! j) = c_migrationToken (s_heap s ! j)"
    "good_conn f (s_heap s ! j) \<Longrightarrow> good_conn f ((s_heap s)[i := c] ! j)"
    if "in_table s j" for j f
  proof -
    have "j = i \<Longrightarrow> same_identity (s_heap s ! i) c" "j = i \<Longrightarrow> moved (s_heap s ! i) c []" using assms(2) that by (auto simp: moved_def)
    moreover have "j < length (s_heap s)" using that by (simp add: in_table_def)
    moreover have "good_conn f c" if "moved (s_heap s ! i) c []" "good_conn f (s_heap s ! i)"
      using that by (cases "c_state (s_heap s ! i)"; cases "c_state c")
        (auto simp: moved_def good_conn_def same_identity_def keeps_def closed_def)
    ultimately show "c_remoteAddr ((s_heap s)[i := c] ! j) = c_remoteAddr (s_heap s ! j)"
      "migrates ((s_heap s)[i := c] ! j) = migrates (s_heap s ! j)"
      "c_migrationToken ((s_heap s)[i := c] ! j) = c_migrationToken (s_heap s ! j)"
      "good_conn f (s_heap s ! j) \<Longrightarrow> good_conn f ((s_heap s)[i := c] ! j)"
      by (cases "j = i"; auto simp: same_identity_def keeps_def closed_def migrates_def)+
  qed
  have t: "in_table s j" if "conns_get (s_conns s) a = Some j" for a j by (rule get_in_table [OF assms(1) that])
  show ?thesis using assms(1) k t unfolding wf_server_def by (simp add: in_table_def)
qed

text \<open>The calls of the application are steps of the state machine of \<open>Lifecycle\<close>.\<close>

lemma conn_Send_step: "conn_Send data ch (c, u) = ((c', u'), err) \<Longrightarrow> conn_step lib p sf (c, u) [] (c', u')"
  by (auto simp: conn_Send_def split: prod.splits intro: conn_step.queued)

section \<open>Receiving\<close>

lemma same_packets_received [simp]: "same_packets c (countReceived n c)" "same_packets c (c\<lparr>c_remoteAddr := a\<rparr>)"
  by (simp_all add: same_packets_def raws_def countReceived_def)

lemma ok_fresh:
  assumes "serverProcessResponse clib lib now data ph a = Inr c" "aeads_ok clib"
  shows "matches c (noBuffers (length (c_channels c))) st" "sealed_ok c"
proof -
  obtain inp k where c: "c = newConnection lib now inp" "NewCipherState clib (ph_s2cKey ph) (ph_suite ph) = Inr k" "in_sendCipher inp = k"
    using assms(1) by (auto simp: serverProcessResponse_def split: sum.splits prod.splits if_splits)
  then have "sealed_ok c" using assms(2) by (auto simp: sealed_ok_def aeads_ok_def newConnection_def Let_def)
  moreover have "raws c = replicate (length (c_channels c)) []"
    by (simp add: c raws_def newConnection_def Let_def newChannels_def newChannel_def comp_def map_replicate_const)
  ultimately show "matches c (noBuffers (length (c_channels c))) st" "sealed_ok c"
    by (simp_all add: matches_def noBuffers_def c newConnection_def Let_def)
qed

text \<open>What a server needs of its network besides sending: the replies of the handshake are written to
  the socket directly, and the write loop runs in the background.\<close>

locale pooled_server = pooled_net "server_sendFunc (env_net env) coalesce" psf net_ok
  for env :: "'u server_env" and coalesce and psf :: "'u pooledSend" and net_ok +
  fixes bg :: "'u \<Rightarrow> 'u" and pbg :: "'u \<Rightarrow> store \<Rightarrow> 'u \<times> store"
  assumes write_ok: "net_ok u st \<Longrightarrow> net_ok (fst (udp_WriteTo (env_net env) u d a)) st"
    and bg_ok: "own st L \<Longrightarrow> net_ok u st \<Longrightarrow>
      \<exists>st'. pbg u st = (bg u, st') \<and> own st' L \<and> net_ok (bg u) st' \<and> untouched st st' L"
begin

lemma pooled_processConnData:
  assumes "server_pooled net_ok A s bfs st" "i < length (s_heap s)" "server_processConnData env now i data s = Inr s'"
  shows "\<exists>bfs' st'. pool_server_processConnData env now i data (s, bfs, st) = Some (s', bfs', st') \<and> server_pooled net_ok A s' bfs' st'"
proof (cases "migrates (s_heap s ! i) \<and> length data < MigrationTokenSize")
  case True
  then show ?thesis using assms by (auto simp: server_processConnData_def pool_server_processConnData_def)
next
  case False
  let ?d = "if migrates (s_heap s ! i) then drop MigrationTokenSize data else data"
  obtain c es where r: "processConnData (env_comp env) now ?d (s_heap s ! i) = Inr (c, es)" "s' = commit i (c, es) s"
    using assms(3) False by (auto simp: server_processConnData_def Let_def split: sum.splits)
  obtain bf' st' where p: "pool_processConnData (env_comp env) now ?d (s_heap s ! i, bfs ! i, st) = Inr ((c, bf', st'), es)"
    "pooled_ok net_ok ((c, s_net s), bf', st') (others A i bfs)" "untouched st st' (others A i bfs)"
    using ok_processConnData [OF focus [OF assms(1,2)] r(1)] by blast
  from unfocus [OF assms(1,2) p(2,3), of s'] p(1) False r(2) show ?thesis
    by (auto simp: pool_server_processConnData_def Let_def)
qed

lemma moveConnection_heap:
  "s_heap (moveConnection i a s) = (s_heap s)[i := (s_heap s ! i)\<lparr>c_remoteAddr := a\<rparr>]" "s_net (moveConnection i a s) = s_net s"
  by (cases "c_remoteAddr (s_heap s ! i) = a"; auto simp: moveConnection_def Let_def)+

lemma pooled_tryMigration:
  assumes "server_pooled net_ok A s bfs st" "i < length (s_heap s)" "tryMigration env now i a data s = Inr s'"
  shows "\<exists>bfs' st'. pool_tryMigration env now i a data (s, bfs, st) = Some (s', bfs', st') \<and> server_pooled net_ok A s' bfs' st'"
proof -
  let ?d = "drop MigrationTokenSize data" and ?c = "s_heap s ! i"
  let ?ps = "if c_batchEnabled ?c then UnmarshalBatch ?d else Inr [?d]"
  consider e where "?ps = Inl e" | "?ps = Inr []" | pkt pkts where "?ps = Inr (pkt # pkts)" by (metis obj_sumE list.exhaust)
  then show ?thesis
  proof cases
    case (3 pkt pkts)
    obtain k r where d: "Decrypt (c_recvCipher ?c) pkt getDecryptBuffer = (k, r)" by (metis surj_pair)
    let ?s = "s\<lparr>s_heap := (s_heap s)[i := ?c\<lparr>c_recvCipher := k\<rparr>]\<rparr>"
    have ok: "pooled_ok net_ok ((?c\<lparr>c_recvCipher := k\<rparr>, s_net s), bfs ! i, st) (others A i bfs)"
      by (rule ok_conn [OF focus [OF assms(1,2)]]) simp
    from unfocus [OF assms(1,2) this untouched_refl, of ?s] have p: "server_pooled net_ok A ?s bfs st" by simp
    show ?thesis
    proof (cases r)
      case (Inl e)
      then show ?thesis using 3 d p assms(3) by (auto simp: tryMigration_def pool_tryMigration_def Let_def)
    next
      case (Inr dec)
      let ?m = "moveConnection i a ?s"
      let ?c1 = "countReceived (length ?d) (s_heap ?m ! i)"
      have "s_heap ?m ! i = ?c\<lparr>c_recvCipher := k, c_remoteAddr := a\<rparr>" using assms(2) by (simp add: moveConnection_heap)
      then have "same_packets ?c ?c1" by (simp add: same_packets_def raws_def countReceived_def)
      from ok_conn [OF focus [OF assms(1,2)] this] have ok1: "pooled_ok net_ok ((?c1, s_net s), bfs ! i, st) (others A i bfs)" .
      obtain c2 es c3 es' where v: "handleDecrypted (env_comp env) now dec ?c1 = Inr (c2, es)"
        "processPackets (env_comp env) now pkts c2 = Inr (c3, es')" "s' = commit i (c3, es @ es') ?m"
        using assms(3) 3 d Inr by (auto simp: tryMigration_def Let_def split: sum.splits)
      obtain bf2 st2 where h: "pool_handleDecrypted (env_comp env) now dec (?c1, bfs ! i, st) = Inr ((c2, bf2, st2), es)"
        "pooled_ok net_ok ((c2, s_net s), bf2, st2) (others A i bfs)" "untouched st st2 (others A i bfs)"
        using ok_handleDecrypted [OF ok1 v(1)] by blast
      obtain bf3 st3 where q: "pool_processPackets (env_comp env) now pkts (c2, bf2, st2) = Inr ((c3, bf3, st3), es')"
        "pooled_ok net_ok ((c3, s_net s), bf3, st3) (others A i bfs)" "untouched st2 st3 (others A i bfs)"
        using ok_processPackets [OF h(2) v(2)] by blast
      have "pool_tryMigration env now i a data (s, bfs, st) = Some (s', bfs[i := bf3], st3)"
        using 3 d Inr h(1) q(1) v(3) by (simp add: pool_tryMigration_def Let_def)
      moreover have "server_pooled net_ok A s' (bfs[i := bf3]) st3"
        by (rule unfocus [OF assms(1,2) q(2) untouched_trans [OF h(3) q(3)]]) (simp_all add: v(3) moveConnection_heap)
      ultimately show ?thesis by blast
    qed
  qed (use assms in \<open>auto simp: tryMigration_def pool_tryMigration_def Let_def\<close>)
qed

lemma pooled_acceptResponse:
  assumes "server_pooled net_ok A s bfs st" "aeads_ok (env_crypto env)"
  shows "\<exists>bfs'. pool_acceptResponse env now a data ph (s, bfs, st) = (acceptResponse env now a data ph s, bfs', st) \<and>
    server_pooled net_ok A (acceptResponse env now a data ph s) bfs' st"
proof (cases "serverProcessResponse (env_crypto env) (env_comp env) now data ph a")
  case (Inl e)
  then show ?thesis using assms by (auto simp: pool_acceptResponse_def acceptResponse_def server_pooled_def)
next
  case (Inr c)
  let ?b = "noBuffers (length (c_channels c))"
  have b: "inUse ?b = []" by (simp add: noBuffers_def inUse_def)
  have l: "length bfs = length (s_heap s)" using assms(1) by (simp add: server_pooled_def)
  have "server_pooled net_ok A (acceptResponse env now a data ph s) (bfs @ [?b]) st"
    using assms(1) Inr ok_fresh [OF Inr assms(2)] b l
    by (auto simp: server_pooled_def acceptResponse_def Let_def nth_append less_Suc_eq)
  then show ?thesis using Inr l by (simp add: pool_acceptResponse_def acceptResponse_def Let_def)
qed

lemma handleHandshake_heap: "s_heap (handleHandshake env now a d rnd s) = s_heap s"
  by (simp add: handleHandshake_def writeTo_def Let_def split: sum.split prod.split option.split)

lemma handleHandshake_net: "net_ok (s_net s) st \<Longrightarrow> net_ok (s_net (handleHandshake env now a d rnd s)) st"
  using write_ok by (auto simp: handleHandshake_def writeTo_def Let_def split: sum.split prod.split option.split)

lemma pooled_processIncoming:
  assumes "server_pooled net_ok A s bfs st" "wf_server (env_comp env) s" "aeads_ok (env_crypto env)" "processIncoming env now pkt s = Inr s'"
  shows "\<exists>bfs' st'. pool_processIncoming env now pkt (s, bfs, st) = Some (s', bfs', st') \<and> server_pooled net_ok A s' bfs' st'"
proof -
  show ?thesis
  proof (cases "conns_get (s_conns s) (ip_addr pkt)")
    case (Some i)
    then show ?thesis using pooled_processConnData [OF assms(1) wf_serverD(5) [OF assms(2) Some]] assms(4)
      by (simp add: processIncoming_def pool_processIncoming_def)
  next
    case None
    note n = None
    show ?thesis
    proof (cases "pending_get (s_pending s) (ip_addr pkt)")
      case (Some ph)
      then show ?thesis using pooled_acceptResponse [OF assms(1,3)] assms(4) n
        by (simp add: processIncoming_def pool_processIncoming_def) metis
    next
      case None
      let ?t = "if sc_ConnectionMigration (s_config s) \<and> MigrationTokenSize \<le> length (ip_data pkt)
        then tokens_get (s_tokens s) (take MigrationTokenSize (ip_data pkt)) else None"
      show ?thesis
      proof (cases ?t)
        case (Some i)
        then have "i < length (s_heap s)" using wf_serverD(8) [OF assms(2)] by (auto simp: in_table_def split: if_splits)
        from pooled_tryMigration [OF assms(1) this] Some None n assms(4) show ?thesis
          unfolding processIncoming_def pool_processIncoming_def by simp
      next
        case none: None
        have "server_pooled net_ok A (handleHandshake env now a d rnd s) bfs st" for a d rnd
          using assms(1) handleHandshake_net by (simp add: server_pooled_def handleHandshake_heap)
        then show ?thesis using none None n assms(4) unfolding processIncoming_def pool_processIncoming_def by auto
      qed
    qed
  qed
qed

section \<open>Ticks and calls\<close>

lemma pooled_tickConnection:
  assumes "server_pooled net_ok A s bfs st" "i < length (s_heap s)" "sc_CoalesceIO (s_config s) = coalesce"
    and "server_tickConnection env now i s = Inr s'"
  shows "\<exists>bfs' st'. pool_server_tickConnection env slib psf now i (s, bfs, st) = Some (s', bfs', st') \<and> server_pooled net_ok A s' bfs' st'"
    "length (s_heap s') = length (s_heap s)" "s_config s' = s_config s"
proof -
  obtain c u es where t: "tickConnection (env_comp env) (serverParams (s_config s)) (server_sendFunc (env_net env) coalesce) now
      (s_heap s ! i, s_net s) = Inr ((c, u), es)" "s' = commit i (c, es) (s\<lparr>s_net := u\<rparr>)"
    using assms(3,4) by (auto simp: server_tickConnection_def split: sum.splits)
  obtain bf st' where r: "pool_tickConnection (env_comp env) slib (serverParams (s_config s)) psf now ((s_heap s ! i, s_net s), bfs ! i, st) =
      Some (es, (c, u), bf, st')" "pooled_ok net_ok ((c, u), bf, st') (others A i bfs)" "untouched st st' (others A i bfs)"
    using tickConnection_runs [OF focus [OF assms(1,2)] t(1), of slib] by (auto simp: runs_def)
  from unfocus [OF assms(1,2) r(2,3), of s'] r(1) t(2)
  show "\<exists>bfs' st'. pool_server_tickConnection env slib psf now i (s, bfs, st) = Some (s', bfs', st') \<and> server_pooled net_ok A s' bfs' st'"
    by (simp add: pool_server_tickConnection_def)
  show "length (s_heap s') = length (s_heap s)" "s_config s' = s_config s" by (simp_all add: t(2))
qed

lemma pooled_tickConnections:
  assumes "server_pooled net_ok A s bfs st" "\<forall>i \<in> set is. i < length (s_heap s)" "sc_CoalesceIO (s_config s) = coalesce"
    and "steps (server_tickConnection env now) is s = Inr s'"
  shows "\<exists>bfs' st'. psteps (pool_server_tickConnection env slib psf now) is (s, bfs, st) = Some (s', bfs', st') \<and>
    server_pooled net_ok A s' bfs' st'"
  using assms
proof (induction "is" arbitrary: s bfs st)
  case (Cons i "is")
  obtain s1 where s1: "server_tickConnection env now i s = Inr s1" "steps (server_tickConnection env now) is s1 = Inr s'"
    using Cons.prems(4) by (auto split: sum.splits)
  have i: "i < length (s_heap s)" using Cons.prems(2) by simp
  note p = pooled_tickConnection [OF Cons.prems(1) i Cons.prems(3) s1(1)]
  obtain bfs1 st1 where 1: "pool_server_tickConnection env slib psf now i (s, bfs, st) = Some (s1, bfs1, st1)"
    "server_pooled net_ok A s1 bfs1 st1" using p(1) by blast
  from Cons.IH [OF 1(2) _ _ s1(2)] p(2,3) Cons.prems(2,3) 1(1) show ?case by simp
qed simp

lemma processIncoming_config: "processIncoming env now pkt s = Inr s' \<Longrightarrow> s_config s' = s_config s"
proof -
  assume "processIncoming env now pkt s = Inr s'"
  moreover have "s_config (acceptResponse env now a d ph s) = s_config s" for a d ph
    by (simp add: acceptResponse_def Let_def split: sum.split)
  moreover have "s_config (moveConnection i a s) = s_config s" for i a and s :: "'u server"
    by (simp add: moveConnection_def Let_def)
  moreover have "s_config (handleHandshake env now a d r s) = s_config s" for a d r
    by (simp add: handleHandshake_def writeTo_def Let_def split: sum.split prod.split option.split)
  ultimately show ?thesis
    by (auto simp: processIncoming_def server_processConnData_def tryMigration_def Let_def
        split: option.splits if_splits sum.splits prod.splits list.splits)
qed

lemma pooled_incoming:
  assumes "pooled_inv net_ok A (env_comp env) coalesce s bfs st" "aeads_ok (env_crypto env)" "steps (processIncoming env now) pkts s = Inr s'"
  shows "\<exists>bfs' st'. psteps (pool_processIncoming env now) pkts (s, bfs, st) = Some (s', bfs', st') \<and> pooled_inv net_ok A (env_comp env) coalesce s' bfs' st'"
  using assms
proof (induction pkts arbitrary: s bfs st)
  case (Cons pkt pkts)
  obtain s1 where s1: "processIncoming env now pkt s = Inr s1" "steps (processIncoming env now) pkts s1 = Inr s'"
    using Cons.prems(3) by (auto split: sum.splits)
  have inv: "server_pooled net_ok A s bfs st" "wf_server (env_comp env) s" "sc_CoalesceIO (s_config s) = coalesce"
    using Cons.prems(1) by (simp_all add: pooled_inv_def)
  obtain bfs1 st1 where 1: "pool_processIncoming env now pkt (s, bfs, st) = Some (s1, bfs1, st1)" "server_pooled net_ok A s1 bfs1 st1"
    using pooled_processIncoming [OF inv(1,2) Cons.prems(2) s1(1)] by blast
  have "pooled_inv net_ok A (env_comp env) coalesce s1 bfs1 st1"
    using 1(2) processIncoming_wf [OF inv(2) s1(1)] processIncoming_config [OF s1(1)] inv(3) by (simp add: pooled_inv_def)
  from Cons.IH [OF this Cons.prems(2) s1(2)] 1(1) show ?case by simp
qed simp

lemma pooled_tick:
  assumes "pooled_inv net_ok A (env_comp env) coalesce s bfs st" "aeads_ok (env_crypto env)" "tick env now pkts s = Inr s'"
  shows "\<exists>bfs' st'. pool_tick env slib psf now pkts (s, bfs, st) = Some (s', bfs', st') \<and> pooled_inv net_ok A (env_comp env) coalesce s' bfs' st'"
proof -
  obtain s1 where s1: "steps (processIncoming env now) pkts s = Inr s1" using assms(3) by (auto simp: tick_def split: sum.splits)
  obtain bfs1 st1 where 1: "psteps (pool_processIncoming env now) pkts (s, bfs, st) = Some (s1, bfs1, st1)" "pooled_inv net_ok A (env_comp env) coalesce s1 bfs1 st1"
    using pooled_incoming [OF assms(1,2) s1] by blast
  then have inv: "server_pooled net_ok A s1 bfs1 st1" "wf_server (env_comp env) s1" "sc_CoalesceIO (s_config s1) = coalesce"
    by (simp_all add: pooled_inv_def)
  let ?is = "conns_forEach (\<lambda>i is. is @ [i]) (s_conns s1) []"
  obtain s2 where s2: "steps (server_tickConnection env now) ?is s1 = Inr s2"
    and s': "s' = s2\<lparr>s_pending := pending_cleanup (isExpired now (sc_HandshakeTimeout (s_config s2))) (s_pending s2),
       s_limiter := limiter_cleanup now (sc_HandshakeTimeout (s_config s2)) (s_limiter s2)\<rparr>"
    using assms(3) s1 by (auto simp: tick_def Let_def split: sum.splits)
  have "\<forall>i \<in> set ?is. i < length (s_heap s1)"
    using tickConns_handles [OF inv(2)] by (simp add: tickConns handles_def)
  from pooled_tickConnections [OF inv(1) this inv(3) s2]
  obtain bfs2 st2 where 2: "psteps (pool_server_tickConnection env slib psf now) ?is (s1, bfs1, st1) = Some (s2, bfs2, st2)"
    "server_pooled net_ok A s2 bfs2 st2" by blast
  have c: "sc_CoalesceIO (s_config s2) = coalesce"
    by (rule steps_invariant [of "\<lambda>s. sc_CoalesceIO (s_config s) = coalesce", OF _ inv(3) s2])
      (auto simp: server_tickConnection_def split: sum.splits)
  have "pool_tick env slib psf now pkts (s, bfs, st) = Some (s', bfs2, st2)" using 1(1) 2(1) s' by (simp add: pool_tick_def)
  moreover have "server_pooled net_ok A s' bfs2 st2" by (rule server_pooled_cong [OF 2(2)]) (simp_all add: s')
  ultimately show ?thesis
    using tick_wf(1) [of env s now pkts s'] assms(1,3) c by (simp add: pooled_inv_def s')
qed

lemma pooled_method:
  assumes "pooled_inv net_ok A (env_comp env) coalesce s bfs st" "onConnection Q i s = Inr s'" "implements net_ok P Q"
    and "\<And>c u c' u' err. live c \<Longrightarrow> c_state c \<noteq> StateConnecting \<Longrightarrow> Q (c, u) = ((c', u'), err) \<Longrightarrow> moved c c' []"
  shows "\<exists>bfs' st'. pool_onConnection P i (s, bfs, st) = Some (s', bfs', st') \<and> pooled_inv net_ok A (env_comp env) coalesce s' bfs' st'"
proof (cases "i < length (s_heap s)")
  case False
  then show ?thesis using assms(1,2) by (simp add: onConnection_def pool_onConnection_def)
next
  case True
  have inv: "server_pooled net_ok A s bfs st" "wf_server (env_comp env) s" "sc_CoalesceIO (s_config s) = coalesce"
    using assms(1) by (simp_all add: pooled_inv_def)
  obtain c u err where q: "Q (s_heap s ! i, s_net s) = ((c, u), err)" by (metis surj_pair)
  obtain bf' st' where r: "P ((s_heap s ! i, s_net s), bfs ! i, st) = Some (err, (c, u), bf', st')"
    "pooled_ok net_ok ((c, u), bf', st') (others A i bfs)" "untouched st st' (others A i bfs)"
    using implementsD [OF assms(3) focus [OF inv(1) True]] q by (auto simp: runs_def)
  let ?s = "s\<lparr>s_heap := (s_heap s)[i := c], s_net := u\<rparr>"
  have s': "s' = ?s" "\<not> isl (report err)"
    using assms(2) q True by (cases "report err"; simp add: onConnection_def)+
  have "wf_server (env_comp env) (s\<lparr>s_heap := (s_heap s)[i := c]\<rparr>)"
  proof (rule heap_moved_wf [OF inv(2)])
    assume t: "in_table s i"
    have "good_conn (s_features s) (s_heap s ! i)" using wf_serverD(7) [OF inv(2)] t by (auto simp: in_table_def)
    then show "moved (s_heap s ! i) c []" using assms(4) [OF _ _ q] by (auto simp: good_conn_def)
  qed
  then have "wf_server (env_comp env) ?s" by (simp only: wf_server_net)
  moreover have "server_pooled net_ok A ?s (bfs[i := bf']) st'" by (rule unfocus [OF inv(1) True r(2,3)]) simp_all
  ultimately show ?thesis using True r(1) s' inv(3) by (simp add: pool_onConnection_def pooled_inv_def)
qed

lemma Send_implements: "implements net_ok (pool_Send data ch) (conn_Send data ch)"
proof (rule implementsI)
  fix c u bf st L assume ok: "pooled_ok net_ok ((c, u), bf, st) L"
  have "same_packets c (fst (enqueueSend data ch c))" by (simp add: enqueueSend_def same_packets_def raws_def)
  from ok_conn [OF ok this] show "runs net_ok (pool_Send data ch ((c, u), bf, st)) st L (conn_Send data ch (c, u))"
    by (simp add: runs_def pool_Send_def conn_Send_def split_beta)
qed

lemma pooled_step:
  assumes "pooled_inv net_ok A (env_comp env) coalesce s bfs st" "aeads_ok (env_crypto env)" "server_do env coalesce bg op s = Inr s'"
  shows "\<exists>bfs' st'. pool_server_do env slib psf pbg op (s, bfs, st) = Some (s', bfs', st') \<and> pooled_inv net_ok A (env_comp env) coalesce s' bfs' st'"
proof (cases op)
  case (OpTick now pkts)
  then show ?thesis using pooled_tick [OF assms(1,2)] assms(3) by simp
next
  case (OpSend i data ch)
  then have "onConnection (conn_Send data ch) i s = Inr s'" using assms(3) by simp
  then have "\<exists>bfs' st'. pool_onConnection (pool_Send data ch) i (s, bfs, st) = Some (s', bfs', st') \<and> pooled_inv net_ok A (env_comp env) coalesce s' bfs' st'"
    by (rule pooled_method [OF assms(1) _ Send_implements]) (use conn_step_moved [OF conn_Send_step] in blast)
  then show ?thesis unfolding OpSend by simp
next
  case (OpSendImmediate i data ch now)
  then have "onConnection (SendImmediate (env_comp env) (Some (server_sendFunc (env_net env) coalesce)) data ch now) i s = Inr s'"
    using assms(3) by simp
  then have "\<exists>bfs' st'. pool_onConnection (pool_SendImmediate (env_comp env) slib psf data ch now) i (s, bfs, st) = Some (s', bfs', st') \<and>
      pooled_inv net_ok A (env_comp env) coalesce s' bfs' st'"
    by (rule pooled_method [OF assms(1) _ SendImmediate_implements]) (use conn_step_moved [OF conn_step.sent] in blast)
  then show ?thesis unfolding OpSendImmediate by simp
next
  case (OpClose i now)
  then have "onConnection (Close (Some (server_sendFunc (env_net env) coalesce)) now) i s = Inr s'" using assms(3) by simp
  then have "\<exists>bfs' st'. pool_onConnection (pool_Close psf now) i (s, bfs, st) = Some (s', bfs', st') \<and> pooled_inv net_ok A (env_comp env) coalesce s' bfs' st'"
    by (rule pooled_method [OF assms(1) _ Close_implements]) (use conn_step_moved [OF conn_step.closing] in blast)
  then show ?thesis unfolding OpClose by simp
next
  case OpWrite
  have inv: "server_pooled net_ok A s bfs st" using assms(1) by (simp add: pooled_inv_def)
  then have "own st (concat (map inUse bfs) @ map fst A)" "net_ok (s_net s) st" by (simp_all add: server_pooled_def)
  from bg_ok [OF this]
  obtain st' where b: "pbg (s_net s) st = (bg (s_net s), st')" "own st' (concat (map inUse bfs) @ map fst A)" "net_ok (bg (s_net s)) st'"
    "untouched st st' (concat (map inUse bfs) @ map fst A)" by blast
  have "matches (s_heap s ! i) (bfs ! i) st'" if i: "i < length (s_heap s)" for i
  proof (rule matches_unt)
    show "matches (s_heap s ! i) (bfs ! i) st" using inv i by (simp add: server_pooled_def)
    have "bfs ! i \<in> set bfs" using inv i by (simp add: server_pooled_def)
    then show "untouched st st' (inUse (bfs ! i))" using b(4) by (auto simp: untouched_def)
  qed
  moreover have "\<forall>(b, v) \<in> set A. sl_len b = DefaultMTU \<and> cap st' b = DefaultMTU \<and> content st' b = v"
    by (rule held_untouched [OF _ b(4)]) (use inv in \<open>simp_all add: server_pooled_def\<close>)
  ultimately have "server_pooled net_ok A (s\<lparr>s_net := bg (s_net s)\<rparr>) bfs st'" using inv b(2,3) by (simp add: server_pooled_def)
  then show ?thesis using OpWrite assms(1,3) b(1) by (auto simp: pooled_inv_def)
qed

lemma pooled_run:
  assumes "pooled_inv net_ok A (env_comp env) coalesce s bfs st" "aeads_ok (env_crypto env)" "steps (server_do env coalesce bg) ops s = Inr s'"
  shows "\<exists>bfs' st'. psteps (pool_server_do env slib psf pbg) ops (s, bfs, st) = Some (s', bfs', st') \<and>
    pooled_inv net_ok A (env_comp env) coalesce s' bfs' st'"
  using assms
proof (induction ops arbitrary: s bfs st)
  case (Cons op ops)
  obtain s1 where s1: "server_do env coalesce bg op s = Inr s1" "steps (server_do env coalesce bg) ops s1 = Inr s'"
    using Cons.prems(3) by (auto split: sum.splits)
  obtain bfs1 st1 where 1: "pool_server_do env slib psf pbg op (s, bfs, st) = Some (s1, bfs1, st1)"
    "pooled_inv net_ok A (env_comp env) coalesce s1 bfs1 st1" using pooled_step [OF Cons.prems(1,2) s1(1)] by blast
  from Cons.IH [OF 1(2) Cons.prems(2) s1(2)] 1(1) show ?case by simp
qed simp

subsection \<open>The buffers of the application\<close>

lemma pooled_store:
  assumes "pooled_inv net_ok A lib coalesce s bfs st" "same st st' (concat (map inUse bfs) @ map fst A0)" "set A0 \<subseteq> set A"
    and "own st' (concat (map inUse bfs) @ map fst B)"
    and "\<forall>(b, v) \<in> set B - set A0. sl_len b = DefaultMTU \<and> cap st' b = DefaultMTU \<and> content st' b = v"
  shows "pooled_inv net_ok B lib coalesce s bfs st'"
proof -
  have inv: "server_pooled net_ok A s bfs st" using assms(1) by (simp add: pooled_inv_def)
  have u: "untouched st st' (concat (map inUse bfs) @ map fst A0)" using assms(2) by (simp add: same_def untouched_def)
  have "net_ok (s_net s) st'"
    by (rule net_stable [of _ st]) (use inv assms(2) in \<open>simp_all add: server_pooled_def same_def\<close>)
  moreover have "matches (s_heap s ! i) (bfs ! i) st'" if "i < length (s_heap s)" for i
  proof (rule matches_unt)
    show "matches (s_heap s ! i) (bfs ! i) st" using inv that by (simp add: server_pooled_def)
    have "bfs ! i \<in> set bfs" using inv that by (simp add: server_pooled_def)
    then show "untouched st st' (inUse (bfs ! i))" using u by (auto simp: untouched_def)
  qed
  moreover have "\<forall>(b, v) \<in> set A0. sl_len b = DefaultMTU \<and> cap st' b = DefaultMTU \<and> content st' b = v"
    by (rule held_untouched [OF _ u]) (use inv assms(3) in \<open>auto simp: server_pooled_def\<close>)
  ultimately have "net_ok (s_net s) st'" "\<forall>i < length (s_heap s). matches (s_heap s ! i) (bfs ! i) st'"
    "\<forall>x \<in> set B. sl_len (fst x) = DefaultMTU \<and> cap st' (fst x) = DefaultMTU \<and> content st' (fst x) = snd x"
    using assms(5) by (auto simp: case_prod_beta)
  then have "server_pooled net_ok B s bfs st'"
    using inv assms(4) by (simp add: server_pooled_def case_prod_beta)
  then show ?thesis using assms(1) by (simp add: pooled_inv_def)
qed

lemma pooled_app:
  assumes inv: "pooled_inv net_ok A (env_comp env) coalesce s bfs st" and "aeads_ok (env_crypto env)"
    and step: "steps (server_do env coalesce bg) (server_ops [op]) s = Inr s'"
  shows "\<exists>bfs' st' A'. app_do env slib psf pbg op ((s, bfs, st), A) = Some ((s', bfs', st'), A') \<and>
    pooled_inv net_ok A' (env_comp env) coalesce s' bfs' st'"
proof -
  let ?L = "concat (map inUse bfs)"
  have o: "own st (?L @ map fst A)" and held: "\<forall>(b, v) \<in> set A. sl_len b = DefaultMTU \<and> cap st b = DefaultMTU \<and> content st b = v"
    using inv by (simp_all add: pooled_inv_def server_pooled_def)
  have split: "own st (fst (A ! k) # ?L @ map fst (take k A @ drop (Suc k) A))" "A ! k \<in> set A"
    "set (take k A @ drop (Suc k) A) \<subseteq> set A" if "k < length A" for k
  proof -
    have "mset (?L @ map fst A) = mset (fst (A ! k) # ?L @ map fst (take k A @ drop (Suc k) A))"
      using arg_cong [OF id_take_nth_drop [OF that], of "\<lambda>A. mset (map fst A)"] by simp
    then show "own st (fst (A ! k) # ?L @ map fst (take k A @ drop (Suc k) A))" using own_perm [OF o] by metis
    show "A ! k \<in> set A" "set (take k A @ drop (Suc k) A) \<subseteq> set A" using that set_take_subset set_drop_subset by (force, fastforce)
  qed
  show ?thesis
  proof (cases op)
    case (AppServer x)
    then have "server_do env coalesce bg x s = Inr s'" using step by (simp split: sum.splits)
    from pooled_step [OF inv assms(2) this] AppServer show ?thesis by fastforce
  next
    case AppGet
    obtain b st1 where g: "GetBuffer st = (b, st1)" by (metis surj_pair)
    note ow = GetBuffer_own [OF o g]
    have "mset (b # ?L @ map fst A) = mset (?L @ map fst (A @ [(b, content st1 b)]))" by simp
    then have "own st1 (?L @ map fst (A @ [(b, content st1 b)]))" using own_perm [OF ow(1)] by metis
    then have "pooled_inv net_ok (A @ [(b, content st1 b)]) (env_comp env) coalesce s bfs st1"
      by (rule pooled_store [OF inv ow(2) subset_refl]) (use ow(3,4) in auto)
    then show ?thesis using AppGet g step by simp
  next
    case (AppWrite k bs)
    show ?thesis
    proof (cases "k < length A \<and> length bs = sl_len (fst (A ! k))")
      case True
      let ?b = "fst (A ! k)" and ?R = "take k A @ drop (Suc k) A"
      note ow = overwrite_all [OF split(1) conjunct2 [OF True]]
      have "sl_len ?b = DefaultMTU" "cap st ?b = DefaultMTU" using held split(2) True by (auto simp: case_prod_beta)
      have "mset (?b # ?L @ map fst ?R) = mset (?L @ map fst (A[k := (?b, bs)]))" using True by (simp add: upd_conv_take_nth_drop)
      then have o1: "own (overwrite ?b bs st) (?L @ map fst (A[k := (?b, bs)]))" using own_perm [OF ow(1)] True by metis
      have "set (A[k := (?b, bs)]) - set ?R \<subseteq> {(?b, bs)}" using True by (auto simp: upd_conv_take_nth_drop)
      then have "pooled_inv net_ok (A[k := (?b, bs)]) (env_comp env) coalesce s bfs (overwrite ?b bs st)"
        by (intro pooled_store [OF inv ow(2) split(3) o1]) (use True ow(3,4) \<open>sl_len ?b = DefaultMTU\<close> \<open>cap st ?b = DefaultMTU\<close> in auto)
      then show ?thesis using AppWrite True step by simp
    qed (use AppWrite inv step in auto)
  next
    case (AppPut k)
    show ?thesis
    proof (cases "k < length A")
      case True
      have "sl_len (fst (A ! k)) = DefaultMTU" "cap st (fst (A ! k)) = DefaultMTU" using held split(2) [OF True] by (auto simp: case_prod_beta)
      note ow = PutBuffer_own [OF split(1) [OF True] this]
      have "pooled_inv net_ok (take k A @ drop (Suc k) A) (env_comp env) coalesce s bfs (PutBuffer (fst (A ! k)) st)"
        by (rule pooled_store [OF inv ow(2) split(3) [OF True] ow(1)]) auto
      then show ?thesis using AppPut True step by simp
    qed (use AppPut inv step in auto)
  qed
qed

lemma app_run:
  assumes "pooled_inv net_ok A (env_comp env) coalesce s bfs st" "aeads_ok (env_crypto env)"
    and "steps (server_do env coalesce bg) (server_ops ops) s = Inr s'"
  shows "\<exists>bfs' st' A'. psteps (app_do env slib psf pbg) ops ((s, bfs, st), A) = Some ((s', bfs', st'), A') \<and>
    pooled_inv net_ok A' (env_comp env) coalesce s' bfs' st'"
  using assms
proof (induction ops arbitrary: s bfs st A)
  case (Cons op ops)
  obtain s1 where s1: "steps (server_do env coalesce bg) (server_ops [op]) s = Inr s1" "steps (server_do env coalesce bg) (server_ops ops) s1 = Inr s'"
    using Cons.prems(3) by (cases op) (auto split: sum.splits)
  obtain bfs1 st1 A1 where 1: "app_do env slib psf pbg op ((s, bfs, st), A) = Some ((s1, bfs1, st1), A1)"
    "pooled_inv net_ok A1 (env_comp env) coalesce s1 bfs1 st1" using pooled_app [OF Cons.prems(1,2) s1(1)] by blast
  from Cons.IH [OF 1(2) Cons.prems(2) s1(2)] 1(1) show ?case by simp
qed simp

end

section \<open>Servers with and without coalescing\<close>

interpretation direct_server: pooled_server env False "pool_directSend (env_net env)" "\<lambda>_ _. True" id "\<lambda>u st. (u, st)" for env
  by unfold_locales simp_all

definition coalesced_env :: "('u \<Rightarrow> bytes \<Rightarrow> AddrPort \<Rightarrow> 'u \<times> bool) \<Rightarrow> 'u writer server_env \<Rightarrow> 'u writer server_env" where
  "coalesced_env WriteTo env = env\<lparr>env_net := coalesced_net WriteTo\<rparr>"

lemma coalesced_env [simp]:
  "env_net (coalesced_env WriteTo env) = coalesced_net WriteTo" "env_comp (coalesced_env WriteTo env) = env_comp env"
  "env_crypto (coalesced_env WriteTo env) = env_crypto env"
  by (simp_all add: coalesced_env_def)

interpretation coalesced_server:
  pooled_server "coalesced_env WriteTo env" True "pool_coalescedSend WriteTo" queue_ok "writeOne WriteTo" "pool_writeOne WriteTo" for WriteTo env
proof unfold_locales
  fix w :: "'a writer" and st st' :: store and L d a
  show "queue_ok w st" if "queue_ok w st'" "so_queue st = so_queue st'" "\<And>s. s \<in> set (so_queue st') \<Longrightarrow> content st s = content st' s"
    using coalesced.net_stable that by blast
  show "queue_ok (fst (udp_WriteTo (env_net (coalesced_env WriteTo env)) w d a)) st" if "queue_ok w st"
    using that by (simp add: coalesced_net_def queue_ok_def split_beta)
  show "\<exists>st'. pool_writeOne WriteTo w st = (writeOne WriteTo w, st') \<and> own st' L \<and> queue_ok (writeOne WriteTo w) st' \<and> untouched st st' L"
    if "own st L" "queue_ok w st"
  proof -
    obtain w' st' where "pool_writeOne WriteTo w st = (w', st')" by (metis surj_pair)
    with writeOne_ok [OF that this] show ?thesis by (auto simp: untouched_def)
  qed
qed (simp_all add: coalesced.psf_sends server_send.sf_counts server_send.sf_no_panic)

lemma newServer_pooled:
  assumes "pool_ok lib (sc_Compression config)" "net_ok u (newStore choices)" "sc_CoalesceIO config = coalesce"
  shows "pooled_inv net_ok [] lib coalesce (NewServer numCPU config u) [] (newStore choices)"
  using assms NewServer_wf [OF assms(1)]
  by (simp add: pooled_inv_def server_pooled_def own_def newStore_def NewServer_def Let_def serverDefaults_sel)

lemma pooled_typed:
  assumes "pooled_inv net_ok A lib coalesce s bfs st"
  shows "buffers_typed bfs st A"
proof -
  have inv: "server_pooled net_ok A s bfs st" using assms by (simp add: pooled_inv_def)
  then have o: "own st (concat (map inUse bfs) @ map fst A)" by (simp add: server_pooled_def)
  obtain b st' where g: "GetBuffer st = (b, st')" by (metis surj_pair)
  note ow = GetBuffer_own [OF o g]
  have "length (content st' b) = DefaultMTU" using ow(3,4) by (simp add: content_def cap_def)
  moreover have "\<forall>(b, v) \<in> set A. sl_len b = DefaultMTU \<and> content st b = v" using inv by (auto simp: server_pooled_def)
  ultimately show ?thesis using o g by (simp add: buffers_typed_def own_def)
qed

text \<open>What is released is in the pool.\<close>

lemma putAll_pool: "b \<in> set (so_pool st) \<Longrightarrow> b \<in> set (so_pool (pool_putAll bs st))"
  by (induction bs arbitrary: st) (simp_all add: pool_putAll_def pool_putSendBuffer_def)

lemma released_in_pool:
  "raw \<in> set bs \<Longrightarrow> cap st raw = DefaultMTU \<Longrightarrow> raw\<lparr>sl_len := DefaultMTU\<rparr> \<in> set (so_pool (pool_putAll bs st))"
proof (induction bs arbitrary: st)
  case (Cons b bs)
  show ?case
  proof (cases "raw = b")
    case True
    then show ?thesis using Cons.prems(2) putAll_pool [of _ "pool_putSendBuffer b st" bs]
      by (simp add: pool_putAll_def pool_putSendBuffer_def)
  next
    case False
    have "cap (pool_putSendBuffer b st) raw = DefaultMTU" using Cons.prems(2) by (simp add: pool_putSendBuffer_def cap_def)
    with Cons.IH [of "pool_putSendBuffer b st"] Cons.prems(1) False show ?thesis by (simp add: pool_putAll_def)
  qed
qed simp

section \<open>Properties\<close>

text \<open>C6. The buffer pool cannot be observed: whatever buffers \<open>sync.Pool\<close> hands out, every sequence of
  ticks, sends and closes on a server whose packets live in pooled buffers goes through the same
  states, datagrams and events as on the server whose packets are values, and no operation panics
  for lack of capacity.\<close>

theorem pooled_buffers_invisible:
  assumes "aeads_ok (env_crypto env)" "pool_ok (env_comp env) (sc_Compression config)" "\<not> sc_CoalesceIO config"
    and "steps (server_do env False id) ops (NewServer numCPU config u) = Inr s"
  shows "\<exists>bfs st. psteps (pool_server_do env slib (pool_directSend (env_net env)) (\<lambda>u st. (u, st))) ops
      (NewServer numCPU config u, [], newStore choices) = Some (s, bfs, st)"
proof -
  have "pooled_inv (\<lambda>_ _. True) [] (env_comp env) False (NewServer numCPU config u) [] (newStore choices)"
    by (rule newServer_pooled) (use assms in simp_all)
  from direct_server.pooled_run [OF this assms(1,4)] show ?thesis by blast
qed

text \<open>C7. With coalesced writes, at any time no array is in two places at once: in the pool, in
  the channel of the write loop, or with a connection as a packet to be acknowledged, in its batch or
  as its disconnect packet. Every packet that waits for an acknowledgement, in a batch or in the
  channel still has the bytes it had when it was put there.\<close>

theorem coalesced_buffers_exclusive:
  assumes "aeads_ok (env_crypto env)" "pool_ok (env_comp env) (sc_Compression config)" "sc_CoalesceIO config"
    and "steps (server_do (coalesced_env WriteTo env) True (writeOne WriteTo)) ops
      (NewServer numCPU config \<lparr>w_queue = [], w_socket = u\<rparr>) = Inr s"
  shows "\<exists>bfs st. psteps (pool_server_do (coalesced_env WriteTo env) slib (pool_coalescedSend WriteTo) (pool_writeOne WriteTo)) ops
      (NewServer numCPU config \<lparr>w_queue = [], w_socket = u\<rparr>, [], newStore choices) = Some (s, bfs, st) \<and>
    distinct (map sl_array (so_pool st @ so_queue st @ concat (map inUse bfs))) \<and>
    map (content st) (so_queue st) = map snd (w_queue (s_net s)) \<and>
    (\<forall>i < length (s_heap s). map (map (content st)) (bf_pending (bfs ! i)) =
        map (\<lambda>ch. map pp_raw (ch_pendingSend ch)) (c_channels (s_heap s ! i)) \<and>
      map (content st) (bf_batch (bfs ! i)) = c_batchBuf (s_heap s ! i))"
proof -
  have "pooled_inv queue_ok [] (env_comp env) True (NewServer numCPU config \<lparr>w_queue = [], w_socket = u\<rparr>) [] (newStore choices)"
    by (rule newServer_pooled) (use assms in \<open>simp_all add: queue_ok_def newStore_def\<close>)
  then obtain bfs st where r: "psteps (pool_server_do (coalesced_env WriteTo env) slib (pool_coalescedSend WriteTo) (pool_writeOne WriteTo)) ops
      (NewServer numCPU config \<lparr>w_queue = [], w_socket = u\<rparr>, [], newStore choices) = Some (s, bfs, st)"
    and inv: "server_pooled queue_ok [] s bfs st"
    using coalesced_server.pooled_run [OF _ _ assms(4)] assms(1) by (simp add: pooled_inv_def) blast
  have "own st (concat (map inUse bfs))" "queue_ok (s_net s) st" using inv by (simp_all add: server_pooled_def)
  moreover have "matches (s_heap s ! i) (bfs ! i) st" if "i < length (s_heap s)" for i using inv that by (simp add: server_pooled_def)
  ultimately show ?thesis using r unfolding own_def queue_ok_def matches_def raws_def by blast
qed

text \<open>C39. The contract of the exported pool, for an application that puts back only the buffers it has got,
  with their full length. In whatever order it gets, writes and puts back buffers while the
  server runs, with or without coalesced writes, the server does the same as without it and does
  not panic for lack of capacity; every buffer in the pool, and the next one that \<open>GetBuffer\<close> returns, has
  the length and the capacity of \<open>DefaultMTU\<close>; no array is in two places at once; and the buffers
  the application has hold what it has written.\<close>

theorem send_buffers_typed:
  assumes "aeads_ok (env_crypto env)" "pool_ok (env_comp env) (sc_Compression config)"
    and "env_crypto env' = env_crypto env" "env_comp env' = env_comp env" "w_queue w = []"
  shows "(\<not> sc_CoalesceIO config \<and> steps (server_do env False id) (server_ops ops) (NewServer numCPU config u) = Inr s \<longrightarrow>
      (\<exists>bfs st A. psteps (app_do env slib (pool_directSend (env_net env)) (\<lambda>u st. (u, st))) ops
          ((NewServer numCPU config u, [], newStore choices), []) = Some ((s, bfs, st), A) \<and> buffers_typed bfs st A)) \<and>
    (sc_CoalesceIO config \<and>
        steps (server_do (coalesced_env WriteTo env') True (writeOne WriteTo)) (server_ops ops) (NewServer numCPU config w) = Inr s' \<longrightarrow>
      (\<exists>bfs st A. psteps (app_do (coalesced_env WriteTo env') slib (pool_coalescedSend WriteTo) (pool_writeOne WriteTo)) ops
          ((NewServer numCPU config w, [], newStore choices), []) = Some ((s', bfs, st), A) \<and> buffers_typed bfs st A))"
proof (intro conjI impI; elim conjE)
  assume run: "\<not> sc_CoalesceIO config" "steps (server_do env False id) (server_ops ops) (NewServer numCPU config u) = Inr s"
  have "pooled_inv (\<lambda>_ _. True) [] (env_comp env) False (NewServer numCPU config u) [] (newStore choices)"
    by (rule newServer_pooled) (use assms run in simp_all)
  from direct_server.app_run [OF this assms(1) run(2)]
  show "\<exists>bfs st A. psteps (app_do env slib (pool_directSend (env_net env)) (\<lambda>u st. (u, st))) ops
      ((NewServer numCPU config u, [], newStore choices), []) = Some ((s, bfs, st), A) \<and> buffers_typed bfs st A"
    using pooled_typed by blast
next
  assume run: "sc_CoalesceIO config"
    "steps (server_do (coalesced_env WriteTo env') True (writeOne WriteTo)) (server_ops ops) (NewServer numCPU config w) = Inr s'"
  have "aeads_ok (env_crypto (coalesced_env WriteTo env'))" using assms(1,3) by simp
  moreover have "pooled_inv queue_ok [] (env_comp (coalesced_env WriteTo env')) True (NewServer numCPU config w) [] (newStore choices)"
    by (rule newServer_pooled) (use assms run in \<open>simp_all add: queue_ok_def newStore_def\<close>)
  ultimately show "\<exists>bfs st A. psteps (app_do (coalesced_env WriteTo env') slib (pool_coalescedSend WriteTo) (pool_writeOne WriteTo)) ops
      ((NewServer numCPU config w, [], newStore choices), []) = Some ((s', bfs, st), A) \<and> buffers_typed bfs st A"
    using coalesced_server.app_run [OF _ _ run(2)] pooled_typed by blast
qed

text \<open>\<open>PutBuffer\<close> accepts any slice. After an application has put one of less capacity than
  \<open>DefaultMTU\<close>, \<open>GetBuffer\<close> may return it with its own length, and a send that needs more bytes may
  panic.\<close>

theorem short_buffer_poisons_pool:
  assumes "cap st buf < n" "n \<le> DefaultMTU"
  shows "\<exists>i. \<forall>cs. fst (GetBuffer ((PutBuffer buf st)\<lparr>so_choices := i # cs\<rparr>)) = buf \<and>
    pool_getSendBuffer n ((PutBuffer buf st)\<lparr>so_choices := i # cs\<rparr>) = None"
proof (intro exI [of _ "length (so_pool st)"] allI)
  fix cs
  let ?st = "(PutBuffer buf st)\<lparr>so_choices := length (so_pool st) # cs\<rparr>"
  have g: "pool_Get ?st = (buf, ?st\<lparr>so_choices := cs, so_pool := so_pool st\<rparr>)"
    by (simp add: pool_Get_def PutBuffer_def nth_append)
  then show "fst (GetBuffer ?st) = buf \<and> pool_getSendBuffer n ?st = None"
    using assms by (simp add: GetBuffer_def pool_getSendBuffer_def reslice_def cap_def PutBuffer_def)
qed

text \<open>C16. \<open>Client.Close\<close> releases the pending packets of its connection while the tick may be about to
  resend one: if another connection takes the buffer meanwhile and writes a packet into it, the
  tick encrypts and sends that packet to the server of the closed connection.\<close>

theorem close_races_retransmit:
  assumes "pooled_ok (\<lambda>_ _. True) ((c, u), bf, st) []" "raw \<in> set (concat (bf_pending bf))" "cap st raw = DefaultMTU"
    and "pool_teardown (c, bf, st) = (c1, bf1, st1)" "length other = sl_len raw"
  shows "\<exists>i. \<forall>cs. \<exists>b st2 bf3 st3. pool_getSendBuffer (sl_len raw) (st1\<lparr>so_choices := i # cs\<rparr>) = Some (b, st2) \<and>
    pool_retransmitPackets (pool_clientSend Write) now [raw] ((c1, u), bf1, overwrite b other st2) =
      Some ((), retransmitPackets (client_sendFunc Write) now [p\<lparr>pp_raw := other\<rparr>] (c1, u), bf3, st3)"
proof -
  have o: "own st (inUse bf)" using assms(1) by (simp add: pooled_ok_def)
  define full where "full = raw\<lparr>sl_len := DefaultMTU\<rparr>"
  have le: "sl_len raw \<le> DefaultMTU" using own_mem [OF o, of raw] assms(2,3) by (auto simp: inUse_def)
  obtain bs bf' where "pool_releasePendingBuffers (c, bf, st) = (conn_releasePendingBuffers c, bf', pool_putAll bs st)" "mset bs = mset (inUse bf)"
    using pool_releasePendingBuffers_eq by blast
  then have "raw \<in> set bs" "st1 = pool_putAll bs st"
    using assms(2,4) mset_eq_setD [of bs "inUse bf"] by (auto simp: pool_teardown_def inUse_def)
  then have "full \<in> set (so_pool st1)" using released_in_pool assms(3) by (simp add: full_def)
  then obtain i where i: "i < length (so_pool st1)" "so_pool st1 ! i = full" by (auto simp: in_set_conv_nth)
  have ok1: "pooled_ok (\<lambda>_ _. True) ((c1, u), bf1, st1) []"
    using client_net.ok_teardown [OF assms(1)] assms(4) by (metis prod.inject)
  have "\<exists>b st2 bf3 st3. pool_getSendBuffer (sl_len raw) (st1\<lparr>so_choices := i # cs\<rparr>) = Some (b, st2) \<and>
    pool_retransmitPackets (pool_clientSend Write) now [raw] ((c1, u), bf1, overwrite b other st2) =
      Some ((), retransmitPackets (client_sendFunc Write) now [p\<lparr>pp_raw := other\<rparr>] (c1, u), bf3, st3)" for cs
  proof -
    let ?st = "st1\<lparr>so_choices := i # cs\<rparr>"
    have ok: "pooled_ok (\<lambda>_ _. True) ((c1, u), bf1, ?st) []"
      using ok1 by (simp add: pooled_ok_def matches_def own_def cap_def content_def cong: map_cong option.map_cong)
    obtain b st2 where g: "pool_getSendBuffer (sl_len raw) ?st = Some (b, st2)" "pooled_ok (\<lambda>_ _. True) ((c1, u), bf1, st2) [b]"
      "sl_len b = sl_len raw" "sl_len raw \<le> cap st2 b" by (rule client_net.ok_get [OF ok])
    have b: "b = raw"
      using g(1) i le by (auto simp: pool_getSendBuffer_def pool_Get_def reslice_def full_def split: if_splits)
    have "b\<lparr>sl_len := length other\<rparr> = b" using g(3) assms(5) by simp
    then have ov: "pooled_ok (\<lambda>_ _. True) ((c1, u), bf1, overwrite b other st2) [b]" "content (overwrite b other st2) b = other"
      using client_net.ok_overwrite [OF g(2), of other] assms(5) g(4) by metis+
    have "runs (\<lambda>_ _. True) (pool_retransmitPackets (pool_clientSend Write) now [raw] ((c1, u), bf1, overwrite b other st2))
        (overwrite b other st2) [b] (retransmitPackets (client_sendFunc Write) now [p\<lparr>pp_raw := other\<rparr>] (c1, u), ())"
      by (rule client_net.retransmitPackets_runs [OF ov(1)]) (use b ov(2) in simp_all)
    then show ?thesis using g(1) by (auto simp: runs_def)
  qed
  then show ?thesis by blast
qed

section \<open>Witnesses\<close>

definition demo_scratch :: scratch_lib where
  "demo_scratch = \<lparr>CompressBlockBound = (\<lambda>n. n), compressor_writes = (\<lambda>d. d)\<rparr>"

lemma quiet_tick:
  assumes "wf_server (env_comp env) s"
  shows "\<exists>s'. tick env now [] s = Inr s'"
  using server_ticks_wf [OF assms, of "concat (map (map snd) (s_conns s))" env now] tickConns_handles [OF assms]
  by (auto simp: tick_def tickConns Let_def)

lemma tick_keeps_heap:
  assumes "tick env now [] s = Inr s'" "s_heap s \<noteq> []"
  shows "s_heap s' \<noteq> []"
proof -
  obtain s1 where "steps (server_tickConnection env now) (conns_forEach (\<lambda>i is. is @ [i]) (s_conns s) []) s = Inr s1" "s_heap s' = s_heap s1"
    using assms(1) by (auto simp: tick_def Let_def split: sum.splits)
  moreover have "s_heap s1 \<noteq> []" if "steps (server_tickConnection env now) is s = Inr s1" for "is"
    by (rule steps_invariant [of "\<lambda>s. s_heap s \<noteq> []", OF _ assms(2) that])
      (auto simp: server_tickConnection_def split: sum.splits)
  ultimately show ?thesis by simp
qed

text \<open>A client connects, the application sends it a message, and the server ticks.\<close>

definition demo_ops :: "bytes \<Rightarrow> bytes \<Rightarrow> server_op list" where
  "demo_ops req resp =
     [OpTick 1 [from_client toy_addr demo_rnd req, from_client toy_addr demo_rnd resp], OpSend 0 [1, 2, 3] 0, OpTick 2 []]"

lemma demo_pooled:
  obtains req resp s where "steps (server_do demo_senv False id) (demo_ops req resp) demo_server = Inr s" "s_heap s \<noteq> []"
proof -
  obtain cl req s1 resp s2 where h: "processIncoming demo_senv 1 (from_client toy_addr demo_rnd req) demo_server = Inr s1"
    "processIncoming demo_senv 1 (from_client toy_addr demo_rnd resp) s1 = Inr s2" "established (2 ^ 32 - 1) toy_comp demo_pool toy_addr 0 cl s2"
    using connects [OF toy_ecdh toy_aeads demo_lengths(2) demo_lengths(1) [of 5] demo_lengths(1) [of 6] demo_lengths(3,4)
      demo_keys(1) demo_keys(2) demo_keys(2) demo_config(3) demo_envs(1-3) demo_admits(1) demo_envs(4-6) demo_admits(2)
      demo_compatible(1), where ?t2.0 = 2 and ?t3.0 = 1 and rnd = demo_rnd and ?t1.0 = 1, folded demo_rnd_def]
    unfolding demo_config append_Nil list.size(3) by blast
  have wf0: "wf_server (env_comp demo_senv) demo_server"
    unfolding demo_server_def by (rule NewServer_wf) (simp add: DefaultServerConfig_def pool_ok_empty)
  have wf2: "wf_server (env_comp demo_senv) s2" by (rule processIncoming_wf [OF processIncoming_wf [OF wf0 h(1)] h(2)])
  obtain s3 where s3: "tick demo_senv 1 [] s2 = Inr s3" using quiet_tick [OF wf2] by blast
  have wf3: "wf_server (env_comp demo_senv) s3" using tick_wf(1) [OF wf2 s3] by simp
  have h3: "s_heap s3 \<noteq> []" using tick_keeps_heap [OF s3] h(3) by (auto simp: established_def)
  let ?c = "fst (enqueueSend [1, 2, 3] 0 (s_heap s3 ! 0))"
  let ?s = "s3\<lparr>s_heap := (s_heap s3)[0 := ?c]\<rparr>"
  have "onConnection (conn_Send [1, 2, 3] 0) 0 s3 = Inr ?s"
    using h3 by (simp add: onConnection_def conn_Send_def enqueueSend_def report_def is_panic_def)
  moreover have "wf_server (env_comp demo_senv) ?s"
    by (rule heap_update_wf [OF wf3]) (simp_all add: enqueueSend_def keeps_def live_def)
  then obtain s4 where "tick demo_senv 2 [] ?s = Inr s4" using quiet_tick by blast
  moreover have "s_heap s4 \<noteq> []" if "tick demo_senv 2 [] ?s = Inr s4" using tick_keeps_heap [OF that] h3 by simp
  moreover have "tick demo_senv 1 [from_client toy_addr demo_rnd req, from_client toy_addr demo_rnd resp] demo_server = Inr s3"
    using tick_split [of demo_senv 1 "[from_client toy_addr demo_rnd req, from_client toy_addr demo_rnd resp]" demo_server s2] h s3 by simp
  ultimately have "steps (server_do demo_senv False id) (demo_ops req resp) demo_server = Inr s4" "s_heap s4 \<noteq> []"
    by (simp_all add: demo_ops_def)
  then show thesis by (rule that)
qed

lemma demo_direct:
  "aeads_ok (env_crypto demo_senv)" "pool_ok (env_comp demo_senv) (sc_Compression (DefaultServerConfig\<lparr>sc_SendBatching := True, sc_ConnectionMigration := True\<rparr>))"
  "\<not> sc_CoalesceIO (DefaultServerConfig\<lparr>sc_SendBatching := True, sc_ConnectionMigration := True\<rparr>)"
  using toy_aeads by (simp_all add: demo_envs DefaultServerConfig_def pool_ok_empty)

theorem pooled_buffers_invisible_witness:
  "\<exists>req resp s bfs st. s_heap s \<noteq> [] \<and>
    psteps (pool_server_do demo_senv demo_scratch (pool_directSend (env_net demo_senv)) (\<lambda>u st. (u, st))) (demo_ops req resp)
      (demo_server, [], newStore [0, 0, 3, 0]) = Some (s, bfs, st)"
proof -
  obtain req resp s where s: "steps (server_do demo_senv False id) (demo_ops req resp) demo_server = Inr s" "s_heap s \<noteq> []"
    by (rule demo_pooled)
  from pooled_buffers_invisible [OF demo_direct s(1) [unfolded demo_server_def], folded demo_server_def, of demo_scratch "[0, 0, 3, 0]"] s(2)
  show ?thesis by blast
qed

text \<open>The application holds a buffer through the handshake and the tick, and writes to it in between.\<close>

definition demo_app :: "bytes \<Rightarrow> bytes \<Rightarrow> app_op list" where
  "demo_app req resp =
     (case demo_ops req resp of a # ops \<Rightarrow>
        [AppGet, AppGet, AppServer a, AppWrite 0 (replicate 1200 9), AppPut 1] @ map AppServer ops)"

lemma demo_app_ops: "server_ops (demo_app req resp) = demo_ops req resp"
  by (simp add: demo_app_def demo_ops_def)

definition quiet_base :: "(AddrPort \<times> bytes) list writer server_env" where
  "quiet_base = \<lparr>env_crypto = toy_lib, env_comp = toy_comp, env_appVersion = 1, env_net = coalesced_net record_socket\<rparr>"

definition quiet_env :: "(AddrPort \<times> bytes) list writer server_env" where
  "quiet_env = coalesced_env record_socket quiet_base"

theorem send_buffers_typed_witness:
  "\<exists>req resp s bfs st A. s_heap s \<noteq> [] \<and>
    psteps (app_do demo_senv demo_scratch (pool_directSend (env_net demo_senv)) (\<lambda>u st. (u, st))) (demo_app req resp)
      ((demo_server, [], newStore [0, 0, 3, 0]), []) = Some ((s, bfs, st), A) \<and> buffers_typed bfs st A"
proof -
  obtain req resp s where s: "steps (server_do demo_senv False id) (demo_ops req resp) demo_server = Inr s" "s_heap s \<noteq> []"
    by (rule demo_pooled)
  have r: "steps (server_do demo_senv False id) (server_ops (demo_app req resp)) demo_server = Inr s" using s(1) by (simp only: demo_app_ops)
  have q: "env_crypto quiet_base = env_crypto demo_senv" "env_comp quiet_base = env_comp demo_senv" by (simp_all add: quiet_base_def demo_envs)
  have w: "w_queue \<lparr>w_queue = [], w_socket = [] :: (AddrPort \<times> bytes) list\<rparr> = []" by simp
  note typed = send_buffers_typed [OF demo_direct(1,2) q w, THEN conjunct1, THEN mp, OF conjI, OF demo_direct(3) r [unfolded demo_server_def],
      folded demo_server_def]
  from typed [of demo_scratch "[0, 0, 3, 0]"] s(2) show ?thesis by blast
qed

theorem coalesced_buffers_exclusive_witness:
  "\<exists>s bfs st. psteps (pool_server_do quiet_env demo_scratch (pool_coalescedSend record_socket) (pool_writeOne record_socket))
      [OpTick 0 toy_datagrams, OpTick 7 toy_datagrams, OpWrite]
      (NewServer 4 (DefaultServerConfig\<lparr>sc_CoalesceIO := True\<rparr>) \<lparr>w_queue = [], w_socket = []\<rparr>, [], newStore [1, 0]) = Some (s, bfs, st) \<and>
    distinct (map sl_array (so_pool st @ so_queue st @ concat (map inUse bfs)))"
proof -
  let ?config = "DefaultServerConfig\<lparr>sc_CoalesceIO := True\<rparr>"
  let ?s = "NewServer 4 ?config \<lparr>w_queue = [], w_socket = []\<rparr> :: (AddrPort \<times> bytes) list writer server"
  have ok: "aeads_ok (env_crypto quiet_base)" "pool_ok (env_comp quiet_base) (sc_Compression ?config)" "sc_CoalesceIO ?config"
    using toy_aeads pool_ok_empty by (simp_all add: quiet_base_def DefaultServerConfig_def)
  have "wf_server (env_comp quiet_env) ?s" using NewServer_wf [OF ok(2)] by (simp add: quiet_env_def)
  note total = server_run_wf(2) [OF this, of "[(0, toy_datagrams), (7, toy_datagrams)]"]
  have "\<not> batching (s_features ?s)"
    by (simp add: NewServer_def Let_def serverDefaults_def DefaultServerConfig_def featuresFromConfig_def batching_def)
  from total [OF this] obtain s1 s where "tick quiet_env 0 toy_datagrams ?s = Inr s1" "tick quiet_env 7 toy_datagrams s1 = Inr s"
    by (auto simp: server_run_def split: sum.splits)
  then have "steps (server_do quiet_env True (writeOne record_socket)) [OpTick 0 toy_datagrams, OpTick 7 toy_datagrams, OpWrite] ?s =
      Inr (s\<lparr>s_net := writeOne record_socket (s_net s)\<rparr>)"
    by simp
  from coalesced_buffers_exclusive [where env = quiet_base and WriteTo = record_socket and slib = demo_scratch and choices = "[1, 0]",
      folded quiet_env_def, OF ok this]
  show ?thesis by (elim exE conjE) (intro exI conjI; assumption)
qed

theorem short_buffer_poisons_pool_witness:
  "\<exists>i. fst (GetBuffer ((PutBuffer \<lparr>sl_array = 0, sl_len = 10\<rparr> ((newStore [])\<lparr>so_arrays := [replicate 10 0]\<rparr>))\<lparr>so_choices := [i]\<rparr>)) =
      \<lparr>sl_array = 0, sl_len = 10\<rparr> \<and>
    pool_getSendBuffer 100 ((PutBuffer \<lparr>sl_array = 0, sl_len = 10\<rparr> ((newStore [])\<lparr>so_arrays := [replicate 10 0]\<rparr>))\<lparr>so_choices := [i]\<rparr>) = None"
  using short_buffer_poisons_pool [of "(newStore [])\<lparr>so_arrays := [replicate 10 0]\<rparr>" "\<lparr>sl_array = 0, sl_len = 10\<rparr>" 100]
  by (simp add: cap_def DefaultMTU_def) blast

text \<open>A connection with one packet that waits for its acknowledgement.\<close>

definition demo_pending :: pendingPacket where
  "demo_pending = \<lparr>pp_raw = [1, 2, 3], pp_sendTime = 0, pp_retransmitCount = 0, pp_nextRetransmit = 1, pp_firstTransmit = True, pp_sequence = 1\<rparr>"

definition demo_sender :: connection where
  "demo_sender = setChannel 0 ((c_channels demo_conn ! 0)\<lparr>ch_pendingSend := [demo_pending]\<rparr>) demo_conn"

definition demo_store :: store where
  "demo_store = (newStore [])\<lparr>so_arrays := [[1, 2, 3] @ replicate 1197 0]\<rparr>"

definition demo_buffers :: buffers where
  "demo_buffers = \<lparr>bf_pending = (map (\<lambda>_. []) (c_channels demo_conn))[0 := [\<lparr>sl_array = 0, sl_len = 3\<rparr>]], bf_batch = [], bf_disconnect = None\<rparr>"

lemma demo_sender_ok: "pooled_ok (\<lambda>_ _. True) ((demo_sender, u), demo_buffers, demo_store) []"
proof -
  obtain ch chs where ch: "c_channels demo_conn = ch # chs" and chs: "\<forall>ch \<in> set chs. ch_pendingSend ch = []"
    by (auto simp: demo_conn_def newConnection_def Let_def newChannels_def DefaultChannelLayout_def newChannel_def)
  have "sealed_ok demo_sender"
    by (simp add: sealed_ok_def demo_sender_def setChannel_def demo_conn_def newConnection_def Let_def toy_state_def toy_aead_ok)
  moreover have "c_batchBuf demo_sender = []" "c_disconnectPacket demo_sender = None"
    by (simp_all add: demo_sender_def setChannel_def demo_conn_def newConnection_def Let_def)
  moreover have nil: "concat (map (\<lambda>_. []) chs) = ([] :: slice list)" by simp
  ultimately show ?thesis
    using chs by (simp add: nil pooled_ok_def matches_def raws_def own_def demo_buffers_def demo_store_def newStore_def inUse_def
        cap_def content_def ch demo_pending_def) (simp add: demo_sender_def setChannel_def ch demo_pending_def)
qed

theorem close_races_retransmit_witness:
  "\<exists>c1 bf1 st1 i b st2 bf3 st3. pool_teardown (demo_sender, demo_buffers, demo_store) = (c1, bf1, st1) \<and>
    pool_getSendBuffer 3 (st1\<lparr>so_choices := [i]\<rparr>) = Some (b, st2) \<and>
    pool_retransmitPackets (pool_clientSend record_write) 5 [\<lparr>sl_array = 0, sl_len = 3\<rparr>] ((c1, []), bf1, overwrite b [7, 8, 9] st2) =
      Some ((), retransmitPackets (client_sendFunc record_write) 5 [demo_pending\<lparr>pp_raw := [7, 8, 9]\<rparr>] (c1, []), bf3, st3)"
proof -
  obtain c1 bf1 st1 where t: "pool_teardown (demo_sender, demo_buffers, demo_store) = (c1, bf1, st1)" by (metis surj_pair)
  let ?raw = "\<lparr>sl_array = 0, sl_len = 3\<rparr> :: slice"
  have "?raw \<in> set (concat (bf_pending demo_buffers))" "cap demo_store ?raw = DefaultMTU" "length [7, 8, 9 :: byte] = sl_len ?raw"
    by (simp_all add: demo_buffers_def demo_conn_def newConnection_def Let_def newChannels_def DefaultChannelLayout_def cap_def
        demo_store_def newStore_def DefaultMTU_def)
  from close_races_retransmit [OF demo_sender_ok this(1,2) t this(3), where Write = record_write and now = 5 and p = demo_pending] t
  show ?thesis by simp blast
qed

end
