(* ===== verification/ServerLife.thy ===== *)
theory ServerLife
  imports PooledServer
begin

text \<open>
  The life of the server's connections (\<open>server.go\<close>), over everything that happens to them: datagrams, from
  their address or after a migration from another one, ticks, the calls of the application, and
  \<open>Stop\<close>. The tables may hold a connection that \<open>Stop\<close> has ended, so the invariant here is about the
  heap of connections and not about the tables.
\<close>

section \<open>Definitions\<close>

text \<open>The calls that reach the server from outside.\<close>

datatype life_op = Call server_op | CallStart | CallStop

fun life_do :: "'u server_env \<Rightarrow> bool \<Rightarrow> ('u \<Rightarrow> 'u) \<Rightarrow> life_op \<Rightarrow> 'u server \<Rightarrow> 'u server res" where
  "life_do env coalesce bg (Call op) s = server_do env coalesce bg op s"
| "life_do env coalesce bg CallStart s = Inr (fst (Start s))"
| "life_do env coalesce bg CallStop s = Inr (fst (Stop s))"

text \<open>The same connection, perhaps at another address.\<close>

definition same_session :: "connection \<Rightarrow> connection \<Rightarrow> bool" where
  "same_session c c' \<longleftrightarrow> same_identity c (c'\<lparr>c_remoteAddr := c_remoteAddr c\<rparr>)"

text \<open>What may become of a connection, with the callbacks about it.\<close>

definition aged :: "connection \<Rightarrow> connection \<Rightarrow> effect list \<Rightarrow> bool" where
  "aged c c' es \<longleftrightarrow> same_session c c' \<and> state_move (c_state c) (c_state c') \<and>
     (c_state c' = StateDisconnected \<longleftrightarrow> c_state c = StateDisconnected \<or> (\<exists>r. OnDisconnect r \<in> set es))"

definition events_of :: "nat \<Rightarrow> (nat \<times> effect) list \<Rightarrow> effect list" where
  "events_of j evs = map snd (filter (\<lambda>x. fst x = j) evs)"

definition ages :: "'u server \<Rightarrow> 'u server \<Rightarrow> bool" where
  "ages s s' \<longleftrightarrow> (\<exists>evs. s_events s' = s_events s @ evs \<and> length (s_heap s) \<le> length (s_heap s') \<and>
     (\<forall>j < length (s_heap s). aged (s_heap s ! j) (s_heap s' ! j) (events_of j evs)))"

text \<open>Every connection can be used or is disconnected, and so will be those of the pending handshakes.\<close>

definition usable :: "connection \<Rightarrow> bool" where
  "usable c \<longleftrightarrow> (live c \<or> c_state c = StateDisconnected) \<and> c_state c \<noteq> StateConnecting"

definition cells_ok :: "comp_lib \<Rightarrow> 'u server \<Rightarrow> bool" where
  "cells_ok lib s \<longleftrightarrow> (\<forall>c \<in> set (s_heap s). usable c) \<and> pool_ok lib (sc_Compression (s_config s)) \<and>
     (\<forall>(a, ph) \<in> set (pt_pending (s_pending s)). pool_ok lib (ph_compressionConfig ph)) \<and> wf_map (pt_pending (s_pending s))"

text \<open>The tables follow the connections, as long as \<open>Stop\<close> is not called.\<close>

definition tracked :: "comp_lib \<Rightarrow> 'u server \<Rightarrow> bool" where
  "tracked lib s \<longleftrightarrow> wf_server lib s \<and> (\<forall>j < length (s_heap s). handles s j)"

section \<open>One connection\<close>

lemma events_of_append [simp]: "events_of j (es @ es') = events_of j es @ events_of j es'"
  by (simp add: events_of_def)

lemma events_of_nil [simp]: "events_of j [] = []"
  by (simp add: events_of_def)

lemma events_of_pair [simp]: "events_of j (map (Pair i) es) = (if i = j then es else [])"
  by (simp add: events_of_def filter_map comp_def)

lemma aged_refl [simp]: "aged c c []"
  by (simp add: aged_def same_session_def same_identity_def)

lemma aged_trans: "aged a b es \<Longrightarrow> aged b c es' \<Longrightarrow> aged a c (es @ es')"
  by (auto simp: aged_def same_session_def same_identity_def keeps_def closed_def intro: state_move_trans)

lemma moved_aged: "moved c c' es \<Longrightarrow> aged c c' (filter (\<lambda>e. e \<noteq> RemoveConnection) es)"
  by (cases "c_state c"; cases "c_state c'")
    (auto simp: aged_def moved_def same_session_def same_identity_def keeps_def closed_def)

lemma moved_usable: "usable c \<Longrightarrow> moved c c' es \<Longrightarrow> usable c'"
  by (cases "c_state c"; cases "c_state c'") (auto simp: usable_def moved_def)

section \<open>All connections\<close>

lemma ages_refl [simp]: "ages s s"
  by (simp add: ages_def)

lemma ages_trans:
  assumes "ages s s1" "ages s1 s2"
  shows "ages s s2"
proof -
  obtain e1 e2 where e: "s_events s1 = s_events s @ e1" "s_events s2 = s_events s1 @ e2"
    "length (s_heap s) \<le> length (s_heap s1)" "length (s_heap s1) \<le> length (s_heap s2)"
    "\<forall>j < length (s_heap s). aged (s_heap s ! j) (s_heap s1 ! j) (events_of j e1)"
    "\<forall>j < length (s_heap s1). aged (s_heap s1 ! j) (s_heap s2 ! j) (events_of j e2)"
    using assms unfolding ages_def by blast
  then have "aged (s_heap s ! j) (s_heap s2 ! j) (events_of j (e1 @ e2))" if "j < length (s_heap s)" for j
    using that aged_trans by fastforce
  then show ?thesis using e(1-4) unfolding ages_def by (intro exI [of _ "e1 @ e2"]) simp
qed

text \<open>A step that replaces one connection.\<close>

definition lives :: "comp_lib \<Rightarrow> 'u server \<Rightarrow> 'u server \<Rightarrow> bool" where
  "lives lib s s' \<longleftrightarrow> (cells_ok lib s \<longrightarrow> cells_ok lib s' \<and> ages s s')"

lemma lives_refl [simp]: "lives lib s s"
  by (simp add: lives_def)

lemma lives_trans: "lives lib s s1 \<Longrightarrow> lives lib s1 s2 \<Longrightarrow> lives lib s s2"
  unfolding lives_def using ages_trans by blast

lemma lives_steps:
  assumes "\<And>x s s'. f x s = Inr s' \<Longrightarrow> lives lib s s'"
  shows "steps f xs s = Inr s' \<Longrightarrow> lives lib s s'"
proof (induction xs arbitrary: s)
  case (Cons x xs)
  then show ?case by (auto split: sum.splits intro: lives_trans [OF assms])
qed (simp add: lives_def)

lemma lives_cell:
  assumes "i < length (s_heap s) \<Longrightarrow> usable (s_heap s ! i) \<Longrightarrow> usable c \<and> aged (s_heap s ! i) c es"
    and "s_heap s' = (s_heap s)[i := c]" "s_events s' = s_events s @ map (Pair i) es"
    and "s_config s' = s_config s" "s_pending s' = s_pending s"
  shows "lives lib s s'"
  unfolding lives_def
proof (intro impI conjI)
  assume ok: "cells_ok lib s"
  then have c: "i < length (s_heap s) \<Longrightarrow> usable c \<and> aged (s_heap s ! i) c es" using assms(1) by (simp add: cells_ok_def)
  have "usable x" if "x \<in> set ((s_heap s)[i := c])" for x
    using that c ok by (cases "i < length (s_heap s)") (auto simp: cells_ok_def list_update_beyond dest: set_update_subset_insert [THEN subsetD])
  then show "cells_ok lib s'" using ok assms(2,4,5) by (simp add: cells_ok_def)
  have "aged (s_heap s ! j) (s_heap s' ! j) (events_of j (map (Pair i) es))" if "j < length (s_heap s)" for j
    using that c assms(2) by (cases "i = j") simp_all
  then show "ages s s'" using assms(2,3) unfolding ages_def by (intro exI [of _ "map (Pair i) es"]) simp
qed

lemma lives_commit:
  assumes "i < length (s_heap s) \<Longrightarrow> usable (s_heap s ! i) \<Longrightarrow> moved (s_heap s ! i) c es"
  shows "lives lib s (commit i (c, es) s)"
  by (rule lives_cell [of i s c "filter (\<lambda>e. e \<noteq> RemoveConnection) es"])
    (use assms moved_aged moved_usable in \<open>auto simp: commit_eq Let_def\<close>)

lemma lives_frame:
  assumes "s_heap s' = s_heap s" "s_events s' = s_events s" "s_config s' = s_config s"
    and "\<And>a ph. cells_ok lib s \<Longrightarrow> (a, ph) \<in> set (pt_pending (s_pending s')) \<Longrightarrow> pool_ok lib (ph_compressionConfig ph)"
    and "wf_map (pt_pending (s_pending s)) \<Longrightarrow> wf_map (pt_pending (s_pending s'))"
  shows "lives lib s s'"
  using assms by (auto simp: lives_def cells_ok_def ages_def)

section \<open>The server's steps\<close>

lemma outcome_lives:
  assumes "\<And>c. s_heap s ! i = c \<Longrightarrow> outcome c c' es"
  shows "lives lib s (commit i (c', es) s)"
  by (rule lives_commit) (use assms outcome_moved in \<open>auto simp: usable_def\<close>)

lemma server_processConnData_lives:
  "server_processConnData env now i data s = Inr s' \<Longrightarrow> lives lib s s'"
  by (auto simp: server_processConnData_def Let_def split: if_splits sum.splits
      intro!: outcome_lives processConnData_outcome)

lemma moveConnection_lives: "lives lib s (moveConnection i a s)"
proof (cases "c_remoteAddr (s_heap s ! i) = a")
  case False
  show ?thesis
    by (rule lives_cell [of i s "(s_heap s ! i)\<lparr>c_remoteAddr := a\<rparr>" "[]"])
      (use False in \<open>simp_all add: moveConnection_def Let_def usable_def live_def aged_def same_session_def same_identity_def\<close>)
qed (simp add: moveConnection_def Let_def lives_def)

lemma cipher_lives: "lives lib s (s\<lparr>s_heap := (s_heap s)[i := (s_heap s ! i)\<lparr>c_recvCipher := k\<rparr>]\<rparr>)"
  by (rule lives_cell [of i s "(s_heap s ! i)\<lparr>c_recvCipher := k\<rparr>" "[]"])
    (simp_all add: usable_def live_def aged_def same_session_def same_identity_def keeps_def closed_def)

lemma tryMigration_lives:
  assumes "tryMigration env now i a data s = Inr s'"
  shows "lives lib s s'"
proof -
  define s2 where "s2 = (\<lambda>k. moveConnection i a (s\<lparr>s_heap := (s_heap s)[i := (s_heap s ! i)\<lparr>c_recvCipher := k\<rparr>]\<rparr>))"
  have s2: "lives lib s (s2 k)" for k unfolding s2_def by (rule lives_trans [OF cipher_lives moveConnection_lives])
  have "lives lib s (commit i (c', es @ es') (s2 k))"
    if "handleDecrypted (env_comp env) now p (countReceived n (s_heap (s2 k) ! i)) = Inr (c, es)"
      "processPackets (env_comp env) now pkts c = Inr (c', es')" for p k c es pkts c' es' n
  proof (rule lives_trans [OF s2 outcome_lives])
    show "outcome c0 c' (es @ es')" if "s_heap (s2 k) ! i = c0" for c0
      using outcome_keeps [OF countReceived_keeps outcome_append [OF handleDecrypted_outcome [OF \<open>handleDecrypted _ _ _ _ = _\<close>]
            processPackets_outcome [OF \<open>processPackets _ _ _ _ = _\<close>]]] that by blast
  qed
  with assms cipher_lives [of lib s i] show ?thesis
    by (auto simp: tryMigration_def Let_def s2_def split: sum.splits list.splits prod.splits)
qed

lemma serverProcessResponse_usable:
  assumes "serverProcessResponse clib lib now data ph a = Inr c" "pool_ok lib (ph_compressionConfig ph)"
  shows "usable c"
proof -
  obtain inp where "c = newConnection lib now inp" "in_compression inp = ph_compressionConfig ph"
    using assms(1) by (auto simp: serverProcessResponse_def split: sum.splits prod.splits if_splits)
  then show ?thesis using newConnection_live [of lib inp now] assms(2) by (simp add: usable_def)
qed

lemma acceptResponse_lives:
  assumes "pending_get (s_pending s) a = Some ph"
  shows "lives (env_comp env) s (acceptResponse env now a data ph s)"
proof (cases "serverProcessResponse (env_crypto env) (env_comp env) now data ph a")
  case (Inl e)
  then show ?thesis by (simp add: acceptResponse_def lives_def)
next
  case (Inr c)
  let ?s = "acceptResponse env now a data ph s"
  have s: "s_heap ?s = s_heap s @ [c]" "s_config ?s = s_config s" "s_pending ?s = pending_remove a (s_pending s)"
    "s_events ?s = s_events s @ [(length (s_heap s), OnConnect)]"
    by (simp_all add: acceptResponse_def Inr Let_def)
  show ?thesis
    unfolding lives_def
  proof (intro impI conjI)
    assume ok: "cells_ok (env_comp env) s"
    have "(a, ph) \<in> set (pt_pending (s_pending s))" using assms by (simp add: pending_get_def map_of_SomeD)
    then have "usable c" using serverProcessResponse_usable [OF Inr] ok by (auto simp: cells_ok_def)
    then show "cells_ok (env_comp env) ?s"
      using ok set_delete_subset [of a "pt_pending (s_pending s)"] by (auto simp: cells_ok_def s pending_remove_def)
    show "ages s ?s" by (auto simp: ages_def s nth_append events_of_def)
  qed
qed

lemma handleHandshake_lives: "lives (env_comp env) s (handleHandshake env now a data rnd s)"
proof (rule lives_frame)
  let ?s = "handleHandshake env now a data rnd s"
  show "s_heap ?s = s_heap s" "s_events ?s = s_events s" "s_config ?s = s_config s"
    by (simp_all add: handleHandshake_def writeTo_def Let_def split: sum.split prod.split option.split)
  show "wf_map (pt_pending (s_pending ?s))" if "wf_map (pt_pending (s_pending s))"
    using that by (auto simp: handleHandshake_def writeTo_def Let_def pending_put_def split: sum.split prod.split option.split)
  fix b ph assume ok: "cells_ok (env_comp env) s" and b: "(b, ph) \<in> set (pt_pending (s_pending ?s))"
  have good: "pool_ok (env_comp env) (ph_compressionConfig ph')"
    if "serverProcessConnect (env_crypto env) (env_appVersion env) rnd now (connectInput data (s\<lparr>s_limiter := l\<rparr>)) = (Inr ph', r)" for ph' r l
    using serverProcessConnect_good [OF that, of "env_comp env"] ok by (simp add: cells_ok_def connectInput_def Let_def good_pending_def)
  have "(b, ph) \<in> set (pt_pending (s_pending s)) \<or> pool_ok (env_comp env) (ph_compressionConfig ph)"
    using b good by (auto simp: handleHandshake_def writeTo_def Let_def pending_put_def
      split: sum.splits prod.splits option.splits if_splits dest!: set_alist_update [THEN subsetD])
  then show "pool_ok (env_comp env) (ph_compressionConfig ph)" using ok by (auto simp: cells_ok_def)
qed

lemma processIncoming_lives: "processIncoming env now pkt s = Inr s' \<Longrightarrow> lives (env_comp env) s s'"
  by (auto simp: processIncoming_def split: option.splits if_splits
      intro: server_processConnData_lives acceptResponse_lives tryMigration_lives handleHandshake_lives)

lemma usable_moved:
  "usable c \<Longrightarrow> conn_step lib p (server_sendFunc net coalesce) (c, u) es (c', u') \<Longrightarrow> moved c c' es"
  by (simp add: server_send.conn_step_moved usable_def)

lemma server_tickConnection_lives: "server_tickConnection env now i s = Inr s' \<Longrightarrow> lives lib s s'"
proof -
  assume "server_tickConnection env now i s = Inr s'"
  then obtain c u es where t: "tickConnection (env_comp env) (serverParams (s_config s))
      (server_sendFunc (env_net env) (sc_CoalesceIO (s_config s))) now (s_heap s ! i, s_net s) = Inr ((c, u), es)"
    "s' = commit i (c, es) (s\<lparr>s_net := u\<rparr>)"
    by (auto simp: server_tickConnection_def split: sum.splits)
  have "moved (s_heap s ! i) c es" if "usable (s_heap s ! i)"
    by (rule usable_moved [OF that conn_step.ticked [OF t(1)]])
  then have "lives lib (s\<lparr>s_net := u\<rparr>) s'" unfolding t(2) by (intro lives_commit) simp
  moreover have "lives lib s (s\<lparr>s_net := u\<rparr>)" by (rule lives_frame) (auto simp: cells_ok_def)
  ultimately show ?thesis using lives_trans by blast
qed

lemma tick_lives:
  assumes "tick env now incoming s = Inr s'"
  shows "lives (env_comp env) s s'"
proof -
  obtain s1 s2 where s: "steps (processIncoming env now) incoming s = Inr s1"
    "steps (server_tickConnection env now) (conns_forEach (\<lambda>i is. is @ [i]) (s_conns s1) []) s1 = Inr s2"
    "s' = s2\<lparr>s_pending := pending_cleanup (isExpired now (sc_HandshakeTimeout (s_config s2))) (s_pending s2),
       s_limiter := limiter_cleanup now (sc_HandshakeTimeout (s_config s2)) (s_limiter s2)\<rparr>"
    using assms by (auto simp: tick_def Let_def split: sum.splits)
  have "lives (env_comp env) s2 s'"
    unfolding s(3) by (rule lives_frame) (auto simp: cells_ok_def pending_cleanup_eq)
  moreover have "lives (env_comp env) s s1" "lives (env_comp env) s1 s2"
    using lives_steps [OF _ s(1)] lives_steps [OF _ s(2)] processIncoming_lives server_tickConnection_lives by blast+
  ultimately show ?thesis using lives_trans by blast
qed

lemma onConnection_lives:
  assumes "onConnection f i s = Inr s'"
    and "\<And>c u c' u' err. usable c \<Longrightarrow> f (c, u) = ((c', u'), err) \<Longrightarrow> moved c c' []"
  shows "lives lib s s'"
proof (cases "i < length (s_heap s)")
  case True
  obtain c u err where q: "f (s_heap s ! i, s_net s) = ((c, u), err)" by (metis surj_pair)
  have "s' = s\<lparr>s_heap := (s_heap s)[i := c], s_net := u\<rparr>"
    using assms(1) q True by (cases "report err") (simp_all add: onConnection_def)
  then show ?thesis using moved_aged moved_usable assms(2) [OF _ q] by (intro lives_cell [of i s c "[]"]) fastforce+
qed (use assms(1) in \<open>simp add: onConnection_def lives_def\<close>)

lemma server_do_lives:
  assumes "server_do env coalesce bg op s = Inr s'"
  shows "lives (env_comp env) s s'"
proof (cases op)
  case (OpTick now pkts)
  then show ?thesis using assms tick_lives by simp
next
  case (OpSend i data ch)
  then have "onConnection (conn_Send data ch) i s = Inr s'" using assms by simp
  then show ?thesis by (rule onConnection_lives) (rule usable_moved [OF _ conn_Send_step])
next
  case (OpSendImmediate i data ch now)
  then have "onConnection (SendImmediate (env_comp env) (Some (server_sendFunc (env_net env) coalesce)) data ch now) i s = Inr s'"
    using assms by simp
  then show ?thesis by (rule onConnection_lives) (rule usable_moved [OF _ conn_step.sent])
next
  case (OpClose i now)
  then have "onConnection (Close (Some (server_sendFunc (env_net env) coalesce)) now) i s = Inr s'" using assms by simp
  then show ?thesis by (rule onConnection_lives) (rule usable_moved [OF _ conn_step.closing])
next
  case OpWrite
  then show ?thesis using assms by (auto simp: cells_ok_def intro!: lives_frame)
qed

lemma stopConnection_lives: "lives lib s (stopConnection i s)"
proof (rule lives_cell [of i s "teardown (s_heap s ! i)" "[OnDisconnect DisconnectGraceful]"])
  have "same_session c (teardown c)" for c
    using teardown_keeps [of c] by (simp add: same_session_def same_identity_def keeps_def closed_def)
  moreover have "state_move (c_state c) StateDisconnected" if "usable c" for c
    using that by (cases "c_state c") (simp_all add: usable_def)
  ultimately show "usable (teardown (s_heap s ! i)) \<and> aged (s_heap s ! i) (teardown (s_heap s ! i)) [OnDisconnect DisconnectGraceful]"
    if "usable (s_heap s ! i)" using that by (simp add: usable_def aged_def teardown_def)
qed (simp_all add: stopConnection_def commit_eq)

lemma Stop_lives: "lives lib s (fst (Stop s))"
proof -
  have "lives lib s (fold stopConnection is s)" for "is"
    by (induction "is" arbitrary: s) (auto intro: lives_trans [OF stopConnection_lives])
  then show ?thesis by (simp add: Stop_def conns_forEach_fold)
qed

lemma life_do_lives:
  assumes "life_do env coalesce bg op s = Inr s'"
  shows "lives (env_comp env) s s'"
proof (cases op)
  case (Call x)
  then show ?thesis using assms server_do_lives by simp
next
  case CallStart
  then show ?thesis using assms by (auto simp: Start_def cells_ok_def lives_def ages_def split: if_splits)
next
  case CallStop
  then show ?thesis using assms Stop_lives by auto
qed

section \<open>The tables\<close>

lemma trackedD: "tracked lib s \<Longrightarrow> wf_server lib s" "tracked lib s \<Longrightarrow> j < length (s_heap s) \<Longrightarrow> handles s j"
  by (simp_all add: tracked_def)

lemma tracked_commit:
  assumes "tracked lib s" "in_table s i" "outcome (s_heap s ! i) c es"
  shows "tracked lib (commit i (c, es) s)"
  using assms commit_wf commit_handles by (fastforce simp: tracked_def)

lemma tracked_frame:
  assumes "tracked lib s" "wf_server lib s'" "s_heap s' = s_heap s" "s_conns s' = s_conns s"
  shows "tracked lib s'"
  using assms by (simp add: tracked_def handles_def in_table_def)

lemma tracked_cell:
  assumes "tracked lib s" "in_table s i \<Longrightarrow> moved (s_heap s ! i) c []" "c_state (s_heap s ! i) = StateDisconnected \<Longrightarrow> c_state c = StateDisconnected"
  shows "tracked lib (s\<lparr>s_heap := (s_heap s)[i := c]\<rparr>)"
  unfolding tracked_def
proof (intro conjI allI impI)
  show "wf_server lib (s\<lparr>s_heap := (s_heap s)[i := c]\<rparr>)" using heap_moved_wf [OF trackedD(1) [OF assms(1)] assms(2)] .
  fix j assume "j < length (s_heap (s\<lparr>s_heap := (s_heap s)[i := c]\<rparr>))"
  then have "handles s j" "j < length (s_heap s)" using assms(1) by (simp_all add: tracked_def)
  then show "handles (s\<lparr>s_heap := (s_heap s)[i := c]\<rparr>) j"
    using assms(2,3) by (cases "j = i") (auto simp: handles_def in_table_def moved_def same_identity_def keeps_def closed_def)
qed

lemma tracked_move:
  assumes "tracked lib s" "in_table s i" "conns_get (s_conns s) a = None" "pending_get (s_pending s) a = None"
  shows "tracked lib (moveConnection i a s)" "in_table (moveConnection i a s) i"
proof -
  have wf: "wf_server lib s" using assms(1) by (simp add: tracked_def)
  note m = moveConnection_wf [OF wf assms(2-4)]
  show "in_table (moveConnection i a s) i" by (rule m(2))
  have ne: "c_remoteAddr (s_heap s ! i) \<noteq> a" using assms(2,3) by (auto simp: in_table_def)
  have sc: "s_conns (moveConnection i a s) = conns_put a i (conns_remove (c_remoteAddr (s_heap s ! i)) (s_conns s))"
    and sh: "s_heap (moveConnection i a s) = (s_heap s)[i := (s_heap s ! i)\<lparr>c_remoteAddr := a\<rparr>]"
    using ne by (simp_all add: moveConnection_def Let_def)
  have get: "conns_get (s_conns (moveConnection i a s)) b =
      (if b = a then Some i else if b = c_remoteAddr (s_heap s ! i) then None else conns_get (s_conns s) b)" for b
    unfolding sc using conns.get_put [OF conns.wf_remove [OF wf_serverD(1) [OF wf]]] conns.get_remove [OF wf_serverD(1) [OF wf]] by simp
  have "handles (moveConnection i a s) j" if "j < length (s_heap s)" for j
  proof (cases "j = i")
    case True
    then show ?thesis using m(2) by (simp add: handles_def in_table_def)
  next
    case False
    moreover have "handles s j" using trackedD(2) [OF assms(1) that] .
    ultimately show ?thesis using assms(2,3) unfolding handles_def in_table_def get sh by auto
  qed
  then show "tracked lib (moveConnection i a s)" using m(1) by (simp add: tracked_def sh)
qed

lemma tryMigration_tracked:
  assumes "tracked lib s" "in_table s i" "conns_get (s_conns s) a = None" "pending_get (s_pending s) a = None"
    and "tryMigration env now i a data s = Inr s'"
  shows "tracked lib s'"
proof -
  define s1 where "s1 = (\<lambda>k. s\<lparr>s_heap := (s_heap s)[i := (s_heap s ! i)\<lparr>c_recvCipher := k\<rparr>]\<rparr>)"
  have s1: "tracked lib (s1 k)" for k
    unfolding s1_def by (rule tracked_cell [OF assms(1)]) (auto simp: moved_def same_identity_def keeps_def closed_def live_def)
  have i1: "in_table (s1 k) i" "conns_get (s_conns (s1 k)) a = None" "pending_get (s_pending (s1 k)) a = None" for k
    using assms(2-4) by (simp_all add: s1_def in_table_def)
  have "tracked lib (commit i (c', es @ es') (moveConnection i a (s1 k)))"
    if "handleDecrypted (env_comp env) now p (countReceived n (s_heap (moveConnection i a (s1 k)) ! i)) = Inr (c, es)"
      "processPackets (env_comp env) now pkts c = Inr (c', es')" for p k c es pkts c' es' n
    by (rule tracked_commit [OF tracked_move [OF s1 i1]])
      (rule outcome_keeps [OF countReceived_keeps outcome_append [OF handleDecrypted_outcome [OF that(1)] processPackets_outcome [OF that(2)]]])
  with assms(1,5) s1 show ?thesis
    by (auto simp: tryMigration_def Let_def s1_def split: sum.splits list.splits prod.splits)
qed

lemma acceptResponse_tracked:
  assumes "tracked (env_comp env) s" "conns_get (s_conns s) a = None" "pending_get (s_pending s) a = Some ph"
  shows "tracked (env_comp env) (acceptResponse env now a data ph s)"
proof (cases "serverProcessResponse (env_crypto env) (env_comp env) now data ph a")
  case (Inl e)
  then show ?thesis using assms(1) by (simp add: acceptResponse_def)
next
  case (Inr c)
  let ?s = "acceptResponse env now a data ph s"
  have wf: "wf_server (env_comp env) s" using assms(1) by (simp add: tracked_def)
  have c: "c_remoteAddr c = a" using Inr by (auto simp: serverProcessResponse_def split: sum.splits prod.splits if_splits)
  have s: "s_heap ?s = s_heap s @ [c]" "s_conns ?s = conns_put a (length (s_heap s)) (s_conns s)"
    by (simp_all add: acceptResponse_def Inr Let_def)
  have get: "conns_get (s_conns ?s) b = (if b = a then Some (length (s_heap s)) else conns_get (s_conns s) b)" for b
    unfolding s by (rule conns.get_put [OF wf_serverD(1) [OF wf]])
  have "handles ?s j" if "j < length (s_heap ?s)" for j
    using trackedD(2) [OF assms(1), of j] that assms(2) c unfolding handles_def in_table_def get
    by (cases "j < length (s_heap s)") (auto simp: s(1) nth_append not_less le_Suc_eq)
  then show ?thesis using acceptResponse_wf [OF wf assms(2,3)] by (simp add: tracked_def)
qed

lemma processIncoming_tracked:
  assumes t: "tracked (env_comp env) s" and p: "processIncoming env now pkt s = Inr s'"
  shows "tracked (env_comp env) s'"
proof (cases "conns_get (s_conns s) (ip_addr pkt)")
  case (Some i)
  then show ?thesis
    using p t get_in_table [OF trackedD(1) [OF t] Some]
    by (auto simp: processIncoming_def server_processConnData_def Let_def split: if_splits sum.splits
        intro!: tracked_commit processConnData_outcome)
next
  case new: None
  show ?thesis
  proof (cases "pending_get (s_pending s) (ip_addr pkt)")
    case (Some ph)
    then show ?thesis using p acceptResponse_tracked [OF t new Some] by (auto simp: processIncoming_def new)
  next
    case None
    have "tracked (env_comp env) (handleHandshake env now (ip_addr pkt) (ip_data pkt) (ip_random pkt) s)"
      by (rule tracked_frame [OF t handleHandshake_wf [OF trackedD(1) [OF t] new]])
        (simp_all add: handleHandshake_def writeTo_def Let_def split: sum.split prod.split option.split)
    then show ?thesis
      using p tryMigration_tracked [OF t wf_serverD(8) [OF trackedD(1) [OF t]] new None]
      by (auto simp: processIncoming_def new None split: option.splits if_splits)
  qed
qed

lemma server_ticks_tracked:
  assumes "tracked lib s" "\<forall>i \<in> set is. handles s i" "steps (server_tickConnection env now) is s = Inr s'"
  shows "tracked lib s'"
  using assms
proof (induction "is" arbitrary: s)
  case (Cons i "is")
  obtain s1 where s1: "server_tickConnection env now i s = Inr s1" "wf_server lib s1" "\<forall>j. handles s j \<longrightarrow> handles s1 j"
    using server_tickConnection_wf [OF trackedD(1) [OF Cons.prems(1)]] Cons.prems(2) by fastforce
  have "length (s_heap s1) = length (s_heap s)" using s1(1) by (auto simp: server_tickConnection_def split: sum.splits)
  then have "tracked lib s1" using s1(2,3) Cons.prems(1) by (simp add: tracked_def)
  then show ?case using Cons.IH s1(1,3) Cons.prems(2,3) by simp
qed simp

lemma tick_tracked:
  assumes "tracked (env_comp env) s" "tick env now incoming s = Inr s'"
  shows "tracked (env_comp env) s'"
proof -
  obtain s1 s2 where s: "steps (processIncoming env now) incoming s = Inr s1"
    "steps (server_tickConnection env now) (conns_forEach (\<lambda>i is. is @ [i]) (s_conns s1) []) s1 = Inr s2"
    "s_heap s' = s_heap s2" "s_conns s' = s_conns s2"
    using assms(2) by (auto simp: tick_def Let_def split: sum.splits)
  have "tracked (env_comp env) s1" by (rule steps_invariant [of "tracked (env_comp env)", OF _ assms(1) s(1)]) (rule processIncoming_tracked)
  moreover have "\<forall>i \<in> set (conns_forEach (\<lambda>i is. is @ [i]) (s_conns s1) []). handles s1 i"
    using tickConns_handles [OF trackedD(1) [OF calculation]] by (simp add: tickConns)
  ultimately have "tracked (env_comp env) s2" using server_ticks_tracked [OF _ _ s(2)] by blast
  then show ?thesis using tick_wf(1) [OF trackedD(1) [OF assms(1)] assms(2)] s(3,4) by (auto intro: tracked_frame)
qed

lemma onConnection_tracked:
  assumes "tracked lib s" "cells_ok lib s" "onConnection f i s = Inr s'"
    and "\<And>c u c' u' err. usable c \<Longrightarrow> f (c, u) = ((c', u'), err) \<Longrightarrow> moved c c' []"
  shows "tracked lib s'"
proof (cases "i < length (s_heap s)")
  case True
  obtain c u err where q: "f (s_heap s ! i, s_net s) = ((c, u), err)" by (metis surj_pair)
  have s': "s' = s\<lparr>s_heap := (s_heap s)[i := c], s_net := u\<rparr>"
    using assms(3) q True by (cases "report err") (simp_all add: onConnection_def)
  have m: "moved (s_heap s ! i) c []" using assms(4) [OF _ q] assms(2) True by (simp add: cells_ok_def)
  have "tracked lib (s\<lparr>s_heap := (s_heap s)[i := c]\<rparr>)"
    by (rule tracked_cell [OF assms(1)]) (use m in \<open>simp_all add: moved_def\<close>)
  moreover have "wf_server lib s'" using trackedD(1) [OF calculation] wf_server_net(1) [where s = "s\<lparr>s_heap := (s_heap s)[i := c]\<rparr>" and u = u]
    by (simp add: s')
  ultimately show ?thesis by (rule tracked_frame) (simp_all add: s')
qed (use assms(1,3) in \<open>simp add: onConnection_def\<close>)

lemma life_do_tracked:
  assumes t: "tracked (env_comp env) s" and c: "cells_ok (env_comp env) s" and "life_do env coalesce bg op s = Inr s'" "op \<noteq> CallStop"
  shows "tracked (env_comp env) s'"
proof (cases op)
  case (Call x)
  show ?thesis
  proof (cases x)
    case (OpTick now pkts)
    then show ?thesis using tick_tracked [OF t] assms(3) Call by simp
  next
    case (OpSend i data ch)
    then have "onConnection (conn_Send data ch) i s = Inr s'" using assms(3) Call by simp
    then show ?thesis by (rule onConnection_tracked [OF t c]) (rule usable_moved [OF _ conn_Send_step])
  next
    case (OpSendImmediate i data ch now)
    then have "onConnection (SendImmediate (env_comp env) (Some (server_sendFunc (env_net env) coalesce)) data ch now) i s = Inr s'"
      using assms(3) Call by simp
    then show ?thesis by (rule onConnection_tracked [OF t c]) (rule usable_moved [OF _ conn_step.sent])
  next
    case (OpClose i now)
    then have "onConnection (Close (Some (server_sendFunc (env_net env) coalesce)) now) i s = Inr s'" using assms(3) Call by simp
    then show ?thesis by (rule onConnection_tracked [OF t c]) (rule usable_moved [OF _ conn_step.closing])
  next
    case OpWrite
    then show ?thesis using t assms(3) Call wf_server_net(1) by (auto simp: tracked_def handles_def)
  qed
next
  case CallStart
  then have "s' = s \<or> s' = s\<lparr>s_started := True\<rparr>" using assms(3) by (auto simp: Start_def split: if_splits)
  then show ?thesis using t by (auto simp: tracked_def handles_def in_table_def wf_server_def)
qed (use assms(4) in simp)

section \<open>Runs\<close>

lemma NewServer_ok:
  assumes "pool_ok lib (sc_Compression config)"
  shows "cells_ok lib (NewServer numCPU config u)" "tracked lib (NewServer numCPU config u)"
  using assms NewServer_wf [OF assms, of numCPU u]
  by (simp_all add: cells_ok_def tracked_def NewServer_def Let_def newPendingTable_def serverDefaults_sel)

lemma run_tracked:
  "steps (life_do env coalesce bg) ops s = Inr s' \<Longrightarrow> tracked (env_comp env) s \<Longrightarrow> cells_ok (env_comp env) s \<Longrightarrow> CallStop \<notin> set ops \<Longrightarrow>
    tracked (env_comp env) s'"
proof (induction ops arbitrary: s)
  case (Cons op ops)
  obtain s1 where s1: "life_do env coalesce bg op s = Inr s1" "steps (life_do env coalesce bg) ops s1 = Inr s'"
    using Cons.prems(1) by (auto split: sum.splits)
  have "cells_ok (env_comp env) s1" using life_do_lives [OF s1(1)] Cons.prems(3) by (simp add: lives_def)
  moreover have "tracked (env_comp env) s1" by (rule life_do_tracked [OF Cons.prems(2,3) s1(1)]) (use Cons.prems(4) in auto)
  ultimately show ?case using Cons.IH s1(2) Cons.prems(4) by simp
qed simp

lemma tracked_state: "tracked lib s \<Longrightarrow> i < length (s_heap s) \<Longrightarrow> in_table s i \<longleftrightarrow> c_state (s_heap s ! i) \<noteq> StateDisconnected"
  using in_tableD(3) [OF trackedD(1)] trackedD(2) by (fastforce simp: handles_def)

lemma steps_Call: "steps (life_do env coalesce bg) (map Call ops) s = steps (server_do env coalesce bg) ops s"
  by (induction ops arbitrary: s) (simp_all split: sum.split)

section \<open>Properties\<close>

text \<open>C13. The life of a connection of the server, over datagrams, migrations, ticks, \<open>Send\<close>, \<open>SendImmediate\<close>, \<open>Close\<close> and
  \<open>Stop\<close> in any order. It stays the same connection but for its address: suite, layout, compressor, features, token and
  channel modes do not change. Its state only moves forward, from Connected to Disconnecting to
  Disconnected. It becomes Disconnected exactly if the handler is told so. As long as \<open>Stop\<close> is not
  called, it is in the address table exactly while it is not Disconnected.\<close>

theorem connection_lifecycle:
  assumes "pool_ok (env_comp env) (sc_Compression config)"
    and "steps (life_do env coalesce bg) ops (NewServer numCPU config u) = Inr s" "i < length (s_heap s)"
    and "steps (life_do env coalesce bg) ops' s = Inr s'"
  shows "i < length (s_heap s') \<and> same_session (s_heap s ! i) (s_heap s' ! i) \<and>
    c_state (s_heap s ! i) \<noteq> StateConnecting \<and> state_move (c_state (s_heap s ! i)) (c_state (s_heap s' ! i)) \<and>
    (\<exists>evs. s_events s' = s_events s @ evs \<and> (c_state (s_heap s' ! i) = StateDisconnected \<longleftrightarrow>
      c_state (s_heap s ! i) = StateDisconnected \<or> (\<exists>r. (i, OnDisconnect r) \<in> set evs))) \<and>
    (CallStop \<notin> set (ops @ ops') \<longrightarrow> (in_table s' i \<longleftrightarrow> c_state (s_heap s' ! i) \<noteq> StateDisconnected))"
proof -
  have "lives (env_comp env) (NewServer numCPU config u) s" by (rule lives_steps [OF life_do_lives assms(2)])
  then have ok: "cells_ok (env_comp env) s" using NewServer_ok(1) [OF assms(1), of numCPU u] by (simp add: lives_def)
  have "lives (env_comp env) s s'" by (rule lives_steps [OF life_do_lives assms(4)])
  then obtain evs where evs: "s_events s' = s_events s @ evs" "length (s_heap s) \<le> length (s_heap s')"
    "aged (s_heap s ! i) (s_heap s' ! i) (events_of i evs)"
    using ok assms(3) by (auto simp: lives_def ages_def)
  have "usable (s_heap s ! i)" using ok assms(3) by (simp add: cells_ok_def)
  moreover have "OnDisconnect r \<in> set (events_of i evs) \<longleftrightarrow> (i, OnDisconnect r) \<in> set evs" for r by (force simp: events_of_def)
  moreover have "in_table s' i \<longleftrightarrow> c_state (s_heap s' ! i) \<noteq> StateDisconnected" if "CallStop \<notin> set (ops @ ops')"
  proof (rule tracked_state)
    have "steps (life_do env coalesce bg) (ops @ ops') (NewServer numCPU config u) = Inr s'" using assms(2,4) by (simp add: steps_append)
    then show "tracked (env_comp env) s'" by (rule run_tracked) (use NewServer_ok [OF assms(1)] that in simp_all)
  qed (use evs(2) assms(3) in simp)
  ultimately show ?thesis using evs assms(3) by (auto simp: aged_def usable_def)
qed

section \<open>Witnesses\<close>

text \<open>A client connects and gets a message; then the server is stopped.\<close>

theorem connection_lifecycle_witness:
  "\<exists>req resp s s'. steps (life_do demo_senv False id) (map Call (demo_ops req resp)) demo_server = Inr s \<and>
    steps (life_do demo_senv False id) [CallStart, CallStop] s = Inr s' \<and> 0 < length (s_heap s') \<and>
    same_session (s_heap s ! 0) (s_heap s' ! 0) \<and> state_move (c_state (s_heap s ! 0)) (c_state (s_heap s' ! 0))"
proof -
  obtain req resp s where s: "steps (server_do demo_senv False id) (demo_ops req resp) demo_server = Inr s" "s_heap s \<noteq> []"
    by (rule demo_pooled)
  have r: "steps (life_do demo_senv False id) (map Call (demo_ops req resp)) demo_server = Inr s" using s(1) by (simp only: steps_Call)
  have h: "0 < length (s_heap s)" using s(2) by simp
  have stop: "steps (life_do demo_senv False id) [CallStart, CallStop] s = Inr (fst (Stop (fst (Start s))))" by simp
  from connection_lifecycle [OF demo_direct(2) r [unfolded demo_server_def] h stop] r stop show ?thesis by blast
qed

end
