(* ===== verification/Chat.thy ===== *)
theory Chat
  imports Loops
begin

text \<open>
  The chat example (\<open>examples/chat\<close>): the handlers of the server, which keep a nickname for every
  connection and relay messages with \<open>Connection.Send\<close>, and the input loop of the client. A
  connection pointer is an index into the heap of connections, as in \<open>Server\<close>. How an address is
  printed is a parameter; the log is left out.
\<close>

section \<open>Definitions\<close>

definition ascii :: "string \<Rightarrow> bytes" where
  "ascii s = map of_char s"

record chatServer =
  chat_conns :: "(nat, bytes) gomap"      \<comment> \<open>nicknames\<close>
  chat_heap :: "connection list"

definition nickOf :: "nat \<Rightarrow> chatServer \<Rightarrow> bytes" where
  "nickOf i s = (case map_of (chat_conns s) i of None \<Rightarrow> [] | Some nick \<Rightarrow> nick)"

definition chat_send :: "bytes \<Rightarrow> nat \<Rightarrow> chatServer \<Rightarrow> chatServer" where
  "chat_send msg i s = s\<lparr>chat_heap := (chat_heap s)[i := fst (enqueueSend msg 0 (chat_heap s ! i))]\<rparr>"

definition chat_broadcast :: "nat \<Rightarrow> bytes \<Rightarrow> chatServer \<Rightarrow> chatServer" where
  "chat_broadcast sender msg s = fold (\<lambda>(i, nick) s. if i \<noteq> sender then chat_send msg i s else s) (chat_conns s) s"

definition chat_OnConnect :: "(AddrPort \<Rightarrow> bytes) \<Rightarrow> nat \<Rightarrow> chatServer \<Rightarrow> chatServer" where
  "chat_OnConnect addrString i s =
     s\<lparr>chat_conns := AList.update i (addrString (c_remoteAddr (chat_heap s ! i))) (chat_conns s)\<rparr>"

definition chat_OnDisconnect :: "nat \<Rightarrow> chatServer \<Rightarrow> chatServer" where
  "chat_OnDisconnect i s =
     (let nick = nickOf i s;
          s = s\<lparr>chat_conns := AList.delete i (chat_conns s)\<rparr>
      in chat_broadcast i (ascii ''* '' @ nick @ ascii '' left the chat'') s)"

definition nickCommand :: "bytes \<Rightarrow> bool" where
  "nickCommand msg \<longleftrightarrow> 6 < length msg \<and> take 6 msg = ascii ''/nick ''"

definition chat_OnMessage :: "nat \<Rightarrow> bytes \<Rightarrow> chatServer \<Rightarrow> chatServer" where
  "chat_OnMessage i msg s =
     (if nickCommand msg
      then
        let newNick = drop 6 msg;
            oldNick = nickOf i s;
            s = s\<lparr>chat_conns := AList.update i newNick (chat_conns s)\<rparr>;
            s = chat_send (ascii ''* You are now known as '' @ newNick) i s
        in chat_broadcast i (ascii ''* '' @ oldNick @ ascii '' is now known as '' @ newNick) s
      else chat_broadcast i (ascii ''['' @ nickOf i s @ ascii ''] '' @ msg) s)"

text \<open>The handler: \<open>OnError\<close> is that of \<open>BaseHandler\<close>, which does nothing.\<close>

fun chat_handle :: "(AddrPort \<Rightarrow> bytes) \<Rightarrow> nat \<times> effect \<Rightarrow> chatServer \<Rightarrow> chatServer" where
  "chat_handle addrString (i, OnConnect) s = chat_OnConnect addrString i s"
| "chat_handle addrString (i, OnDisconnect r) s = chat_OnDisconnect i s"
| "chat_handle addrString (i, OnMessage data ch) s = chat_OnMessage i data s"
| "chat_handle addrString (i, e) s = s"

subsection \<open>The client\<close>

text \<open>What happens at the client: a line is typed, the input ends, or the library ticks.\<close>

datatype chat_input = Line bytes | EndOfInput | ClientTick time "bytes list"

text \<open>The input loop, with the ticks in between; the flag says that it has returned.\<close>

definition chat_line :: "'u client_env \<Rightarrow> time \<Rightarrow> bytes \<Rightarrow> 'u client \<Rightarrow> 'u client \<times> bool" where
  "chat_line env now line cl =
     (if line = [] then (cl, False)
      else if line = ascii ''/quit'' then (client_Close env now cl, True)
      else case cl_server cl of
             None \<Rightarrow> (cl, True)
           | Some c \<Rightarrow>
               let (c, err) = enqueueSend line 0 c;
                   cl = cl\<lparr>cl_server := Some c\<rparr>
               in if err \<noteq> None then (client_Close env now cl, True) else (cl, False))"

fun chat_client :: "'u client_env \<Rightarrow> time \<Rightarrow> chat_input list \<Rightarrow> 'u client \<Rightarrow> ('u client \<times> bool) res" where
  "chat_client env now [] cl = Inr (cl, False)"
| "chat_client env now (Line line # es) cl =
     (case chat_line env now line cl of (cl, quit) \<Rightarrow> if quit then Inr (cl, True) else chat_client env now es cl)"
| "chat_client env now (EndOfInput # es) cl = Inr (client_Close env now cl, True)"
| "chat_client env now (ClientTick t incoming # es) cl =
     (case client_tick env t incoming cl of Inl e \<Rightarrow> Inl e | Inr cl \<Rightarrow> chat_client env t es cl)"

text \<open>The channel that \<open>main\<close> waits for is closed by \<open>OnDisconnect\<close>.\<close>

definition chat_done :: "'u client \<Rightarrow> bool" where
  "chat_done cl \<longleftrightarrow> (\<exists>r. OnDisconnect r \<in> set (cl_events cl))"

section \<open>Who hears what\<close>

text \<open>The chat as its users see it: the nicknames, and the lines an event shows to user \<open>j\<close>.\<close>

fun names_after :: "(nat \<Rightarrow> bytes) \<Rightarrow> nat \<times> effect \<Rightarrow> (nat \<rightharpoonup> bytes) \<Rightarrow> nat \<rightharpoonup> bytes" where
  "names_after addr (i, OnConnect) names = names(i \<mapsto> addr i)"
| "names_after addr (i, OnDisconnect r) names = names(i := None)"
| "names_after addr (i, OnMessage data ch) names =
     (if nickCommand data then names(i \<mapsto> drop 6 data) else names)"
| "names_after addr (i, e) names = names"

definition called :: "(nat \<rightharpoonup> bytes) \<Rightarrow> nat \<Rightarrow> bytes" where
  "called names i = (case names i of None \<Rightarrow> [] | Some n \<Rightarrow> n)"

fun shown :: "nat \<Rightarrow> nat \<times> effect \<Rightarrow> (nat \<rightharpoonup> bytes) \<Rightarrow> bytes list" where
  "shown j (i, OnDisconnect r) names = (if j \<noteq> i \<and> names j \<noteq> None then [ascii ''* '' @ called names i @ ascii '' left the chat''] else [])"
| "shown j (i, OnMessage data ch) names =
     (if nickCommand data
      then if j = i then [ascii ''* You are now known as '' @ drop 6 data]
           else if names j \<noteq> None then [ascii ''* '' @ called names i @ ascii '' is now known as '' @ drop 6 data] else []
      else if j \<noteq> i \<and> names j \<noteq> None then [ascii ''['' @ called names i @ ascii ''] '' @ data] else [])"
| "shown j (i, e) names = []"

fun transcript :: "(nat \<Rightarrow> bytes) \<Rightarrow> nat \<Rightarrow> (nat \<times> effect) list \<Rightarrow> (nat \<rightharpoonup> bytes) \<Rightarrow> bytes list" where
  "transcript addr j [] names = []"
| "transcript addr j (e # es) names = shown j e names @ transcript addr j es (names_after addr e names)"

text \<open>A connection that takes messages, and what it has taken.\<close>

definition takes :: "connection \<Rightarrow> bool" where
  "takes c \<longleftrightarrow> c_state c = StateConnected \<and> c_channels c \<noteq> []"

definition queued_lines :: "bytes list \<Rightarrow> connection \<Rightarrow> connection" where
  "queued_lines ms c = c\<lparr>c_sendQueue := c_sendQueue c @ map (\<lambda>m. \<lparr>om_data = m, om_channel = 0\<rparr>) ms\<rparr>"

lemma enqueue_takes: "takes c \<Longrightarrow> fst (enqueueSend m 0 c) = queued_lines [m] c"
  by (simp add: enqueueSend_def takes_def queued_lines_def)

lemma queued_lines_simps [simp]:
  "queued_lines [] c = c" "queued_lines ms' (queued_lines ms c) = queued_lines (ms @ ms') c" "takes (queued_lines ms c) = takes c"
  "c_remoteAddr (queued_lines ms c) = c_remoteAddr c"
  by (simp_all add: queued_lines_def takes_def)

lemma send_simps [simp]:
  "chat_conns (chat_send m i s) = chat_conns s" "length (chat_heap (chat_send m i s)) = length (chat_heap s)"
  by (simp_all add: chat_send_def)

lemma send_addr [simp]: "c_remoteAddr (chat_heap (chat_send m i s) ! j) = c_remoteAddr (chat_heap s ! j)"
proof -
  have "c_remoteAddr (fst (enqueueSend m 0 c)) = c_remoteAddr c" for c by (simp add: enqueueSend_def)
  then show ?thesis by (cases "i < length (chat_heap s)"; cases "j = i") (simp_all add: chat_send_def list_update_beyond)
qed

lemma send_heap: "j < length (chat_heap s) \<Longrightarrow> takes (chat_heap s ! j) \<Longrightarrow>
  chat_heap (chat_send m i s) ! j = queued_lines (if i = j then [m] else []) (chat_heap s ! j)"
  by (cases "i = j") (simp_all add: chat_send_def enqueue_takes)

lemma broadcast_fold:
  assumes "distinct (map fst cs)" "j < length (chat_heap s)" "takes (chat_heap s ! j)"
  shows "let s' = fold (\<lambda>(i, nick) s. if i \<noteq> sender then chat_send m i s else s) cs s
    in chat_conns s' = chat_conns s \<and> length (chat_heap s') = length (chat_heap s) \<and>
       (\<forall>k. c_remoteAddr (chat_heap s' ! k) = c_remoteAddr (chat_heap s ! k)) \<and>
       chat_heap s' ! j = queued_lines (if j \<noteq> sender \<and> j \<in> fst ` set cs then [m] else []) (chat_heap s ! j)"
  using assms
proof (induction cs arbitrary: s)
  case (Cons c cs)
  obtain i nick where c: "c = (i, nick)" by (cases c)
  let ?s = "if i \<noteq> sender then chat_send m i s else s"
  have h: "chat_heap ?s ! j = queued_lines (if i \<noteq> sender \<and> i = j then [m] else []) (chat_heap s ! j)"
    using send_heap [OF Cons.prems(2,3)] by simp
  then have "takes (chat_heap ?s ! j)" using Cons.prems(3) by simp
  with Cons.IH [of ?s] Cons.prems h c show ?case by (auto simp: Let_def)
qed simp

lemma broadcast_hears:
  assumes "distinct (map fst (chat_conns s))" "j < length (chat_heap s)" "takes (chat_heap s ! j)"
  shows "chat_conns (chat_broadcast sender m s) = chat_conns s" "length (chat_heap (chat_broadcast sender m s)) = length (chat_heap s)"
    "c_remoteAddr (chat_heap (chat_broadcast sender m s) ! k) = c_remoteAddr (chat_heap s ! k)"
    "chat_heap (chat_broadcast sender m s) ! j =
       queued_lines (if j \<noteq> sender \<and> map_of (chat_conns s) j \<noteq> None then [m] else []) (chat_heap s ! j)"
  using broadcast_fold [OF assms, of sender m] by (simp_all add: chat_broadcast_def Let_def map_of_eq_None_iff)

definition chat_inv :: "(nat \<Rightarrow> bytes) \<Rightarrow> (AddrPort \<Rightarrow> bytes) \<Rightarrow> chatServer \<Rightarrow> bool" where
  "chat_inv addr addrString s \<longleftrightarrow> distinct (map fst (chat_conns s)) \<and> (\<forall>i. addrString (c_remoteAddr (chat_heap s ! i)) = addr i)"

lemma nickOf_called: "nickOf i s = called (map_of (chat_conns s)) i"
  by (simp add: nickOf_def called_def)

lemma handle_shows:
  assumes "chat_inv addr addrString s" "j < length (chat_heap s)" "takes (chat_heap s ! j)"
  shows "chat_inv addr addrString (chat_handle addrString e s)"
    "map_of (chat_conns (chat_handle addrString e s)) = names_after addr e (map_of (chat_conns s))"
    "length (chat_heap (chat_handle addrString e s)) = length (chat_heap s)"
    "chat_heap (chat_handle addrString e s) ! j = queued_lines (shown j e (map_of (chat_conns s))) (chat_heap s ! j)"
proof -
  obtain i ef where e: "e = (i, ef)" by (cases e)
  have d: "distinct (map fst (chat_conns s))" "\<And>i. addrString (c_remoteAddr (chat_heap s ! i)) = addr i"
    using assms(1) by (simp_all add: chat_inv_def)
  have "chat_inv addr addrString (chat_handle addrString e s) \<and>
    map_of (chat_conns (chat_handle addrString e s)) = names_after addr e (map_of (chat_conns s)) \<and>
    length (chat_heap (chat_handle addrString e s)) = length (chat_heap s) \<and>
    chat_heap (chat_handle addrString e s) ! j = queued_lines (shown j e (map_of (chat_conns s))) (chat_heap s ! j)"
  proof (cases ef)
    case OnConnect
    then show ?thesis using d by (simp add: e chat_OnConnect_def chat_inv_def distinct_update update_conv')
  next
    case (OnDisconnect r)
    let ?s = "s\<lparr>chat_conns := AList.delete i (chat_conns s)\<rparr>"
    have "distinct (map fst (chat_conns ?s))" using d(1) by (simp add: distinct_delete)
    from broadcast_hears [OF this, of j i] assms(2,3) d OnDisconnect show ?thesis
      by (simp add: e chat_OnDisconnect_def chat_inv_def nickOf_called Let_def delete_conv' distinct_delete)
  next
    case (OnMessage data ch)
    show ?thesis
    proof (cases "nickCommand data")
      case True
      let ?s = "chat_send (ascii ''* You are now known as '' @ drop 6 data) i (s\<lparr>chat_conns := AList.update i (drop 6 data) (chat_conns s)\<rparr>)"
      have u: "distinct (map fst (chat_conns ?s))" using d(1) by (simp add: distinct_update)
      have h: "chat_heap ?s ! j = queued_lines (if i = j then [ascii ''* You are now known as '' @ drop 6 data] else []) (chat_heap s ! j)"
        using send_heap [of j "s\<lparr>chat_conns := AList.update i (drop 6 data) (chat_conns s)\<rparr>"] assms(2,3) by simp
      have "j < length (chat_heap ?s)" "takes (chat_heap ?s ! j)" using assms(2,3) h by simp_all
      from broadcast_hears [OF u this, of i] d h True OnMessage assms(2) show ?thesis
        by (simp add: e chat_OnMessage_def chat_inv_def nickOf_called Let_def update_conv' distinct_update)
    next
      case False
      from broadcast_hears [OF d(1) assms(2,3), of i] d False OnMessage show ?thesis
        by (simp add: e chat_OnMessage_def chat_inv_def nickOf_called)
    qed
  qed (use d in \<open>simp_all add: e chat_inv_def\<close>)
  then show "chat_inv addr addrString (chat_handle addrString e s)"
    "map_of (chat_conns (chat_handle addrString e s)) = names_after addr e (map_of (chat_conns s))"
    "length (chat_heap (chat_handle addrString e s)) = length (chat_heap s)"
    "chat_heap (chat_handle addrString e s) ! j = queued_lines (shown j e (map_of (chat_conns s))) (chat_heap s ! j)" by blast+
qed

lemma handles_show:
  assumes "chat_inv addr addrString s" "j < length (chat_heap s)" "takes (chat_heap s ! j)"
  shows "chat_heap (fold (chat_handle addrString) es s) ! j = queued_lines (transcript addr j es (map_of (chat_conns s))) (chat_heap s ! j)"
  using assms
proof (induction es arbitrary: s)
  case (Cons e es)
  note h = handle_shows [OF Cons.prems, of e]
  have "takes (chat_heap (chat_handle addrString e s) ! j)" using h(4) Cons.prems(3) by simp
  from Cons.IH [OF h(1) _ this] h Cons.prems(2) show ?case by simp
qed simp

section \<open>The client ends\<close>

text \<open>A client without a connection has been told so.\<close>

definition told :: "'u client \<Rightarrow> bool" where
  "told cl \<longleftrightarrow> cl_server cl = None \<longrightarrow> chat_done cl"

lemma applyEffects_events:
  "cl_events (fold client_applyEffect es cl) = cl_events cl @ filter (\<lambda>e. e \<noteq> RemoveConnection) es"
proof (induction es arbitrary: cl)
  case (Cons e es)
  then show ?case by (cases e) simp_all
qed simp

lemma applyEffects_server:
  "cl_server (fold client_applyEffect es cl) = (if RemoveConnection \<in> set es then None else cl_server cl)"
proof (induction es arbitrary: cl)
  case (Cons e es)
  then show ?case by (cases e) simp_all
qed simp

lemma commit_told:
  assumes "RemoveConnection \<in> set es \<Longrightarrow> \<exists>r. OnDisconnect r \<in> set es"
  shows "told (client_commit (c, es) cl)"
  using assms by (auto simp: told_def chat_done_def client_commit_def applyEffects_events applyEffects_server)

lemma client_Close_done: "told cl \<Longrightarrow> chat_done (client_Close env now cl)"
  by (cases "cl_server cl")
    (auto simp: told_def client_Close_def client_commit_def chat_done_def applyEffects_events split_beta Let_def)

lemma report_effects: "report err = Inr es \<Longrightarrow> RemoveConnection \<notin> set es"
  by (auto simp: report_def split: option.splits if_splits)

lemma sendQueued_effects: "sendQueued lib sf now ms s = Inr (s', es) \<Longrightarrow> RemoveConnection \<notin> set es"
proof (induction ms arbitrary: s es)
  case (Cons m ms)
  then show ?case by (auto simp: Let_def report_effects split: if_splits prod.splits sum.splits)
qed simp

lemma tickSend_effects: "tickSend lib p sf now s = Inr q \<Longrightarrow> RemoveConnection \<notin> set (snd q)"
  by (auto simp: tickSend_def Let_def dest: sendQueued_effects report_effects split: prod.splits sum.splits)

lemma tickConnection_effects:
  assumes "tickConnection lib p sf now s = Inr (s', es)" "RemoveConnection \<in> set es"
  shows "\<exists>r. OnDisconnect r \<in> set es"
proof -
  have t: "\<exists>r. OnDisconnect r \<in> set es" if "tickDisconnecting sf now s = (s', es)"
    using that assms(2) by (auto simp: tickDisconnecting_def split: prod.splits if_splits option.splits)
  show ?thesis using assms t by (auto simp: tickConnection_def split: prod.splits if_splits dest: tickSend_effects)
qed

lemma receive_effects:
  assumes "processConnData lib now data c = Inr (c', es)" "RemoveConnection \<in> set es"
  shows "\<exists>r. OnDisconnect r \<in> set es"
proof -
  have "length (filter (\<lambda>e. e = RemoveConnection) es) = length (filter (\<lambda>e. \<exists>r. e = OnDisconnect r) es)"
    using processConnData_outcome [OF assms(1)] by (simp add: outcome_def)
  moreover have "filter (\<lambda>e. e = RemoveConnection) es \<noteq> []" using assms(2) by (simp add: filter_empty_conv)
  ultimately have "filter (\<lambda>e. \<exists>r. e = OnDisconnect r) es \<noteq> []" by (metis length_0_conv)
  then show ?thesis by (auto simp: filter_empty_conv)
qed

lemma client_tick_told:
  assumes "told cl" "client_tick env now incoming cl = Inr cl'"
  shows "told cl'"
proof -
  obtain cl1 where 1: "steps (client_processIncoming env now) incoming cl = Inr cl1"
    and 2: "cl' = cl1 \<or> (\<exists>c. cl_server cl1 = Some c \<and> client_tickConnection env now c cl1 = Inr cl')"
    using assms(2) by (auto simp: client_tick_def split: sum.splits option.splits)
  have "told cl1"
    by (rule steps_invariant [of told, OF _ assms(1) 1])
      (auto simp: client_processIncoming_def split: option.splits sum.splits intro: commit_told receive_effects)
  moreover have "told cl'" if t: "client_tickConnection env now c cl1 = Inr cl'" for c
  proof (cases "cl_sendFunc cl1")
    case True
    then show ?thesis using t
      by (auto simp: client_tickConnection_def Let_def split: sum.splits intro: commit_told tickConnection_effects)
  next
    case False
    then obtain d es where "tickConnection (cenv_comp env) (clientParams (cl_config cl1)) nil_sendFunc now (c, False) = Inr ((d, False), es)"
      "cl' = client_commit (d, es) cl1"
      using t by (auto simp: client_tickConnection_def Let_def split: sum.splits if_splits)
    then show ?thesis by (metis commit_told tickConnection_effects)
  qed
  ultimately show ?thesis using 2 by blast
qed

lemma chat_line_told:
  assumes "told cl" "chat_line env now line cl = (cl', quit)"
  shows "if quit then chat_done cl' else told cl'"
proof -
  have t: "told (cl\<lparr>cl_server := Some c\<rparr>)" for c by (simp add: told_def)
  show ?thesis using assms t client_Close_done [OF assms(1), of env now] client_Close_done [OF t, of env now]
    by (auto simp: chat_line_def Let_def told_def split: if_splits option.splits prod.splits)
qed

section \<open>Properties\<close>

text \<open>C40. The chat server relays faithfully: after any sequence of connects, disconnects and messages,
  the queue of every connection that is up has grown by exactly the lines its user should see, in
  order: each message of another user once, with the nickname of that moment, renames and departures,
  and nothing of its own but the confirmation of a rename.\<close>

theorem chat_relays:
  assumes "distinct (map fst (chat_conns s))" "j < length (chat_heap s)"
    and "c_state (chat_heap s ! j) = StateConnected" "c_channels (chat_heap s ! j) \<noteq> []"
  shows "c_sendQueue (chat_heap (fold (chat_handle addrString) es s) ! j) = c_sendQueue (chat_heap s ! j) @
    map (\<lambda>m. \<lparr>om_data = m, om_channel = 0\<rparr>)
      (transcript (\<lambda>i. addrString (c_remoteAddr (chat_heap s ! i))) j es (map_of (chat_conns s)))"
  using handles_show [of "\<lambda>i. addrString (c_remoteAddr (chat_heap s ! i))" addrString s j es] assms
  by (simp add: chat_inv_def takes_def queued_lines_def)

text \<open>The chat client ends: whenever its input loop returns, by \<open>/quit\<close>, at the end of the input, after a
  failed send or because the connection is gone, \<open>OnDisconnect\<close> has been called and \<open>main\<close> returns,
  whatever the ticks did in between.\<close>

lemma chat_client_ends:
  assumes "told cl" "chat_client env now es cl = Inr (cl', True)"
  shows "chat_done cl'"
  using assms
proof (induction env now es cl rule: chat_client.induct)
  case (2 env now line es cl)
  obtain cl1 quit where l: "chat_line env now line cl = (cl1, quit)" by (metis surj_pair)
  from chat_line_told [OF 2(2) l] 2 l show ?case by (auto split: if_splits)
next
  case (4 env now t incoming es cl)
  then show ?case using client_tick_told [OF 4(2)] by (auto split: sum.splits)
qed (auto intro: client_Close_done)

section \<open>Witnesses\<close>

text \<open>Two users; one renames herself, says something and leaves.\<close>

definition demo_chat :: chatServer where
  "demo_chat = \<lparr>chat_conns = [(0, ascii ''a''), (1, ascii ''b'')], chat_heap = [demo_conn, demo_conn]\<rparr>"

theorem chat_relays_witness:
  "c_sendQueue (chat_heap (fold (chat_handle (\<lambda>_. []))
      [(0, OnMessage (ascii ''/nick eve'') 0), (0, OnMessage (ascii ''hi'') 0), (0, OnDisconnect DisconnectGraceful)] demo_chat) ! 1) =
    map (\<lambda>m. \<lparr>om_data = ascii m, om_channel = 0\<rparr>) [''* a is now known as eve'', ''[eve] hi'', ''* eve left the chat'']"
proof -
  have c: "c_state demo_conn = StateConnected" "c_channels demo_conn \<noteq> []" "c_sendQueue demo_conn = []"
    by (simp_all add: demo_conn_def newConnection_def Let_def newChannels_def DefaultChannelLayout_def)
  have t: "transcript (\<lambda>i. []) 1 [(0, OnMessage (ascii ''/nick eve'') 0), (0, OnMessage (ascii ''hi'') 0), (0, OnDisconnect DisconnectGraceful)]
      (map_of [(0, ascii ''a''), (1, ascii ''b'')]) = [ascii ''* a is now known as eve'', ascii ''[eve] hi'', ascii ''* eve left the chat'']"
    by (simp add: nickCommand_def called_def ascii_def)
  have d: "distinct (map fst (chat_conns demo_chat))" "1 < length (chat_heap demo_chat)" "chat_heap demo_chat ! 1 = demo_conn"
    "chat_conns demo_chat = [(0, ascii ''a''), (1, ascii ''b'')]" by (simp_all add: demo_chat_def)
  show ?thesis
    using chat_relays [OF d(1,2), unfolded d(3,4), OF c(1,2), of "\<lambda>_. []"
      "[(0, OnMessage (ascii ''/nick eve'') 0), (0, OnMessage (ascii ''hi'') 0), (0, OnDisconnect DisconnectGraceful)]"]
    unfolding t c(3) by (simp only: list.map append_Nil)
qed

end
