(* ===== verification/Reordering.thy ===== *)
theory Reordering
  imports Session
begin

text \<open>
  What the receive pipeline does when the packets of an ordered channel arrive out of order and
  some of them are fragments (\<open>server.go\<close>, \<open>handleDecrypted\<close>; \<open>client.go\<close>, \<open>processPacket\<close>), and what the
  send pipeline leaves behind when a write fails (\<open>connection.go\<close>, \<open>sendSinglePacket\<close>).
\<close>

section \<open>Sequence numbers\<close>

lemma word_later:
  assumes "unat (q :: u32) < 2 ^ 32 - 3"
  shows "q < q + 1" "q < q + 2" "q < q + 3" "q + 1 < q + 2" "q + 2 < q + 3" "q + 1 < q + 3" "q + 1 \<noteq> 0" "q + 2 \<noteq> 0" "q + 3 \<noteq> 0"
    "unat (q + 1) = unat q + 1" "unat (q + 2) = unat q + 2" "unat (q + 3) = unat q + 3"
proof -
  show u: "unat (q + 1) = unat q + 1" "unat (q + 2) = unat q + 2" "unat (q + 3) = unat q + 3"
    using assms by (simp_all add: unat_plus_if_size word_size)
  show "q < q + 1" "q < q + 2" "q < q + 3" "q + 1 < q + 2" "q + 2 < q + 3" "q + 1 < q + 3"
    unfolding word_less_nat_alt u by simp_all
  show "q + 1 \<noteq> 0" "q + 2 \<noteq> 0" "q + 3 \<noteq> 0" unfolding unat_eq_0 [symmetric] u by simp_all
qed

text \<open>The channel has everything up to \<open>q\<close>, and room for two packets beyond the next one.\<close>

definition ready :: "u32 \<Rightarrow> channel \<Rightarrow> bool" where
  "ready q r \<longleftrightarrow> expects q r \<and> ch_mode r = ReliableOrdered \<and> unat q < 2 ^ 32 - 3 \<and>
     (ch_maxReorderWindow r = 0 \<or> 2 < ch_maxReorderWindow r)"

lemma ready_window:
  assumes "ready q r" "ch_recvNextDeliver r' = ch_recvNextDeliver r" "ch_maxReorderWindow r' = ch_maxReorderWindow r"
  shows "in_window r' (q + 1)" "in_window r' (q + 2)" "in_window r' (q + 3)"
  using assms by (auto simp: in_window_def ready_def expects_def intro: le_less_trans [rotated])

lemma skip_one:
  assumes "ready q r"
  obtains f where "recordReceive (q + 2) r = (r\<lparr>ch_recvAck := q + 2, ch_recvAckField := f, ch_needsAck := True\<rparr>, True)" "\<not> bit f 0"
proof -
  have q: "unat q < 2 ^ 32 - 3" "ch_recvAck r \<le> q" using assms by (auto simp: ready_def expects_def)
  note w = word_later [OF q(1)] and win = ready_window [OF assms refl refl]
  show thesis
  proof (cases "ch_recvAck r = 0")
    case True
    then show thesis using that [of 0] recordReceive_first [OF w(8) win(2)] by simp
  next
    case False
    let ?d = "unat (q + 2) - unat (ch_recvAck r)"
    have lt: "ch_recvAck r < q + 2" using q(2) w(2) by (rule le_less_trans)
    have d: "2 \<le> ?d" using q(2) w(11) by (simp add: word_le_nat_alt)
    let ?f = "if ?d \<le> 32 then push_bit ?d (ch_recvAckField r) OR push_bit (?d - 1) 1 else 0"
    have "\<not> bit ?f 0" using d by (auto simp: bit_simps)
    moreover have "recordReceive (q + 2) r = (r\<lparr>ch_recvAck := q + 2, ch_recvAckField := ?f, ch_needsAck := True\<rparr>, True)"
      unfolding recordReceive_newer [OF w(8) win(2) False lt] by simp
    ultimately show thesis by (rule that [rotated])
  qed
qed

text \<open>Receiving \<open>q + 3\<close> after \<open>q + 2\<close>, and \<open>q + 1\<close> after both or after \<open>q + 2\<close> alone.\<close>

lemma skip_two:
  assumes "ready q r" "ch_recvNextDeliver r' = ch_recvNextDeliver r" "ch_maxReorderWindow r' = ch_maxReorderWindow r"
    and "ch_recvAck r' = q + 2" "\<not> bit (ch_recvAckField r') 0"
  obtains f where "recordReceive (q + 3) r' = (r'\<lparr>ch_recvAck := q + 3, ch_recvAckField := f, ch_needsAck := True\<rparr>, True)" "\<not> bit f 1"
proof -
  have "unat q < 2 ^ 32 - 3" using assms(1) by (simp add: ready_def)
  note w = word_later [OF this] and win = ready_window [OF assms(1-3)]
  have d: "unat (q + 3) - unat (ch_recvAck r') = 1" using w(11,12) assms(4) by simp
  have lt: "ch_recvAck r' \<noteq> 0" "ch_recvAck r' < q + 3" using w assms(4) by simp_all
  let ?f = "push_bit 1 (ch_recvAckField r') OR push_bit 0 1"
  have "\<not> bit ?f 1" unfolding bit_or_iff bit_push_bit_iff using assms(5) by simp
  moreover have "recordReceive (q + 3) r' = (r'\<lparr>ch_recvAck := q + 3, ch_recvAckField := ?f, ch_needsAck := True\<rparr>, True)"
    using recordReceive_newer [OF w(9) win(3) lt] unfolding d by simp
  ultimately show thesis by (rule that [rotated])
qed

lemma fill_gap:
  assumes "ready q r" "ch_recvNextDeliver r' = ch_recvNextDeliver r" "ch_maxReorderWindow r' = ch_maxReorderWindow r"
    and "ch_recvAck r' = q + 2 \<and> \<not> bit (ch_recvAckField r') 0 \<or> ch_recvAck r' = q + 3 \<and> \<not> bit (ch_recvAckField r') 1"
  obtains f where "recordReceive (q + 1) r' = (r'\<lparr>ch_recvAckField := f, ch_needsAck := True\<rparr>, True)"
proof -
  have "unat q < 2 ^ 32 - 3" using assms(1) by (simp add: ready_def)
  note w = word_later [OF this] and win = ready_window [OF assms(1-3)]
  let ?d = "unat (ch_recvAck r') - unat (q + 1)"
  have lt: "q + 1 < ch_recvAck r'" and d: "?d \<le> 32" "\<not> bit (ch_recvAckField r') (?d - 1)"
    using w(4,6,10-12) assms(4) by auto
  then show thesis using that recordReceive_older [OF w(7) win(1) lt] by simp
qed

section \<open>Delivery\<close>

lemma buffered:
  assumes "ch_mode r = ReliableOrdered" "ch_recvBuffer r = Some buf" "ch_recvNextDeliver r = q + 1" "map_of buf (q + 1) = None"
    and "s \<noteq> q + 1" "map_of buf s = None"
  shows "deliver s p r = Inr (r\<lparr>ch_recvBuffer := Some (buf @ [(s, Some (case p of None \<Rightarrow> [] | Some b \<Rightarrow> b))])\<rparr>, [])"
proof -
  have "drain (AList.update s p buf) (q + 1) = (AList.update s p buf, q + 1, [])"
    using assms(4,5) by (simp add: drain.simps map_of_update_if)
  moreover have "AList.update s v buf = buf @ [(s, v)]" for v using assms(6) by (rule update_new)
  moreover have "AList.update s x (buf @ [(s, y)]) = buf @ [(s, x)]" for x y using alist_append_end(2) [OF assms(6)] .
  ultimately show ?thesis
    using assms(1-3,6) by (cases r) (simp add: deliver_def deliverReliableOrdered_def map_add_def)
qed

lemma drained:
  assumes "ch_mode r = ReliableOrdered" "ch_recvNextDeliver r = q + 1"
  shows "ch_recvBuffer r = Some [(q + 2, x)] \<Longrightarrow>
      deliver (q + 1) p r = Inr (r\<lparr>ch_recvBuffer := Some [], ch_recvNextDeliver := q + 3\<rparr>, [p, x])"
    "ch_recvBuffer r = Some [(q + 2, x), (q + 3, y)] \<Longrightarrow>
      deliver (q + 1) p r = Inr (r\<lparr>ch_recvBuffer := Some [], ch_recvNextDeliver := q + 4\<rparr>, [p, x, y])"
  using assms by (simp_all add: deliver_def deliverReliableOrdered_def drain.simps)

section \<open>The receive pipeline\<close>

text \<open>A data packet that carries no acks, up to its delivery.\<close>

lemma handleDecrypted_plain:
  assumes "Flags hdr AND FlagControl = 0" "unat (Channel hdr) < length (c_channels c)" "Ack hdr = 0"
    and "recordReceive (Sequence hdr) (c_channels c ! unat (Channel hdr)) = (r, True)"
    and c1: "c1 = setChannel (unat (Channel hdr)) r (c\<lparr>c_lastRecv := now\<rparr>)"
  shows "handleDecrypted lib now (header_enc hdr @ body) c =
    (if Flags hdr AND FlagFragment \<noteq> 0 then handleFragment lib now hdr body c1 else deliverMessages (Channel hdr) (Sequence hdr) (Some body) c1)"
proof -
  have "applyAcks now (Channel hdr) (Ack hdr) (AckField hdr) (c\<lparr>c_lastRecv := now\<rparr>) = c\<lparr>c_lastRecv := now\<rparr>"
    using assms(3) by (cases c) (simp add: applyAcks_def processAcks_def setChannel_def)
  then show ?thesis
    using assms by (simp add: handleDecrypted_def codec_simps conn_channel_def Let_def)
qed

lemma handleFragment_add:
  assumes "addFragment now (c_reassembly c) (frag_hdr k flags (fragmentCount payload) j) (chunk payload j) = (s, r)"
  shows "handleFragment lib now hdr (wire_fragment k flags payload j) c =
    (case r of
       Inl e \<Rightarrow> Inr (c\<lparr>c_reassembly := s\<rparr>, [OnError e])
     | Inr None \<Rightarrow>
         (case deliverTo (Channel hdr) (Sequence hdr) None (c\<lparr>c_reassembly := s\<rparr>) of
            Inl e \<Rightarrow> Inl e | Inr (c, msgs) \<Rightarrow> Inr (c, []))
     | Inr (Some a) \<Rightarrow>
         (case decompressOn lib (c_compress c) a flags of
            Inl e \<Rightarrow> Inl e
          | Inr (Inl e) \<Rightarrow> Inr (c\<lparr>c_reassembly := s\<rparr>, [OnError e])
          | Inr (Inr m) \<Rightarrow> deliverMessages (Channel hdr) (Sequence hdr) m (c\<lparr>c_reassembly := s\<rparr>)))"
  using assms by (simp add: handleFragment_def wire_fragment_simps Let_def)

text \<open>A buffer that has expired is replaced: the fragment is the first of a new one.\<close>

lemma addFragment_expired:
  assumes "fits s0 k payload" "S \<noteq> {}" "i < fragmentCount payload" "1 < fragmentCount payload"
    and "0 < rs_fragmentTimeout s0" "rs_fragmentTimeout s0 \<le> t - t0"
  shows "addFragment t (pstate s0 k payload flags t0 S) (frag_hdr k flags (fragmentCount payload) i) (chunk payload i) =
    (pstate s0 k payload flags t {i}, Inr None)"
proof -
  let ?h = "frag_hdr k flags (fragmentCount payload) i"
  have k: "map_of (rs_buffers s0) k = None" "FragmentID ?h = k" using assms(1) by (simp_all add: fits_def frag_hdr_def)
  have "lookupFresh t (pstate s0 k payload flags t0 S) k = (s0, None)" "lookupFresh t s0 k = (s0, None)"
    using assms(2,5,6) k alist_append_end [OF k(1)] by (cases s0; simp add: lookupFresh_def pstate_def pstore_def dropBuffer_def)+
  then have "addFragment t (pstate s0 k payload flags t0 S) ?h (chunk payload i) = addFragment t s0 ?h (chunk payload i)"
    using frag_hdr_valid [OF assms(3) fits_count [OF assms(1)], of k flags] by (simp add: addFragment_def k(2))
  moreover have "{i} \<noteq> {..<fragmentCount payload}"
  proof -
    have "card {..<fragmentCount payload} \<noteq> card {i}" using assms(4) by simp
    then show ?thesis by metis
  qed
  ultimately show ?thesis
    using addFragment_partial [OF assms(1), of "{}" i t t flags] assms(3) by (simp add: pstate_def)
qed

text \<open>The packets of the scenarios: on channel \<open>i\<close>, with a sequence number and no acks.\<close>

definition dataHeader :: "byte \<Rightarrow> byte \<Rightarrow> u32 \<Rightarrow> PacketHeader" where
  "dataHeader flags i seq = \<lparr>Flags = flags, Channel = i, Sequence = seq, Ack = 0, AckField = 0\<rparr>"

lemma dataHeader_simps [simp]:
  "Flags (dataHeader flags i seq) = flags" "Channel (dataHeader flags i seq) = i" "Sequence (dataHeader flags i seq) = seq"
  "Ack (dataHeader flags i seq) = 0"
  by (simp_all add: dataHeader_def)

lemma two_sets: "{1} \<noteq> {..<2 :: nat}" "{0} \<noteq> {..<2 :: nat}" "insert 0 {1} = {..<2 :: nat}"
proof -
  have "card {..<2 :: nat} \<noteq> card {n}" for n :: nat by simp
  then show "{1} \<noteq> {..<2 :: nat}" "{0} \<noteq> {..<2 :: nat}" by metis+
qed (simp add: numeral_2_eq_2 lessThan_Suc insert_commute)

lemma flags_simps [simp]: "FlagFragment AND FlagControl = 0" "FlagFragment \<noteq> 0"
  by (simp_all add: FlagFragment_def FlagControl_def)

lemma handleDecrypted_dataHeader:
  assumes "flags AND FlagControl = 0" "unat i < length (c_channels c)" "recordReceive seq (c_channels c ! unat i) = (r, True)"
  shows "handleDecrypted lib now (header_enc (dataHeader flags i seq) @ body) c =
    (if flags AND FlagFragment \<noteq> 0 then handleFragment lib now (dataHeader flags i seq) body (setChannel (unat i) r (c\<lparr>c_lastRecv := now\<rparr>))
     else deliverMessages i seq (Some body) (setChannel (unat i) r (c\<lparr>c_lastRecv := now\<rparr>)))"
  using handleDecrypted_plain [of "dataHeader flags i seq" c r "setChannel (unat i) r (c\<lparr>c_lastRecv := now\<rparr>)" now lib body] assms
  by simp

text \<open>The second of two fragments arrives first.\<close>

lemma second_fragment_first:
  assumes i: "unat i < length (c_channels c)" and r: "ready q (c_channels c ! unat i)"
    and fit: "fits (c_reassembly c) k data" "fragmentCount data = 2"
  obtains c1 f where
    "handleDecrypted lib t (header_enc (dataHeader FlagFragment i (q + 2)) @ wire_fragment k 0 data 1) c = Inr (c1, [])"
    "c_channels c1 = (c_channels c)[unat i := (c_channels c ! unat i)\<lparr>ch_recvAck := q + 2, ch_recvAckField := f, ch_needsAck := True,
       ch_recvBuffer := Some [(q + 2, Some [])]\<rparr>]" "\<not> bit f 0"
    "c_reassembly c1 = pstate (c_reassembly c) k data 0 t {1}" "c_compress c1 = c_compress c"
proof -
  let ?r = "c_channels c ! unat i" and ?h = "dataHeader FlagFragment i (q + 2)"
  obtain f where f: "recordReceive (q + 2) ?r = (?r\<lparr>ch_recvAck := q + 2, ch_recvAckField := f, ch_needsAck := True\<rparr>, True)" "\<not> bit f 0"
    by (rule skip_one [OF r])
  let ?r1 = "?r\<lparr>ch_recvAck := q + 2, ch_recvAckField := f, ch_needsAck := True\<rparr>"
  let ?c1 = "setChannel (unat i) ?r1 (c\<lparr>c_lastRecv := t\<rparr>)" and ?s = "pstate (c_reassembly c) k data 0 t {1}"
  have c1: "handleDecrypted lib t (header_enc ?h @ wire_fragment k 0 data 1) c = handleFragment lib t ?h (wire_fragment k 0 data 1) ?c1"
    unfolding handleDecrypted_dataHeader [OF flags_simps(1) i f(1)] by simp
  have add: "addFragment t (c_reassembly ?c1) (frag_hdr k 0 (fragmentCount data) 1) (chunk data 1) = (?s, Inr None)"
    using addFragment_partial [OF fit(1), of "{}" 1 t t 0] fit(2) two_sets(1)
    by (simp add: setChannel_def pstate_def [of _ _ _ _ _ "{}"])
  have e: "ch_recvBuffer ?r1 = Some []" "ch_recvNextDeliver ?r1 = q + 1" "ch_mode ?r1 = ReliableOrdered"
    using r by (simp_all add: ready_def expects_def)
  have "deliver (q + 2) None ?r1 = Inr (?r1\<lparr>ch_recvBuffer := Some [(q + 2, Some [])]\<rparr>, [])"
    using buffered [OF e(3,1,2), of "q + 2" None] by simp
  then have d: "deliverTo i (q + 2) None (?c1\<lparr>c_reassembly := ?s\<rparr>) =
      Inr (setChannel (unat i) (?r1\<lparr>ch_recvBuffer := Some [(q + 2, Some [])]\<rparr>) (?c1\<lparr>c_reassembly := ?s\<rparr>), [])"
    using i by (simp add: deliverTo_def setChannel_def)
  have "handleDecrypted lib t (header_enc ?h @ wire_fragment k 0 data 1) c =
      Inr (setChannel (unat i) (?r1\<lparr>ch_recvBuffer := Some [(q + 2, Some [])]\<rparr>) (?c1\<lparr>c_reassembly := ?s\<rparr>), [])"
    unfolding c1 handleFragment_add [OF add] using d by simp
  then show thesis by (rule that [OF _ _ f(2)]) (simp_all add: setChannel_def)
qed

text \<open>A message that arrives next waits for the first fragment too.\<close>

lemma message_waits:
  assumes i: "unat i < length (c_channels c)" and r: "ready q r" "\<not> bit f 0"
    and ch: "c_channels c ! unat i = r\<lparr>ch_recvAck := q + 2, ch_recvAckField := f, ch_needsAck := True,
       ch_recvBuffer := Some [(q + 2, Some [])]\<rparr>"
  obtains c1 f' where "handleDecrypted lib t (header_enc (dataHeader 0 i (q + 3)) @ m) c = Inr (c1, [])"
    "length (c_channels c1) = length (c_channels c)" "c_reassembly c1 = c_reassembly c" "\<not> bit f' 1"
    "c_channels c1 ! unat i = r\<lparr>ch_recvAck := q + 3, ch_recvAckField := f', ch_needsAck := True,
       ch_recvBuffer := Some [(q + 2, Some []), (q + 3, Some m)]\<rparr>"
proof -
  let ?r = "c_channels c ! unat i"
  obtain f' where rr: "recordReceive (q + 3) ?r = (?r\<lparr>ch_recvAck := q + 3, ch_recvAckField := f', ch_needsAck := True\<rparr>, True)" "\<not> bit f' 1"
    by (rule skip_two [OF r(1), of ?r]) (use ch r(2) in simp_all)
  let ?r1 = "?r\<lparr>ch_recvAck := q + 3, ch_recvAckField := f', ch_needsAck := True\<rparr>"
  let ?r2 = "?r1\<lparr>ch_recvBuffer := Some [(q + 2, Some []), (q + 3, Some m)]\<rparr>"
  let ?c = "setChannel (unat i) ?r2 (c\<lparr>c_lastRecv := t\<rparr>)"
  have "deliver (q + 3) (Some m) ?r1 = Inr (?r2, [])"
    using buffered [of ?r1 "[(q + 2, Some [])]" q "q + 3" "Some m"] ch r(1) by (simp add: ready_def expects_def)
  then have "deliverMessages i (q + 3) (Some m) (setChannel (unat i) ?r1 (c\<lparr>c_lastRecv := t\<rparr>)) = Inr (?c, [])"
    using i by (simp add: deliverMessages_def deliverTo_def setChannel_def messages_def)
  then have "handleDecrypted lib t (header_enc (dataHeader 0 i (q + 3)) @ m) c = Inr (?c, [])"
    using handleDecrypted_dataHeader [of 0 i c, OF _ i rr(1)] by simp
  then show thesis by (rule that [OF _ _ _ rr(2)]) (use i ch in \<open>simp_all add: setChannel_def\<close>)
qed

section \<open>A missing number\<close>

lemma receivePackets_acc: "receivePackets f seqs ch = Inr (ch', acc, ms) \<Longrightarrow> set acc \<subseteq> set seqs"
  by (induction seqs arbitrary: ch ch' acc ms) (fastforce split: prod.splits if_splits sum.splits)+

text \<open>An ordered channel that never receives number 1 delivers nothing.\<close>

lemma nothing_delivered:
  assumes "Mode d = ReliableOrdered" "no_wrap (set seqs)" "1 \<notin> set seqs"
  shows "\<exists>ch acc. receivePackets f seqs (newChannel w d) = Inr (ch, acc, [])"
proof -
  obtain ch acc ms where run: "receivePackets f seqs (newChannel w d) = Inr (ch, acc, ms)" "ordered_inv f (set acc) ch"
    "unat (ch_recvNextDeliver ch) = Suc (length ms)"
    using ordered_run [OF ordered_inv_new [OF assms(1)] _ assms(2), of f w] by (auto simp: no_wrap_def newChannel_def)
  have "1 \<notin> set acc" using receivePackets_acc [OF run(1)] assms(3) by blast
  then have "\<not> 1 < ch_recvNextDeliver ch" using run(2) by (auto simp: ordered_inv_def)
  then have "ms = []" using run(3) by (simp add: word_less_nat_alt)
  then show ?thesis using run(1) by blast
qed

lemma sendPacket_fails:
  assumes "unat i < length (c_channels c)" "\<not> c_batchEnabled c \<or> c_skipBatch c" "\<And>s d. sf s d = (s, Some e)"
  shows "\<exists>k. sendPacket sf flags i payload now (c, u) =
    ((c\<lparr>c_channels := (c_channels c)[unat i := (c_channels c ! unat i)\<lparr>ch_sendSeq := ch_sendSeq (c_channels c ! unat i) + 1\<rparr>],
        c_sendCipher := k\<rparr>, u), Some e)"
proof -
  let ?ch = "c_channels c ! unat i"
  let ?h = "packetHeader flags i c"
  have m: "MarshalHeader (getSendBuffer (MaxHeaderSize + length payload)) ?h =
      (go_copy (getSendBuffer (MaxHeaderSize + length payload)) 0 (header_enc ?h), Inr (length (header_enc ?h)))"
    using header_room_bounds(2) [of ?h] by (intro MarshalHeader_ok) (simp add: getSendBuffer_def MaxHeaderSize_def)
  have w: "writeEncrypted sf enc (c', u) = ((c', u), Some e)" if "c_batchEnabled c' = c_batchEnabled c" "c_skipBatch c' = c_skipBatch c" for c' enc
    using assms(2,3) that by (auto simp: writeEncrypted_def sendFramed_def)
  let ?buf = "go_copy (getSendBuffer (MaxHeaderSize + length payload)) 0 (header_enc ?h)"
  let ?p = "take (length (header_enc ?h) + length payload) (go_copy ?buf (length (header_enc ?h)) payload)"
  obtain k enc where "Encrypt (c_sendCipher c) ?p (getSendBuffer (NonceSize + length ?p + TagSize)) = (k, Inr enc)"
    using Encrypt_total by blast
  then show ?thesis
    using m w by (intro exI [of _ k]) (simp add: sendPacket_def nextSequence_def ackState_def Let_def packetHeader_def setChannel_def)
qed

section \<open>Properties\<close>

text \<open>C19. Two fragments of one message that arrive in the wrong order produce an extra message. On an
  ordered channel the place of the incomplete second fragment is kept by a nil payload, which is
  copied to an empty one while it waits: when the first fragment completes the message, the handler
  is called with the message and then with an empty message nobody sent.\<close>

theorem reordered_fragments_extra_message:
  assumes i: "unat i < length (c_channels c)" and r: "ready q (c_channels c ! unat i)"
    and fit: "fits (c_reassembly c) k data" "fragmentCount data = 2"
    and time: "0 < rs_fragmentTimeout (c_reassembly c) \<Longrightarrow> t' - t < rs_fragmentTimeout (c_reassembly c)"
  shows "\<exists>f1 f2 c1 c2. splitMessage data k 0 = Inr [f1, f2] \<and>
    handleDecrypted lib t (header_enc (dataHeader FlagFragment i (q + 2)) @ f2) c = Inr (c1, []) \<and>
    handleDecrypted lib t' (header_enc (dataHeader FlagFragment i (q + 1)) @ f1) c1 = Inr (c2, [OnMessage data i, OnMessage [] i])"
proof -
  let ?r = "c_channels c ! unat i" and ?h = "dataHeader FlagFragment i (q + 1)"
  obtain c1 f where c1: "handleDecrypted lib t (header_enc (dataHeader FlagFragment i (q + 2)) @ wire_fragment k 0 data 1) c = Inr (c1, [])"
    and ch: "c_channels c1 = (c_channels c)[unat i := ?r\<lparr>ch_recvAck := q + 2, ch_recvAckField := f, ch_needsAck := True,
       ch_recvBuffer := Some [(q + 2, Some [])]\<rparr>]" "\<not> bit f 0"
    and st: "c_reassembly c1 = pstate (c_reassembly c) k data 0 t {1}"
    by (rule second_fragment_first [OF i r fit])
  have i1: "unat i < length (c_channels c1)" using i ch(1) by simp
  obtain f' where rr: "recordReceive (q + 1) (c_channels c1 ! unat i) =
      ((c_channels c1 ! unat i)\<lparr>ch_recvAckField := f', ch_needsAck := True\<rparr>, True)"
    by (rule fill_gap [OF r, of "c_channels c1 ! unat i"]) (use ch i in simp_all)
  let ?r2 = "(c_channels c1 ! unat i)\<lparr>ch_recvAckField := f', ch_needsAck := True\<rparr>"
  let ?c2 = "setChannel (unat i) ?r2 (c1\<lparr>c_lastRecv := t'\<rparr>)"
  have add: "addFragment t' (c_reassembly ?c2) (frag_hdr k 0 (fragmentCount data) 0) (chunk data 0) = (c_reassembly c, Inr (Some data))"
    using addFragment_partial [OF fit(1), of "{1}" 0 t' t 0] fit(2) time st two_sets(3) by (simp add: setChannel_def)
  have "deliver (q + 1) (Some data) ?r2 =
      Inr (?r2\<lparr>ch_recvBuffer := Some [], ch_recvNextDeliver := q + 3\<rparr>, [Some data, Some []])"
    by (rule drained(1)) (use r ch(1) i in \<open>simp_all add: ready_def expects_def\<close>)
  then obtain c3 where "deliverMessages i (q + 1) (Some data) (?c2\<lparr>c_reassembly := c_reassembly c\<rparr>) = Inr (c3, [OnMessage data i, OnMessage [] i])"
    using i1 by (simp add: deliverMessages_def deliverTo_def setChannel_def messages_def)
  moreover have "decompressOn lib (c_compress ?c2) data 0 = Inr (Inr (Some data))"
    by (simp add: decompressOn_def decompressPayload_def decompressesToNil_def split: option.split)
  ultimately have "handleDecrypted lib t' (header_enc ?h @ wire_fragment k 0 data 0) c1 = Inr (c3, [OnMessage data i, OnMessage [] i])"
    unfolding handleDecrypted_dataHeader [OF flags_simps(1) i1 rr] by (simp add: handleFragment_add [OF add])
  moreover have "splitMessage data k 0 = Inr [wire_fragment k 0 data 0, wire_fragment k 0 data 1]"
    using split_fragments [of data k 0] fit by (simp add: fits_def upt_conv_Cons)
  ultimately show ?thesis using c1 by blast
qed

text \<open>C20. A late fragment loses messages that are not part of it. The second fragment of a message and
  the message after it wait in the reorder buffer of an ordered channel. When the first fragment
  arrives after the fragment timeout, the message is no longer complete; the fragment fills the gap,
  and what \<open>deliver\<close> releases is dropped. The waiting message has been acknowledged, and the channel
  has moved past it without giving it to the handler.\<close>

theorem late_fragment_loses_message:
  assumes i: "unat i < length (c_channels c)" and r: "ready q (c_channels c ! unat i)"
    and fit: "fits (c_reassembly c) k data" "fragmentCount data = 2"
    and time: "0 < rs_fragmentTimeout (c_reassembly c)" "rs_fragmentTimeout (c_reassembly c) \<le> t'' - t"
  shows "\<exists>f1 f2 c1 c2 c3. splitMessage data k 0 = Inr [f1, f2] \<and>
    handleDecrypted lib t (header_enc (dataHeader FlagFragment i (q + 2)) @ f2) c = Inr (c1, []) \<and>
    handleDecrypted lib t' (header_enc (dataHeader 0 i (q + 3)) @ m) c1 = Inr (c2, []) \<and>
    handleDecrypted lib t'' (header_enc (dataHeader FlagFragment i (q + 1)) @ f1) c2 = Inr (c3, []) \<and>
    (let ch = c_channels c3 ! unat i
     in isAcked (q + 3) (ch_recvAck ch) (ch_recvAckField ch) \<and> ch_recvNextDeliver ch = q + 4 \<and> ch_recvBuffer ch = Some [])"
proof -
  let ?r = "c_channels c ! unat i" and ?h = "dataHeader FlagFragment i (q + 1)"
  obtain c1 f where c1: "handleDecrypted lib t (header_enc (dataHeader FlagFragment i (q + 2)) @ wire_fragment k 0 data 1) c = Inr (c1, [])"
    and ch: "c_channels c1 = (c_channels c)[unat i := ?r\<lparr>ch_recvAck := q + 2, ch_recvAckField := f, ch_needsAck := True,
       ch_recvBuffer := Some [(q + 2, Some [])]\<rparr>]" "\<not> bit f 0"
    and st: "c_reassembly c1 = pstate (c_reassembly c) k data 0 t {1}"
    by (rule second_fragment_first [OF i r fit])
  obtain c2 f' where c2: "handleDecrypted lib t' (header_enc (dataHeader 0 i (q + 3)) @ m) c1 = Inr (c2, [])"
    "length (c_channels c2) = length (c_channels c1)" "c_reassembly c2 = c_reassembly c1" "\<not> bit f' 1"
    and r2: "c_channels c2 ! unat i = ?r\<lparr>ch_recvAck := q + 3, ch_recvAckField := f', ch_needsAck := True,
       ch_recvBuffer := Some [(q + 2, Some []), (q + 3, Some m)]\<rparr>"
    by (rule message_waits [OF _ r ch(2), of i c1]) (use ch(1) i in simp_all)
  have i2: "unat i < length (c_channels c2)" using c2(2) ch(1) i by simp
  let ?r2 = "c_channels c2 ! unat i"
  obtain f'' where r3: "recordReceive (q + 1) ?r2 = (?r2\<lparr>ch_recvAckField := f'', ch_needsAck := True\<rparr>, True)"
    by (rule fill_gap [OF r, of ?r2]) (use c2(4) r2 in simp_all)
  let ?r3 = "?r2\<lparr>ch_recvAckField := f'', ch_needsAck := True\<rparr>" and ?s = "pstate (c_reassembly c) k data 0 t'' {0}"
  let ?r4 = "?r3\<lparr>ch_recvBuffer := Some [], ch_recvNextDeliver := q + 4\<rparr>" and ?c3 = "setChannel (unat i) ?r3 (c2\<lparr>c_lastRecv := t''\<rparr>)"
  have add: "addFragment t'' (c_reassembly ?c3) (frag_hdr k 0 (fragmentCount data) 0) (chunk data 0) = (?s, Inr None)"
    using addFragment_expired [OF fit(1), of "{1}" 0 t'' t 0] fit(2) time st c2(3) by (simp add: setChannel_def)
  have "deliver (q + 1) None ?r3 = Inr (?r4, [None, Some [], Some m])"
    by (rule drained(2)) (use r r2 in \<open>simp_all add: ready_def expects_def\<close>)
  then have d: "deliverTo i (q + 1) None (?c3\<lparr>c_reassembly := ?s\<rparr>) =
      Inr (setChannel (unat i) ?r4 (?c3\<lparr>c_reassembly := ?s\<rparr>), [None, Some [], Some m])"
    using i2 by (simp add: deliverTo_def setChannel_def)
  have "handleDecrypted lib t'' (header_enc ?h @ wire_fragment k 0 data 0) c2 = Inr (setChannel (unat i) ?r4 (?c3\<lparr>c_reassembly := ?s\<rparr>), [])"
    using d unfolding handleDecrypted_dataHeader [OF flags_simps(1) i2 r3] by (simp add: handleFragment_add [OF add])
  moreover have "c_channels (setChannel (unat i) ?r4 (?c3\<lparr>c_reassembly := ?s\<rparr>)) ! unat i = ?r4" using i2 by (simp add: setChannel_def)
  moreover have "isAcked (q + 3) (ch_recvAck ?r4) (ch_recvAckField ?r4)" using r2 by (simp add: isAcked_def)
  moreover have "splitMessage data k 0 = Inr [wire_fragment k 0 data 0, wire_fragment k 0 data 1]"
    using split_fragments [of data k 0] fit by (simp add: fits_def upt_conv_Cons)
  ultimately show ?thesis using c1 c2(1) by (fastforce simp: Let_def)
qed

text \<open>C21. A failed write leaves a hole. When the socket refuses the first packet of an ordered channel,
  \<open>SendImmediate\<close> returns the error, but the sequence number is used up and the packet is not
  queued for retransmission. Whatever is sent afterwards has other numbers, and a receiver that never gets
  number 1 never delivers anything on this channel.\<close>

theorem failed_write_blocks_channel:
  assumes "c_state c = StateConnected" "unat i < length (c_channels c)" "ch_sendSeq (c_channels c ! unat i) = 0"
    and "c_compress c = Some pool" "compressPayload lib pool data = Inr (payload, 0)" "length payload \<le> MaxFragmentPayload"
    and "\<And>s d. sf s d = (s, Some e)" "Mode d = ReliableOrdered" "no_wrap (set seqs)" "1 \<notin> set seqs"
  shows "\<exists>c' ch acc. SendImmediate lib (Some sf) data i now (c, u) = ((c', u), Some e) \<and>
    snd (nextSequence (c_channels c' ! unat i)) = 2 \<and> ch_pendingSend (c_channels c' ! unat i) = ch_pendingSend (c_channels c ! unat i) \<and>
    receivePackets f seqs (newChannel w d) = Inr (ch, acc, [])"
proof -
  let ?c = "c\<lparr>c_skipBatch := True\<rparr>"
  obtain k where "sendPacket sf 0 i payload now (?c, u) =
    ((?c\<lparr>c_channels := (c_channels c)[unat i := (c_channels c ! unat i)\<lparr>ch_sendSeq := 1\<rparr>], c_sendCipher := k\<rparr>, u), Some e)"
    using sendPacket_fails [of i ?c sf e 0 payload now u] assms(2,3,7) by auto
  then have "SendImmediate lib (Some sf) data i now (c, u) =
    ((c\<lparr>c_channels := (c_channels c)[unat i := (c_channels c ! unat i)\<lparr>ch_sendSeq := 1\<rparr>], c_sendCipher := k, c_skipBatch := False\<rparr>, u), Some e)"
    using assms(1,2,4-6) by (simp add: SendImmediate_def sendMessage_def conn_channel_def sendSinglePacket_def Let_def)
  moreover obtain ch acc where "receivePackets f seqs (newChannel w d) = Inr (ch, acc, [])"
    using nothing_delivered [OF assms(8-10)] by blast
  ultimately show ?thesis using assms(2) by (auto simp: nextSequence_def)
qed

section \<open>Witnesses\<close>

text \<open>Channel 0 of a new connection, and a message of two fragments.\<close>

definition demo_data :: bytes where "demo_data = replicate 2000 7"

lemma demo_channel:
  "unat (0 :: byte) < length (c_channels demo_conn)" "ready 0 (c_channels demo_conn ! unat (0 :: byte))"
  "ch_sendSeq (c_channels demo_conn ! unat (0 :: byte)) = 0" "c_state demo_conn = StateConnected"
  "c_compress demo_conn = Some demo_pool" "compressPayload lib demo_pool d = Inr (d, 0)"
  by (simp_all add: demo_conn_def newConnection_def Let_def newChannels_def DefaultChannelLayout_def newChannel_def ready_def expects_def
      clientSettings_def DefaultClientConfig_def or_default_def DefaultMaxReorderWindow_def demo_compatible(2) compressPayload_def demo_pool_def
      ReliableOrdered_def)

lemma demo_fits:
  "fits (c_reassembly demo_conn) 1 demo_data" "fragmentCount demo_data = 2" "rs_fragmentTimeout (c_reassembly demo_conn) = 5 * second"
  by (simp_all add: demo_conn_def newConnection_def Let_def newReassemblyStore_def fits_def demo_data_def clientSettings_def
      DefaultClientConfig_def or_default_def DefaultMaxReassemblyBuffers_def DefaultMaxReassemblyBytes_def DefaultFragmentTimeout_def
      fragmentCount_def MaxFragmentPayload_val)

theorem reordered_fragments_extra_message_witness:
  "\<exists>f1 f2 c1 c2. splitMessage demo_data 1 0 = Inr [f1, f2] \<and>
    handleDecrypted toy_comp 0 (header_enc (dataHeader FlagFragment 0 (0 + 2)) @ f2) demo_conn = Inr (c1, []) \<and>
    handleDecrypted toy_comp 1 (header_enc (dataHeader FlagFragment 0 (0 + 1)) @ f1) c1 = Inr (c2, [OnMessage demo_data 0, OnMessage [] 0])"
  by (rule reordered_fragments_extra_message [OF demo_channel(1,2) demo_fits(1,2)]) (simp add: demo_fits(3) second_def)

theorem late_fragment_loses_message_witness:
  "\<exists>f1 f2 c1 c2 c3. splitMessage demo_data 1 0 = Inr [f1, f2] \<and>
    handleDecrypted toy_comp 0 (header_enc (dataHeader FlagFragment 0 (0 + 2)) @ f2) demo_conn = Inr (c1, []) \<and>
    handleDecrypted toy_comp 1 (header_enc (dataHeader 0 0 (0 + 3)) @ [42]) c1 = Inr (c2, []) \<and>
    handleDecrypted toy_comp (6 * second) (header_enc (dataHeader FlagFragment 0 (0 + 1)) @ f1) c2 = Inr (c3, [])"
  using late_fragment_loses_message [OF demo_channel(1,2) demo_fits(1,2), of "6 * second" 0 toy_comp 1 "[42]"]
  by (simp add: demo_fits(3) second_def) blast

theorem failed_write_blocks_channel_witness:
  "\<exists>c' ch acc. SendImmediate toy_comp (Some (\<lambda>s d. (s, Some ErrOther))) [1, 2] 0 0 (demo_conn, ()) = ((c', ()), Some ErrOther) \<and>
    receivePackets (\<lambda>_. Some [3]) [2, 3, 4] (newChannel 1024 \<lparr>Mode = ReliableOrdered, StreamIndex = 0\<rparr>) = Inr (ch, acc, [])"
  using failed_write_blocks_channel [OF demo_channel(4,1,3,5,6), where sf = "\<lambda>s d. (s, Some ErrOther)" and e = ErrOther and
      d = "\<lparr>Mode = ReliableOrdered, StreamIndex = 0\<rparr>" and seqs = "[2, 3, 4]" and data = "[1, 2]" and f = "\<lambda>_. Some [3]" and w = 1024 and
      lib = toy_comp and now = 0 and u = "()"]
  by (auto simp: no_wrap_def MaxFragmentPayload_val)

end
