(* ===== verification/Reliability.thy ===== *)
theory Reliability
  imports Delivery
begin

text \<open>
  The limits of a channel's guarantees and its retransmission queue: when an ordered channel is
  sure to deliver everything, when it can never deliver again, what the other modes deliver,
  and how acknowledgements and timeouts change the queue.
\<close>

section \<open>Progress of ordered channels\<close>

text \<open>No packet arrives for the first time after one that is more than 32 ahead of it; \<open>A\<close> has
  arrived before.\<close>

fun reorder_ok :: "u32 set \<Rightarrow> u32 list \<Rightarrow> bool" where
  "reorder_ok A [] \<longleftrightarrow> True"
| "reorder_ok A (s # ss) \<longleftrightarrow> (s \<in> A \<or> highest A \<le> unat s + 32) \<and> reorder_ok (insert s A) ss"

lemma reorder_ok_later:
  "reorder_ok A ss \<Longrightarrow> t \<in> set ss \<Longrightarrow> t \<notin> A \<Longrightarrow> highest A \<le> unat t + 32"
proof (induction ss arbitrary: A)
  case (Cons s ss)
  have mono: "highest A \<le> highest (insert s A)" by (simp add: highest_insert)
  show ?case
  proof (cases "t = s")
    case True
    then show ?thesis using Cons.prems by auto
  next
    case False
    then have "highest (insert s A) \<le> unat t + 32"
      using Cons.IH [of "insert s A"] Cons.prems by auto
    with mono show ?thesis by linarith
  qed
qed simp

lemma next_not_accepted:
  assumes "ordered_inv f A ch"
  shows "ch_recvNextDeliver ch \<notin> A" "s \<noteq> 0 \<Longrightarrow> s < ch_recvNextDeliver ch \<Longrightarrow> s \<in> A"
proof -
  obtain buf where A: "\<forall>s. s \<in> A \<longleftrightarrow> s \<noteq> 0 \<and> s < ch_recvNextDeliver ch \<or> map_of buf s \<noteq> None"
    and above: "\<forall>s v. map_of buf s = Some v \<longrightarrow> ch_recvNextDeliver ch < s \<and> delivered_as (f s) v \<and>
        (ch_maxReorderWindow ch = 0 \<or> unat s < unat (ch_recvNextDeliver ch) + unat (ch_maxReorderWindow ch))"
    using assms unfolding ordered_inv_def by - (elim conjE exE, rule that)
  have "map_of buf (ch_recvNextDeliver ch) = None"
  proof (rule ccontr)
    assume "map_of buf (ch_recvNextDeliver ch) \<noteq> None"
    then obtain v where "map_of buf (ch_recvNextDeliver ch) = Some v" by blast
    then have "ch_recvNextDeliver ch < ch_recvNextDeliver ch" using above by blast
    then show False by simp
  qed
  then show "ch_recvNextDeliver ch \<notin> A" using A by simp
  show "s \<noteq> 0 \<Longrightarrow> s < ch_recvNextDeliver ch \<Longrightarrow> s \<in> A" using A by simp
qed

lemma progress_run:
  assumes "ordered_inv f A ch" "no_wrap (A \<union> set seqs)" "reorder_ok A seqs" "0 \<notin> set seqs"
    and "ch_maxReorderWindow ch = 0 \<or> 33 \<le> unat (ch_maxReorderWindow ch)"
    and "\<And>s. s \<noteq> 0 \<Longrightarrow> unat s \<le> highest (A \<union> set seqs) \<Longrightarrow> s \<in> A \<union> set seqs"
    and "receivePackets f seqs ch = Inr (ch', acc, ms)"
  shows "A \<union> set acc = A \<union> set seqs"
  using assms
proof (induction seqs arbitrary: A ch acc ms)
  case (Cons seq seqs)
  have tr: "tracks ch A" using Cons.prems(1) by (simp add: ordered_inv_def)
  have ro: "reorder_ok (insert seq A) seqs" using Cons.prems(3) by simp
  have un: "insert seq A \<union> set seqs = A \<union> set (seq # seqs)" by auto
  show ?case
  proof (cases "seq \<in> A")
    case True
    then have "\<not> (in_window ch seq \<and> fresh A seq)" by (simp add: fresh_def)
    then have rest: "receivePackets f seqs ch = Inr (ch', acc, ms)"
      using receivePackets_Cons_reject [OF tr] Cons.prems(7) by simp
    have ab: "insert seq A = A" "A \<union> set seqs = A \<union> set (seq # seqs)" using True by auto
    then have "A \<union> set acc = A \<union> set seqs"
      by (intro Cons.IH [OF Cons.prems(1) _ _ _ Cons.prems(5) _ rest]) (use Cons.prems(2-4,6) in simp_all)
    then show ?thesis by (simp only: ab)
  next
    case False
    then have fr: "fresh A seq" using Cons.prems(3,4) by (simp add: fresh_def)
    have win: "in_window ch seq"
    proof (rule ccontr)
      let ?n = "ch_recvNextDeliver ch"
      assume "\<not> in_window ch seq"
      then have far: "?n \<le> seq" "ch_maxReorderWindow ch \<noteq> 0" "ch_maxReorderWindow ch \<le> seq - ?n"
        by (auto simp: in_window_def not_less)
      then have "unat ?n + 33 \<le> unat seq"
        using Cons.prems(5) unat_diff [OF far(1)] by (auto simp: word_le_nat_alt)
      moreover have "unat seq \<le> highest (A \<union> set (seq # seqs))" by (simp add: highest_ge)
      moreover have "?n \<noteq> 0" using Cons.prems(1) by (simp add: ordered_inv_def)
      ultimately have "?n \<in> A \<union> set (seq # seqs)" using Cons.prems(6) [of ?n] by linarith
      moreover have "?n \<noteq> seq" using \<open>unat ?n + 33 \<le> unat seq\<close> by auto
      ultimately have "?n \<in> set seqs" "?n \<notin> insert seq A"
        using next_not_accepted(1) [OF Cons.prems(1)] by auto
      then have "highest (insert seq A) \<le> unat ?n + 32" using reorder_ok_later [OF ro] by blast
      moreover have "unat seq \<le> highest (insert seq A)" by (simp add: highest_ge)
      ultimately show False using \<open>unat ?n + 33 \<le> unat seq\<close> by linarith
    qed
    obtain ch2 ms1 where st: "deliver seq (f seq) (fst (recordReceive seq ch)) = Inr (ch2, ms1)"
      "ordered_inv f (insert seq A) ch2" "ch_maxReorderWindow ch2 = ch_maxReorderWindow ch"
      using ordered_step [OF Cons.prems(1) win fr] Cons.prems(2) by (auto simp: no_wrap_def)
    obtain acc' ms' where rest: "receivePackets f seqs ch2 = Inr (ch', acc', ms')" "acc = seq # acc'"
      using receivePackets_Cons_accept(1) [of ch A seq f ch2 ms1 seqs, OF tr win fr st(1)] Cons.prems(7)
      by (auto split: sum.splits prod.splits)
    have "insert seq A \<union> set acc' = insert seq A \<union> set seqs"
      by (rule Cons.IH [OF st(2) _ ro _ _ _ rest(1)]) (use Cons.prems st(3) un in auto)
    then show ?thesis using rest(2) by auto
  qed
qed simp

text \<open>C28. An ordered channel makes progress as long as reordering is mild: when the packets
  1 to \<open>n\<close> all arrive, with any repetitions, and none arrives for the first time after one more
  than 32 ahead of it, then all of them are delivered, in order, for every receive window of at
  least 33 packets (or none).\<close>

theorem ordered_delivery_complete:
  assumes "Mode d = ReliableOrdered" "w = 0 \<or> 33 \<le> unat w" "n < 2 ^ 32 - 1"
    and "unat ` set seqs = {1..n}" "reorder_ok {} seqs"
  shows "\<exists>ch acc ms. receivePackets f seqs (newChannel w d) = Inr (ch, acc, ms) \<and>
     length ms = n \<and> in_order f 1 ms"
proof -
  have nw: "no_wrap (set seqs)"
  proof -
    have "unat s \<le> n" if "s \<in> set seqs" for s using that assms(4) by (metis atLeastAtMost_iff imageI)
    then show ?thesis unfolding no_wrap_def using assms(3) by (meson le_less_trans)
  qed
  have z: "0 \<notin> set seqs" using assms(4) by (metis atLeastAtMost_iff imageI not_one_le_zero unat_0)
  obtain ch acc ms where run: "receivePackets f seqs (newChannel w d) = Inr (ch, acc, ms)"
    "ordered_inv f (set acc) ch" "unat (ch_recvNextDeliver ch) = Suc (length ms)" "in_order f 1 ms"
    using ordered_run [OF ordered_inv_new [OF assms(1)] _ nw, of f w]
    by (auto simp: no_wrap_def newChannel_def)
  have full: "s \<in> set seqs" if "s \<noteq> 0" "unat s \<le> highest (set seqs)" for s
  proof -
    have "highest (set seqs) \<le> n" unfolding highest_def using assms(4) by simp
    then have "unat s \<in> unat ` set seqs" using that assms(4) by (simp add: Suc_le_eq unat_gt_0)
    then show ?thesis by (metis image_iff word_unat_eq_iff)
  qed
  have acc: "set acc = set seqs"
    using progress_run [OF ordered_inv_new [OF assms(1)] _ assms(5) z _ _ run(1)] nw assms(2) full
    by (auto simp: newChannel_def)
  let ?m = "ch_recvNextDeliver ch"
  have "unat ?m \<notin> {1..n}"
    using next_not_accepted(1) [OF run(2)] acc assms(4) by (metis image_iff word_unat_eq_iff)
  then have "n \<le> length ms" using run(3) by simp
  moreover have "length ms \<le> n"
  proof (rule ccontr)
    assume "\<not> length ms \<le> n"
    then have "of_nat (Suc n) < ?m" "unat (of_nat (Suc n) :: u32) = Suc n"
      using run(3) assms(3) by (simp_all add: word_less_nat_alt unsigned_of_nat take_bit_nat_eq_self del: of_nat_Suc)
    then have "of_nat (Suc n) \<in> set acc"
      using next_not_accepted(2) [OF run(2)] by (metis nat.distinct(1) unat_0)
    then show False
      using acc assms(4) \<open>unat (of_nat (Suc n) :: u32) = Suc n\<close> by (metis atLeastAtMost_iff imageI not_less_eq_eq order_refl)
  qed
  ultimately show ?thesis using run by (metis le_antisym)
qed

section \<open>Stall of ordered channels\<close>

text \<open>C33. An ordered channel that has accepted a packet more than 32 ahead of the next one to
  deliver is stuck for good, although the receive window (1024 by default) admits such packets:
  whatever arrives afterwards, retransmissions of the missing packet included, nothing is ever
  delivered again, and the missing packet is never acknowledged to its sender.\<close>

theorem ordered_channel_stalls:
  assumes "Mode d = ReliableOrdered" "no_wrap (set seqs \<union> set later)"
    and "receivePackets f seqs (newChannel w d) = Inr (ch, acc, ms)"
    and "unat (ch_recvNextDeliver ch) + 32 < highest (set acc)"
  shows "\<exists>ch' acc'. receivePackets f later ch = Inr (ch', acc', []) \<and>
     ch_recvNextDeliver ch' = ch_recvNextDeliver ch \<and>
     \<not> isAcked (ch_recvNextDeliver ch) (ch_recvAck ch') (ch_recvAckField ch')"
proof -
  let ?n = "ch_recvNextDeliver ch"
  have inv: "ordered_inv f (set acc) ch" "no_wrap (set acc)" "no_wrap (set later)"
    using ordered_run [OF ordered_inv_new [OF assms(1)], of seqs f w] assms(2,3) by (auto simp: no_wrap_def)
  have tr: "tracks ch (set acc)" and n0: "?n \<noteq> 0" using inv(1) by (simp_all add: ordered_inv_def)
  obtain ch' acc' ms' where run: "receivePackets f later ch = Inr (ch', acc', ms')"
    "ordered_inv f (set acc \<union> set acc') ch'" "unat (ch_recvNextDeliver ch') = unat ?n + length ms'"
    using ordered_run [OF inv] by blast
  have "?n \<notin> set acc'" using receivePackets_tracks [OF run(1) tr] assms(4) by (meson not_le)
  then have out: "?n \<notin> set acc \<union> set acc'" using next_not_accepted(1) [OF inv(1)] by simp
  have "ms' = []"
  proof (rule ccontr)
    assume "ms' \<noteq> []"
    then have "?n < ch_recvNextDeliver ch'" using run(3) by (simp add: word_less_nat_alt)
    with next_not_accepted(2) [OF run(2) n0] out show False by blast
  qed
  moreover have "\<not> isAcked ?n (ch_recvAck ch') (ch_recvAckField ch')"
    using isAcked_tracks [of ch' "set acc \<union> set acc'" ?n] run(2) n0 out
    by (simp add: ordered_inv_def ackState_def)
  ultimately show ?thesis using run by (auto simp: word_unat_eq_iff)
qed

theorem ordered_channel_stalls_witness:
  "\<exists>ch. receivePackets (\<lambda>_. Some [7]) [35] (newChannel 1024 \<lparr>Mode = ReliableOrdered, StreamIndex = 0\<rparr>) =
       Inr (ch, [35], []) \<and>
     (\<exists>ch' acc'. receivePackets (\<lambda>_. Some [7]) [1, 2, 1] ch = Inr (ch', acc', []))"
proof -
  obtain ch where run: "receivePackets (\<lambda>_. Some [7]) [35] (newChannel 1024 \<lparr>Mode = ReliableOrdered, StreamIndex = 0\<rparr>) =
      Inr (ch, [35], [])" and nxt: "ch_recvNextDeliver ch = 1"
    by (simp add: recordReceive_def newChannel_def deliver_def mode_defs deliverReliableOrdered_def Let_def drain.simps)
  have "unat (ch_recvNextDeliver ch) + 32 < highest (set [35 :: u32])"
    by (simp add: nxt highest_def)
  with ordered_channel_stalls [OF _ _ run, of "[1, 2, 1]"] run show ?thesis
    by (auto simp: no_wrap_def)
qed

theorem ordered_delivery_complete_witness:
  "\<exists>ch acc ms. receivePackets (\<lambda>s. Some [ucast s]) [2, 1, 2, 3]
     (newChannel 33 \<lparr>Mode = ReliableOrdered, StreamIndex = 0\<rparr>) = Inr (ch, acc, ms) \<and>
     length ms = 3 \<and> in_order (\<lambda>s. Some [ucast s]) 1 ms"
proof -
  have "unat ` set [2, 1, 2, 3 :: u32] = {1..3}" by auto
  moreover have "reorder_ok {} [2, 1, 2, 3]" by (simp add: highest_def)
  ultimately show ?thesis
    using ordered_delivery_complete [of "\<lparr>Mode = ReliableOrdered, StreamIndex = 0\<rparr>" 33 3 "[2, 1, 2, 3]"]
    by simp
qed

section \<open>The other delivery modes\<close>

text \<open>The elements that exceed \<open>m\<close> and everything before them.\<close>

fun newer :: "u32 \<Rightarrow> u32 list \<Rightarrow> u32 list" where
  "newer m [] = []"
| "newer m (s # ss) = (if m < s then s # newer s ss else newer m ss)"

lemma newer_sorted: "sorted_wrt (<) (newer m ss) \<and> (\<forall>s \<in> set (newer m ss). m < s)"
  by (induction ss arbitrary: m) (auto intro: less_trans)

definition delivers :: "(u32 \<Rightarrow> bytes option) \<Rightarrow> channel \<Rightarrow> u32 list \<Rightarrow> bytes option list" where
  "delivers f ch acc =
     (if ch_mode ch = UnreliableSequenced then map f (newer (ch_lastRecvSeq ch) acc)
      else if ch_mode ch \<in> {ReliableUnordered, Unreliable} then map f acc else [])"

lemma deliver_unordered:
  assumes "ch_mode ch \<noteq> ReliableOrdered"
  shows "\<exists>ch'. deliver seq p ch = Inr (ch', if ch_mode ch \<in> {ReliableUnordered, Unreliable} \<or>
      ch_mode ch = UnreliableSequenced \<and> ch_lastRecvSeq ch < seq then [p] else []) \<and>
    ch_mode ch' = ch_mode ch \<and>
    (ch_mode ch = UnreliableSequenced \<longrightarrow> ch_lastRecvSeq ch' = max (ch_lastRecvSeq ch) seq)"
  using assms by (auto simp: deliver_def mode_defs deliverReliableUnordered_def deliverUnreliable_def
      deliverUnreliableSequenced_def max_def)

lemma receivePackets_unordered:
  "ch_mode ch \<noteq> ReliableOrdered \<Longrightarrow>
     \<exists>ch' acc. receivePackets f seqs ch = Inr (ch', acc, delivers f ch acc)"
proof (induction seqs arbitrary: ch)
  case Nil
  then show ?case by (simp add: delivers_def)
next
  case (Cons seq seqs)
  let ?r = "recordReceive seq ch"
  show ?case
  proof (cases "snd ?r")
    case False
    then have "fst ?r = ch" using recordReceive_frame_ex [of seq ch] by blast
    with False Cons show ?thesis by (simp add: split_beta)
  next
    case True
    obtain ch2 where d: "deliver seq (f seq) (fst ?r) = Inr (ch2, if ch_mode ch \<in> {ReliableUnordered, Unreliable} \<or>
        ch_mode ch = UnreliableSequenced \<and> ch_lastRecvSeq ch < seq then [f seq] else [])"
      "ch_mode ch2 = ch_mode ch" "ch_mode ch = UnreliableSequenced \<longrightarrow> ch_lastRecvSeq ch2 = max (ch_lastRecvSeq ch) seq"
      using deliver_unordered [of "fst ?r" seq "f seq"] Cons.prems by auto
    obtain ch' acc where rest: "receivePackets f seqs ch2 = Inr (ch', acc, delivers f ch2 acc)"
      using Cons.IH [of ch2] Cons.prems d(2) by auto
    have "(if ch_mode ch \<in> {ReliableUnordered, Unreliable} \<or> ch_mode ch = UnreliableSequenced \<and> ch_lastRecvSeq ch < seq
        then [f seq] else []) @ delivers f ch2 acc = delivers f ch (seq # acc)"
      using d(2,3) by (auto simp: delivers_def max_def mode_defs not_le)
    then show ?thesis using True d(1) rest by (auto simp: split_beta)
  qed
qed

text \<open>The other modes. Whatever arrives on a new channel that is not ordered, the receive
  path does not fail; reliable-unordered and unreliable channels deliver every accepted packet
  at once, in order of arrival; a sequenced channel delivers exactly the packets newer than
  all that came before, so the delivered sequence numbers strictly increase; a channel of an
  unknown mode delivers nothing.\<close>

theorem unordered_delivery:
  assumes "Mode d \<noteq> ReliableOrdered"
  shows "\<exists>ch acc ms. receivePackets f seqs (newChannel w d) = Inr (ch, acc, ms) \<and>
    (Mode d \<in> {ReliableUnordered, Unreliable} \<longrightarrow> ms = map f acc) \<and>
    (Mode d = UnreliableSequenced \<longrightarrow> ms = map f (newer 0 acc) \<and> sorted_wrt (<) (newer 0 acc)) \<and>
    (Mode d \<notin> {ReliableUnordered, Unreliable, UnreliableSequenced} \<longrightarrow> ms = [])"
  using receivePackets_unordered [of "newChannel w d" f seqs] assms newer_sorted
  by (auto simp: newChannel_def delivers_def mode_defs)

theorem unordered_delivery_witness:
  "\<exists>ch acc ms. receivePackets (\<lambda>s. Some [ucast s]) [2, 1, 3]
     (newChannel 0 \<lparr>Mode = UnreliableSequenced, StreamIndex = 0\<rparr>) = Inr (ch, acc, ms) \<and>
     ms = map (\<lambda>s. Some [ucast s]) (newer 0 acc)"
  using unordered_delivery [of "\<lparr>Mode = UnreliableSequenced, StreamIndex = 0\<rparr>"]
  by (fastforce simp: mode_defs)

section \<open>The retransmission queue\<close>

text \<open>C31. Acknowledgement processing: the acked packets, and no others, leave the queue, the rest
  keep their order, the counter stays equal to the length of the queue, the acked sequence
  numbers are returned in queue order, and the round-trip estimator is fed exactly one sample
  per acked packet that was never retransmitted (Karn's algorithm).\<close>

theorem process_acks_exact:
  assumes "wf_queue ch" "ack \<noteq> 0"
    and "processAcks now ack field (Some r) ch = (ch', Some r', acked)"
  shows "ch_pendingSend ch' = filter (\<lambda>p. \<not> isAcked (pp_sequence p) ack field) (ch_pendingSend ch) \<and>
    wf_queue ch' \<and>
    acked = map pp_sequence (filter (\<lambda>p. isAcked (pp_sequence p) ack field) (ch_pendingSend ch)) \<and>
    r' = fold AddSample (map (\<lambda>p. now - pp_sendTime p)
      (filter (\<lambda>p. isAcked (pp_sequence p) ack field \<and> pp_firstTransmit p) (ch_pendingSend ch))) r"
  using assms(3) unfolding processAcks_spec [OF assms(1,2)]
  by (auto simp: wf_queue_def rtt_samples_def acked_packet_def [abs_def] conj_commute)

definition sample_packet :: "u32 \<Rightarrow> bool \<Rightarrow> pendingPacket" where
  "sample_packet seq first = \<lparr>pp_raw = [], pp_sendTime = 5, pp_retransmitCount = 0, pp_nextRetransmit = 100,
     pp_firstTransmit = first, pp_sequence = seq\<rparr>"

definition sample_channel :: channel where
  "sample_channel = (newChannel 0 \<lparr>Mode = ReliableUnordered, StreamIndex = 0\<rparr>)
     \<lparr>ch_pendingSend := [sample_packet 1 True, sample_packet 2 False], ch_pending := 2\<rparr>"

theorem process_acks_exact_witness:
  "snd (snd (processAcks 30 1 0 (Some rtt_New) sample_channel)) = [1]"
proof -
  obtain ch' r' acked where run: "processAcks 30 1 0 (Some rtt_New) sample_channel = (ch', Some r', acked)"
    by (simp add: processAcks_def sample_channel_def sample_packet_def isAcked_def)
  have "wf_queue sample_channel" by (simp add: wf_queue_def sample_channel_def)
  from process_acks_exact [OF this _ run] run show ?thesis
    by (simp add: sample_channel_def sample_packet_def isAcked_def)
qed

text \<open>C32. Retransmission: the connection is killed if and only if some packet that is due has
  used up its retries; otherwise exactly the due packets are returned for sending, in queue
  order, each with its retry count increased, its next retransmission set one timeout ahead
  and its mark of a first transmission cleared, and all other packets are untouched.\<close>

theorem retransmission_exact:
  assumes "checkRetransmissions now rto m ch = (ch', rs, kill)"
  shows "(kill \<longleftrightarrow> (\<exists>p \<in> set (ch_pendingSend ch). due now p \<and> m \<le> pp_retransmitCount p)) \<and>
    (kill \<longrightarrow> rs = []) \<and>
    (\<not> kill \<longrightarrow> rs = map (resent now rto) (filter (due now) (ch_pendingSend ch)) \<and>
       ch_pendingSend ch' = map (\<lambda>p. if due now p then resent now rto p else p) (ch_pendingSend ch)) \<and>
    map pp_sequence (ch_pendingSend ch') = map pp_sequence (ch_pendingSend ch)"
proof -
  obtain ps' rs' k where loop: "retransmitLoop now rto m (ch_pendingSend ch) = (ps', rs', k)"
    by (cases "retransmitLoop now rto m (ch_pendingSend ch)")
  with assms have "ch_pendingSend ch' = ps'" "rs = (if k then [] else rs')" "kill = k"
    by (auto simp: checkRetransmissions_def)
  with retransmitLoop_spec [OF loop] show ?thesis by auto
qed

theorem retransmission_exact_witness:
  "\<not> snd (snd (checkRetransmissions 200 50 15 sample_channel)) \<and>
   fst (snd (checkRetransmissions 200 50 15 sample_channel)) =
     [resent 200 50 (sample_packet 1 True), resent 200 50 (sample_packet 2 False)]"
proof -
  obtain ch' rs k where run: "checkRetransmissions 200 50 15 sample_channel = (ch', rs, k)"
    by (cases "checkRetransmissions 200 50 15 sample_channel")
  from retransmission_exact [OF run] run show ?thesis
    by (simp add: sample_channel_def sample_packet_def due_def)
qed

end
