(* ===== verification/Spec2Isabelle.thy ===== *)
theory Spec2Isabelle
  imports Loops Shutdown PooledServer ServerLife Chat Reordering Reliability
begin

text \<open>
  FastWire is a Go library for a secure, connection-oriented message protocol over UDP. This
  development translates its packages into HOL and proves what the two ends of a connection can
  rely on, and where they cannot. Source paths are relative to \<open>src/\<close>.

  \<^bold>\<open>The program and its model.\<close> A message handed to \<open>Connection.Send\<close> waits in a queue until the
  next tick (or is sent at once by \<open>SendImmediate\<close>), is compressed, cut into fragments, given a
  header with a sequence number and acknowledgements, encrypted, perhaps packed with others into
  a batch, and written to the socket. A read loop puts every datagram into a channel; the tick
  takes it from there, finds the connection (by address, then by migration token), undoes these
  steps and calls the user's handler. The theories follow these layers, from below:

    \<^item> \<open>FW_Prelude\<close>: integers, byte slices, the sentinel errors (\<open>errors.go\<close>) and the interfaces
      \<open>prefix_codec\<close>, \<open>buffer_codec\<close>, \<open>invariant_machine\<close> and \<open>keyed_table\<close>.
    \<^item> \<open>Wire\<close> (\<open>wire.go\<close>), \<open>Packet\<close> (\<open>packet.go\<close>), \<open>Fragment\<close> and \<open>Reassembly\<close> (\<open>fragment.go\<close>), \<open>Batch\<close>
      (\<open>batch.go\<close>), \<open>Control\<close> (first half of \<open>handshake.go\<close>), \<open>Compress\<close> (\<open>compress.go\<close>): the formats, each
      writer with its reader.
    \<^item> \<open>Replay\<close> and \<open>Cipher\<close> (\<open>crypto/\<close>): the replay window, encryption, key derivation.
    \<^item> \<open>Rtt\<close> (\<open>internal/rtt\<close>, \<open>internal/bandwidth\<close>), \<open>Loss\<close> (\<open>internal/stats\<close>), \<open>Congestion\<close>
      (\<open>internal/congestion\<close>), \<open>Config\<close> (\<open>config.go\<close>), \<open>Limiter\<close> and \<open>Tables\<close> (the rate limiter and the
      tables of \<open>server.go\<close>, and \<open>migrate.go\<close>).
    \<^item> \<open>Channel\<close>, with \<open>Delivery\<close> and \<open>Reliability\<close> for its guarantees (\<open>channel.go\<close>).
    \<^item> \<open>Connection\<close> (\<open>connection.go\<close>): the record of a connection and the send pipeline. \<open>Pipeline\<close>: the
      receive pipeline and \<open>tickConnection\<close>, which \<open>server.go\<close> and \<open>client.go\<close> have in two copies.
      \<open>Lifecycle\<close>: their invariant. \<open>EndToEnd\<close>: a sender and a receiver together.
    \<^item> \<open>Handshake\<close> (second half of \<open>handshake.go\<close>), \<open>Server\<close> with \<open>ServerSafety\<close> (\<open>server.go\<close>), \<open>Client\<close>
      (\<open>client.go\<close>).
    \<^item> \<open>Session\<close>: client and server together; \<open>Reordering\<close>: packets out of order and failed writes;
      \<open>Loops\<close>: the goroutines around the server and the client; \<open>Shutdown\<close>: starting and stopping them.
    \<^item> \<open>BufferPool\<close> (\<open>pool.go\<close>): slices in a store of arrays, \<open>sync.Pool\<close>, and who owns a buffer.
      \<open>PooledSend\<close> and \<open>PooledTick\<close>: the send path, the acknowledgements, the tick and the release of
      buffers again, over this store. \<open>PooledNet\<close>: the three send functions. \<open>PooledServer\<close>: all
      connections of a server over one pool, and an application that uses the pool, too.
    \<^item> \<open>ServerLife\<close>: the connections of a server over all its operations, \<open>Stop\<close> included.
    \<^item> \<open>Chat\<close>: the programs under \<open>examples/chat\<close>.

  Definitions have the names of the Go functions; a method whose name is taken has a prefix
  (\<open>client_tick\<close>, \<open>conns_get\<close>). Record fields have the field's name behind a short prefix of the type
  (\<open>c_lastSend\<close> for \<open>Connection.lastSend\<close>, \<open>s_pending\<close> for \<open>Server.pending\<close>).

  \<^bold>\<open>How the code is represented.\<close>

    \<^item> State: a struct is a record and a method a function on it. The mutexes make methods
      atomic, so interleaving is modelled where the code has it, between the read loops, the tick
      and the write loop (\<open>loop_step\<close>, \<open>sendWrite\<close>), and between all goroutines at shutdown
      (\<open>loops_step\<close>). The server's tables point to shared connections: the model has a heap of
      connections, and the tables hold indices.
    \<^item> Errors: a fallible function returns \<open>fw_error + 'a\<close>. A panic of the code is an \<open>Inl\<close> too (a nil
      map written, a nil function called, a slice bound exceeded), so that freedom from panics is a
      statement about the result. An error that Go wraps or takes over from a library is \<open>ErrOther\<close>.
    \<^item> Callbacks: the pipelines return a list of effects, in the order in which the code calls the
      handler or removes the connection; server and client apply them. The handler observes and
      does not call back.
    \<^item> Integers have their width (\<open>byte\<close>, \<open>u16\<close>, \<open>u32\<close>, \<open>u64\<close> are words) and wrap as in Go; \<open>int\<close> counters
      that stay far from their limits are \<open>int\<close> or \<open>nat\<close>. \<open>float64\<close> is \<open>real\<close>, a duration an integer of
      nanoseconds, and \<open>time.Now()\<close> an argument, one for a whole step.
    \<^item> Buffers: a slice is a list; a pooled buffer is one of zeros, since the code overwrites whatever
      it later reads. The functions with the prefix \<open>pool_\<close> are the same code with the pool: a slice is
      a reference to an array, \<open>sync.Pool\<close> hands out any returned buffer (a list of choices is an
      argument), and the two versions are proved equal. A slice that may be nil where that matters
      is an option.
    \<^item> Code outside the repository is a parameter: the AEADs, X25519, HKDF and SHA-256 (\<open>crypto_lib\<close>),
      LZ4 and Zstandard (\<open>comp_lib\<close>), random bytes, sockets. What is assumed of them are named
      predicates: \<open>aead_ok\<close> (\<open>Open\<close> inverts \<open>Seal\<close>, which adds the tag), \<open>ecdh_agrees\<close> (both ends of an exchange
      compute the same secret), \<open>comp_lib_ok\<close> (decompression inverts compression) and \<open>pool_ok\<close> (the
      configured compressor can be built). The witnesses instantiate them with concrete functions.
    \<^item> Loops are recursive functions, structural or with a termination proof (\<open>put_leb\<close>, \<open>read_leb\<close>,
      \<open>drain\<close>, \<open>drainWriteCh\<close>); none uses fuel. The loop of a tick that takes packets while others arrive
      need not end, and is a step relation.

  \<^bold>\<open>What is shown.\<close>

    \<^item> Formats: every writer followed by its reader gives the value back, with the exact conditions
      under which the writer fails (\<open>multi_ack_roundtrip\<close>, \<open>varint_reads_value\<close>, and the interpretations
      of \<open>buffer_codec\<close> and \<open>control_codec\<close>); a message comes out of its fragments in whatever order
      and with whatever duplicates they arrive (\<open>reassembly_any_order\<close>), within the memory caps
      (\<open>reassembly_caps\<close>); compressed payloads come back (\<open>compression_roundtrip\<close>); a flush sends every
      queued packet, in order, in datagrams that fit (\<open>flush_batch_complete\<close>).
    \<^item> Encryption: the window implements the set of nonces seen (\<open>replay_window_exact\<close>), so nothing
      is accepted twice (\<open>no_packet_accepted_twice\<close>), and a receiver's verdict on any sequence of a
      sender's packets is known (\<open>secure_channel\<close>).
    \<^item> Channels: acknowledgements are truthful, delivery is in order, and complete as long as
      packets are displaced by at most 32; a wider gap stalls the channel for good (\<open>Delivery\<close>,
      \<open>Reliability\<close>).
    \<^item> Statistics and tables: ring buffers, sharded tables and the limiter implement plain lists,
      maps and a bound on the rate (\<open>loss_refines_history\<close>, \<open>connection_table_is_map\<close>); the limiter
      admits one burst and the rate from an address, and one more burst for every 8192 attempts
      from elsewhere, which push its bucket out (\<open>handshake_rate_enforced\<close>).
    \<^item> Connections: whatever happens to the server, a connection stays the same but for its address,
      its state only moves from connected over disconnecting to disconnected, the handler is told
      of the end, and until \<open>Stop\<close> it is in the table exactly while it is not disconnected
      (\<open>connection_lifecycle\<close>); closing ends (\<open>close_completes\<close>).
    \<^item> Handshake: both sides derive the same keys and options (\<open>handshake_agrees\<close>), and a RESPONSE is
      accepted only if it proves knowledge of the challenge (\<open>response_proves_challenge\<close>).
    \<^item> Server: its tables stay consistent (\<open>server_tables_consistent\<close>), it does not panic as long as
      send batching is off (\<open>server_never_panics\<close>), a connection moves to a new address only on
      a packet that decrypts (\<open>migration_authenticated\<close>), and then follows the client with its
      ciphers, sequence numbers and counters, at any point of a session at which what the client
      sent before has arrived (\<open>migration_follows_client\<close>).
    \<^item> Sessions: after the handshake through the entry points of both processes, what is sent is
      what the other handler gets, in order (\<open>session_delivers\<close>, and \<open>coalesced_messages_reach_client\<close>
      through the write loop).
    \<^item> Goroutines: every interleaving of the read loops with the tick is a sequence of atomic ticks
      that loses and duplicates no queued packet (\<open>loops_refine_ticks\<close>), a tick ends when no more
      packets come (\<open>tick_terminates\<close>), and only then (\<open>flood_starves_tick\<close>). \<open>Stop\<close> and \<open>Close\<close> return,
      whatever the loops are blocked on, unless a handler called them or the \<open>select\<close> of the tick
      loop prefers the ticker to the closed channel for ever (\<open>stop_returns\<close>).
    \<^item> Buffers: a server over the shared pool behaves like one whose packets are values, for any
      buffers the pool hands out (\<open>pooled_buffers_invisible\<close>); no buffer is in two hands, and what
      waits keeps its bytes (\<open>coalesced_buffers_exclusive\<close>); the pool only has buffers of one size,
      also when the application takes buffers and puts these back (\<open>send_buffers_typed\<close>). An
      application that puts other slices breaks it (\<open>short_buffer_poisons_pool\<close>).
    \<^item> Chat: every user gets exactly the lines of the others (\<open>chat_relays\<close>), and the client ends
      (\<open>chat_client_ends\<close>).
    \<^item> Defects, as theorems about the code as it is: \<open>forged_challenge_panics\<close>,
      \<open>batch_after_disconnect_panics\<close>, \<open>reordered_fragments_extra_message\<close>, \<open>late_fragment_loses_message\<close>,
      \<open>failed_write_blocks_channel\<close>, \<open>ordered_channel_stalls\<close>, \<open>limit_checked_only_at_connect\<close>,
      \<open>limiter_bounded_cleanup_inert\<close>, \<open>oversize_payload_undeliverable\<close>, \<open>close_races_retransmit\<close>,
      \<open>stop_in_handler_deadlocks\<close>, \<open>short_buffer_poisons_pool\<close>.

  \<^bold>\<open>Interfaces.\<close> \<open>buffer_codec\<close> (extending \<open>prefix_codec\<close>) is provided by VarInt, VarLong, strings,
  UUIDs, the packet header and the fragment header, and its extension \<open>control_codec\<close> by the control
  messages; \<open>keyed_table\<close> by the connection table and the token table; \<open>invariant_machine\<close> by the
  pending table, the reassembly store, the loss tracker, the limiter and the round-trip estimator;
  \<open>controller\<close> by both congestion controllers and their sum. A connection reaches the network
  through \<open>sendFunc\<close>: \<open>counting\<close> says that it only counts bytes on the connection, whatever the
  network does, and carries the invariants of \<open>Lifecycle\<close>; \<open>transport\<close> adds that it appends one
  datagram to the wire, carries the lemmas of \<open>EndToEnd\<close>, and is a sublocale of \<open>counting\<close>. The
  server's, the client's and the coalescing \<open>sendFunc\<close> are the interpretations. \<open>pooled_net\<close> extends
  \<open>counting\<close> by a \<open>sendFunc\<close> on the store that agrees with the one on bytes and leaves the buffers of
  others alone; it carries the proofs of \<open>PooledSend\<close> and \<open>PooledTick\<close>. \<open>pooled_server\<close> extends it by the
  direct writes of the handshake and the step of the write loop. They are interpreted by the direct
  and the coalescing \<open>sendFunc\<close> of the server, and \<open>pooled_net\<close> also by the client's.

  \<^bold>\<open>Not modelled.\<close> Console input and output, the log and the set-up in \<open>main\<close> of the chat programs.
  The pools of the receive path (\<open>decryptPool\<close>, \<open>readPool\<close>): a buffer of theirs is used for one packet
  on one goroutine, and the handler is told not to keep it. Timers: a tick may happen at any time, and
  how long a reader backs off is only computed. Races inside a method: a method is one step, except
  that \<open>close_races_retransmit\<close> splits \<open>tickConnection\<close> at the point where it loses its buffers. A
  coalesced write finds its channel open; \<open>Shutdown\<close>, which has the closing of the channel, counts
  datagrams and does not carry them. Accessors that return a field. A handler that calls back
  into the library, other than by \<open>Stop\<close> and, in \<open>Chat\<close>, by \<open>Send\<close>. The effect of several \<open>time.Now()\<close> calls
  differing within one step. The order in which a tick and \<open>Stop\<close> visit the connections is that of the table, where
  Go's maps have a random one. A grown slice has the capacity needed, where Go may round up. A nil slice is
  told from an empty one where the source makes it (the reorder buffer, LZ4 of size 0); an empty result
  of the Zstandard package is taken as not nil.
\<close>

end
